(* ===== verification/FC_Prelude.thy ===== *)
theory FC_Prelude
  imports Main "HOL-Library.Word"
begin

text \<open>
  Shared vocabulary of the development: the C integer types, their wrap-around
  arithmetic, the result type of fallible code, and the generic facts about
  lists, sums and intervals that the component theories use.

  A \<open>size_t\<close> (64 bits), a \<open>uint32_t\<close> and a \<open>uint64_t\<close> are natural
  numbers; wherever an operation of the source can wrap around it is written with
  \<open>size_add\<close>, \<open>size_sub\<close> or \<open>u32_add\<close>, so the proofs have to show that
  it does not.  Plain subtraction is used only between prefix sums and between a
  number and its own rounding, whose order is fixed by construction.
\<close>

type_synonym size_t = nat
type_synonym uint32_t = nat
type_synonym uint64_t = nat
type_synonym addr = nat
type_synonym byte = "8 word"

abbreviation SIZE_MAX :: size_t where
  "SIZE_MAX \<equiv> 18446744073709551615"

abbreviation SIZE_RANGE :: nat where
  "SIZE_RANGE \<equiv> 18446744073709551616"

abbreviation UINT32_RANGE :: nat where
  "UINT32_RANGE \<equiv> 4294967296"

definition size_add :: "size_t \<Rightarrow> size_t \<Rightarrow> size_t" where
  "size_add a b = (a + b) mod SIZE_RANGE"

definition size_sub :: "size_t \<Rightarrow> size_t \<Rightarrow> size_t" where
  "size_sub a b = (a + (SIZE_RANGE - b mod SIZE_RANGE)) mod SIZE_RANGE"

definition u32_add :: "uint32_t \<Rightarrow> uint32_t \<Rightarrow> uint32_t" where
  "u32_add a b = (a + b) mod UINT32_RANGE"

definition u32_sub :: "uint32_t \<Rightarrow> uint32_t \<Rightarrow> uint32_t" where
  "u32_sub a b = (a + (UINT32_RANGE - b mod UINT32_RANGE)) mod UINT32_RANGE"

section \<open>Results of fallible code\<close>

text \<open>
  The library never returns from a failed internal assertion or from a reported
  misuse: both abort the process.  \<open>Assert_failed\<close> is an \<open>FC_ASSERT\<close> of
  \<open>internal.h\<close>, \<open>Map_failed\<close> the same assertion on an \<open>mmap\<close> for which the
  kernel found no room, \<open>Misuse\<close> a call of \<open>fc_misuse\<close>, \<open>Segv\<close> the default
  action of an unresolved fault, \<open>Out_of_bounds\<close> a write outside an allocation
  and \<open>Diverged\<close> a loop that ran out of fuel.
\<close>

datatype abort =
    Assert_failed string
  | Map_failed string
  | Misuse string
  | Segv addr
  | Out_of_bounds string
  | Diverged string

type_synonym 'a res = "abort + 'a"

definition res_bind :: "'a res \<Rightarrow> ('a \<Rightarrow> 'b res) \<Rightarrow> 'b res" where
  "res_bind m f = (case m of Inl e \<Rightarrow> Inl e | Inr x \<Rightarrow> f x)"

definition fc_assert :: "string \<Rightarrow> bool \<Rightarrow> 'a res \<Rightarrow> 'a res" where
  "fc_assert what cond k = (if cond then k else Inl (Assert_failed what))"

text \<open>A call repeated, stopping at the first abort.\<close>

fun iterate_res :: "('s \<Rightarrow> 's res) \<Rightarrow> nat \<Rightarrow> 's \<Rightarrow> 's res" where
  "iterate_res f 0 s = Inr s"
| "iterate_res f (Suc n) s = res_bind (f s) (iterate_res f n)"

named_theorems fc_defs \<open>definitions unfolded when an operation is evaluated\<close>
named_theorems fc_arith \<open>rounding and wrap-around facts\<close>

section \<open>Wrap-around arithmetic\<close>

lemma size_add_exact [simp]: "a + b < SIZE_RANGE \<Longrightarrow> size_add a b = a + b"
  by (simp add: size_add_def)

lemma size_sub_exact [simp]: "b \<le> a \<Longrightarrow> a < SIZE_RANGE \<Longrightarrow> size_sub a b = a - b"
proof -
  assume "b \<le> a" "a < SIZE_RANGE"
  then have "a + (SIZE_RANGE - b mod SIZE_RANGE) = (a - b) + SIZE_RANGE" by simp
  then have "size_sub a b = (a - b) mod SIZE_RANGE"
    by (simp only: size_sub_def mod_add_self2)
  with \<open>a < SIZE_RANGE\<close> show ?thesis by simp
qed

lemma u32_add_exact [simp]: "a + b < UINT32_RANGE \<Longrightarrow> u32_add a b = a + b"
  by (simp add: u32_add_def)

lemma u32_sub_exact [simp]: "b \<le> a \<Longrightarrow> a < UINT32_RANGE \<Longrightarrow> u32_sub a b = a - b"
proof -
  assume "b \<le> a" "a < UINT32_RANGE"
  then have "a + (UINT32_RANGE - b mod UINT32_RANGE) = (a - b) + UINT32_RANGE" by simp
  then have "u32_sub a b = (a - b) mod UINT32_RANGE"
    by (simp only: u32_sub_def mod_add_self2)
  with \<open>a < UINT32_RANGE\<close> show ?thesis by simp
qed

lemma size_add_less [simp]: "size_add a b < SIZE_RANGE"
  by (simp add: size_add_def)

lemma size_add_wraps: "a < SIZE_RANGE \<Longrightarrow> b < SIZE_RANGE \<Longrightarrow> size_add a b < a \<longleftrightarrow> SIZE_RANGE \<le> a + b"
proof -
  assume a: "a < SIZE_RANGE" and b: "b < SIZE_RANGE"
  show ?thesis
  proof (cases "a + b < SIZE_RANGE")
    case True
    then show ?thesis by simp
  next
    case False
    with a b have "size_add a b = a + b - SIZE_RANGE"
      by (simp add: size_add_def le_mod_geq)
    with False b show ?thesis by simp
  qed
qed

section \<open>The result monad\<close>

lemma res_bind_Inl [simp]: "res_bind (Inl e) f = Inl e"
  by (simp add: res_bind_def)

lemma res_bind_Inr [simp]: "res_bind (Inr x) f = f x"
  by (simp add: res_bind_def)

lemma res_bind_eq_Inr: "res_bind m f = Inr y \<longleftrightarrow> (\<exists>x. m = Inr x \<and> f x = Inr y)"
  by (cases m) auto

lemma res_bind_eq_Inl: "res_bind m f = Inl e \<longleftrightarrow> m = Inl e \<or> (\<exists>x. m = Inr x \<and> f x = Inl e)"
  by (cases m) auto

lemma fc_assert_True [simp]: "cond \<Longrightarrow> fc_assert what cond k = k"
  by (simp add: fc_assert_def)

lemma fc_assert_eq_Inr: "fc_assert what cond k = Inr y \<longleftrightarrow> cond \<and> k = Inr y"
  by (simp add: fc_assert_def)

text \<open>
  \<open>res_ok E P m\<close>: the computation \<open>m\<close> either returns a value satisfying \<open>P\<close>
  or aborts with one of the reasons in \<open>E\<close>.  All statements that an operation
  does not abort are phrased with it, so that sequencing is one rule.
\<close>

definition res_ok :: "(abort \<Rightarrow> bool) \<Rightarrow> ('a \<Rightarrow> bool) \<Rightarrow> 'a res \<Rightarrow> bool" where
  "res_ok E P m = (case m of Inl e \<Rightarrow> E e | Inr x \<Rightarrow> P x)"

lemma res_ok_Inr [simp]: "res_ok E P (Inr x) = P x"
  by (simp add: res_ok_def)

lemma res_ok_Inl [simp]: "res_ok E P (Inl e) = E e"
  by (simp add: res_ok_def)

lemma res_ok_bind:
  "res_ok E Q m \<Longrightarrow> (\<And>x. m = Inr x \<Longrightarrow> Q x \<Longrightarrow> res_ok E P (f x)) \<Longrightarrow> res_ok E P (res_bind m f)"
  by (cases m) auto

lemma res_ok_bind2:
  "res_ok E Q m \<Longrightarrow> (\<And>x y. Q (x, y) \<Longrightarrow> res_ok E P (f x y)) \<Longrightarrow> res_ok E P (res_bind m (\<lambda>(x, y). f x y))"
  by (cases m) auto

lemma res_ok_mono2:
  "res_ok E Q m \<Longrightarrow> (\<And>x y. Q (x, y) \<Longrightarrow> P (x, y)) \<Longrightarrow> res_ok E P m"
  by (cases m) auto

lemma res_ok_mono:
  "res_ok E Q m \<Longrightarrow> (\<And>x. Q x \<Longrightarrow> P x) \<Longrightarrow> res_ok E P m"
  by (cases m) auto

lemma res_ok_weaken:
  "res_ok E P m \<Longrightarrow> (\<And>e. E e \<Longrightarrow> F e) \<Longrightarrow> res_ok F P m"
  by (cases m) auto

lemma res_okD: "res_ok E P m \<Longrightarrow> m = Inr x \<Longrightarrow> P x"
  by simp

lemma res_ok_assert: "cond \<Longrightarrow> res_ok E P k \<Longrightarrow> res_ok E P (fc_assert what cond k)"
  by simp

section \<open>Lists\<close>

lemma nth_mono_strict:
  fixes xs :: "nat list"
  assumes "\<And>i. Suc i < length xs \<Longrightarrow> xs ! i < xs ! Suc i"
    and "i < j" "j < length xs"
  shows "xs ! i < xs ! j"
  using assms(2,3)
proof (induction j)
  case 0
  then show ?case by simp
next
  case (Suc j)
  then have "xs ! j < xs ! Suc j" using assms(1) by simp
  with Suc show ?case by (cases "i = j") auto
qed

lemma sum_list_remove1:
  fixes f :: "'a \<Rightarrow> nat"
  shows "x \<in> set xs \<Longrightarrow> sum_list (map f (remove1 x xs)) = sum_list (map f xs) - f x"
  by (induction xs) (auto simp: member_le_sum_list)

lemma member_le_sum_list_map:
  fixes f :: "'a \<Rightarrow> nat"
  shows "x \<in> set xs \<Longrightarrow> f x \<le> sum_list (map f xs)"
  by (simp add: member_le_sum_list)

lemma distinct_singleton_set: "distinct xs \<Longrightarrow> set xs = {x} \<Longrightarrow> xs = [x]"
  by (cases xs) (auto simp: subset_singleton_iff)

end
