(* ===== verification/Chunk_Layout.thy ===== *)
theory Chunk_Layout
  imports FC_Prelude
begin

text \<open>
  The chunk layout shared by the in-process backend, the server and the client:
  page rounding, the validation of chunk sizes, the prefix-sum table
  \<open>chunk_start\<close> and the binary search over it.  The three C files hold textual
  copies of these helpers (\<open>inproc.c\<close>, \<open>server.c\<close>, \<open>client.c\<close>); the
  interface \<open>chunk_index\<close> states what a copy of \<open>find_chunk\<close> promises and
  is interpreted on each struct that has one.
\<close>

section \<open>Definitions\<close>

definition page_floor :: "size_t \<Rightarrow> size_t \<Rightarrow> size_t" where
  "page_floor x page_size = x - x mod page_size"

definition page_ceil :: "size_t \<Rightarrow> size_t \<Rightarrow> size_t" where
  "page_ceil x page_size = page_floor (size_sub (size_add x page_size) 1) page_size"

text \<open>The validation loop: a zero size or a running total that wraps is \<open>None\<close>.\<close>

fun sum_chunk_sizes :: "size_t \<Rightarrow> size_t list \<Rightarrow> size_t option" where
  "sum_chunk_sizes total_size [] = Some total_size"
| "sum_chunk_sizes total_size (sz # sizes) =
     (if sz = 0 \<or> size_add total_size sz < total_size then None
      else sum_chunk_sizes (size_add total_size sz) sizes)"

text \<open>The prefix-sum loop that fills \<open>chunk_start\<close>, with its last entry.\<close>

fun chunk_starts :: "size_t \<Rightarrow> size_t list \<Rightarrow> size_t list" where
  "chunk_starts acc [] = [acc]"
| "chunk_starts acc (sz # sizes) = acc # chunk_starts (size_add acc sz) sizes"

text \<open>
  The table is allocated with room for \<open>nchunks + 1\<close> entries, a sum computed in
  32 bits; filling a smaller allocation writes past its end.
\<close>

definition fill_chunk_start :: "size_t list \<Rightarrow> size_t list res" where
  "fill_chunk_start sizes =
     (if u32_add (length sizes) 1 < length sizes + 1 then Inl (Out_of_bounds ''chunk_start'')
      else Inr (chunk_starts 0 sizes))"

text \<open>
  The loop of \<open>find_chunk\<close>.  Its indices stay below \<open>nchunks < 2 ^ 32\<close>, so the
  32-bit arithmetic of the source is exact here.
\<close>

function find_chunk_loop :: "size_t list \<Rightarrow> size_t \<Rightarrow> uint32_t \<Rightarrow> uint32_t \<Rightarrow> uint32_t" where
  "find_chunk_loop chunk_start off lo hi =
     (if lo < hi then
        let mid = lo + (hi - lo + 1) div 2 in
        if chunk_start ! mid \<le> off then find_chunk_loop chunk_start off mid hi
        else find_chunk_loop chunk_start off lo (mid - 1)
      else lo)"
  by pat_completeness auto
termination
  by (relation "measure (\<lambda>(chunk_start, off, lo, hi). hi - lo)") auto

declare find_chunk_loop.simps [simp del]

text \<open>A table of chunk starts that the validation and prefix-sum loops can produce.\<close>

definition layout :: "nat \<Rightarrow> size_t list \<Rightarrow> size_t \<Rightarrow> bool" where
  "layout n st ps \<longleftrightarrow> 0 < n \<and> length st = Suc n \<and> st ! 0 = 0 \<and>
     (\<forall>i<n. st ! i < st ! Suc i) \<and> 0 < ps \<and> st ! n + ps \<le> SIZE_RANGE"

section \<open>Rounding\<close>

lemma page_floor_le [simp]: "page_floor x ps \<le> x"
  by (simp add: page_floor_def)

lemma page_floor_gt: "0 < ps \<Longrightarrow> x < page_floor x ps + ps"
  using mod_less_divisor [of ps x] mod_less_eq_dividend [of x ps]
  unfolding page_floor_def by linarith

lemma page_floor_dvd [simp]: "ps dvd page_floor x ps"
  by (simp add: page_floor_def minus_mod_eq_mult_div)

lemma page_floor_aligned: "page_floor x ps = x \<longleftrightarrow> ps dvd x"
proof
  assume "page_floor x ps = x"
  then show "ps dvd x" using page_floor_dvd [of ps x] by simp
qed (simp add: page_floor_def)

lemma page_floor_id [simp]: "ps dvd x \<Longrightarrow> page_floor x ps = x"
  by (simp add: page_floor_aligned)

lemma page_floor_idem: "page_floor (page_floor x ps) ps = page_floor x ps"
  by simp

lemma aligned_gap: "0 < ps \<Longrightarrow> ps dvd p \<Longrightarrow> ps dvd q \<Longrightarrow> p < q + ps \<Longrightarrow> p \<le> (q :: nat)"
proof -
  assume "0 < ps" "ps dvd p" "ps dvd q" "p < q + ps"
  then obtain a b where p: "p = ps * a" and q: "q = ps * b" by (auto elim!: dvdE)
  from \<open>p < q + ps\<close> p q have "ps * a < ps * Suc b" by simp
  then have "a < Suc b" using mult_less_cancel1 by blast
  then show ?thesis using p q by simp
qed

lemma page_floor_greatest: "0 < ps \<Longrightarrow> ps dvd p \<Longrightarrow> p \<le> x \<Longrightarrow> p \<le> page_floor x ps"
  using aligned_gap [of ps p "page_floor x ps"] page_floor_gt [of ps x] by simp

lemma page_floor_unique: "0 < ps \<Longrightarrow> ps dvd p \<Longrightarrow> p \<le> x \<Longrightarrow> x < p + ps \<Longrightarrow> page_floor x ps = p"
proof (rule antisym)
  assume a: "0 < ps" "ps dvd p" "p \<le> x" "x < p + ps"
  then show "p \<le> page_floor x ps" by (simp add: page_floor_greatest)
  have "page_floor x ps < p + ps" using a page_floor_le [of x ps] by linarith
  then show "page_floor x ps \<le> p" using a aligned_gap [of ps "page_floor x ps" p] by simp
qed

lemma page_floor_mono: "0 < ps \<Longrightarrow> x \<le> y \<Longrightarrow> page_floor x ps \<le> page_floor y ps"
  using page_floor_greatest [of ps "page_floor x ps" y] page_floor_le [of x ps] by simp

lemma page_ceil_exact:
  assumes "0 < ps" "x + ps \<le> SIZE_RANGE"
  shows "page_ceil x ps = page_floor (x + ps - 1) ps"
proof (cases "x + ps < SIZE_RANGE")
  case True
  with assms show ?thesis by (simp add: page_ceil_def)
next
  case False
  with assms have "size_add x ps = 0" by (simp add: size_add_def)
  moreover have "size_sub 0 1 = SIZE_MAX" by (simp add: size_sub_def)
  moreover have "x + ps - 1 = SIZE_MAX" using False assms by simp
  ultimately show ?thesis by (simp add: page_ceil_def)
qed

lemma page_ceil_ge: "0 < ps \<Longrightarrow> x + ps \<le> SIZE_RANGE \<Longrightarrow> x \<le> page_ceil x ps"
  using page_floor_gt [of ps "x + ps - 1"] by (simp add: page_ceil_exact)

lemma page_ceil_lt: "0 < ps \<Longrightarrow> x + ps \<le> SIZE_RANGE \<Longrightarrow> page_ceil x ps < x + ps"
  using page_floor_le [of "x + ps - 1" ps] by (simp add: page_ceil_exact del: page_floor_le)

lemma page_ceil_dvd [simp]: "ps dvd page_ceil x ps"
  by (simp add: page_ceil_def)

lemma page_ceil_least:
  "0 < ps \<Longrightarrow> x + ps \<le> SIZE_RANGE \<Longrightarrow> ps dvd p \<Longrightarrow> x \<le> p \<Longrightarrow> page_ceil x ps \<le> p"
  using page_ceil_lt [of ps x] aligned_gap [of ps "page_ceil x ps" p] by simp

lemma page_ceil_id: "0 < ps \<Longrightarrow> x + ps \<le> SIZE_RANGE \<Longrightarrow> ps dvd x \<Longrightarrow> page_ceil x ps = x"
  using page_ceil_least [of ps x x] page_ceil_ge [of ps x] by simp

lemma page_ceil_unaligned:
  assumes "0 < ps" "x + ps \<le> SIZE_RANGE" "\<not> ps dvd x"
  shows "page_ceil x ps = page_floor x ps + ps"
proof (rule antisym)
  have "page_floor x ps < x"
    using assms page_floor_le [of x ps] page_floor_aligned [of x ps] by linarith
  moreover have "x \<le> page_ceil x ps" by (rule page_ceil_ge [OF assms(1,2)])
  ultimately have "page_floor x ps < page_ceil x ps" by simp
  then show "page_floor x ps + ps \<le> page_ceil x ps"
    using aligned_gap [OF assms(1), of "page_ceil x ps" "page_floor x ps"] by fastforce
  show "page_ceil x ps \<le> page_floor x ps + ps"
    using page_ceil_least [OF assms(1,2), of "page_floor x ps + ps"] page_floor_gt [OF assms(1), of x]
    by simp
qed

text \<open>Past the last page of the address range the sum wraps and the result is zero.\<close>

lemma page_ceil_wraps:
  assumes "0 < ps" "x < SIZE_RANGE" "SIZE_RANGE < x + ps" "ps \<le> SIZE_RANGE"
  shows "page_ceil x ps = 0"
proof -
  have "size_add x ps = x + ps - SIZE_RANGE"
    using assms by (simp add: size_add_def le_mod_geq)
  then have "size_sub (size_add x ps) 1 = x + ps - SIZE_RANGE - 1"
    using assms by simp
  moreover have "x + ps - SIZE_RANGE - 1 < ps" using assms by simp
  ultimately show ?thesis by (simp add: page_ceil_def page_floor_def)
qed

lemmas page_rounding [fc_arith] =
  page_floor_le page_floor_gt page_floor_dvd page_ceil_ge page_ceil_lt page_ceil_dvd

section \<open>Validation and prefix sums\<close>

lemma sum_chunk_sizes_acc:
  assumes "\<forall>s\<in>set sizes. s < SIZE_RANGE" "acc < SIZE_RANGE"
  shows "sum_chunk_sizes acc sizes = Some t \<longleftrightarrow>
    (\<forall>s\<in>set sizes. 0 < s) \<and> acc + sum_list sizes < SIZE_RANGE \<and> t = acc + sum_list sizes"
  using assms
proof (induction sizes arbitrary: acc)
  case Nil
  then show ?case by auto
next
  case (Cons s sizes)
  then have s: "s < SIZE_RANGE" by simp
  show ?case
  proof (cases "s = 0 \<or> size_add acc s < acc")
    case True
    then have "s = 0 \<or> SIZE_RANGE \<le> acc + s"
      using size_add_wraps [OF Cons.prems(2) s] by blast
    with True show ?thesis by auto
  next
    case False
    then have "acc + s < SIZE_RANGE" using size_add_wraps [OF Cons.prems(2) s] by simp
    with False Cons show ?thesis by (auto simp: add.assoc)
  qed
qed

lemma sum_chunk_sizes_iff:
  assumes "\<forall>s\<in>set sizes. s < SIZE_RANGE"
  shows "sum_chunk_sizes 0 sizes = Some t \<longleftrightarrow>
    (\<forall>s\<in>set sizes. 0 < s) \<and> sum_list sizes < SIZE_RANGE \<and> t = sum_list sizes"
  using sum_chunk_sizes_acc [OF assms, of 0] by simp

lemma length_chunk_starts [simp]: "length (chunk_starts acc sizes) = Suc (length sizes)"
  by (induction sizes arbitrary: acc) auto

lemma chunk_starts_nth:
  "acc + sum_list sizes < SIZE_RANGE \<Longrightarrow> i \<le> length sizes \<Longrightarrow>
   chunk_starts acc sizes ! i = acc + sum_list (take i sizes)"
proof (induction sizes arbitrary: acc i)
  case Nil
  then show ?case by simp
next
  case (Cons s sizes)
  then show ?case by (cases i) (auto simp: add.assoc)
qed

lemma layout_chunk_starts:
  assumes "sizes \<noteq> []" "\<forall>s\<in>set sizes. 0 < s" "0 < ps" "sum_list sizes + ps \<le> SIZE_RANGE"
  shows "layout (length sizes) (chunk_starts 0 sizes) ps"
proof -
  have less: "sum_list sizes < SIZE_RANGE" using assms(3,4) by linarith
  have nth: "chunk_starts 0 sizes ! i = sum_list (take i sizes)" if "i \<le> length sizes" for i
    using chunk_starts_nth [of 0 sizes i] less that by simp
  have "chunk_starts 0 sizes ! i < chunk_starts 0 sizes ! Suc i" if "i < length sizes" for i
    using that assms(2) by (simp add: nth take_Suc_conv_app_nth)
  then show ?thesis using assms by (simp add: layout_def nth)
qed

section \<open>Well-formed tables\<close>

lemma layout_mono:
  assumes "layout n st ps" "i < j" "j \<le> n"
  shows "st ! i < st ! j"
  by (rule nth_mono_strict) (use assms in \<open>auto simp: layout_def\<close>)

lemma layout_mono_le:
  assumes "layout n st ps" "i \<le> j" "j \<le> n"
  shows "st ! i \<le> st ! j"
  using layout_mono [OF assms(1), of i j] assms by (cases "i = j") auto

lemma layout_bound:
  assumes "layout n st ps" "i \<le> n"
  shows "st ! i + ps \<le> SIZE_RANGE"
  using layout_mono_le [OF assms(1,2)] assms by (auto simp: layout_def)

lemma layout_size_pos: "layout n st ps \<Longrightarrow> c < n \<Longrightarrow> 0 < st ! Suc c - st ! c"
  by (simp add: layout_def)

lemma find_chunk_loop_done: "hi \<le> lo \<Longrightarrow> find_chunk_loop st off lo hi = lo"
  by (subst find_chunk_loop.simps) simp

lemma find_chunk_loop_step:
  assumes "lo < hi"
  obtains mid where "lo < mid" "mid \<le> hi"
    "find_chunk_loop st off lo hi =
      (if st ! mid \<le> off then find_chunk_loop st off mid hi else find_chunk_loop st off lo (mid - 1))"
proof
  let ?mid = "lo + (hi - lo + 1) div 2"
  show "lo < ?mid" "?mid \<le> hi" using assms by auto
  show "find_chunk_loop st off lo hi =
      (if st ! ?mid \<le> off then find_chunk_loop st off ?mid hi else find_chunk_loop st off lo (?mid - 1))"
    using assms by (subst find_chunk_loop.simps) (simp only: Let_def if_True)
qed

lemma find_chunk_loop_bounds:
  "lo \<le> hi \<Longrightarrow> lo \<le> find_chunk_loop st off lo hi \<and> find_chunk_loop st off lo hi \<le> hi"
proof (induction "hi - lo" arbitrary: lo hi rule: less_induct)
  case less
  show ?case
  proof (cases "lo < hi")
    case True
    then obtain mid where mid: "lo < mid" "mid \<le> hi"
      and eq: "find_chunk_loop st off lo hi =
        (if st ! mid \<le> off then find_chunk_loop st off mid hi else find_chunk_loop st off lo (mid - 1))"
      by (rule find_chunk_loop_step)
    have "mid \<le> find_chunk_loop st off mid hi \<and> find_chunk_loop st off mid hi \<le> hi"
      using less.hyps [of hi mid] mid by simp
    moreover have "lo \<le> find_chunk_loop st off lo (mid - 1) \<and> find_chunk_loop st off lo (mid - 1) \<le> mid - 1"
      using less.hyps [of "mid - 1" lo] mid True by simp
    ultimately show ?thesis unfolding eq using mid by auto
  next
    case False
    with less.prems show ?thesis by (simp add: find_chunk_loop_done)
  qed
qed

definition holds_off :: "nat \<Rightarrow> size_t list \<Rightarrow> size_t \<Rightarrow> nat \<Rightarrow> bool" where
  "holds_off n st off c \<longleftrightarrow> st ! c \<le> off \<and> (Suc c < n \<longrightarrow> off < st ! Suc c)"

lemma find_chunk_loop_correct:
  "hi < n \<Longrightarrow> lo \<le> hi \<Longrightarrow> st ! lo \<le> off \<Longrightarrow> (Suc hi < n \<Longrightarrow> off < st ! Suc hi) \<Longrightarrow>
   holds_off n st off (find_chunk_loop st off lo hi)"
proof (induction "hi - lo" arbitrary: lo hi rule: less_induct)
  case less
  show ?case
  proof (cases "lo < hi")
    case True
    then obtain mid where mid: "lo < mid" "mid \<le> hi"
      and eq: "find_chunk_loop st off lo hi =
        (if st ! mid \<le> off then find_chunk_loop st off mid hi else find_chunk_loop st off lo (mid - 1))"
      by (rule find_chunk_loop_step)
    have "holds_off n st off (find_chunk_loop st off mid hi)" if "st ! mid \<le> off"
      using less.hyps [of hi mid] less.prems mid that by simp
    moreover have "holds_off n st off (find_chunk_loop st off lo (mid - 1))" if "\<not> st ! mid \<le> off"
      using less.hyps [of "mid - 1" lo] less.prems mid that True by simp
    ultimately show ?thesis unfolding eq by simp
  next
    case False
    with less.prems have "lo = hi" by simp
    with less.prems show ?thesis by (simp add: find_chunk_loop_done holds_off_def)
  qed
qed

lemma find_chunk_loop_layout:
  assumes "layout n st ps"
  shows "find_chunk_loop st off 0 (n - 1) < n"
    and "holds_off n st off (find_chunk_loop st off 0 (n - 1))"
  using find_chunk_loop_bounds [of 0 "n - 1" st off] find_chunk_loop_correct [of "n - 1" n 0 st off] assms
  by (auto simp: layout_def)

section \<open>The interface of \<open>find_chunk\<close>\<close>

text \<open>
  What callers rely on: for a well-formed struct the search returns a chunk whose
  range holds the offset, the last chunk for anything past the end.
\<close>

locale chunk_index =
  fixes nch :: "'r \<Rightarrow> nat"
    and starts :: "'r \<Rightarrow> size_t list"
    and psz :: "'r \<Rightarrow> size_t"
    and wf :: "'r \<Rightarrow> bool"
    and find :: "'r \<Rightarrow> size_t \<Rightarrow> uint32_t"
  assumes wf_layout: "wf r \<Longrightarrow> layout (nch r) (starts r) (psz r)"
    and find_less: "wf r \<Longrightarrow> find r off < nch r"
    and find_start: "wf r \<Longrightarrow> starts r ! find r off \<le> off"
    and find_end: "wf r \<Longrightarrow> Suc (find r off) < nch r \<Longrightarrow> off < starts r ! Suc (find r off)"
begin

lemma find_eq:
  assumes "wf r" "c < nch r" "starts r ! c \<le> off" "Suc c < nch r \<Longrightarrow> off < starts r ! Suc c"
  shows "find r off = c"
proof (rule ccontr)
  note lay = wf_layout [OF assms(1)]
  assume "find r off \<noteq> c"
  then consider "find r off < c" | "c < find r off" by linarith
  then show False
  proof cases
    case 1
    then have "off < starts r ! Suc (find r off)"
      using find_end [OF assms(1)] assms(2) by simp
    also have "\<dots> \<le> starts r ! c" using layout_mono_le [OF lay] 1 assms(2) by simp
    finally show False using assms(3) by simp
  next
    case 2
    then have "Suc c < nch r" using find_less [OF assms(1), of off] by simp
    then have "off < starts r ! Suc c" by (rule assms(4))
    also have "\<dots> \<le> starts r ! find r off"
      using layout_mono_le [OF lay] 2 find_less [OF assms(1), of off] by simp
    finally show False using find_start [OF assms(1), of off] by simp
  qed
qed

lemma find_in_range:
  assumes "wf r" "off < starts r ! nch r"
  shows "starts r ! find r off \<le> off \<and> off < starts r ! Suc (find r off)"
proof (cases "Suc (find r off) < nch r")
  case True
  then show ?thesis using assms find_start find_end by simp
next
  case False
  then have "Suc (find r off) = nch r" using find_less [OF assms(1), of off] by simp
  then show ?thesis using assms find_start by simp
qed

lemma find_mono:
  assumes "wf r" "x \<le> y"
  shows "find r x \<le> find r y"
proof (rule ccontr)
  assume "\<not> ?thesis"
  then have lt: "find r y < find r x" by simp
  then have "y < starts r ! Suc (find r y)"
    using find_end [OF assms(1)] find_less [OF assms(1), of x] by simp
  also have "\<dots> \<le> starts r ! find r x"
    using layout_mono_le [OF wf_layout [OF assms(1)]] lt find_less [OF assms(1), of x] by simp
  also have "\<dots> \<le> x" by (rule find_start [OF assms(1)])
  finally show False using assms(2) by simp
qed

lemma find_at_start: "wf r \<Longrightarrow> c < nch r \<Longrightarrow> find r (starts r ! c) = c"
  using find_eq [of r c "starts r ! c"] wf_layout [of r] by (simp add: layout_def)

end

end
