(* ===== verification/Vm_Posix.thy ===== *)
theory Vm_Posix
  imports Chunk_Layout
begin

text \<open>
  The virtual-memory seam \<open>vm.h\<close> and its POSIX implementation \<open>vm-posix.c\<close>.
  The process's page tables are a map from addresses to a protection and a byte;
  the system calls the file uses (\<open>mmap\<close>, \<open>munmap\<close>, \<open>mprotect\<close>,
  \<open>mremap\<close>) act on whole pages of it as their manual pages say, and fail on
  misaligned or unmapped ranges.  Which address \<open>mmap\<close> picks, and whether it
  finds room at all, is a parameter of the model: an \<open>os\<close> with any choice
  function, where a choice that is not a free aligned range counts as failure.
  No mapping reaches the
  last byte of the address space, which is the kernel's on every supported platform.  Limits on the number
  of mappings are not modelled.

  The interface \<open>vm_seam\<close> is the contract of \<open>vm.h\<close>; its client lemmas
  describe the life of a scratch buffer (create, fill, seal, publish, discard).
\<close>

section \<open>Page tables and system calls\<close>

datatype prot = PROT_NONE | PROT_READ | PROT_RW

type_synonym mem = "addr \<Rightarrow> (prot \<times> byte) option"

record os =
  os_page_size :: size_t
  os_pick :: "mem \<Rightarrow> size_t \<Rightarrow> addr option"

definition mem_set :: "mem \<Rightarrow> addr \<Rightarrow> size_t \<Rightarrow> (prot \<times> byte) option \<Rightarrow> mem" where
  "mem_set m a n v = (\<lambda>x. if a \<le> x \<and> x < a + n then v else m x)"

definition mem_protect :: "mem \<Rightarrow> addr \<Rightarrow> size_t \<Rightarrow> prot \<Rightarrow> mem" where
  "mem_protect m a n p = (\<lambda>x. if a \<le> x \<and> x < a + n then map_option (\<lambda>(_, b). (p, b)) (m x) else m x)"

definition mem_move :: "mem \<Rightarrow> addr \<Rightarrow> addr \<Rightarrow> size_t \<Rightarrow> mem" where
  "mem_move m old new n =
     (\<lambda>x. if new \<le> x \<and> x < new + n then m (old + (x - new))
          else if old \<le> x \<and> x < old + n then None else m x)"

definition mem_free :: "mem \<Rightarrow> addr \<Rightarrow> size_t \<Rightarrow> bool" where
  "mem_free m a n \<longleftrightarrow> (\<forall>x\<in>{a..<a + n}. m x = None)"

definition mem_mapped :: "mem \<Rightarrow> addr \<Rightarrow> size_t \<Rightarrow> bool" where
  "mem_mapped m a n \<longleftrightarrow> (\<forall>x\<in>{a..<a + n}. m x \<noteq> None)"

text \<open>System calls round lengths up to whole pages.\<close>

definition round_len :: "os \<Rightarrow> size_t \<Rightarrow> size_t" where
  "round_len os n = (n + os_page_size os - 1) div os_page_size os * os_page_size os"

definition os_mmap :: "os \<Rightarrow> mem \<Rightarrow> size_t \<Rightarrow> prot \<Rightarrow> (addr \<times> mem) option" where
  "os_mmap os m len p =
     (case os_pick os m len of
        None \<Rightarrow> None
      | Some a \<Rightarrow>
          if len = 0 \<or> a = 0 \<or> \<not> os_page_size os dvd a \<or> SIZE_RANGE \<le> a + round_len os len
             \<or> \<not> mem_free m a (round_len os len)
          then None else Some (a, mem_set m a (round_len os len) (Some (p, 0))))"

definition os_mmap_fixed :: "os \<Rightarrow> mem \<Rightarrow> addr \<Rightarrow> size_t \<Rightarrow> prot \<Rightarrow> mem option" where
  "os_mmap_fixed os m a len p =
     (if len = 0 \<or> \<not> os_page_size os dvd a then None
      else Some (mem_set m a (round_len os len) (Some (p, 0))))"

definition os_munmap :: "os \<Rightarrow> mem \<Rightarrow> addr \<Rightarrow> size_t \<Rightarrow> mem option" where
  "os_munmap os m a len =
     (if len = 0 \<or> \<not> os_page_size os dvd a then None
      else Some (mem_set m a (round_len os len) None))"

definition os_mprotect :: "os \<Rightarrow> mem \<Rightarrow> addr \<Rightarrow> size_t \<Rightarrow> prot \<Rightarrow> mem option" where
  "os_mprotect os m a len p =
     (if \<not> os_page_size os dvd a \<or> \<not> mem_mapped m a (round_len os len) then None
      else Some (mem_protect m a (round_len os len) p))"

definition os_mremap :: "os \<Rightarrow> mem \<Rightarrow> addr \<Rightarrow> size_t \<Rightarrow> addr \<Rightarrow> mem option" where
  "os_mremap os m old len new =
     (let n = round_len os len in
      if len = 0 \<or> \<not> os_page_size os dvd old \<or> \<not> os_page_size os dvd new
         \<or> (old < new + n \<and> new < old + n) \<or> \<not> mem_mapped m old n
      then None else Some (mem_move m old new n))"

section \<open>Loads and stores\<close>

definition mem_load :: "mem \<Rightarrow> addr \<Rightarrow> byte option" where
  "mem_load m a = (case m a of None \<Rightarrow> None | Some (p, b) \<Rightarrow> if p = PROT_NONE then None else Some b)"

definition mem_writable :: "mem \<Rightarrow> addr \<Rightarrow> bool" where
  "mem_writable m a = (case m a of None \<Rightarrow> False | Some (p, b) \<Rightarrow> p = PROT_RW)"

definition mem_put :: "mem \<Rightarrow> addr \<Rightarrow> byte list \<Rightarrow> mem" where
  "mem_put m a bs = (\<lambda>x. if a \<le> x \<and> x < a + length bs then Some (PROT_RW, bs ! (x - a)) else m x)"

definition mem_store :: "mem \<Rightarrow> addr \<Rightarrow> byte list \<Rightarrow> mem option" where
  "mem_store m a bs =
     (if \<forall>x\<in>{a..<a + length bs}. mem_writable m x then Some (mem_put m a bs) else None)"

definition mem_bytes :: "mem \<Rightarrow> addr \<Rightarrow> size_t \<Rightarrow> byte list" where
  "mem_bytes m a n = map (\<lambda>x. case m x of None \<Rightarrow> 0 | Some (p, b) \<Rightarrow> b) [a..<a + n]"

text \<open>\<open>memcpy(dst, src, n)\<close>: a fault on either side is \<open>None\<close>.\<close>

definition mem_copy :: "mem \<Rightarrow> addr \<Rightarrow> addr \<Rightarrow> size_t \<Rightarrow> mem option" where
  "mem_copy m dst src n =
     (if \<forall>x\<in>{src..<src + n}. mem_load m x \<noteq> None then mem_store m dst (mem_bytes m src n) else None)"

section \<open>The functions of \<open>vm-posix.c\<close>\<close>

record vm_scratch =
  s_addr :: addr
  s_size :: size_t
  s_section :: addr
  s_consumed :: size_t

definition vm_page_size :: "os \<Rightarrow> size_t" where
  "vm_page_size os = os_page_size os"

definition vm_reserve :: "os \<Rightarrow> mem \<Rightarrow> size_t \<Rightarrow> (addr \<times> mem) res" where
  "vm_reserve os m len =
     (case os_mmap os m len PROT_NONE of None \<Rightarrow> Inl (Map_failed ''vm_reserve'') | Some r \<Rightarrow> Inr r)"

definition vm_release :: "os \<Rightarrow> mem \<Rightarrow> addr \<Rightarrow> size_t \<Rightarrow> mem res" where
  "vm_release os m base len =
     (case os_munmap os m base len of
        None \<Rightarrow> Inl (Assert_failed ''vm_release'') | Some m \<Rightarrow> Inr m)"

definition vm_set_readable :: "os \<Rightarrow> mem \<Rightarrow> addr \<Rightarrow> size_t \<Rightarrow> bool \<Rightarrow> mem res" where
  "vm_set_readable os m a len readable =
     (case os_mprotect os m a len (if readable then PROT_READ else PROT_NONE) of
        None \<Rightarrow> Inl (Assert_failed ''vm_set_readable'') | Some m \<Rightarrow> Inr m)"

definition vm_decommit :: "os \<Rightarrow> mem \<Rightarrow> addr \<Rightarrow> size_t \<Rightarrow> mem res" where
  "vm_decommit os m a len =
     (case os_mmap_fixed os m a len PROT_NONE of
        None \<Rightarrow> Inl (Assert_failed ''vm_decommit'') | Some m \<Rightarrow> Inr m)"

definition vm_scratch_create :: "os \<Rightarrow> mem \<Rightarrow> size_t \<Rightarrow> (vm_scratch \<times> mem) res" where
  "vm_scratch_create os m len =
     (case os_mmap os m len PROT_RW of
        None \<Rightarrow> Inl (Map_failed ''vm_scratch_create'')
      | Some (a, m) \<Rightarrow> Inr (\<lparr>s_addr = a, s_size = len, s_section = 0, s_consumed = 0\<rparr>, m))"

definition vm_scratch_seal :: "os \<Rightarrow> mem \<Rightarrow> vm_scratch \<Rightarrow> mem res" where
  "vm_scratch_seal os m s =
     (case os_mprotect os m (s_addr s) (s_size s) PROT_READ of
        None \<Rightarrow> Inl (Assert_failed ''vm_scratch_seal'') | Some m \<Rightarrow> Inr m)"

definition vm_scratch_publish :: "os \<Rightarrow> mem \<Rightarrow> vm_scratch \<Rightarrow> size_t \<Rightarrow> size_t \<Rightarrow> addr \<Rightarrow> mem res" where
  "vm_scratch_publish os m s off len target =
     (case os_mremap os m (s_addr s + off) len target of
        None \<Rightarrow> Inl (Assert_failed ''vm_scratch_publish'') | Some m \<Rightarrow> Inr m)"

definition vm_scratch_discard :: "os \<Rightarrow> mem \<Rightarrow> vm_scratch \<Rightarrow> size_t \<Rightarrow> size_t \<Rightarrow> mem res" where
  "vm_scratch_discard os m s off len =
     (case os_munmap os m (s_addr s + off) len of
        None \<Rightarrow> Inl (Assert_failed ''vm_scratch_discard'') | Some m \<Rightarrow> Inr m)"

section \<open>Effects on page tables\<close>

lemma round_len_id: "0 < os_page_size os \<Longrightarrow> os_page_size os dvd n \<Longrightarrow> round_len os n = n"
proof -
  assume ps: "0 < os_page_size os" and "os_page_size os dvd n"
  then obtain k where n: "n = os_page_size os * k" by (auto elim: dvdE)
  have "(os_page_size os * k + os_page_size os - 1) div os_page_size os = k"
    using ps by (intro div_nat_eqI) auto
  then show ?thesis using ps n by (simp add: round_len_def)
qed

lemma mem_set_in [simp]: "a \<le> x \<Longrightarrow> x < a + n \<Longrightarrow> mem_set m a n v x = v"
  by (simp add: mem_set_def)

lemma mem_set_out [simp]: "\<not> (a \<le> x \<and> x < a + n) \<Longrightarrow> mem_set m a n v x = m x"
  by (auto simp: mem_set_def)

lemma mem_set_empty [simp]: "mem_set m a 0 v = m"
  by (rule ext) (auto simp: mem_set_def)

lemma mem_protect_in [simp]:
  "a \<le> x \<Longrightarrow> x < a + n \<Longrightarrow> mem_protect m a n p x = map_option (\<lambda>(_, b). (p, b)) (m x)"
  by (simp add: mem_protect_def)

lemma mem_protect_out [simp]: "\<not> (a \<le> x \<and> x < a + n) \<Longrightarrow> mem_protect m a n p x = m x"
  by (auto simp: mem_protect_def)

lemma mem_put_in [simp]: "a \<le> x \<Longrightarrow> x < a + length bs \<Longrightarrow> mem_put m a bs x = Some (PROT_RW, bs ! (x - a))"
  by (simp add: mem_put_def)

lemma mem_put_out [simp]: "\<not> (a \<le> x \<and> x < a + length bs) \<Longrightarrow> mem_put m a bs x = m x"
  by (auto simp: mem_put_def)

lemma mem_load_Some [simp]: "m a = Some (p, b) \<Longrightarrow> mem_load m a = (if p = PROT_NONE then None else Some b)"
  by (simp add: mem_load_def)

lemma length_mem_bytes [simp]: "length (mem_bytes m a n) = n"
  by (simp add: mem_bytes_def)

lemma mem_bytes_nth: "i < n \<Longrightarrow> m (a + i) = Some (p, b) \<Longrightarrow> mem_bytes m a n ! i = b"
  by (simp add: mem_bytes_def)

lemma mem_store_ok:
  "(\<And>x. a \<le> x \<Longrightarrow> x < a + length bs \<Longrightarrow> mem_writable m x) \<Longrightarrow> mem_store m a bs = Some (mem_put m a bs)"
  by (simp add: mem_store_def)

lemma mem_mapped_sub: "mem_mapped m a n \<Longrightarrow> a \<le> b \<Longrightarrow> b + k \<le> a + n \<Longrightarrow> mem_mapped m b k"
  by (auto simp: mem_mapped_def)

lemma mem_mappedI: "(\<And>x. a \<le> x \<Longrightarrow> x < a + n \<Longrightarrow> m x \<noteq> None) \<Longrightarrow> mem_mapped m a n"
  by (auto simp: mem_mapped_def)

lemma mem_mappedD: "mem_mapped m a n \<Longrightarrow> a \<le> x \<Longrightarrow> x < a + n \<Longrightarrow> m x \<noteq> None"
  by (auto simp: mem_mapped_def)

section \<open>The contract of \<open>vm.h\<close>\<close>

text \<open>
  All lengths handed across the seam are whole pages.  A reservation is fresh
  inaccessible memory; hiding keeps contents; decommitting drops them; publishing
  moves the sealed bytes onto the target and touches nothing else; discarding
  releases a piece of scratch.  Only the calls that create memory may fail.
\<close>

definition page_range :: "size_t \<Rightarrow> addr \<Rightarrow> size_t \<Rightarrow> bool" where
  "page_range ps a n \<longleftrightarrow> 0 < ps \<and> ps dvd a \<and> ps dvd n \<and> 0 < n"

definition fresh_range :: "size_t \<Rightarrow> mem \<Rightarrow> addr \<Rightarrow> size_t \<Rightarrow> bool" where
  "fresh_range ps m a n \<longleftrightarrow> 0 < a \<and> ps dvd a \<and> a + n < SIZE_RANGE \<and> mem_free m a n"

locale vm_seam =
  fixes psz :: "'o \<Rightarrow> size_t"
    and reserve :: "'o \<Rightarrow> mem \<Rightarrow> size_t \<Rightarrow> (addr \<times> mem) res"
    and release :: "'o \<Rightarrow> mem \<Rightarrow> addr \<Rightarrow> size_t \<Rightarrow> mem res"
    and set_readable :: "'o \<Rightarrow> mem \<Rightarrow> addr \<Rightarrow> size_t \<Rightarrow> bool \<Rightarrow> mem res"
    and decommit :: "'o \<Rightarrow> mem \<Rightarrow> addr \<Rightarrow> size_t \<Rightarrow> mem res"
    and create :: "'o \<Rightarrow> mem \<Rightarrow> size_t \<Rightarrow> (vm_scratch \<times> mem) res"
    and seal :: "'o \<Rightarrow> mem \<Rightarrow> vm_scratch \<Rightarrow> mem res"
    and publish :: "'o \<Rightarrow> mem \<Rightarrow> vm_scratch \<Rightarrow> size_t \<Rightarrow> size_t \<Rightarrow> addr \<Rightarrow> mem res"
    and discard :: "'o \<Rightarrow> mem \<Rightarrow> vm_scratch \<Rightarrow> size_t \<Rightarrow> size_t \<Rightarrow> mem res"
  assumes reserve_law: "0 < psz o' \<Longrightarrow> psz o' dvd n \<Longrightarrow>
      res_ok (\<lambda>e. \<exists>w. e = Map_failed w)
        (\<lambda>(a, m'). 0 < n \<and> fresh_range (psz o') m a n \<and> m' = mem_set m a n (Some (PROT_NONE, 0)))
        (reserve o' m n)"
    and release_law: "page_range (psz o') a n \<Longrightarrow> release o' m a n = Inr (mem_set m a n None)"
    and set_readable_law: "page_range (psz o') a n \<Longrightarrow> mem_mapped m a n \<Longrightarrow>
      set_readable o' m a n b = Inr (mem_protect m a n (if b then PROT_READ else PROT_NONE))"
    and decommit_law: "page_range (psz o') a n \<Longrightarrow>
      decommit o' m a n = Inr (mem_set m a n (Some (PROT_NONE, 0)))"
    and create_law: "0 < psz o' \<Longrightarrow> psz o' dvd n \<Longrightarrow>
      res_ok (\<lambda>e. \<exists>w. e = Map_failed w)
        (\<lambda>(s, m'). 0 < n \<and> s_size s = n \<and> fresh_range (psz o') m (s_addr s) n
           \<and> m' = mem_set m (s_addr s) n (Some (PROT_RW, 0)))
        (create o' m n)"
    and seal_law: "page_range (psz o') (s_addr s) (s_size s) \<Longrightarrow> mem_mapped m (s_addr s) (s_size s) \<Longrightarrow>
      seal o' m s = Inr (mem_protect m (s_addr s) (s_size s) PROT_READ)"
    and publish_law: "page_range (psz o') (s_addr s + off) n \<Longrightarrow> psz o' dvd t \<Longrightarrow>
      mem_mapped m (s_addr s + off) n \<Longrightarrow>
      s_addr s + off + n \<le> t \<or> t + n \<le> s_addr s + off \<Longrightarrow>
      publish o' m s off n t = Inr (mem_move m (s_addr s + off) t n)"
    and discard_law: "page_range (psz o') (s_addr s + off) n \<Longrightarrow>
      discard o' m s off n = Inr (mem_set m (s_addr s + off) n None)"
begin

text \<open>Hiding a range and handing it back leaves its contents as they were.\<close>

lemma hide_unhide:
  assumes "page_range (psz o') a n" "\<And>x. a \<le> x \<Longrightarrow> x < a + n \<Longrightarrow> \<exists>b. m x = Some (PROT_READ, b)"
  shows "res_bind (set_readable o' m a n False) (\<lambda>m. set_readable o' m a n True) = Inr m"
proof -
  have mapped: "mem_mapped m a n" using assms(2) by (force intro: mem_mappedI)
  then have "mem_mapped (mem_protect m a n PROT_NONE) a n"
    by (auto simp: mem_mapped_def)
  moreover have "mem_protect (mem_protect m a n PROT_NONE) a n PROT_READ = m"
    using assms(2) by (fastforce simp: mem_protect_def)
  ultimately show ?thesis using assms(1) mapped by (simp add: set_readable_law)
qed

text \<open>
  The tail of a scratch buffer's life: after sealing, the piece \<open>[lo, hi)\<close> moves to
  the target and the pieces on both sides are discarded.  Afterwards the whole
  scratch range is unmapped again and nothing but the target has changed.
\<close>

lemma publish_piece:
  assumes "page_range (psz o') (s_addr s) n" "s_size s = n"
    and "psz o' dvd lo" "psz o' dvd hi" "lo < hi" "hi \<le> n" "psz o' dvd t"
    and "mem_mapped m (s_addr s) n"
    and "s_addr s + n \<le> t \<or> t + (hi - lo) \<le> s_addr s"
  shows "res_bind (seal o' m s) (\<lambda>m. res_bind (publish o' m s lo (hi - lo) t) (\<lambda>m.
      res_bind (if 0 < lo then discard o' m s 0 lo else Inr m) (\<lambda>m.
        if hi < n then discard o' m s hi (n - hi) else Inr m))) =
    Inr (\<lambda>x. if t \<le> x \<and> x < t + (hi - lo) then map_option (\<lambda>(_, b). (PROT_READ, b)) (m (s_addr s + lo + (x - t)))
             else if s_addr s \<le> x \<and> x < s_addr s + n then None else m x)"
proof -
  let ?a = "s_addr s" and ?ps = "psz o'"
  have ps: "0 < ?ps" and dvd: "?ps dvd ?a" "?ps dvd n" using assms(1) by (auto simp: page_range_def)
  define m1 where "m1 = mem_protect m ?a n PROT_READ"
  define m2 where "m2 = mem_move m1 (?a + lo) t (hi - lo)"
  have seal: "seal o' m s = Inr m1" using assms(1,2,8) by (simp add: seal_law m1_def)
  have "mem_mapped m1 ?a n" using assms(8) by (auto simp: m1_def mem_mapped_def)
  then have "mem_mapped m1 (?a + lo) (hi - lo)" 
    by (rule mem_mapped_sub) (use assms(5,6) in auto)
  moreover have "page_range ?ps (?a + lo) (hi - lo)"
    using ps dvd assms(3,4,5) by (simp add: page_range_def dvd_diff_nat)
  moreover have "?a + lo + (hi - lo) \<le> t \<or> t + (hi - lo) \<le> ?a + lo" using assms(5,6,9) by linarith
  ultimately have pub: "publish o' m1 s lo (hi - lo) t = Inr m2"
    using assms(7) by (simp add: publish_law m2_def)
  have d1: "(if 0 < lo then discard o' m2 s 0 lo else Inr m2) = Inr (mem_set m2 ?a lo None)" (is "_ = Inr ?m3")
    using ps dvd assms(3) discard_law [of o' s 0 lo m2] by (cases "lo = 0") (auto simp: page_range_def)
  have d2: "(if hi < n then discard o' ?m3 s hi (n - hi) else Inr ?m3) = Inr (mem_set ?m3 (?a + hi) (n - hi) None)"
    using ps dvd assms(4,6) discard_law [of o' s hi "n - hi" ?m3]
    by (cases "hi = n") (auto simp: page_range_def dvd_diff_nat)
  have "mem_set ?m3 (?a + hi) (n - hi) None =
    (\<lambda>x. if t \<le> x \<and> x < t + (hi - lo) then map_option (\<lambda>(_, b). (PROT_READ, b)) (m (?a + lo + (x - t)))
         else if ?a \<le> x \<and> x < ?a + n then None else m x)"
    using assms(5,6,9) by (auto simp: fun_eq_iff m2_def m1_def mem_set_def mem_move_def mem_protect_def)
  then show ?thesis by (simp add: seal pub d1 d2)
qed

lemma discard_whole:
  assumes "page_range (psz o') (s_addr s) n" "s_size s = n" "mem_mapped m (s_addr s) n"
  shows "res_bind (seal o' m s) (\<lambda>m. discard o' m s 0 n) = Inr (mem_set m (s_addr s) n None)"
  using assms discard_law [of o' s 0 n] by (auto simp: seal_law mem_set_def mem_protect_def)

end

interpretation posix: vm_seam vm_page_size vm_reserve vm_release vm_set_readable vm_decommit
  vm_scratch_create vm_scratch_seal vm_scratch_publish vm_scratch_discard
proof (unfold_locales, goal_cases)
  case (1 os n m)
  then show ?case
    by (auto simp: vm_reserve_def os_mmap_def vm_page_size_def round_len_id fresh_range_def split: option.split)
next
  case (5 os n m)
  then show ?case
    by (auto simp: vm_scratch_create_def os_mmap_def vm_page_size_def round_len_id fresh_range_def split: option.split)
qed (auto simp: vm_release_def vm_set_readable_def vm_decommit_def vm_scratch_seal_def vm_scratch_publish_def
    vm_scratch_discard_def os_munmap_def os_mprotect_def os_mmap_fixed_def os_mremap_def vm_page_size_def
    page_range_def round_len_id)

end
