(* ===== verification/Region.thy ===== *)
theory Region
  imports Vm_Posix
begin

text \<open>
  The region struct of \<open>inproc.c\<close> and the functions that only read it: the binary
  searches, the exclusive pages of a chunk, the table of shared pages and
  \<open>page_readable\<close>.  A page is either shared by the chunks whose boundaries fall
  inside it, or owned by exactly one chunk; the layout lemmas here say which, and
  everything about faults rests on them.

  Of \<open>chunk_lru_t\<close> the flags \<open>resident\<close> and \<open>cold\<close> are lists of the
  region, as the C array \<open>chunk_lru\<close> is; the links are fields of the pool's
  queue (theory \<open>Lru\<close>), because they cross regions.
\<close>

section \<open>Definitions\<close>

record shared_page =
  sp_page_off :: size_t
  sp_first_chunk :: uint32_t
  sp_last_chunk :: uint32_t
  sp_staged :: uint32_t
  sp_staging :: vm_scratch
  sp_mapped :: bool

text \<open>
  A fill callback with its \<open>user_data\<close>: from the chunk and its size to the
  addresses it reads and the bytes it writes from \<open>start\<close> on.
\<close>

type_synonym fc_fill_chunk_fn = "uint32_t \<Rightarrow> size_t \<Rightarrow> addr list \<times> byte list"

record fc_region =
  r_base :: addr
  r_total_size :: size_t
  r_mapped_size :: size_t
  r_page_size :: size_t
  r_nchunks :: uint32_t
  r_chunk_start :: "size_t list"
  r_initialized :: "bool list"
  r_shared_pages :: "shared_page list"
  r_nshared :: uint32_t
  r_chunk_staged :: "bool list"
  r_lru_resident :: "bool list"
  r_lru_cold :: "bool list"
  r_chunk_faults_total :: "uint64_t list"
  r_resident_bytes :: size_t
  r_resident_chunks :: uint32_t
  r_fault_events_total :: uint64_t
  r_fill_chunk :: fc_fill_chunk_fn
  r_chunks_resolved :: uint32_t
  r_faults_handled :: uint32_t

definition find_chunk :: "fc_region \<Rightarrow> size_t \<Rightarrow> uint32_t" where
  "find_chunk r off = find_chunk_loop (r_chunk_start r) off 0 (r_nchunks r - 1)"

definition chunk_exclusive_pages :: "fc_region \<Rightarrow> uint32_t \<Rightarrow> size_t \<times> size_t" where
  "chunk_exclusive_pages r c =
     (let lo = page_ceil (r_chunk_start r ! c) (r_page_size r);
          hi = (if c + 1 = r_nchunks r then r_mapped_size r
                else page_floor (r_chunk_start r ! (c + 1)) (r_page_size r))
      in (lo, if hi < lo then lo else hi))"

function find_shared_loop :: "shared_page list \<Rightarrow> size_t \<Rightarrow> uint32_t \<Rightarrow> uint32_t \<Rightarrow> uint32_t" where
  "find_shared_loop sps page_off lo hi =
     (if lo < hi then
        let mid = lo + (hi - lo) div 2 in
        if sp_page_off (sps ! mid) < page_off then find_shared_loop sps page_off (mid + 1) hi
        else find_shared_loop sps page_off lo mid
      else lo)"
  by pat_completeness auto
termination
  by (relation "measure (\<lambda>(sps, page_off, lo, hi). hi - lo)") auto

declare find_shared_loop.simps [simp del]

text \<open>The C function returns a pointer into \<open>shared_pages\<close>; the model its index.\<close>

definition find_shared_page :: "fc_region \<Rightarrow> size_t \<Rightarrow> uint32_t option" where
  "find_shared_page r page_off =
     (let lo = find_shared_loop (r_shared_pages r) page_off 0 (r_nshared r) in
      if lo < r_nshared r \<and> sp_page_off (r_shared_pages r ! lo) = page_off then Some lo else None)"

definition page_readable :: "fc_region \<Rightarrow> size_t \<Rightarrow> bool" where
  "page_readable r off =
     (let page = page_floor off (r_page_size r) in
      case find_shared_page r page of
        Some k \<Rightarrow> sp_mapped (r_shared_pages r ! k)
      | None \<Rightarrow> let c = find_chunk r page in r_initialized r ! c \<and> \<not> r_lru_cold r ! c)"

definition null_scratch :: vm_scratch where
  "null_scratch = \<lparr>s_addr = 0, s_size = 0, s_section = 0, s_consumed = 0\<rparr>"

text \<open>The two passes of \<open>shared_pages_init\<close> over the chunk boundaries.\<close>

fun shared_count :: "fc_region \<Rightarrow> size_t \<Rightarrow> uint32_t list \<Rightarrow> uint32_t" where
  "shared_count r prev [] = 0"
| "shared_count r prev (i # is) =
     (let p = page_floor (r_chunk_start r ! i) (r_page_size r) in
      if r_chunk_start r ! i = p \<or> p = prev then shared_count r prev is
      else Suc (shared_count r p is))"

fun shared_collect :: "fc_region \<Rightarrow> size_t \<Rightarrow> uint32_t list \<Rightarrow> shared_page list" where
  "shared_collect r prev [] = []"
| "shared_collect r prev (i # is) =
     (let p = page_floor (r_chunk_start r ! i) (r_page_size r) in
      if r_chunk_start r ! i = p \<or> p = prev then shared_collect r prev is
      else
        let last_byte = p + r_page_size r - 1;
            last_byte = (if last_byte \<ge> r_total_size r then r_total_size r - 1 else last_byte)
        in \<lparr>sp_page_off = p, sp_first_chunk = find_chunk r p, sp_last_chunk = find_chunk r last_byte,
             sp_staged = 0, sp_staging = null_scratch, sp_mapped = False\<rparr> # shared_collect r p is)"

definition shared_pages_init :: "fc_region \<Rightarrow> fc_region res" where
  "shared_pages_init r =
     (let n = shared_count r SIZE_MAX [1..<r_nchunks r];
          r = r\<lparr>r_nshared := n\<rparr>
      in if n = 0 then Inr r
         else let sps = shared_collect r SIZE_MAX [1..<r_nchunks r]
              in fc_assert ''k == n'' (length sps = n) (Inr (r\<lparr>r_shared_pages := sps\<rparr>)))"

definition lru_init :: "fc_region \<Rightarrow> fc_region" where
  "lru_init r = r\<lparr>r_lru_resident := replicate (r_nchunks r) False,
     r_lru_cold := replicate (r_nchunks r) False,
     r_chunk_faults_total := replicate (r_nchunks r) 0,
     r_resident_bytes := 0, r_resident_chunks := 0, r_fault_events_total := 0\<rparr>"

abbreviation chunk_size :: "fc_region \<Rightarrow> uint32_t \<Rightarrow> size_t" where
  "chunk_size r c \<equiv> r_chunk_start r ! Suc c - r_chunk_start r ! c"

section \<open>The static layout of a region\<close>

definition region_layout :: "fc_region \<Rightarrow> bool" where
  "region_layout r \<longleftrightarrow> layout (r_nchunks r) (r_chunk_start r) (r_page_size r) \<and>
     r_total_size r = r_chunk_start r ! r_nchunks r \<and>
     r_mapped_size r = page_ceil (r_total_size r) (r_page_size r)"

lemma find_chunk_spec:
  assumes "region_layout r"
  shows "find_chunk r off < r_nchunks r"
    and "r_chunk_start r ! find_chunk r off \<le> off"
    and "Suc (find_chunk r off) < r_nchunks r \<Longrightarrow> off < r_chunk_start r ! Suc (find_chunk r off)"
  using find_chunk_loop_layout [of "r_nchunks r" "r_chunk_start r" "r_page_size r" off] assms
  by (auto simp: region_layout_def find_chunk_def holds_off_def)

interpretation inproc: chunk_index r_nchunks r_chunk_start r_page_size region_layout find_chunk
  by unfold_locales (auto simp: find_chunk_spec region_layout_def)

text \<open>The pages that hold a chunk boundary in their interior.\<close>

definition shared_at :: "fc_region \<Rightarrow> size_t \<Rightarrow> bool" where
  "shared_at r p \<longleftrightarrow> (\<exists>i. 0 < i \<and> i < r_nchunks r \<and>
     page_floor (r_chunk_start r ! i) (r_page_size r) = p \<and> r_chunk_start r ! i \<noteq> p)"

lemma region_layoutD:
  assumes "region_layout r"
  shows "0 < r_page_size r" "0 < r_nchunks r" "r_chunk_start r ! 0 = 0"
    "length (r_chunk_start r) = Suc (r_nchunks r)"
    "r_total_size r = r_chunk_start r ! r_nchunks r"
    "r_mapped_size r = page_ceil (r_total_size r) (r_page_size r)"
    "r_total_size r + r_page_size r \<le> SIZE_RANGE"
    "r_page_size r dvd r_mapped_size r"
    "r_total_size r \<le> r_mapped_size r"
    "r_mapped_size r < r_total_size r + r_page_size r"
    "0 < r_total_size r"
proof -
  note lay = assms [unfolded region_layout_def layout_def]
  show ps: "0 < r_page_size r" "0 < r_nchunks r" "r_chunk_start r ! 0 = 0"
    "length (r_chunk_start r) = Suc (r_nchunks r)"
    "r_total_size r = r_chunk_start r ! r_nchunks r"
    "r_mapped_size r = page_ceil (r_total_size r) (r_page_size r)"
    "r_total_size r + r_page_size r \<le> SIZE_RANGE"
    using lay by auto
  then show "r_page_size r dvd r_mapped_size r" "r_total_size r \<le> r_mapped_size r"
    "r_mapped_size r < r_total_size r + r_page_size r"
    by (simp_all add: page_ceil_ge page_ceil_lt)
  show "0 < r_total_size r"
    using layout_mono [of "r_nchunks r" "r_chunk_start r" "r_page_size r" 0 "r_nchunks r"] assms ps
    by (simp add: region_layout_def)
qed

lemma region_start_mono:
  assumes "region_layout r"
  shows "i < j \<Longrightarrow> j \<le> r_nchunks r \<Longrightarrow> r_chunk_start r ! i < r_chunk_start r ! j"
    and "i \<le> j \<Longrightarrow> j \<le> r_nchunks r \<Longrightarrow> r_chunk_start r ! i \<le> r_chunk_start r ! j"
    and "i \<le> r_nchunks r \<Longrightarrow> r_chunk_start r ! i \<le> r_total_size r"
    and "i \<le> r_nchunks r \<Longrightarrow> r_chunk_start r ! i + r_page_size r \<le> SIZE_RANGE"
  using layout_mono [of "r_nchunks r" "r_chunk_start r" "r_page_size r"]
    layout_mono_le [of "r_nchunks r" "r_chunk_start r" "r_page_size r"]
    layout_bound [of "r_nchunks r" "r_chunk_start r" "r_page_size r"] assms
  by (auto simp: region_layout_def)

section \<open>Who owns a page\<close>

lemma exclusive_bounds:
  assumes lay: "region_layout r" and c: "c < r_nchunks r" and ex: "chunk_exclusive_pages r c = (lo, hi)"
  shows "r_page_size r dvd lo" "r_page_size r dvd hi" "lo \<le> hi" "r_chunk_start r ! c \<le> lo"
    "hi \<le> r_mapped_size r" "lo < hi \<Longrightarrow> Suc c < r_nchunks r \<Longrightarrow> hi \<le> r_chunk_start r ! Suc c"
    "lo = page_ceil (r_chunk_start r ! c) (r_page_size r)"
proof -
  note D = region_layoutD [OF lay]
  have st: "r_chunk_start r ! c + r_page_size r \<le> SIZE_RANGE" "r_chunk_start r ! c \<le> r_total_size r"
    using region_start_mono(3,4) [OF lay, of c] c by auto
  have lo: "lo = page_ceil (r_chunk_start r ! c) (r_page_size r)"
    using ex by (auto simp: chunk_exclusive_pages_def Let_def)
  then show "lo = page_ceil (r_chunk_start r ! c) (r_page_size r)" .
  show "r_page_size r dvd lo" using lo by simp
  show "r_chunk_start r ! c \<le> lo" using lo D(1) st by (simp add: page_ceil_ge)
  have lomap: "lo \<le> r_mapped_size r"
    using page_ceil_least [OF D(1) st(1) D(8)] st(2) D(9) lo by simp
  show "r_page_size r dvd hi" "lo \<le> hi"
    using ex D(8) by (auto simp: chunk_exclusive_pages_def Let_def split: if_splits)
  have "page_floor (r_chunk_start r ! Suc c) (r_page_size r) \<le> r_mapped_size r" if "Suc c < r_nchunks r"
    using page_floor_le [of "r_chunk_start r ! Suc c" "r_page_size r"] region_start_mono(3) [OF lay, of "Suc c"] D(9) that
    by linarith
  then show "hi \<le> r_mapped_size r"
    using ex lomap c by (auto simp: chunk_exclusive_pages_def Let_def split: if_splits)
  show "hi \<le> r_chunk_start r ! Suc c" if "lo < hi" "Suc c < r_nchunks r"
    using ex that by (auto simp: chunk_exclusive_pages_def Let_def split: if_splits)
qed

lemma exclusive_owned:
  assumes lay: "region_layout r" and c: "c < r_nchunks r" and ex: "chunk_exclusive_pages r c = (lo, hi)"
    and x: "lo \<le> x" "x < hi"
  shows "\<not> shared_at r (page_floor x (r_page_size r))"
    and "find_chunk r (page_floor x (r_page_size r)) = c"
    and "find_chunk r x = c"
proof -
  note D = region_layoutD [OF lay] and E = exclusive_bounds [OF lay c ex]
  let ?ps = "r_page_size r"
  define p where "p = page_floor x ?ps"
  have p: "?ps dvd p" "p \<le> x" "x < p + ?ps" using D(1) by (simp_all add: p_def page_floor_gt)
  have plo: "lo \<le> p" using page_floor_greatest [OF D(1) E(1) x(1)] by (simp add: p_def)
  have phi: "p + ?ps \<le> hi" using aligned_gap [OF D(1) E(2) p(1)] p(2) x(2) by linarith
  have bound: "hi \<le> r_chunk_start r ! Suc c" if "Suc c < r_nchunks r" using E(6) x that by simp
  show "find_chunk r (page_floor x ?ps) = c"
    using inproc.find_eq [OF lay c] E(4) plo bound p x by (fastforce simp: p_def)
  show "find_chunk r x = c"
    using inproc.find_eq [OF lay c] E(4) bound x by fastforce
  show "\<not> shared_at r (page_floor x ?ps)"
  proof
    assume "shared_at r (page_floor x ?ps)"
    then obtain i where i: "0 < i" "i < r_nchunks r" "page_floor (r_chunk_start r ! i) ?ps = p" "r_chunk_start r ! i \<noteq> p"
      by (auto simp: shared_at_def p_def)
    have si: "p < r_chunk_start r ! i" "r_chunk_start r ! i < p + ?ps"
      using i(3,4) page_floor_le [of "r_chunk_start r ! i" ?ps] page_floor_gt [OF D(1), of "r_chunk_start r ! i"] by auto
    have "c < i"
    proof (rule ccontr)
      assume "\<not> c < i"
      then have "r_chunk_start r ! i \<le> r_chunk_start r ! c" using region_start_mono(2) [OF lay, of i c] c by simp
      then show False using si(1) E(4) plo by simp
    qed
    then have "r_chunk_start r ! Suc c \<le> r_chunk_start r ! i" using region_start_mono(2) [OF lay, of "Suc c" i] i(2) by simp
    moreover have "hi \<le> r_chunk_start r ! Suc c" using bound \<open>c < i\<close> i(2) by simp
    ultimately show False using si(2) phi by simp
  qed
qed

lemma unshared_page_exclusive:
  assumes lay: "region_layout r" and p: "r_page_size r dvd p" "p < r_mapped_size r" and ns: "\<not> shared_at r p"
    and ex: "chunk_exclusive_pages r (find_chunk r p) = (lo, hi)"
  shows "lo \<le> p" and "p + r_page_size r \<le> hi"
proof -
  note D = region_layoutD [OF lay]
  let ?ps = "r_page_size r" and ?c = "find_chunk r p"
  have c: "?c < r_nchunks r" and start: "r_chunk_start r ! ?c \<le> p" using find_chunk_spec [OF lay] by auto
  note E = exclusive_bounds [OF lay c ex]
  show lo: "lo \<le> p"
    using page_ceil_least [OF D(1) region_start_mono(4) [OF lay] p(1) start] c E(7) by simp
  show "p + ?ps \<le> hi"
  proof (cases "Suc ?c < r_nchunks r")
    case False
    then have "r_mapped_size r \<le> hi" using ex c by (auto simp: chunk_exclusive_pages_def Let_def)
    then show ?thesis using aligned_gap [OF D(1) D(8) p(1)] p(2) by linarith
  next
    case True
    let ?q = "page_floor (r_chunk_start r ! Suc ?c) ?ps"
    have lt: "p < r_chunk_start r ! Suc ?c" using find_chunk_spec(3) [OF lay True] .
    then have "p \<le> ?q" using page_floor_greatest [OF D(1) p(1)] by simp
    moreover have "?q \<noteq> p" using ns True lt by (auto simp: shared_at_def)
    ultimately have "p < ?q" by simp
    then have "p + ?ps \<le> ?q" using aligned_gap [OF D(1) _ p(1), of ?q] page_floor_dvd by fastforce
    moreover have "?q \<le> hi" using ex True by (auto simp: chunk_exclusive_pages_def Let_def)
    ultimately show ?thesis by simp
  qed
qed

text \<open>The chunks with bytes in a page.\<close>

definition contributes :: "fc_region \<Rightarrow> uint32_t \<Rightarrow> size_t \<Rightarrow> bool" where
  "contributes r c p \<longleftrightarrow> c < r_nchunks r \<and> r_chunk_start r ! c < p + r_page_size r \<and> p < r_chunk_start r ! Suc c"

definition page_last_byte :: "fc_region \<Rightarrow> size_t \<Rightarrow> size_t" where
  "page_last_byte r p = (if p + r_page_size r - 1 \<ge> r_total_size r then r_total_size r - 1 else p + r_page_size r - 1)"

lemma shared_at_less:
  assumes lay: "region_layout r" and sh: "shared_at r p"
  obtains i where "0 < i" "i < r_nchunks r" "p < r_chunk_start r ! i" "r_chunk_start r ! i < p + r_page_size r"
    "r_page_size r dvd p" "p < r_total_size r" "p + r_page_size r \<le> r_mapped_size r"
proof -
  note D = region_layoutD [OF lay]
  from sh obtain i where i: "0 < i" "i < r_nchunks r" "page_floor (r_chunk_start r ! i) (r_page_size r) = p" "r_chunk_start r ! i \<noteq> p"
    by (auto simp: shared_at_def)
  have si: "p < r_chunk_start r ! i" "r_chunk_start r ! i < p + r_page_size r"
    using i(3,4) page_floor_le [of "r_chunk_start r ! i" "r_page_size r"] page_floor_gt [OF D(1), of "r_chunk_start r ! i"] by auto
  have dvd: "r_page_size r dvd p" using i(3) by auto
  have tot: "p < r_total_size r" using si(1) region_start_mono(3) [OF lay, of i] i(2) by simp
  then have "p + r_page_size r \<le> r_mapped_size r"
    using aligned_gap [OF D(1) D(8) dvd] D(9) by linarith
  with i(1,2) si dvd tot show thesis using that by blast
qed

lemma contributes_range:
  assumes lay: "region_layout r" and sh: "shared_at r p"
  shows "contributes r c p \<longleftrightarrow> find_chunk r p \<le> c \<and> c \<le> find_chunk r (page_last_byte r p)"
proof -
  note D = region_layoutD [OF lay]
  let ?first = "find_chunk r p" and ?lb = "page_last_byte r p"
  obtain i where tot: "p < r_total_size r" using shared_at_less [OF lay sh] by metis
  have lb: "?lb < p + r_page_size r" "?lb < r_total_size r" "p \<le> ?lb"
    using D(1) tot by (auto simp: page_last_byte_def)
  have pin: "p < r_chunk_start r ! Suc ?first" using inproc.find_in_range [OF lay] tot D(5) by simp
  show ?thesis
  proof
    assume con: "contributes r c p"
    then have c: "c < r_nchunks r" by (simp add: contributes_def)
    have "?first \<le> c"
    proof (rule ccontr)
      assume "\<not> ?first \<le> c"
      then have "r_chunk_start r ! Suc c \<le> r_chunk_start r ! ?first"
        using region_start_mono(2) [OF lay, of "Suc c" ?first] find_chunk_spec(1) [OF lay, of p] by simp
      then show False using con find_chunk_spec(2) [OF lay, of p] by (simp add: contributes_def)
    qed
    moreover have "r_chunk_start r ! c \<le> ?lb"
      using con region_start_mono(1) [OF lay, of c "r_nchunks r"] D(5) by (auto simp: contributes_def page_last_byte_def)
    then have "c \<le> find_chunk r ?lb"
      using inproc.find_mono [OF lay] inproc.find_at_start [OF lay c] by fastforce
    ultimately show "?first \<le> c \<and> c \<le> find_chunk r ?lb" by simp
  next
    assume range: "?first \<le> c \<and> c \<le> find_chunk r ?lb"
    then have c: "c < r_nchunks r" using find_chunk_spec(1) [OF lay, of ?lb] by simp
    have "r_chunk_start r ! c \<le> r_chunk_start r ! find_chunk r ?lb"
      using region_start_mono(2) [OF lay] range find_chunk_spec(1) [OF lay, of ?lb] by simp
    then have "r_chunk_start r ! c < p + r_page_size r" using find_chunk_spec(2) [OF lay, of ?lb] lb(1) by simp
    moreover have "r_chunk_start r ! Suc ?first \<le> r_chunk_start r ! Suc c"
      using region_start_mono(2) [OF lay, of "Suc ?first" "Suc c"] range c by simp
    ultimately show "contributes r c p" using c pin by (simp add: contributes_def)
  qed
qed

text \<open>The shared page at either end of a chunk, as \<open>fill_chunk_locked\<close> computes them.\<close>

definition has_head :: "fc_region \<Rightarrow> uint32_t \<Rightarrow> bool" where
  "has_head r c \<longleftrightarrow> r_chunk_start r ! c mod r_page_size r \<noteq> 0"

definition has_tail :: "fc_region \<Rightarrow> uint32_t \<Rightarrow> bool" where
  "has_tail r c \<longleftrightarrow> r_chunk_start r ! Suc c mod r_page_size r \<noteq> 0 \<and> c + 1 < r_nchunks r \<and>
     \<not> (has_head r c \<and> page_floor (r_chunk_start r ! Suc c) (r_page_size r) = page_floor (r_chunk_start r ! c) (r_page_size r))"

abbreviation head_page :: "fc_region \<Rightarrow> uint32_t \<Rightarrow> size_t" where
  "head_page r c \<equiv> page_floor (r_chunk_start r ! c) (r_page_size r)"

abbreviation tail_page :: "fc_region \<Rightarrow> uint32_t \<Rightarrow> size_t" where
  "tail_page r c \<equiv> page_floor (r_chunk_start r ! Suc c) (r_page_size r)"

lemma head_shared:
  assumes "region_layout r" "c < r_nchunks r" "has_head r c"
  shows "shared_at r (head_page r c)"
proof -
  have "0 < c" using assms region_layoutD(3) [OF assms(1)] by (cases c) (auto simp: has_head_def)
  moreover have "r_chunk_start r ! c \<noteq> head_page r c"
    using assms(3) page_floor_aligned [of "r_chunk_start r ! c" "r_page_size r"]
    by (simp add: has_head_def dvd_eq_mod_eq_0 [symmetric])
  ultimately show ?thesis using assms(2) by (auto simp: shared_at_def)
qed

lemma tail_shared:
  assumes "c < r_nchunks r" "has_tail r c"
  shows "shared_at r (tail_page r c)"
proof -
  have "r_chunk_start r ! Suc c \<noteq> tail_page r c"
    using assms(2) page_floor_aligned [of "r_chunk_start r ! Suc c" "r_page_size r"]
    by (simp add: has_tail_def dvd_eq_mod_eq_0 [symmetric])
  with assms show ?thesis unfolding shared_at_def has_tail_def by (intro exI [of _ "Suc c"]) auto
qed

lemma contributes_ends:
  assumes lay: "region_layout r" and sh: "shared_at r p"
  shows "contributes r c p \<longleftrightarrow> c < r_nchunks r \<and>
    (has_head r c \<and> head_page r c = p \<or> has_tail r c \<and> tail_page r c = p)"
proof -
  note D = region_layoutD [OF lay]
  let ?ps = "r_page_size r" and ?s = "r_chunk_start r ! c" and ?e = "r_chunk_start r ! Suc c"
  obtain i where i: "0 < i" "i < r_nchunks r" "p < r_chunk_start r ! i" "r_chunk_start r ! i < p + ?ps" and dvd: "?ps dvd p"
    using shared_at_less [OF lay sh] by metis
  have un: "x mod ?ps \<noteq> 0" if "p < x" "x < p + ?ps" for x
    using that page_floor_unique [OF D(1) dvd, of x] page_floor_aligned [of x ?ps] by (auto simp: dvd_eq_mod_eq_0)
  show ?thesis
  proof
    assume con: "contributes r c p"
    then have c: "c < r_nchunks r" "?s < p + ?ps" "p < ?e" by (auto simp: contributes_def)
    show "c < r_nchunks r \<and> (has_head r c \<and> head_page r c = p \<or> has_tail r c \<and> tail_page r c = p)"
    proof (cases "p < ?s")
      case True
      then show ?thesis using c un page_floor_unique [OF D(1) dvd, of ?s] by (simp add: has_head_def)
    next
      case False
      have "c < i" using False i(3) region_start_mono(2) [OF lay, of i c] c(1) by (cases "c < i") auto
      then have e: "?e < p + ?ps" and "Suc c < r_nchunks r"
        using region_start_mono(2) [OF lay, of "Suc c" i] i by auto
      moreover have "tail_page r c = p" using page_floor_unique [OF D(1) dvd, of ?e] c(3) e by simp
      moreover have "\<not> (has_head r c \<and> head_page r c = p)"
        using False page_floor_le [of ?s ?ps] page_floor_aligned [of ?s ?ps] by (auto simp: has_head_def dvd_eq_mod_eq_0 simp del: page_floor_le)
      ultimately show ?thesis using c un by (auto simp: has_tail_def)
    qed
  next
    assume ends: "c < r_nchunks r \<and> (has_head r c \<and> head_page r c = p \<or> has_tail r c \<and> tail_page r c = p)"
    then have se: "?s < ?e" using region_start_mono(1) [OF lay, of c "Suc c"] by simp
    have "?e \<noteq> tail_page r c" if "has_tail r c"
      using that page_floor_aligned [of ?e ?ps] by (auto simp: has_tail_def dvd_eq_mod_eq_0)
    with ends se show "contributes r c p"
      using page_floor_le [of ?s ?ps] page_floor_gt [OF D(1), of ?s] page_floor_le [of ?e ?ps] page_floor_gt [OF D(1), of ?e]
      by (auto simp: contributes_def simp del: page_floor_le)
  qed
qed

lemma head_tail_differ: "has_head r c \<Longrightarrow> has_tail r c \<Longrightarrow> head_page r c \<noteq> tail_page r c"
  by (auto simp: has_tail_def)

lemma byte_contributes:
  assumes "region_layout r" "x < r_total_size r"
  shows "contributes r (find_chunk r x) (page_floor x (r_page_size r))"
  using assms inproc.find_in_range [of r x] find_chunk_spec(1) [of r x] region_layoutD(1,5) [of r]
    page_floor_gt [of "r_page_size r" x] page_floor_le [of x "r_page_size r"]
  by (auto simp: contributes_def simp del: page_floor_le)

section \<open>The table of shared pages\<close>

lemma find_shared_loop_done: "hi \<le> lo \<Longrightarrow> find_shared_loop sps p lo hi = lo"
  by (subst find_shared_loop.simps) simp

lemma find_shared_loop_step:
  assumes "lo < hi"
  obtains mid where "lo \<le> mid" "mid < hi"
    "find_shared_loop sps p lo hi =
      (if sp_page_off (sps ! mid) < p then find_shared_loop sps p (mid + 1) hi else find_shared_loop sps p lo mid)"
proof
  let ?mid = "lo + (hi - lo) div 2"
  show "lo \<le> ?mid" "?mid < hi" using assms by auto
  show "find_shared_loop sps p lo hi =
      (if sp_page_off (sps ! ?mid) < p then find_shared_loop sps p (?mid + 1) hi else find_shared_loop sps p lo ?mid)"
    using assms by (subst find_shared_loop.simps) (simp only: Let_def if_True)
qed

text \<open>The loop finds the position of a page in a strictly sorted table.\<close>

lemma find_shared_loop_position:
  assumes sorted: "\<And>i j. i < j \<Longrightarrow> j < n \<Longrightarrow> sp_page_off (sps ! i) < sp_page_off (sps ! j)"
    and k: "k < n" "sp_page_off (sps ! k) = p"
  shows "lo \<le> k \<Longrightarrow> k < hi \<or> k = hi \<Longrightarrow> hi \<le> n \<Longrightarrow> find_shared_loop sps p lo hi = k"
proof (induction "hi - lo" arbitrary: lo hi rule: less_induct)
  case less
  show ?case
  proof (cases "lo < hi")
    case True
    then obtain mid where mid: "lo \<le> mid" "mid < hi"
      and eq: "find_shared_loop sps p lo hi =
        (if sp_page_off (sps ! mid) < p then find_shared_loop sps p (mid + 1) hi else find_shared_loop sps p lo mid)"
      by (rule find_shared_loop_step)
    have cmp: "sp_page_off (sps ! mid) < p \<longleftrightarrow> mid < k"
      using sorted [of mid k] sorted [of k mid] k mid less.prems by (cases mid k rule: linorder_cases) auto
    have "find_shared_loop sps p (mid + 1) hi = k" if "mid < k"
      using less.hyps [of hi "mid + 1"] less.prems mid that by simp
    moreover have "find_shared_loop sps p lo mid = k" if "\<not> mid < k"
      using less.hyps [of mid lo] less.prems mid that by fastforce
    ultimately show ?thesis unfolding eq cmp by simp
  next
    case False
    with less.prems show ?thesis by (auto simp: find_shared_loop_done)
  qed
qed

text \<open>
  The static part of the table: strictly sorted by page, exactly the shared pages,
  each with the range of its contributors.
\<close>

definition shared_static :: "fc_region \<Rightarrow> bool" where
  "shared_static r \<longleftrightarrow> r_nshared r = length (r_shared_pages r) \<and>
     (\<forall>i j. i < j \<longrightarrow> j < r_nshared r \<longrightarrow> sp_page_off (r_shared_pages r ! i) < sp_page_off (r_shared_pages r ! j)) \<and>
     (\<forall>p. shared_at r p \<longleftrightarrow> (\<exists>k<r_nshared r. sp_page_off (r_shared_pages r ! k) = p)) \<and>
     (\<forall>k<r_nshared r. let sp = r_shared_pages r ! k in
        sp_first_chunk sp = find_chunk r (sp_page_off sp) \<and>
        sp_last_chunk sp = find_chunk r (page_last_byte r (sp_page_off sp)))"

lemma find_shared_page_Some:
  assumes "shared_static r"
  shows "find_shared_page r p = Some k \<longleftrightarrow> k < r_nshared r \<and> sp_page_off (r_shared_pages r ! k) = p"
proof -
  have "find_shared_loop (r_shared_pages r) p 0 (r_nshared r) = k" if "k < r_nshared r" "sp_page_off (r_shared_pages r ! k) = p"
    using find_shared_loop_position [of "r_nshared r" "r_shared_pages r" k p 0 "r_nshared r"] assms that
    by (simp add: shared_static_def)
  then show ?thesis by (auto simp: find_shared_page_def Let_def split: if_splits)
qed

lemma find_shared_page_None:
  assumes "shared_static r"
  shows "find_shared_page r p = None \<longleftrightarrow> \<not> shared_at r p"
proof -
  have "find_shared_page r p \<noteq> None \<longleftrightarrow> shared_at r p"
    using find_shared_page_Some [OF assms, of p] assms by (auto simp: shared_static_def)
  then show ?thesis by blast
qed

lemma shared_static_unique:
  assumes "shared_static r" "i < r_nshared r" "j < r_nshared r"
    "sp_page_off (r_shared_pages r ! i) = sp_page_off (r_shared_pages r ! j)"
  shows "i = j"
  using assms by (cases i j rule: linorder_cases) (fastforce simp: shared_static_def)+

lemma shared_static_contributes:
  assumes "region_layout r" "shared_static r" "k < r_nshared r"
  shows "contributes r c (sp_page_off (r_shared_pages r ! k)) \<longleftrightarrow>
    sp_first_chunk (r_shared_pages r ! k) \<le> c \<and> c \<le> sp_last_chunk (r_shared_pages r ! k)"
    and "shared_at r (sp_page_off (r_shared_pages r ! k))"
proof -
  show "shared_at r (sp_page_off (r_shared_pages r ! k))" using assms(2,3) by (auto simp: shared_static_def)
  then show "contributes r c (sp_page_off (r_shared_pages r ! k)) \<longleftrightarrow>
    sp_first_chunk (r_shared_pages r ! k) \<le> c \<and> c \<le> sp_last_chunk (r_shared_pages r ! k)"
    using contributes_range [OF assms(1)] assms(2,3) by (auto simp: shared_static_def Let_def)
qed

subsection \<open>What \<open>shared_pages_init\<close> builds\<close>

lemma shared_count_collect: "shared_count r prev is = length (shared_collect r prev is)"
  by (induction r prev "is" rule: shared_count.induct) (auto simp: Let_def)

lemma shared_collect_fields:
  "sp \<in> set (shared_collect r prev is) \<Longrightarrow>
   sp_first_chunk sp = find_chunk r (sp_page_off sp) \<and>
   sp_last_chunk sp = find_chunk r (page_last_byte r (sp_page_off sp)) \<and>
   sp_staged sp = 0 \<and> sp_staging sp = null_scratch \<and> \<not> sp_mapped sp"
  by (induction r prev "is" rule: shared_collect.induct)
    (auto simp: Let_def page_last_byte_def split: if_splits)

definition boundary_page :: "fc_region \<Rightarrow> nat \<Rightarrow> size_t \<Rightarrow> bool" where
  "boundary_page r i p \<longleftrightarrow> page_floor (r_chunk_start r ! i) (r_page_size r) = p \<and> r_chunk_start r ! i \<noteq> p"

lemma head_page_mono: "region_layout r \<Longrightarrow> i \<le> j \<Longrightarrow> j < r_nchunks r \<Longrightarrow> head_page r i \<le> head_page r j"
  using page_floor_mono [OF region_layoutD(1)] region_start_mono(2) by simp

text \<open>A page that begins a later boundary is not the previous one again, nor the initial marker.\<close>

lemma boundary_not_prev:
  assumes lay: "region_layout r" and i: "i < r_nchunks r" "head_page r i \<noteq> prev"
    and prev: "prev = SIZE_MAX \<or> (\<forall>j. i \<le> j \<longrightarrow> j < r_nchunks r \<longrightarrow> prev \<le> head_page r j)"
    and j: "Suc i \<le> j" "j < r_nchunks r" "boundary_page r j q"
  shows "q \<noteq> prev"
proof
  assume "q = prev"
  have j': "head_page r j = q" "r_chunk_start r ! j \<noteq> q" using j(3) by (auto simp: boundary_page_def)
  from prev show False
  proof
    assume "prev = SIZE_MAX"
    moreover have "q < r_chunk_start r ! j" using j' page_floor_le [of "r_chunk_start r ! j" "r_page_size r"] by linarith
    ultimately show False
      using \<open>q = prev\<close> region_start_mono(4) [OF lay, of j] region_layoutD(1) [OF lay] j(2) by simp
  next
    assume "\<forall>j\<ge>i. j < r_nchunks r \<longrightarrow> prev \<le> head_page r j"
    then have "prev < head_page r i" using i by (auto simp: order_le_less)
    then show False using \<open>q = prev\<close> j(1,2) j'(1) head_page_mono [OF lay, of i j] by simp
  qed
qed

lemma shared_collect_pages:
  assumes lay: "region_layout r" and "i \<le> r_nchunks r" "0 < i"
    and "prev = SIZE_MAX \<or> (\<forall>j. i \<le> j \<longrightarrow> j < r_nchunks r \<longrightarrow> prev \<le> head_page r j)"
  shows "sorted_wrt (<) (map sp_page_off (shared_collect r prev [i..<r_nchunks r])) \<and>
    set (map sp_page_off (shared_collect r prev [i..<r_nchunks r])) =
      {p. p \<noteq> prev \<and> (\<exists>j. i \<le> j \<and> j < r_nchunks r \<and> boundary_page r j p)}"
  using assms(2-4)
proof (induction "r_nchunks r - i" arbitrary: i prev)
  case 0
  then show ?case by auto
next
  case (Suc k)
  then have i: "i < r_nchunks r" by simp
  let ?p = "head_page r i"
  note mono = head_page_mono [OF lay, of i]
  have upt: "[i..<r_nchunks r] = i # [Suc i..<r_nchunks r]" using i by (rule upt_conv_Cons)
  have "i \<le> j \<longleftrightarrow> j = i \<or> Suc i \<le> j" for j by auto
  then have ex: "(\<exists>j. i \<le> j \<and> j < r_nchunks r \<and> boundary_page r j p) \<longleftrightarrow>
    boundary_page r i p \<or> (\<exists>j. Suc i \<le> j \<and> j < r_nchunks r \<and> boundary_page r j p)" for p using i by metis
  show ?case
  proof (cases "r_chunk_start r ! i = ?p \<or> ?p = prev")
    case True
    then have "shared_collect r prev [i..<r_nchunks r] = shared_collect r prev [Suc i..<r_nchunks r]"
      by (simp add: upt Let_def)
    moreover have "\<not> boundary_page r i p \<or> p = prev" for p using True by (auto simp: boundary_page_def)
    moreover have "prev = SIZE_MAX \<or> (\<forall>j. Suc i \<le> j \<longrightarrow> j < r_nchunks r \<longrightarrow> prev \<le> head_page r j)"
      using Suc.prems(3) by auto
    ultimately show ?thesis using Suc.hyps(1) [of "Suc i" prev] Suc.hyps(2) i ex by auto
  next
    case False
    let ?rest = "shared_collect r ?p [Suc i..<r_nchunks r]"
    obtain sp where sp: "shared_collect r prev [i..<r_nchunks r] = sp # ?rest" "sp_page_off sp = ?p"
      using False by (simp add: upt Let_def)
    have "\<forall>j. Suc i \<le> j \<longrightarrow> j < r_nchunks r \<longrightarrow> ?p \<le> head_page r j" using mono by simp
    then have IH: "sorted_wrt (<) (map sp_page_off ?rest)"
      "set (map sp_page_off ?rest) = {p. p \<noteq> ?p \<and> (\<exists>j. Suc i \<le> j \<and> j < r_nchunks r \<and> boundary_page r j p)}"
      using Suc.hyps(1) [of "Suc i" ?p] Suc.hyps(2) i by auto
    have above: "?p < q" if "q \<in> set (map sp_page_off ?rest)" for q
    proof -
      from that obtain j where "q \<noteq> ?p" "Suc i \<le> j" "j < r_nchunks r" "head_page r j = q"
        unfolding IH(2) by (auto simp: boundary_page_def)
      then show ?thesis using mono [of j] by simp
    qed
    have pn: "?p \<noteq> prev" and bp: "boundary_page r i p \<longleftrightarrow> p = ?p" for p
      using False by (auto simp: boundary_page_def)
    have "q \<noteq> prev" if "\<exists>j. Suc i \<le> j \<and> j < r_nchunks r \<and> boundary_page r j q" for q
      using that boundary_not_prev [OF lay i pn Suc.prems(3)] by blast
    then show ?thesis using sp IH above pn bp by (auto simp: ex)
  qed
qed

lemma shared_pages_init_ok:
  assumes lay: "region_layout r" and nil: "r_shared_pages r = []"
  obtains r' where "shared_pages_init r = Inr r'" "shared_static r'"
    "r' = r\<lparr>r_nshared := r_nshared r', r_shared_pages := r_shared_pages r'\<rparr>"
    "\<forall>sp\<in>set (r_shared_pages r'). sp_staged sp = 0 \<and> sp_staging sp = null_scratch \<and> \<not> sp_mapped sp"
proof -
  let ?is = "[1..<r_nchunks r]"
  let ?sps = "shared_collect r SIZE_MAX ?is"
  define r' where "r' = r\<lparr>r_nshared := length ?sps, r_shared_pages := ?sps\<rparr>"
  have fc: "find_chunk (r\<lparr>r_nshared := n\<rparr>) = find_chunk r" "find_chunk r' = find_chunk r" for n
    by (auto simp: find_chunk_def r'_def)
  have col: "shared_collect (r\<lparr>r_nshared := n\<rparr>) prev is = shared_collect r prev is" for n prev "is"
    by (induction "is" arbitrary: prev) (auto simp: Let_def fc(1))
  have triv: "r\<lparr>r_nshared := n, r_shared_pages := []\<rparr> = r\<lparr>r_nshared := n\<rparr>" for n
    using nil by (cases r) simp
  have init: "shared_pages_init r = Inr r'"
    by (cases "?sps = []") (simp_all add: shared_pages_init_def shared_count_collect Let_def r'_def triv col)
  have n1: "1 \<le> r_nchunks r" using region_layoutD(2) [OF lay] by simp
  note pages = conjunct1 [OF shared_collect_pages [OF lay n1]] conjunct2 [OF shared_collect_pages [OF lay n1]]
  have sorted: "sorted_wrt (<) (map sp_page_off ?sps)" using pages(1) [of SIZE_MAX] by simp
  have "head_page r j \<noteq> SIZE_MAX" if "j < r_nchunks r" "boundary_page r j (head_page r j)" for j
    using that region_start_mono(4) [OF lay, of j] region_layoutD(1) [OF lay]
      page_floor_le [of "r_chunk_start r ! j" "r_page_size r"]
    by (auto simp: boundary_page_def simp del: page_floor_le)
  then have set: "set (map sp_page_off ?sps) = {p. shared_at r p}"
    using pages(2) [of SIZE_MAX] by (auto simp: shared_at_def boundary_page_def Suc_le_eq)
  have sh: "shared_at r' p = shared_at r p" "page_last_byte r' p = page_last_byte r p" for p
    by (auto simp: shared_at_def r'_def page_last_byte_def)
  have nth: "shared_at r p \<longleftrightarrow> (\<exists>k<length ?sps. sp_page_off (?sps ! k) = p)" for p
  proof -
    have "shared_at r p \<longleftrightarrow> p \<in> set (map sp_page_off ?sps)" using set by blast
    also have "\<dots> \<longleftrightarrow> (\<exists>k<length ?sps. sp_page_off (?sps ! k) = p)" unfolding in_set_conv_nth by auto
    finally show ?thesis .
  qed
  have "shared_static r'"
    using sorted shared_collect_fields [of _ r SIZE_MAX ?is] nth
    by (auto simp: shared_static_def sh fc Let_def) (auto simp: r'_def sorted_wrt_iff_nth_less)
  moreover have "r' = r\<lparr>r_nshared := r_nshared r', r_shared_pages := r_shared_pages r'\<rparr>" by (simp add: r'_def)
  ultimately show thesis
    using that init shared_collect_fields [of _ r SIZE_MAX ?is] by (auto simp: r'_def)
qed

end
