(* ===== verification/Region_Inv.thy ===== *)
theory Region_Inv
  imports Region
begin

text \<open>
  What a region's memory means: the bytes a reader should see, the memory a region
  owns, and the invariant that ties the bookkeeping of \<open>fc_region\<close> to the page
  tables.  Every address of the region is readable exactly when \<open>page_readable\<close>
  says so, and a populated page holds the derived content.
\<close>

section \<open>Derived content\<close>

definition fill_bytes :: "fc_region \<Rightarrow> uint32_t \<Rightarrow> byte list" where
  "fill_bytes r c = snd (r_fill_chunk r c (chunk_size r c))"

definition fill_touches :: "fc_region \<Rightarrow> uint32_t \<Rightarrow> addr list" where
  "fill_touches r c = fst (r_fill_chunk r c (chunk_size r c))"

text \<open>The byte a reader should see at an offset: the chunk's own byte, zero in the padding.\<close>

definition content :: "fc_region \<Rightarrow> size_t \<Rightarrow> byte" where
  "content r x =
     (if x < r_total_size r
      then fill_bytes r (find_chunk r x) ! (x - r_chunk_start r ! find_chunk r x) else 0)"

text \<open>The contract of \<open>fc_fill_chunk_fn_t\<close>: it fills exactly the bytes it was asked for.\<close>

definition fill_contract :: "fc_region \<Rightarrow> bool" where
  "fill_contract r \<longleftrightarrow> (\<forall>c<r_nchunks r. length (fill_bytes r c) = chunk_size r c)"

section \<open>Fields fixed at creation\<close>

definition static :: "fc_region \<Rightarrow> addr \<times> size_t \<times> size_t \<times> size_t \<times> uint32_t \<times> size_t list \<times> fc_fill_chunk_fn" where
  "static r = (r_base r, r_total_size r, r_mapped_size r, r_page_size r, r_nchunks r, r_chunk_start r, r_fill_chunk r)"

lemma static_fields:
  assumes "static r' = static r"
  shows "r_base r' = r_base r" "r_total_size r' = r_total_size r" "r_mapped_size r' = r_mapped_size r"
    "r_page_size r' = r_page_size r" "r_nchunks r' = r_nchunks r" "r_chunk_start r' = r_chunk_start r"
    "r_fill_chunk r' = r_fill_chunk r"
  using assms by (simp_all add: static_def)

lemma static_cong:
  assumes "static r' = static r"
  shows "find_chunk r' = find_chunk r" "chunk_exclusive_pages r' = chunk_exclusive_pages r"
    "shared_at r' = shared_at r" "contributes r' = contributes r" "page_last_byte r' = page_last_byte r"
    "has_head r' = has_head r" "has_tail r' = has_tail r" "region_layout r' = region_layout r"
    "fill_bytes r' = fill_bytes r" "fill_touches r' = fill_touches r" "fill_contract r' = fill_contract r"
proof -
  note F = static_fields [OF assms]
  show fc: "find_chunk r' = find_chunk r" by (rule ext) (simp add: find_chunk_def F)
  show "chunk_exclusive_pages r' = chunk_exclusive_pages r" by (rule ext) (simp add: chunk_exclusive_pages_def F)
  show "shared_at r' = shared_at r" by (rule ext) (simp add: shared_at_def F)
  show "contributes r' = contributes r" by (intro ext) (simp add: contributes_def F)
  show "page_last_byte r' = page_last_byte r" by (rule ext) (simp add: page_last_byte_def F)
  show hh: "has_head r' = has_head r" by (rule ext) (simp add: has_head_def F)
  show "has_tail r' = has_tail r" by (rule ext) (simp add: has_tail_def F hh)
  show "region_layout r' = region_layout r" by (simp add: region_layout_def F)
  show fb: "fill_bytes r' = fill_bytes r" by (rule ext) (simp add: fill_bytes_def F)
  show "fill_touches r' = fill_touches r" by (rule ext) (simp add: fill_touches_def F)
  show "fill_contract r' = fill_contract r" by (simp add: fill_contract_def fb F)
qed

lemma content_cong:
  assumes "static r' = static r"
  shows "content r' = content r"
  by (rule ext) (simp add: content_def static_cong [OF assms] static_fields [OF assms])

lemmas static_congs = static_fields static_cong content_cong

lemma shared_static_cong:
  assumes "static r' = static r" "shared_static r" "r_nshared r' = r_nshared r"
    "map (\<lambda>sp. (sp_page_off sp, sp_first_chunk sp, sp_last_chunk sp)) (r_shared_pages r') =
     map (\<lambda>sp. (sp_page_off sp, sp_first_chunk sp, sp_last_chunk sp)) (r_shared_pages r)"
  shows "shared_static r'"
proof -
  have len: "length (r_shared_pages r') = length (r_shared_pages r)" using assms(4) by (rule map_eq_imp_length_eq)
  have "sp_page_off (r_shared_pages r' ! k) = sp_page_off (r_shared_pages r ! k) \<and>
      sp_first_chunk (r_shared_pages r' ! k) = sp_first_chunk (r_shared_pages r ! k) \<and>
      sp_last_chunk (r_shared_pages r' ! k) = sp_last_chunk (r_shared_pages r ! k)" if "k < r_nshared r" for k
    using arg_cong [OF assms(4), of "\<lambda>xs. xs ! k"] that assms(2) len by (simp add: shared_static_def)
  then show ?thesis using assms(2,3) len
    by (auto simp: shared_static_def static_cong [OF assms(1)] Let_def)
qed

section \<open>Owned memory\<close>

definition region_range :: "fc_region \<Rightarrow> addr set" where
  "region_range r = {r_base r..<r_base r + r_mapped_size r}"

definition staging_range :: "fc_region \<Rightarrow> nat \<Rightarrow> addr set" where
  "staging_range r k =
     (let a = s_addr (sp_staging (r_shared_pages r ! k)) in if a = 0 then {} else {a..<a + r_page_size r})"

definition staging_ranges :: "fc_region \<Rightarrow> addr set" where
  "staging_ranges r = (\<Union>k<r_nshared r. staging_range r k)"

lemma staging_ranges_cong:
  assumes "r_shared_pages r' = r_shared_pages r" "r_nshared r' = r_nshared r" "r_page_size r' = r_page_size r"
  shows "staging_ranges r' = staging_ranges r"
  by (simp add: staging_ranges_def staging_range_def assms Let_def)

definition footprint :: "fc_region \<Rightarrow> addr set" where
  "footprint r = region_range r \<union> staging_ranges r"

text \<open>
  \<open>vm_frame W m F m' F'\<close>: between two memories only the always-mapped range \<open>W\<close>
  and the mapped sets \<open>F\<close> (before) and \<open>F'\<close> (after) differ; what was gained
  was free, what was lost is free again.
\<close>

definition vm_frame :: "addr set \<Rightarrow> mem \<Rightarrow> addr set \<Rightarrow> mem \<Rightarrow> addr set \<Rightarrow> bool" where
  "vm_frame W m F m' F' \<longleftrightarrow> (\<forall>x. x \<notin> W \<union> F \<union> F' \<longrightarrow> m' x = m x) \<and>
     (\<forall>x\<in>F' - F. m x = None) \<and> (\<forall>x\<in>F - F'. m' x = None)"

lemma vm_frame_refl: "vm_frame W m F m F"
  by (simp add: vm_frame_def)

lemma vm_frame_mono: "vm_frame W m F m' F' \<Longrightarrow> W \<subseteq> V \<Longrightarrow> vm_frame V m F m' F'"
  by (auto simp: vm_frame_def)

lemma vm_frame_same: "vm_frame W m F m' F' \<Longrightarrow> x \<notin> W \<Longrightarrow> x \<notin> F \<Longrightarrow> m x \<noteq> None \<Longrightarrow> m' x = m x"
  by (cases "x \<in> F'") (auto simp: vm_frame_def)

lemma vm_frame_trans:
  assumes "vm_frame W m F m' F'" "vm_frame W m' F' m'' F''" "W \<inter> F = {}" "W \<inter> F' = {}" "W \<inter> F'' = {}"
  shows "vm_frame W m F m'' F''"
  unfolding vm_frame_def
proof (intro conjI allI ballI impI)
  fix x
  assume "x \<notin> W \<union> F \<union> F''"
  then show "m'' x = m x" using assms(1,2) by (cases "x \<in> F'") (auto simp: vm_frame_def)
next
  fix x
  assume "x \<in> F'' - F"
  then show "m x = None" using assms by (cases "x \<in> F'") (auto simp: vm_frame_def)
next
  fix x
  assume "x \<in> F - F''"
  then show "m'' x = None" using assms by (cases "x \<in> F'") (auto simp: vm_frame_def)
qed

section \<open>The invariant\<close>

text \<open>The byte of a staging page when the chunks in \<open>T\<close> have staged into it.\<close>

definition staged_byte :: "fc_region \<Rightarrow> nat set \<Rightarrow> size_t \<Rightarrow> byte" where
  "staged_byte r T x = (if x < r_total_size r \<and> find_chunk r x \<notin> T then 0 else content r x)"

definition page_stage_ok :: "fc_region \<Rightarrow> mem \<Rightarrow> nat set \<Rightarrow> nat \<Rightarrow> bool" where
  "page_stage_ok r m T k \<longleftrightarrow>
     (let sp = r_shared_pages r ! k; p = sp_page_off sp; a = s_addr (sp_staging sp) in
      sp_staged sp = card {c \<in> T. contributes r c p} \<and>
      (sp_mapped sp \<longleftrightarrow> sp_staged sp = sp_last_chunk sp - sp_first_chunk sp + 1) \<and>
      (a = 0 \<longleftrightarrow> sp_mapped sp \<or> sp_staged sp = 0) \<and>
      (a \<noteq> 0 \<longrightarrow> s_size (sp_staging sp) = r_page_size r \<and> r_page_size r dvd a \<and>
         (\<forall>i<r_page_size r. m (a + i) = Some (PROT_RW, staged_byte r T (p + i)))))"

definition shared_cells :: "fc_region \<Rightarrow> mem \<Rightarrow> nat \<Rightarrow> bool" where
  "shared_cells r m k \<longleftrightarrow>
     (let sp = r_shared_pages r ! k; p = sp_page_off sp in
      \<forall>i<r_page_size r. \<exists>b. m (r_base r + p + i) = Some (if sp_mapped sp then PROT_READ else PROT_NONE, b) \<and>
        (sp_mapped sp \<longrightarrow> b = content r (p + i)))"

definition excl_cells :: "fc_region \<Rightarrow> mem \<Rightarrow> nat \<Rightarrow> bool" where
  "excl_cells r m c \<longleftrightarrow>
     (\<forall>x. fst (chunk_exclusive_pages r c) \<le> x \<longrightarrow> x < snd (chunk_exclusive_pages r c) \<longrightarrow>
        (\<exists>b. m (r_base r + x) = Some (if r_initialized r ! c \<and> \<not> r_lru_cold r ! c then PROT_READ else PROT_NONE, b) \<and>
          (r_initialized r ! c \<longrightarrow> b = content r x)))"

text \<open>The part of the invariant that no memory is involved in.\<close>

definition region_wf :: "os \<Rightarrow> fc_region \<Rightarrow> bool" where
  "region_wf os r \<longleftrightarrow> region_layout r \<and> shared_static r \<and> fill_contract r \<and>
     r_page_size r = os_page_size os \<and> r_page_size r dvd r_base r \<and> 0 < r_base r \<and>
     r_base r + r_mapped_size r < SIZE_RANGE \<and> r_nchunks r < UINT32_RANGE \<and>
     length (r_initialized r) = r_nchunks r \<and> length (r_chunk_staged r) = r_nchunks r \<and>
     length (r_lru_resident r) = r_nchunks r \<and> length (r_lru_cold r) = r_nchunks r \<and>
     length (r_chunk_faults_total r) = r_nchunks r"

abbreviation staged_set :: "fc_region \<Rightarrow> nat set" where
  "staged_set r \<equiv> {c. c < r_nchunks r \<and> r_chunk_staged r ! c}"

definition staging_disjoint :: "fc_region \<Rightarrow> bool" where
  "staging_disjoint r \<longleftrightarrow>
     (\<forall>k<r_nshared r. staging_range r k \<inter> region_range r = {} \<and>
        (\<forall>k'<r_nshared r. k \<noteq> k' \<longrightarrow> staging_range r k \<inter> staging_range r k' = {}))"

definition region_inv :: "os \<Rightarrow> fc_region \<Rightarrow> mem \<Rightarrow> bool" where
  "region_inv os r m \<longleftrightarrow> region_wf os r \<and>
     (\<forall>c<r_nchunks r. r_initialized r ! c \<longrightarrow> has_head r c \<or> has_tail r c \<longrightarrow> r_chunk_staged r ! c) \<and>
     (\<forall>k<r_nshared r. page_stage_ok r m (staged_set r) k \<and> shared_cells r m k) \<and>
     (\<forall>c<r_nchunks r. excl_cells r m c) \<and> staging_disjoint r"

end
