(* ===== verification/Fill.thy ===== *)
theory Fill
  imports Region_Inv
begin

text \<open>
  Filling one chunk: the callback runs on a private scratch mapping, the chunk's
  slices of its shared pages go to staging pages, and its exclusive pages are
  published over the region.  This theory has the part of
  \<open>fill_chunk_locked\<close> that works on one region and on memory; the queue and
  the counters of the pool follow in theory \<open>Resolve\<close>.
\<close>

section \<open>Definitions\<close>

definition nested_fault :: abort where
  "nested_fault = Misuse ''fault raised while fill_chunk() was still resolving another fault''"

definition install_shared_page :: "os \<Rightarrow> fc_region \<Rightarrow> nat \<Rightarrow> mem \<Rightarrow> (fc_region \<times> mem) res" where
  "install_shared_page os r k m =
     (let sp = r_shared_pages r ! k in
      res_bind (vm_scratch_seal os m (sp_staging sp)) (\<lambda>m.
      res_bind (vm_scratch_publish os m (sp_staging sp) 0 (r_page_size r) (r_base r + sp_page_off sp)) (\<lambda>m.
      Inr (r\<lparr>r_shared_pages := (r_shared_pages r)[k := sp\<lparr>sp_staging := (sp_staging sp)\<lparr>s_addr := 0\<rparr>,
             sp_mapped := True\<rparr>]\<rparr>, m))))"

text \<open>A fault of the \<open>memcpy\<close> would re-enter the handler and be reported as nested.\<close>

definition stage_into_shared_page ::
    "os \<Rightarrow> fc_region \<Rightarrow> nat \<Rightarrow> uint32_t \<Rightarrow> addr \<Rightarrow> size_t \<Rightarrow> mem \<Rightarrow> (fc_region \<times> mem) res" where
  "stage_into_shared_page os r k c scratch span_lo m =
     (let sp = r_shared_pages r ! k in
      fc_assert ''!sp->mapped'' (\<not> sp_mapped sp)
      (res_bind (if s_addr (sp_staging sp) = 0 then vm_scratch_create os m (r_page_size r)
                 else Inr (sp_staging sp, m)) (\<lambda>(staging, m).
       let page_end = sp_page_off sp + r_page_size r;
           lo = (if r_chunk_start r ! c > sp_page_off sp then r_chunk_start r ! c else sp_page_off sp);
           hi = (if r_chunk_start r ! (c + 1) < page_end then r_chunk_start r ! (c + 1) else page_end)
       in case mem_copy m (s_addr staging + (lo - sp_page_off sp)) (scratch + (lo - span_lo)) (hi - lo) of
            None \<Rightarrow> Inl nested_fault
          | Some m \<Rightarrow>
              let sp = sp\<lparr>sp_staging := staging, sp_staged := u32_add (sp_staged sp) 1\<rparr>;
                  r = r\<lparr>r_chunk_staged := (r_chunk_staged r)[c := True],
                        r_shared_pages := (r_shared_pages r)[k := sp]\<rparr>
              in if sp_staged sp = sp_last_chunk sp - sp_first_chunk sp + 1
                 then install_shared_page os r k m else Inr (r, m))))"

text \<open>
  The call of the user's callback, made while \<open>g_resolving_fault\<close> is set: touching
  an unreadable address, or writing outside writable memory, is a nested fault.
\<close>

definition call_fill_chunk :: "fc_region \<Rightarrow> uint32_t \<Rightarrow> addr \<Rightarrow> size_t \<Rightarrow> mem \<Rightarrow> mem res" where
  "call_fill_chunk r c start size' m =
     (case r_fill_chunk r c size' of (touched, bytes) \<Rightarrow>
        if \<forall>a\<in>set touched. mem_load m a \<noteq> None
        then case mem_store m start bytes of None \<Rightarrow> Inl nested_fault | Some m \<Rightarrow> Inr m
        else Inl nested_fault)"

definition stage_chunk :: "os \<Rightarrow> fc_region \<Rightarrow> uint32_t \<Rightarrow> addr \<Rightarrow> mem \<Rightarrow> (fc_region \<times> mem) res" where
  "stage_chunk os r c scratch m =
     (let start = r_chunk_start r ! c;
          end' = r_chunk_start r ! (c + 1);
          span_lo = page_floor start (r_page_size r);
          has_head = (start mod r_page_size r \<noteq> 0);
          tail_page = page_floor end' (r_page_size r);
          has_tail = (end' mod r_page_size r \<noteq> 0 \<and> c + 1 < r_nchunks r);
          has_tail = (if has_head \<and> has_tail \<and> tail_page = span_lo then False else has_tail)
      in if r_chunk_staged r ! c then Inr (r, m)
         else
           res_bind (if has_head
                     then case find_shared_page r span_lo of
                            None \<Rightarrow> Inl (Segv 0)
                          | Some k \<Rightarrow> stage_into_shared_page os r k c scratch span_lo m
                     else Inr (r, m)) (\<lambda>(r, m).
           if has_tail
           then case find_shared_page r tail_page of
                  None \<Rightarrow> Inl (Segv 0)
                | Some k \<Rightarrow> stage_into_shared_page os r k c scratch span_lo m
           else Inr (r, m)))"

definition publish_exclusive :: "os \<Rightarrow> fc_region \<Rightarrow> uint32_t \<Rightarrow> vm_scratch \<Rightarrow> mem \<Rightarrow> mem res" where
  "publish_exclusive os r c scratch m =
     (let span_lo = page_floor (r_chunk_start r ! c) (r_page_size r);
          span_hi = page_ceil (r_chunk_start r ! (c + 1)) (r_page_size r);
          span_len = span_hi - span_lo
      in res_bind (vm_scratch_seal os m scratch) (\<lambda>m.
         case chunk_exclusive_pages r c of (excl_lo, excl_hi) \<Rightarrow>
           if excl_hi > excl_lo then
             res_bind (vm_scratch_publish os m scratch (excl_lo - span_lo) (excl_hi - excl_lo) (r_base r + excl_lo)) (\<lambda>m.
             res_bind (if excl_lo > span_lo then vm_scratch_discard os m scratch 0 (excl_lo - span_lo) else Inr m) (\<lambda>m.
             if excl_hi < span_hi then vm_scratch_discard os m scratch (excl_hi - span_lo) (span_hi - excl_hi)
             else Inr m))
           else vm_scratch_discard os m scratch 0 span_len))"

definition fill_chunk_region :: "os \<Rightarrow> fc_region \<Rightarrow> uint32_t \<Rightarrow> mem \<Rightarrow> (fc_region \<times> mem) res" where
  "fill_chunk_region os r c m =
     (let start = r_chunk_start r ! c;
          end' = r_chunk_start r ! (c + 1);
          span_lo = page_floor start (r_page_size r);
          span_hi = page_ceil end' (r_page_size r)
      in res_bind (vm_scratch_create os m (span_hi - span_lo)) (\<lambda>(scratch, m).
         res_bind (call_fill_chunk r c (s_addr scratch + (start - span_lo)) (end' - start) m) (\<lambda>m.
         let r = r\<lparr>r_initialized := (r_initialized r)[c := True]\<rparr> in
         res_bind (stage_chunk os r c (s_addr scratch) m) (\<lambda>(r, m).
         res_bind (publish_exclusive os r c scratch m) (\<lambda>m.
         Inr (r\<lparr>r_chunk_faults_total := (r_chunk_faults_total r)[c := size_add (r_chunk_faults_total r ! c) 1],
                r_fault_events_total := size_add (r_fault_events_total r) 1\<rparr>, m))))))"

section \<open>Staging into one page\<close>

text \<open>The errors a fill may end with: no room for a mapping, or a misbehaving callback.\<close>

definition fill_error :: "abort \<Rightarrow> bool" where
  "fill_error e \<longleftrightarrow> (\<exists>w. e = Map_failed w) \<or> e = nested_fault"

text \<open>A callback that touches nothing but what it is to fill can only run into the first.\<close>

definition map_error :: "abort \<Rightarrow> bool" where
  "map_error e \<longleftrightarrow> (\<exists>w. e = Map_failed w)"

definition quiet_fill :: "fc_region \<Rightarrow> bool" where
  "quiet_fill r \<longleftrightarrow> (\<forall>c<r_nchunks r. fst (r_fill_chunk r c (chunk_size r c)) = [])"

definition fill_error_of :: "fc_region \<Rightarrow> abort \<Rightarrow> bool" where
  "fill_error_of r e \<longleftrightarrow> map_error e \<or> e = nested_fault \<and> \<not> quiet_fill r"

lemma fill_error_of_weaken [intro]: "map_error e \<Longrightarrow> fill_error_of r e" "fill_error_of r e \<Longrightarrow> fill_error e"
  by (auto simp: fill_error_of_def map_error_def fill_error_def)

lemma fill_error_of_cong:
  assumes "static r' = static r"
  shows "fill_error_of r' = fill_error_of r" "quiet_fill r' = quiet_fill r"
  by (auto simp: fun_eq_iff fill_error_of_def quiet_fill_def static_congs [OF assms])

lemma mem_copy_ok:
  assumes "\<And>i. i < n \<Longrightarrow> \<exists>p. p \<noteq> PROT_NONE \<and> m (src + i) = Some (p, f i)"
    and "\<And>i. i < n \<Longrightarrow> mem_writable m (dst + i)"
  shows "mem_copy m dst src n = Some (\<lambda>x. if dst \<le> x \<and> x < dst + n then Some (PROT_RW, f (x - dst)) else m x)"
proof -
  have load: "\<forall>x\<in>{src..<src + n}. mem_load m x \<noteq> None"
  proof
    fix x assume "x \<in> {src..<src + n}"
    then have "x - src < n" "src + (x - src) = x" by auto
    then show "mem_load m x \<noteq> None" using assms(1) [of "x - src"] by (auto simp: mem_load_def)
  qed
  have "mem_writable m x" if "dst \<le> x" "x < dst + n" for x
    using assms(2) [of "x - dst"] that by simp
  then have "mem_store m dst (mem_bytes m src n) = Some (mem_put m dst (mem_bytes m src n))"
    by (intro mem_store_ok) simp_all
  moreover have "mem_bytes m src n ! i = f i" if "i < n" for i
    using assms(1) [OF that] that by (auto intro: mem_bytes_nth)
  ultimately show ?thesis
    using load by (auto simp: mem_copy_def mem_put_def fun_eq_iff)
qed

lemma region_wfD:
  assumes "region_wf os r"
  shows "region_layout r" "shared_static r" "fill_contract r" "r_page_size r = os_page_size os"
    "0 < r_page_size r" "r_page_size r dvd r_base r" "0 < r_base r" "r_base r + r_mapped_size r < SIZE_RANGE"
    "length (r_shared_pages r) = r_nshared r"
  using assms region_layoutD(1) [of r] by (auto simp: region_wf_def shared_static_def)

lemma region_wf_cong:
  assumes "region_wf os r" "static r' = static r" "shared_static r'"
    "length (r_initialized r') = r_nchunks r" "length (r_chunk_staged r') = r_nchunks r"
    "length (r_lru_resident r') = r_nchunks r" "length (r_lru_cold r') = r_nchunks r"
    "length (r_chunk_faults_total r') = r_nchunks r"
  shows "region_wf os r'"
  using assms(1,3-) by (auto simp: region_wf_def static_congs [OF assms(2)])

text \<open>The bytes of a staging page: it starts out as zeros and gains one slice per contributor.\<close>

lemma staged_byte_none:
  assumes lay: "region_layout r" and sh: "shared_at r p" and none: "\<And>c. c \<in> T \<Longrightarrow> \<not> contributes r c p" and i: "i < r_page_size r"
  shows "staged_byte r T (p + i) = 0"
proof (cases "p + i < r_total_size r")
  case True
  have "r_page_size r dvd p" using shared_at_less [OF lay sh] by metis
  then have "page_floor (p + i) (r_page_size r) = p"
    using page_floor_unique [of "r_page_size r" p "p + i"] region_layoutD(1) [OF lay] i by simp
  then have "contributes r (find_chunk r (p + i)) p" using byte_contributes [OF lay True] by simp
  then show ?thesis using none True by (auto simp: staged_byte_def)
qed (simp add: staged_byte_def content_def)

lemma staged_byte_all:
  assumes lay: "region_layout r" and sh: "shared_at r p" and all: "\<And>c. contributes r c p \<Longrightarrow> c \<in> T" and i: "i < r_page_size r"
  shows "staged_byte r T (p + i) = content r (p + i)"
proof (cases "p + i < r_total_size r")
  case True
  have "r_page_size r dvd p" using shared_at_less [OF lay sh] by metis
  then have "page_floor (p + i) (r_page_size r) = p"
    using page_floor_unique [of "r_page_size r" p "p + i"] region_layoutD(1) [OF lay] i by simp
  then have "contributes r (find_chunk r (p + i)) p" using byte_contributes [OF lay True] by simp
  then show ?thesis using all by (simp add: staged_byte_def)
qed (simp add: staged_byte_def)

lemma staged_byte_insert:
  assumes lay: "region_layout r" and con: "contributes r c p" and i: "i < r_page_size r"
    and lo: "lo = (if r_chunk_start r ! c > p then r_chunk_start r ! c else p)"
    and hi: "hi = (if r_chunk_start r ! Suc c < p + r_page_size r then r_chunk_start r ! Suc c else p + r_page_size r)"
  shows "staged_byte r (insert c T) (p + i) =
    (if lo \<le> p + i \<and> p + i < hi then content r (p + i) else staged_byte r T (p + i))"
proof -
  have c: "c < r_nchunks r" using con by (simp add: contributes_def)
  have "find_chunk r (p + i) = c \<and> p + i < r_total_size r" if "lo \<le> p + i" "p + i < hi"
    using that inproc.find_eq [OF lay c, of "p + i"] region_start_mono(3) [OF lay, of "Suc c"] c
    by (auto simp: lo hi split: if_splits)
  moreover have "find_chunk r (p + i) \<noteq> c" if "\<not> (lo \<le> p + i \<and> p + i < hi)" "p + i < r_total_size r"
    using that inproc.find_in_range [OF lay, of "p + i"] region_layoutD(5) [OF lay] i by (auto simp: lo hi split: if_splits)
  ultimately show ?thesis by (auto simp: staged_byte_def)
qed

lemma contributors_card:
  assumes lay: "region_layout r" and st: "shared_static r" and k: "k < r_nshared r" and con: "contributes r c (sp_page_off (r_shared_pages r ! k))"
  shows "card {c. contributes r c (sp_page_off (r_shared_pages r ! k))} =
    sp_last_chunk (r_shared_pages r ! k) - sp_first_chunk (r_shared_pages r ! k) + 1"
proof -
  let ?sp = "r_shared_pages r ! k"
  have "{c. contributes r c (sp_page_off ?sp)} = {sp_first_chunk ?sp..sp_last_chunk ?sp}"
    by (rule set_eqI) (simp add: shared_static_contributes(1) [OF lay st k])
  moreover have "sp_first_chunk ?sp \<le> sp_last_chunk ?sp" using con shared_static_contributes(1) [OF lay st k, of c] by simp
  ultimately show ?thesis by simp
qed

text \<open>A staging page is in place after the allocation step, whether it was there or not.\<close>

lemma stage_alloc:
  assumes wf: "region_wf os r" and k: "k < r_nshared r" and ok: "page_stage_ok r m T k"
    and nm: "\<not> sp_mapped (r_shared_pages r ! k)" and fin: "T \<subseteq> {..<r_nchunks r}"
  defines "sp \<equiv> r_shared_pages r ! k"
  shows "res_ok map_error (\<lambda>(stg, m1). 0 < s_addr stg \<and> s_size stg = r_page_size r \<and> r_page_size r dvd s_addr stg \<and>
      (\<forall>i<r_page_size r. m1 (s_addr stg + i) = Some (PROT_RW, staged_byte r T (sp_page_off sp + i))) \<and>
      vm_frame {} m (staging_range r k) m1 {s_addr stg..<s_addr stg + r_page_size r})
    (if s_addr (sp_staging sp) = 0 then vm_scratch_create os m (r_page_size r) else Inr (sp_staging sp, m))"
proof (cases "s_addr (sp_staging sp) = 0")
  case False
  then show ?thesis using ok by (auto simp: page_stage_ok_def sp_def Let_def staging_range_def vm_frame_refl)
next
  case True
  note W = region_wfD [OF wf]
  have "sp_staged sp = 0" using ok True nm by (simp add: page_stage_ok_def sp_def Let_def)
  then have "card {c \<in> T. contributes r c (sp_page_off sp)} = 0" using ok by (simp add: page_stage_ok_def sp_def Let_def)
  moreover have "finite {c \<in> T. contributes r c (sp_page_off sp)}" using fin by (auto intro: finite_subset [of _ "{..<r_nchunks r}"])
  ultimately have none: "\<not> contributes r c (sp_page_off sp)" if "c \<in> T" for c using that by auto
  have "staged_byte r T (sp_page_off sp + i) = 0" if "i < r_page_size r" for i
    using staged_byte_none [OF W(1) shared_static_contributes(2) [OF W(1,2) k] _ that] none by (simp add: sp_def)
  moreover have "staging_range r k = {}" using True by (simp add: staging_range_def sp_def)
  ultimately have "res_ok (\<lambda>e. \<exists>w. e = Map_failed w) (\<lambda>(stg, m1). 0 < s_addr stg \<and> s_size stg = r_page_size r \<and> r_page_size r dvd s_addr stg \<and>
      (\<forall>i<r_page_size r. m1 (s_addr stg + i) = Some (PROT_RW, staged_byte r T (sp_page_off sp + i))) \<and>
      vm_frame {} m (staging_range r k) m1 {s_addr stg..<s_addr stg + r_page_size r}) (vm_scratch_create os m (r_page_size r))"
    using posix.create_law [of os "r_page_size r" m] W(4,5)
    by (auto simp: vm_page_size_def fresh_range_def mem_free_def vm_frame_def elim!: res_ok_mono)
  then show ?thesis using True by (auto simp: map_error_def elim: res_ok_weaken)
qed

lemma install_page:
  assumes wf: "region_wf os r" and k: "k < r_nshared r"
  defines "sp \<equiv> r_shared_pages r ! k"
  defines "p \<equiv> sp_page_off sp" and "a \<equiv> s_addr (sp_staging sp)"
  assumes stg: "0 < a" "s_size (sp_staging sp) = r_page_size r" "r_page_size r dvd a"
    "\<forall>i<r_page_size r. m (a + i) = Some (PROT_RW, content r (p + i))"
    and disj: "{a..<a + r_page_size r} \<inter> region_range r = {}"
  obtains m' where "install_shared_page os r k m =
      Inr (r\<lparr>r_shared_pages := (r_shared_pages r)[k := sp\<lparr>sp_staging := (sp_staging sp)\<lparr>s_addr := 0\<rparr>, sp_mapped := True\<rparr>]\<rparr>, m')"
    "\<And>i. i < r_page_size r \<Longrightarrow> m' (r_base r + p + i) = Some (PROT_READ, content r (p + i))"
    "vm_frame {r_base r + p..<r_base r + p + r_page_size r} m {a..<a + r_page_size r} m' {}"
proof -
  note W = region_wfD [OF wf]
  let ?ps = "r_page_size r" and ?t = "r_base r + p"
  have sh: "shared_at r p" using shared_static_contributes(2) [OF W(1,2) k] by (simp add: p_def sp_def)
  have dvd: "?ps dvd p" and fit: "p + ?ps \<le> r_mapped_size r" using shared_at_less [OF W(1) sh] by metis+
  have ranges: "a + ?ps \<le> ?t \<or> ?t + ?ps \<le> a"
  proof (rule ccontr)
    assume "\<not> ?thesis"
    then have "max a ?t \<in> {a..<a + ?ps} \<inter> region_range r" using fit W(5) by (auto simp: region_range_def)
    then show False using disj by simp
  qed
  have mapped: "mem_mapped m a ?ps"
  proof (rule mem_mappedI)
    fix x assume "a \<le> x" "x < a + ?ps"
    then show "m x \<noteq> None" using stg(4) [rule_format, of "x - a"] by simp
  qed
  define m' where "m' = (\<lambda>x. if ?t \<le> x \<and> x < ?t + ?ps then map_option (\<lambda>(_, b). (PROT_READ, b)) (m (a + (x - ?t)))
         else if a \<le> x \<and> x < a + ?ps then None else m x)"
  have "res_bind (vm_scratch_seal os m (sp_staging sp)) (\<lambda>m. vm_scratch_publish os m (sp_staging sp) 0 ?ps ?t) = Inr m'"
    using posix.publish_piece [of os "sp_staging sp" ?ps 0 ?ps ?t m] stg(1-3) W(4,5,6) dvd mapped ranges
    by (simp add: a_def [symmetric] m'_def vm_page_size_def page_range_def res_bind_eq_Inr cong: if_cong)
  then have "install_shared_page os r k m =
      Inr (r\<lparr>r_shared_pages := (r_shared_pages r)[k := sp\<lparr>sp_staging := (sp_staging sp)\<lparr>s_addr := 0\<rparr>, sp_mapped := True\<rparr>]\<rparr>, m')"
    by (auto simp: install_shared_page_def sp_def [symmetric] p_def [symmetric] res_bind_eq_Inr Let_def)
  moreover have "m' (?t + i) = Some (PROT_READ, content r (p + i))" if "i < ?ps" for i
    using that stg(4) by (simp add: m'_def)
  moreover have "vm_frame {?t..<?t + ?ps} m {a..<a + ?ps} m' {}"
    using ranges by (auto simp: vm_frame_def m'_def)
  ultimately show thesis by (rule that)
qed

lemma stage_copy:
  assumes lay: "region_layout r" and con: "contributes r c p" and span: "span_lo \<le> r_chunk_start r ! c"
    and lo: "lo = (if r_chunk_start r ! c > p then r_chunk_start r ! c else p)"
    and hi: "hi = (if r_chunk_start r ! Suc c < p + r_page_size r then r_chunk_start r ! Suc c else p + r_page_size r)"
    and stg: "\<forall>i<r_page_size r. m (a + i) = Some (PROT_RW, staged_byte r T (p + i))"
    and scr: "\<And>x. r_chunk_start r ! c \<le> x \<Longrightarrow> x < r_chunk_start r ! Suc c \<Longrightarrow>
      m (scr + (x - span_lo)) = Some (PROT_RW, content r x)"
  obtains m' where "mem_copy m (a + (lo - p)) (scr + (lo - span_lo)) (hi - lo) = Some m'"
    "\<forall>i<r_page_size r. m' (a + i) = Some (PROT_RW, staged_byte r (insert c T) (p + i))"
    "\<And>x. x \<notin> {a..<a + r_page_size r} \<Longrightarrow> m' x = m x"
proof -
  have b: "p \<le> lo" "r_chunk_start r ! c \<le> lo" "lo < hi" "hi \<le> p + r_page_size r" "hi \<le> r_chunk_start r ! Suc c"
    using con layout_size_pos region_start_mono(1) [OF lay, of c "Suc c"] region_layoutD(1) [OF lay]
    by (auto simp: lo hi contributes_def)
  let ?m' = "\<lambda>x. if a + (lo - p) \<le> x \<and> x < a + (lo - p) + (hi - lo)
    then Some (PROT_RW, content r (lo + (x - (a + (lo - p))))) else m x"
  have "mem_copy m (a + (lo - p)) (scr + (lo - span_lo)) (hi - lo) = Some ?m'"
  proof (rule mem_copy_ok)
    fix i assume i: "i < hi - lo"
    have e: "scr + (lo - span_lo) + i = scr + ((lo + i) - span_lo)" using b span by simp
    have "m (scr + ((lo + i) - span_lo)) = Some (PROT_RW, content r (lo + i))"
      using scr [of "lo + i"] b i by simp
    then show "\<exists>q. q \<noteq> PROT_NONE \<and> m (scr + (lo - span_lo) + i) = Some (q, content r (lo + i))"
      unfolding e by blast
    have "lo - p + i < r_page_size r" using b i by auto
    then show "mem_writable m (a + (lo - p) + i)" using stg by (simp add: mem_writable_def add.assoc)
  qed
  moreover have "?m' (a + i) = Some (PROT_RW, staged_byte r (insert c T) (p + i))" if i: "i < r_page_size r" for i
  proof -
    have iff: "a + (lo - p) \<le> a + i \<and> a + i < a + (lo - p) + (hi - lo) \<longleftrightarrow> lo \<le> p + i \<and> p + i < hi"
      using b by auto
    have eq: "lo + (a + i - (a + (lo - p))) = p + i" if "lo \<le> p + i" using b that by simp
    show ?thesis
      by (simp only: iff staged_byte_insert [OF lay con i lo hi]) (use stg i eq in \<open>auto simp: add.commute [of i p]\<close>)
  qed
  moreover have "?m' x = m x" if "x \<notin> {a..<a + r_page_size r}" for x using b that by auto
  ultimately show thesis using that [of ?m'] by blast
qed

definition stage_post :: "fc_region \<Rightarrow> mem \<Rightarrow> nat set \<Rightarrow> nat \<Rightarrow> uint32_t \<Rightarrow> fc_region \<times> mem \<Rightarrow> bool" where
  "stage_post r m T k c = (\<lambda>(r', m'). \<exists>sp'.
     r' = r\<lparr>r_chunk_staged := (r_chunk_staged r)[c := True], r_shared_pages := (r_shared_pages r)[k := sp']\<rparr> \<and>
     sp_page_off sp' = sp_page_off (r_shared_pages r ! k) \<and>
     sp_first_chunk sp' = sp_first_chunk (r_shared_pages r ! k) \<and>
     sp_last_chunk sp' = sp_last_chunk (r_shared_pages r ! k) \<and>
     page_stage_ok r' m' (insert c T) k \<and> shared_cells r' m' k \<and>
     staging_range r' k \<inter> region_range r = {} \<and>
     vm_frame {r_base r + sp_page_off sp'..<r_base r + sp_page_off sp' + r_page_size r}
       m (staging_range r k) m' (staging_range r' k))"

lemma contributors_insert:
  fixes n :: nat
  assumes "T \<subseteq> {..<n}" "c \<notin> T" "Q c"
  shows "card {d \<in> insert c T. Q d} = Suc (card {d \<in> T. Q d})"
proof -
  have "{d \<in> insert c T. Q d} = insert c {d \<in> T. Q d}" using assms(3) by auto
  moreover have "finite {d \<in> T. Q d}" by (rule finite_subset [of _ "{..<n}"]) (use assms(1) in auto)
  ultimately show ?thesis using assms(2) by simp
qed

lemma contributors_complete:
  assumes lay: "region_layout r" and st: "shared_static r" and k: "k < r_nshared r" and fin: "T \<subseteq> {..<r_nchunks r}"
  defines "sp \<equiv> r_shared_pages r ! k"
  assumes con: "contributes r c (sp_page_off sp)"
  shows "card {d \<in> T. contributes r d (sp_page_off sp)} = sp_last_chunk sp - sp_first_chunk sp + 1 \<longleftrightarrow>
    (\<forall>d. contributes r d (sp_page_off sp) \<longrightarrow> d \<in> T)"
    and "card {d \<in> T. contributes r d (sp_page_off sp)} \<le> sp_last_chunk sp - sp_first_chunk sp + 1"
    and "sp_last_chunk sp < r_nchunks r"
proof -
  let ?all = "{d. contributes r d (sp_page_off sp)}" and ?in = "{d \<in> T. contributes r d (sp_page_off sp)}"
  have card: "card ?all = sp_last_chunk sp - sp_first_chunk sp + 1"
    using contributors_card [OF lay st k] con by (simp add: sp_def)
  have finall: "finite ?all" by (rule finite_subset [of _ "{..<r_nchunks r}"]) (auto simp: contributes_def)
  have sub: "?in \<subseteq> ?all" by auto
  show "card ?in = sp_last_chunk sp - sp_first_chunk sp + 1 \<longleftrightarrow> (\<forall>d. contributes r d (sp_page_off sp) \<longrightarrow> d \<in> T)"
  proof
    assume "card ?in = sp_last_chunk sp - sp_first_chunk sp + 1"
    then have "?in = ?all" using card card_subset_eq [OF finall sub] by simp
    then show "\<forall>d. contributes r d (sp_page_off sp) \<longrightarrow> d \<in> T" by blast
  next
    assume "\<forall>d. contributes r d (sp_page_off sp) \<longrightarrow> d \<in> T"
    then have "?in = ?all" by blast
    then show "card ?in = sp_last_chunk sp - sp_first_chunk sp + 1" using card by simp
  qed
  show "card ?in \<le> sp_last_chunk sp - sp_first_chunk sp + 1" using card_mono [OF finall sub] card by simp
  have "contributes r (sp_last_chunk sp) (sp_page_off sp)"
    using con shared_static_contributes(1) [OF lay st k] by (simp add: sp_def)
  then show "sp_last_chunk sp < r_nchunks r" by (simp add: contributes_def)
qed

definition staging_in_place :: "fc_region \<Rightarrow> mem \<Rightarrow> nat set \<Rightarrow> size_t \<Rightarrow> vm_scratch \<Rightarrow> bool" where
  "staging_in_place r m T p stg \<longleftrightarrow> 0 < s_addr stg \<and> s_size stg = r_page_size r \<and> r_page_size r dvd s_addr stg \<and>
     (\<forall>i<r_page_size r. m (s_addr stg + i) = Some (PROT_RW, staged_byte r T (p + i)))"

abbreviation staging_area :: "fc_region \<Rightarrow> vm_scratch \<Rightarrow> addr set" where
  "staging_area r stg \<equiv> {s_addr stg..<s_addr stg + r_page_size r}"

abbreviation staged_region :: "fc_region \<Rightarrow> nat \<Rightarrow> uint32_t \<Rightarrow> shared_page \<Rightarrow> fc_region" where
  "staged_region r k c sp \<equiv>
     r\<lparr>r_chunk_staged := (r_chunk_staged r)[c := True], r_shared_pages := (r_shared_pages r)[k := sp]\<rparr>"

lemma staged_byte_cong:
  assumes "static r' = static r"
  shows "staged_byte r' = staged_byte r"
  by (intro ext) (simp add: staged_byte_def static_congs [OF assms])

text \<open>After a slice has been copied in: the page waits for the others, or goes up.\<close>

lemma stage_pending:
  assumes wf: "region_wf os r" and k: "k < r_nshared r" and cells: "shared_cells r m k"
  defines "sp \<equiv> r_shared_pages r ! k"
  defines "p \<equiv> sp_page_off sp"
  assumes nm: "\<not> sp_mapped sp"
    and place: "staging_in_place r m2 (insert c T) p stg" and disj: "staging_range r k \<inter> region_range r = {}" "staging_area r stg \<inter> region_range r = {}"
    and fr: "vm_frame {} m (staging_range r k) m2 (staging_area r stg)"
    and mapped: "\<And>x. x \<in> region_range r \<Longrightarrow> m x \<noteq> None"
    and n: "n = card {d \<in> insert c T. contributes r d p}" "0 < n" "n \<noteq> sp_last_chunk sp - sp_first_chunk sp + 1"
  shows "stage_post r m T k c (staged_region r k c (sp\<lparr>sp_staging := stg, sp_staged := n\<rparr>), m2)"
proof -
  note W = region_wfD [OF wf]
  define sp1 where "sp1 = sp\<lparr>sp_staging := stg, sp_staged := n\<rparr>"
  define r1 where "r1 = staged_region r k c sp1"
  have kl: "k < length (r_shared_pages r)" using k W(9) by simp
  then have nth: "r_shared_pages r1 ! k = sp1" by (simp add: r1_def)
  have st1: "static r1 = static r" by (simp add: static_def r1_def)
  note C = static_congs [OF st1] staged_byte_cong [OF st1]
  have "p + r_page_size r \<le> r_mapped_size r"
    using shared_at_less [OF W(1) shared_static_contributes(2) [OF W(1,2) k]] unfolding p_def sp_def by metis
  then have page: "r_base r + p + i \<in> region_range r" if "i < r_page_size r" for i
    using that by (simp add: region_range_def)
  have "m2 (r_base r + p + i) = m (r_base r + p + i)" if "i < r_page_size r" for i
    using vm_frame_same [OF fr _ _ mapped] page [OF that] disj by blast
  then have "shared_cells r1 m2 k"
    using cells nm by (simp add: shared_cells_def Let_def nth C sp1_def p_def sp_def)
  moreover have "page_stage_ok r1 m2 (insert c T) k"
    using place n nm by (auto simp: page_stage_ok_def staging_in_place_def Let_def nth C sp1_def p_def)
  moreover have "staging_range r1 k = staging_area r stg"
    using place by (simp add: staging_range_def Let_def nth C sp1_def staging_in_place_def)
  ultimately show ?thesis
    using disj(2) vm_frame_mono [OF fr]
    unfolding stage_post_def sp1_def [symmetric] r1_def [symmetric] prod.case
    by (intro exI [of _ sp1]) (simp add: r1_def sp1_def sp_def)
qed

lemma stage_installed:
  assumes wf: "region_wf os r" and k: "k < r_nshared r"
  defines "sp \<equiv> r_shared_pages r ! k"
  defines "p \<equiv> sp_page_off sp"
  assumes place: "staging_in_place r m2 (insert c T) p stg" and disj: "staging_range r k \<inter> region_range r = {}" "staging_area r stg \<inter> region_range r = {}"
    and fr: "vm_frame {} m (staging_range r k) m2 (staging_area r stg)"
    and full: "\<And>d. contributes r d p \<Longrightarrow> d \<in> insert c T"
    and n: "n = card {d \<in> insert c T. contributes r d p}" "n = sp_last_chunk sp - sp_first_chunk sp + 1"
  shows "res_ok map_error (stage_post r m T k c)
    (install_shared_page os (staged_region r k c (sp\<lparr>sp_staging := stg, sp_staged := n\<rparr>)) k m2)"
proof -
  note W = region_wfD [OF wf]
  define sp1 where "sp1 = sp\<lparr>sp_staging := stg, sp_staged := n\<rparr>"
  define r1 where "r1 = staged_region r k c sp1"
  define sp2 where "sp2 = sp1\<lparr>sp_staging := (sp_staging sp1)\<lparr>s_addr := 0\<rparr>, sp_mapped := True\<rparr>"
  define r2 where "r2 = staged_region r k c sp2"
  let ?page = "{r_base r + p..<r_base r + p + r_page_size r}"
  have kl: "k < length (r_shared_pages r)" using k W(9) by simp
  then have nth: "r_shared_pages r1 ! k = sp1" "r_shared_pages r2 ! k = sp2" by (simp_all add: r1_def r2_def)
  have st1: "static r1 = static r" and st2: "static r2 = static r" by (simp_all add: static_def r1_def r2_def)
  note C = static_congs [OF st1] and C2 = static_congs [OF st2]
  have "shared_static r1"
    by (rule shared_static_cong [OF st1 W(2)]) (simp_all add: r1_def sp1_def sp_def map_update list_update_same_conv kl)
  then have wf1: "region_wf os r1" by (rule region_wf_cong [OF wf st1]) (use wf in \<open>auto simp: r1_def region_wf_def\<close>)
  have sh: "shared_at r p" using shared_static_contributes(2) [OF W(1,2) k] by (simp add: p_def sp_def)
  have byte: "staged_byte r (insert c T) (p + i) = content r (p + i)" if "i < r_page_size r" for i
    using staged_byte_all [OF W(1) sh _ that] full by blast
  have k1: "k < r_nshared r1" using k by (simp add: r1_def)
  obtain m3 where inst: "install_shared_page os r1 k m2 = Inr (r1\<lparr>r_shared_pages := (r_shared_pages r1)[k := sp2]\<rparr>, m3)"
    and m3: "\<And>i. i < r_page_size r \<Longrightarrow> m3 (r_base r + p + i) = Some (PROT_READ, content r (p + i))"
    and fr3: "vm_frame ?page m2 (staging_area r stg) m3 {}"
    using install_page [OF wf1 k1, of m2] place disj(2) byte
    by (auto simp: nth sp2_def sp1_def C region_range_def p_def staging_in_place_def)
  have r2: "r1\<lparr>r_shared_pages := (r_shared_pages r1)[k := sp2]\<rparr> = r2" by (simp add: r1_def r2_def)
  have "p + r_page_size r \<le> r_mapped_size r" using shared_at_less [OF W(1) sh] by metis
  then have pin: "?page \<subseteq> region_range r" by (auto simp: region_range_def)
  have "vm_frame ?page m (staging_range r k) m3 {}"
    using vm_frame_trans [OF vm_frame_mono [OF fr] fr3] disj pin by blast
  moreover have "page_stage_ok r2 m3 (insert c T) k"
    using n by (simp add: page_stage_ok_def Let_def nth C2 sp2_def sp1_def p_def)
  moreover have "shared_cells r2 m3 k"
    using m3 by (simp add: shared_cells_def Let_def nth C2 sp2_def sp1_def p_def)
  moreover have "staging_range r2 k = {}" by (simp add: staging_range_def nth sp2_def)
  ultimately have "stage_post r m T k c (r2, m3)"
    unfolding stage_post_def prod.case
    by (intro exI [of _ sp2]) (simp add: r2_def sp2_def sp1_def sp_def p_def)
  then show ?thesis using inst r2 by (simp add: r1_def sp1_def)
qed

text \<open>Once there is a staging page: the copy, and the installation when the chunk was the last one missing.\<close>

lemma stage_copied:
  fixes c :: uint32_t and T :: "uint32_t set"
  assumes wf: "region_wf os r" and k: "k < r_nshared r" and cells: "shared_cells r m k" and disj: "staging_range r k \<inter> region_range r = {}"
  defines "sp \<equiv> r_shared_pages r ! k"
  defines "p \<equiv> sp_page_off sp"
  defines "lo \<equiv> if r_chunk_start r ! c > p then r_chunk_start r ! c else p"
  defines "hi \<equiv> if r_chunk_start r ! Suc c < p + r_page_size r then r_chunk_start r ! Suc c else p + r_page_size r"
  defines "n \<equiv> card {d \<in> insert c T. contributes r d p}"
  defines "full \<equiv> sp_last_chunk sp - sp_first_chunk sp + 1"
  assumes con: "contributes r c p" and fin: "insert c T \<subseteq> {..<r_nchunks r}" and nm: "\<not> sp_mapped sp" and n: "0 < n"
    and mapped: "\<And>x. x \<in> region_range r \<Longrightarrow> m x \<noteq> None"
    and scr: "\<And>x. r_chunk_start r ! c \<le> x \<Longrightarrow> x < r_chunk_start r ! Suc c \<Longrightarrow>
      m (scr + (x - span_lo)) = Some (PROT_RW, content r x) \<and> scr + (x - span_lo) \<notin> staging_range r k"
    and span: "span_lo \<le> r_chunk_start r ! c"
    and place: "staging_in_place r m1 T p stg" and fr: "vm_frame {} m (staging_range r k) m1 (staging_area r stg)"
  shows "res_ok map_error (stage_post r m T k c)
      (case mem_copy m1 (s_addr stg + (lo - p)) (scr + (lo - span_lo)) (hi - lo) of
         None \<Rightarrow> Inl nested_fault
       | Some m2 \<Rightarrow> if n = full then install_shared_page os (staged_region r k c (sp\<lparr>sp_staging := stg, sp_staged := n\<rparr>)) k m2
                  else Inr (staged_region r k c (sp\<lparr>sp_staging := stg, sp_staged := n\<rparr>), m2))"
proof -
  note W = region_wfD [OF wf]
  have adisj: "staging_area r stg \<inter> region_range r = {}"
  proof (rule ccontr)
    assume "staging_area r stg \<inter> region_range r \<noteq> {}"
    then obtain x where x: "x \<in> staging_area r stg" "x \<in> region_range r" by blast
    then have "m x = None" using fr disj unfolding vm_frame_def by blast
    then show False using mapped x(2) by blast
  qed
  have scr1: "m1 (scr + (x - span_lo)) = Some (PROT_RW, content r x)" if "r_chunk_start r ! c \<le> x" "x < r_chunk_start r ! Suc c" for x
    using vm_frame_same [OF fr, of "scr + (x - span_lo)"] scr [OF that] by simp
  have bytes: "\<forall>i<r_page_size r. m1 (s_addr stg + i) = Some (PROT_RW, staged_byte r T (p + i))"
    using place by (simp add: staging_in_place_def)
  obtain m2 where copy: "mem_copy m1 (s_addr stg + (lo - p)) (scr + (lo - span_lo)) (hi - lo) = Some m2"
    and m2': "\<forall>i<r_page_size r. m2 (s_addr stg + i) = Some (PROT_RW, staged_byte r (insert c T) (p + i))"
    and out: "\<And>x. x \<notin> staging_area r stg \<Longrightarrow> m2 x = m1 x"
    by (rule stage_copy [OF W(1) con span lo_def [THEN meta_eq_to_obj_eq] hi_def [THEN meta_eq_to_obj_eq] bytes scr1]) (assumption+, rule that, blast+)
  have m2: "staging_in_place r m2 (insert c T) p stg" using place m2' by (simp add: staging_in_place_def)
  have fr2: "vm_frame {} m (staging_range r k) m2 (staging_area r stg)" using fr out by (auto simp: vm_frame_def)
  show ?thesis
  proof (cases "n = full")
    case True
    then have "d \<in> insert c T" if "contributes r d p" for d
      using contributors_complete(1) [OF W(1,2) k, of _ c, folded sp_def, folded p_def, OF fin con] that
      by (auto simp: n_def full_def)
    from stage_installed [OF wf k, folded sp_def, folded p_def, OF m2 disj adisj fr2 this n_def [THEN meta_eq_to_obj_eq] True [unfolded full_def]]
    show ?thesis unfolding copy option.case if_P [OF True] .
  next
    case False
    from stage_pending [OF wf k cells, folded sp_def, folded p_def, OF nm m2 disj adisj fr2 mapped n_def [THEN meta_eq_to_obj_eq] n False [unfolded full_def]]
    show ?thesis unfolding copy option.case if_not_P [OF False] res_ok_Inr .
  qed
qed

lemma stage_page:
  assumes wf: "region_wf os r" and k: "k < r_nshared r"
    and ok: "page_stage_ok r m T k" and cells: "shared_cells r m k" and disj: "staging_range r k \<inter> region_range r = {}"
  defines "sp \<equiv> r_shared_pages r ! k"
  defines "p \<equiv> sp_page_off sp"
  assumes con: "contributes r c p" and cT: "c \<notin> T" and fin: "T \<subseteq> {..<r_nchunks r}"
    and mapped: "\<And>x. x \<in> region_range r \<Longrightarrow> m x \<noteq> None"
    and scr: "\<And>x. r_chunk_start r ! c \<le> x \<Longrightarrow> x < r_chunk_start r ! Suc c \<Longrightarrow>
      m (scr + (x - span_lo)) = Some (PROT_RW, content r x) \<and> scr + (x - span_lo) \<notin> staging_range r k"
    and span: "span_lo \<le> r_chunk_start r ! c"
  shows "res_ok map_error (stage_post r m T k c) (stage_into_shared_page os r k c scr span_lo m)"
proof -
  note W = region_wfD [OF wf]
  note cc = contributors_complete [OF W(1,2) k, of _ c, folded sp_def, folded p_def, OF _ con]
  define n lo hi full where "n = card {d \<in> insert c T. contributes r d p}"
    and "lo = (if r_chunk_start r ! c > p then r_chunk_start r ! c else p)"
    and "hi = (if r_chunk_start r ! Suc c < p + r_page_size r then r_chunk_start r ! Suc c else p + r_page_size r)"
    and "full = sp_last_chunk sp - sp_first_chunk sp + 1"
  have staged: "sp_staged sp = card {d \<in> T. contributes r d p}" and mp: "sp_mapped sp \<longleftrightarrow> sp_staged sp = full"
    using ok by (auto simp: page_stage_ok_def sp_def p_def Let_def full_def)
  have nm: "\<not> sp_mapped sp" using mp staged cc(1) [OF fin] con cT by (auto simp: full_def)
  have finI: "insert c T \<subseteq> {..<r_nchunks r}" using fin con by (auto simp: contributes_def)
  have "n = Suc (sp_staged sp)"
    using contributors_insert [OF fin cT, of "\<lambda>d. contributes r d p"] con staged by (simp add: n_def)
  moreover have "n \<le> full" "full \<le> r_nchunks r" "r_nchunks r < UINT32_RANGE"
    using cc(2,3) [OF finI] wf by (auto simp: region_wf_def n_def full_def)
  ultimately have cnt: "u32_add (sp_staged sp) 1 = n" "0 < n" by simp_all
  have alloc: "res_ok map_error (\<lambda>(stg, m1). staging_in_place r m1 T p stg \<and> vm_frame {} m (staging_range r k) m1 (staging_area r stg))
      (if s_addr (sp_staging sp) = 0 then vm_scratch_create os m (r_page_size r) else Inr (sp_staging sp, m))"
    using stage_alloc [OF wf k ok _ fin, folded sp_def, folded p_def] nm
    by (auto simp: sp_def staging_in_place_def elim!: res_ok_mono)
  have "stage_into_shared_page os r k c scr span_lo m =
      res_bind (if s_addr (sp_staging sp) = 0 then vm_scratch_create os m (r_page_size r) else Inr (sp_staging sp, m)) (\<lambda>(stg, m1).
        case mem_copy m1 (s_addr stg + (lo - p)) (scr + (lo - span_lo)) (hi - lo) of
          None \<Rightarrow> Inl nested_fault
        | Some m2 \<Rightarrow> if n = full then install_shared_page os (staged_region r k c (sp\<lparr>sp_staging := stg, sp_staged := n\<rparr>)) k m2
                   else Inr (staged_region r k c (sp\<lparr>sp_staging := stg, sp_staged := n\<rparr>), m2))"
    using nm unfolding stage_into_shared_page_def Let_def sp_def [symmetric] p_def [symmetric] cnt(1) Suc_eq_plus1 [symmetric]
    by (simp add: lo_def hi_def full_def cong: option.case_cong split del: if_split)
  also have "res_ok map_error (stage_post r m T k c) \<dots>"
    using stage_copied [OF wf k cells disj, of c T, folded sp_def, folded p_def, folded n_def lo_def hi_def full_def,
        OF con finI nm cnt(2) mapped scr span]
    by (intro res_ok_bind [OF alloc]) auto
  finally show ?thesis .
qed

end
