(* ===== verification/Fill_Chunk.thy ===== *)
theory Fill_Chunk
  imports Fill
begin

text \<open>
  The whole of a fill, from the scratch mapping to the published pages.  The lemmas
  follow the code: staging into one page leaves the other pages as they were, a
  chunk stages into at most two pages, publishing moves the exclusive pages, and
  \<open>fill_chunk_region\<close> re-establishes the region invariant.
\<close>

section \<open>Staging one chunk\<close>

text \<open>Each shared page \<open>k\<close> has the slices of the chunks in \<open>T k\<close>.\<close>

definition staging_inv :: "os \<Rightarrow> fc_region \<Rightarrow> mem \<Rightarrow> (nat \<Rightarrow> nat set) \<Rightarrow> bool" where
  "staging_inv os r m T \<longleftrightarrow> region_wf os r \<and> staging_disjoint r \<and>
     (\<forall>k<r_nshared r. page_stage_ok r m (T k) k \<and> shared_cells r m k) \<and>
     (\<forall>x\<in>region_range r. m x \<noteq> None)"

definition shared_area :: "fc_region \<Rightarrow> addr set" where
  "shared_area r = {r_base r + x |x. x < r_mapped_size r \<and> shared_at r (page_floor x (r_page_size r))}"

lemma shared_area_sub: "shared_area r \<subseteq> region_range r"
  by (auto simp: shared_area_def region_range_def)

lemma shared_page_area:
  assumes wf: "region_wf os r" and k: "k < r_nshared r" and i: "i < r_page_size r"
  shows "r_base r + sp_page_off (r_shared_pages r ! k) + i \<in> shared_area r"
    and "page_floor (sp_page_off (r_shared_pages r ! k) + i) (r_page_size r) = sp_page_off (r_shared_pages r ! k)"
proof -
  note W = region_wfD [OF wf]
  let ?p = "sp_page_off (r_shared_pages r ! k)"
  have sh: "shared_at r ?p" using shared_static_contributes(2) [OF W(1,2) k] .
  have b: "r_page_size r dvd ?p" "?p + r_page_size r \<le> r_mapped_size r" using shared_at_less [OF W(1) sh] by metis+
  then show fl: "page_floor (?p + i) (r_page_size r) = ?p" using page_floor_unique [OF W(5) b(1), of "?p + i"] i by simp
  show "r_base r + ?p + i \<in> shared_area r"
    unfolding shared_area_def using fl sh b(2) i by (intro CollectI exI [of _ "?p + i"]) (simp add: add.assoc)
qed

lemma shared_page_sub:
  assumes wf: "region_wf os r" and k: "k < r_nshared r"
  shows "{r_base r + sp_page_off (r_shared_pages r ! k)..<r_base r + sp_page_off (r_shared_pages r ! k) + r_page_size r} \<subseteq> shared_area r"
proof
  let ?a = "r_base r + sp_page_off (r_shared_pages r ! k)"
  fix x assume "x \<in> {?a..<?a + r_page_size r}"
  then have "x - ?a < r_page_size r" "?a + (x - ?a) = x" by auto
  then show "x \<in> shared_area r" using shared_page_area(1) [OF wf k, of "x - ?a"] by simp
qed

lemma vm_frame_add: "vm_frame W m F m' F' \<Longrightarrow> vm_frame W m (F \<union> G) m' (F' \<union> G)"
  unfolding vm_frame_def by blast

lemma staging_ranges_split:
  "k < r_nshared r \<Longrightarrow> staging_ranges r = staging_range r k \<union> (\<Union>j\<in>{..<r_nshared r} - {k}. staging_range r j)"
  by (auto simp: staging_ranges_def)

lemma staging_mapped:
  assumes "page_stage_ok r m T k" "x \<in> staging_range r k"
  shows "m x \<noteq> None"
  using assms by (auto simp: page_stage_ok_def staging_range_def Let_def split: if_splits dest!: spec [of _ "x - s_addr (sp_staging (r_shared_pages r ! k))"])

definition staging_step :: "os \<Rightarrow> fc_region \<Rightarrow> mem \<Rightarrow> (nat \<Rightarrow> nat set) \<Rightarrow> nat \<Rightarrow> uint32_t \<Rightarrow> fc_region \<Rightarrow> mem \<Rightarrow> bool" where
  "staging_step os r m T k c r' m' \<longleftrightarrow> staging_inv os r m T \<and> k < r_nshared r \<and> stage_post r m (T k) k c (r', m')"

lemma staging_stepE:
  assumes "staging_step os r m T k c r' m'"
  obtains sp' where "r' = staged_region r k c sp'" "r_shared_pages r' ! k = sp'"
    "sp_page_off sp' = sp_page_off (r_shared_pages r ! k)"
    "static r' = static r" "region_wf os r'" "r_nshared r' = r_nshared r" "region_range r' = region_range r"
    "page_stage_ok r' m' (insert c (T k)) k" "shared_cells r' m' k" "staging_range r' k \<inter> region_range r = {}"
    "vm_frame {r_base r + sp_page_off sp'..<r_base r + sp_page_off sp' + r_page_size r}
       m (staging_range r k) m' (staging_range r' k)"
proof -
  from assms have wf: "region_wf os r" and k: "k < r_nshared r" by (auto simp: staging_step_def staging_inv_def)
  note W = region_wfD [OF wf]
  from assms obtain sp' where r': "r' = staged_region r k c sp'"
    and spf: "sp_page_off sp' = sp_page_off (r_shared_pages r ! k)" "sp_first_chunk sp' = sp_first_chunk (r_shared_pages r ! k)"
      "sp_last_chunk sp' = sp_last_chunk (r_shared_pages r ! k)"
    and rest: "page_stage_ok r' m' (insert c (T k)) k" "shared_cells r' m' k" "staging_range r' k \<inter> region_range r = {}"
      "vm_frame {r_base r + sp_page_off sp'..<r_base r + sp_page_off sp' + r_page_size r} m (staging_range r k) m' (staging_range r' k)"
    by (auto simp: staging_step_def stage_post_def)
  have kl: "k < length (r_shared_pages r)" using k W(9) by simp
  have st: "static r' = static r" by (simp add: static_def r')
  have "shared_static r'"
    by (rule shared_static_cong [OF st W(2)]) (simp_all add: r' spf map_update list_update_same_conv kl)
  then have "region_wf os r'" by (rule region_wf_cong [OF wf st]) (use wf in \<open>auto simp: r' region_wf_def\<close>)
  moreover have "region_range r' = region_range r" by (simp add: region_range_def static_fields [OF st])
  ultimately show thesis using that [of sp'] r' spf(1) rest st kl by simp
qed

lemma staging_step_other:
  assumes step: "staging_step os r m T k c r' m'" and j: "j < r_nshared r" "j \<noteq> k"
  shows "staging_range r' j = staging_range r j" and "page_stage_ok r' m' (T j) j" and "shared_cells r' m' j"
    and "staging_range r' k \<inter> staging_range r j = {}"
proof -
  from step have wf: "region_wf os r" and dj: "staging_disjoint r" and k: "k < r_nshared r"
    and mapped: "\<And>x. x \<in> region_range r \<Longrightarrow> m x \<noteq> None" and ok: "page_stage_ok r m (T j) j" "shared_cells r m j"
    using j by (auto simp: staging_step_def staging_inv_def)
  from step obtain sp' where r': "r' = staged_region r k c sp'" and spf: "sp_page_off sp' = sp_page_off (r_shared_pages r ! k)"
    and st: "static r' = static r"
    and fr: "vm_frame {r_base r + sp_page_off sp'..<r_base r + sp_page_off sp' + r_page_size r} m (staging_range r k) m' (staging_range r' k)"
    by (rule staging_stepE) blast
  let ?page = "{r_base r + sp_page_off sp'..<r_base r + sp_page_off sp' + r_page_size r}"
  note C = static_congs [OF st] staged_byte_cong [OF st]
  have other: "r_shared_pages r' ! j = r_shared_pages r ! j" using j by (simp add: r')
  show "staging_range r' j = staging_range r j" by (simp add: staging_range_def other C Let_def)
  have djk: "staging_range r k \<inter> region_range r = {}" "staging_range r j \<inter> region_range r = {}" "staging_range r j \<inter> staging_range r k = {}"
    using dj j k by (auto simp: staging_disjoint_def)
  have page: "?page \<subseteq> region_range r" using shared_page_sub [OF wf k] shared_area_sub spf by simp blast
  have "m' x = m x" if "x \<in> staging_range r j" for x
    using vm_frame_same [OF fr _ _ staging_mapped [OF ok(1) that]] that page djk by blast
  then show "page_stage_ok r' m' (T j) j"
    using ok(1) by (auto simp: page_stage_ok_def Let_def other C staging_range_def)
  have "m' (r_base r + sp_page_off (r_shared_pages r ! j) + i) = m (r_base r + sp_page_off (r_shared_pages r ! j) + i)"
    if i: "i < r_page_size r" for i
  proof (rule vm_frame_same [OF fr])
    let ?y = "r_base r + sp_page_off (r_shared_pages r ! j) + i"
    have "?y \<in> region_range r" using shared_page_area(1) [OF wf j(1) i] shared_area_sub by blast
    then show "m ?y \<noteq> None" "?y \<notin> staging_range r k" using mapped djk by auto
    show "?y \<notin> ?page"
    proof
      assume y: "?y \<in> ?page"
      let ?i = "sp_page_off (r_shared_pages r ! j) + i - sp_page_off sp'"
      have "?i < r_page_size r" "sp_page_off sp' + ?i = sp_page_off (r_shared_pages r ! j) + i" using y by auto
      then have "sp_page_off (r_shared_pages r ! j) = sp_page_off (r_shared_pages r ! k)"
        using shared_page_area(2) [OF wf k, of ?i] shared_page_area(2) [OF wf j(1) i] spf by simp
      then show False using shared_static_unique [OF region_wfD(2) [OF wf] j(1) k] j(2) by simp
    qed
  qed
  then show "shared_cells r' m' j" using ok(2) by (simp add: shared_cells_def Let_def other C)
  show "staging_range r' k \<inter> staging_range r j = {}"
    using fr djk(3) staging_mapped [OF ok(1)] unfolding vm_frame_def by blast
qed

lemma staging_step_inv:
  assumes step: "staging_step os r m T k c r' m'"
  shows "staging_inv os r' m' (T(k := insert c (T k)))"
    and "vm_frame (shared_area r) m (staging_ranges r) m' (staging_ranges r')"
proof -
  from step have wf: "region_wf os r" and dj: "staging_disjoint r" and k: "k < r_nshared r"
    and mapped: "\<And>x. x \<in> region_range r \<Longrightarrow> m x \<noteq> None"
    by (auto simp: staging_step_def staging_inv_def)
  from step obtain sp' where nth: "r_shared_pages r' ! k = sp'" and spf: "sp_page_off sp' = sp_page_off (r_shared_pages r ! k)"
    and st: "static r' = static r" and wf': "region_wf os r'" and nsh: "r_nshared r' = r_nshared r" and reg: "region_range r' = region_range r"
    and ok': "page_stage_ok r' m' (insert c (T k)) k" "shared_cells r' m' k" and dj': "staging_range r' k \<inter> region_range r = {}"
    and fr0: "vm_frame {r_base r + sp_page_off sp'..<r_base r + sp_page_off sp' + r_page_size r} m (staging_range r k) m' (staging_range r' k)"
    by (rule staging_stepE) blast
  let ?page = "{r_base r + sp_page_off sp'..<r_base r + sp_page_off sp' + r_page_size r}"
  note other = staging_step_other [OF step]
  have "?page \<subseteq> shared_area r" using shared_page_sub [OF wf k] spf by simp
  then have "vm_frame (shared_area r) m (staging_range r k) m' (staging_range r' k)" by (rule vm_frame_mono [OF fr0])
  moreover have "(\<Union>j\<in>{..<r_nshared r} - {k}. staging_range r' j) = (\<Union>j\<in>{..<r_nshared r} - {k}. staging_range r j)"
    using other(1) by auto
  ultimately show "vm_frame (shared_area r) m (staging_ranges r) m' (staging_ranges r')"
    using vm_frame_add staging_ranges_split [OF k] staging_ranges_split [of k r'] k nsh by metis
  have "m' x \<noteq> None" if x: "x \<in> region_range r" for x
  proof (cases "x \<in> ?page")
    case True
    then have "x - (r_base r + sp_page_off sp') < r_page_size r" "r_base r + sp_page_off sp' + (x - (r_base r + sp_page_off sp')) = x" by auto
    then show ?thesis
      using ok'(2) unfolding shared_cells_def Let_def nth static_fields [OF st] by (metis option.distinct(1))
  next
    case False
    moreover have "x \<notin> staging_range r k" using dj k x by (auto simp: staging_disjoint_def)
    ultimately show ?thesis using vm_frame_same [OF fr0 _ _ mapped [OF x]] mapped [OF x] by simp
  qed
  moreover have "staging_disjoint r'"
    unfolding staging_disjoint_def nsh reg
  proof (intro allI impI conjI)
    fix j assume j: "j < r_nshared r"
    show "staging_range r' j \<inter> region_range r = {}"
      using dj dj' j other(1) [of j] by (cases "j = k") (auto simp: staging_disjoint_def)
    fix j' assume j': "j' < r_nshared r" "j \<noteq> j'"
    show "staging_range r' j \<inter> staging_range r' j' = {}"
      using other(4) [of j] other(4) [of j'] dj j j' other(1) [of j] other(1) [of j']
      by (cases "j = k"; cases "j' = k") (auto simp: staging_disjoint_def)
  qed
  ultimately show "staging_inv os r' m' (T(k := insert c (T k)))"
    using wf' ok' other(2,3) by (auto simp: staging_inv_def nsh reg)
qed

text \<open>The chunk's bytes in the scratch buffer, which starts at offset \<open>lo\<close> of the region.\<close>

definition scratch_holds :: "fc_region \<Rightarrow> uint32_t \<Rightarrow> addr \<Rightarrow> size_t \<Rightarrow> mem \<Rightarrow> bool" where
  "scratch_holds r c scr lo m \<longleftrightarrow> lo \<le> r_chunk_start r ! c \<and>
     (\<forall>x. r_chunk_start r ! c \<le> x \<longrightarrow> x < r_chunk_start r ! Suc c \<longrightarrow>
        m (scr + (x - lo)) = Some (PROT_RW, content r x) \<and> scr + (x - lo) \<notin> footprint r)"

lemma scratch_holds_frame:
  assumes scr: "scratch_holds r c scr lo m" and st: "static r' = static r"
    and fr: "vm_frame W m (staging_ranges r) m' (staging_ranges r')" and W: "W \<subseteq> region_range r"
  shows "scratch_holds r' c scr lo m'"
proof -
  note C = static_congs [OF st]
  have reg: "region_range r' = region_range r" by (simp add: region_range_def C)
  have "m' (scr + (x - lo)) = Some (PROT_RW, content r x) \<and> scr + (x - lo) \<notin> footprint r'"
    if "r_chunk_start r ! c \<le> x" "x < r_chunk_start r ! Suc c" for x
  proof -
    let ?a = "scr + (x - lo)"
    have a: "m ?a = Some (PROT_RW, content r x)" "?a \<notin> region_range r" "?a \<notin> staging_ranges r"
      using scr that by (auto simp: footprint_def scratch_holds_def)
    then have "m' ?a = m ?a" using vm_frame_same [OF fr, of ?a] W by auto
    moreover have "?a \<notin> staging_ranges r'" using fr a by (auto simp: vm_frame_def)
    ultimately show ?thesis using a by (simp add: footprint_def reg)
  qed
  then show ?thesis using scr by (simp add: scratch_holds_def C)
qed

lemma stage_one:
  assumes inv: "staging_inv os r m T" and k: "k < r_nshared r"
    and con: "contributes r c (sp_page_off (r_shared_pages r ! k))" and cT: "c \<notin> T k" and fin: "T k \<subseteq> {..<r_nchunks r}"
    and scr: "scratch_holds r c scr lo m"
  shows "res_ok map_error (\<lambda>(r', m'). (\<exists>sps. r' = r\<lparr>r_chunk_staged := (r_chunk_staged r)[c := True], r_shared_pages := sps\<rparr> \<and>
        map sp_page_off sps = map sp_page_off (r_shared_pages r)) \<and>
      staging_inv os r' m' (T(k := insert c (T k))) \<and> vm_frame (shared_area r) m (staging_ranges r) m' (staging_ranges r') \<and>
      scratch_holds r' c scr lo m')
    (stage_into_shared_page os r k c scr lo m)"
proof -
  have wf: "region_wf os r" and mapped: "\<And>x. x \<in> region_range r \<Longrightarrow> m x \<noteq> None"
    and ok: "page_stage_ok r m (T k) k" "shared_cells r m k" and djk: "staging_range r k \<inter> region_range r = {}"
    using inv k by (auto simp: staging_inv_def staging_disjoint_def)
  have "staging_range r k \<subseteq> footprint r" using k by (auto simp: footprint_def staging_ranges_def)
  then have "res_ok map_error (stage_post r m (T k) k c) (stage_into_shared_page os r k c scr lo m)"
    by (intro stage_page [OF wf k ok djk con cT fin]) (use mapped scr in \<open>auto simp: scratch_holds_def\<close>)
  then show ?thesis
  proof (rule res_ok_mono, clarify)
    fix r' m' assume "stage_post r m (T k) k c (r', m')"
    then have step: "staging_step os r m T k c r' m'" using inv k by (simp add: staging_step_def)
    from step obtain sp' where r': "r' = staged_region r k c sp'" "static r' = static r"
      and "sp_page_off sp' = sp_page_off (r_shared_pages r ! k)" by (rule staging_stepE)
    then have "map sp_page_off ((r_shared_pages r)[k := sp']) = map sp_page_off (r_shared_pages r)"
      using k region_wfD(9) [OF wf] by (simp add: map_update list_update_same_conv)
    with r' show "(\<exists>sps. r' = r\<lparr>r_chunk_staged := (r_chunk_staged r)[c := True], r_shared_pages := sps\<rparr> \<and>
        map sp_page_off sps = map sp_page_off (r_shared_pages r)) \<and>
      staging_inv os r' m' (T(k := insert c (T k))) \<and> vm_frame (shared_area r) m (staging_ranges r) m' (staging_ranges r') \<and>
      scratch_holds r' c scr lo m'"
      using staging_step_inv [OF step] scratch_holds_frame [OF scr _ _ shared_area_sub] by blast
  qed
qed

text \<open>Only the contributors of a page matter for its staging state.\<close>

lemma page_stage_ok_cong:
  assumes lay: "region_layout r" and st: "shared_static r" and k: "k < r_nshared r"
    and eq: "\<And>c. contributes r c (sp_page_off (r_shared_pages r ! k)) \<Longrightarrow> c \<in> T \<longleftrightarrow> c \<in> T'"
  shows "page_stage_ok r m T k = page_stage_ok r m T' k"
proof -
  let ?p = "sp_page_off (r_shared_pages r ! k)"
  have sh: "shared_at r ?p" using shared_static_contributes(2) [OF lay st k] .
  then have dvd: "r_page_size r dvd ?p" using shared_at_less [OF lay] by metis
  have "{c \<in> T. contributes r c ?p} = {c \<in> T'. contributes r c ?p}" using eq by blast
  moreover have "staged_byte r T (?p + i) = staged_byte r T' (?p + i)" if i: "i < r_page_size r" for i
  proof -
    have "page_floor (?p + i) (r_page_size r) = ?p"
      using page_floor_unique [OF region_layoutD(1) [OF lay] dvd, of "?p + i"] i by simp
    then have "contributes r (find_chunk r (?p + i)) ?p" if "?p + i < r_total_size r"
      using byte_contributes [OF lay that] by simp
    then show ?thesis using eq by (auto simp: staged_byte_def)
  qed
  ultimately show ?thesis by (simp add: page_stage_ok_def Let_def)
qed

lemma staging_inv_cong:
  assumes "staging_inv os r m T"
    and "\<And>k c. k < r_nshared r \<Longrightarrow> contributes r c (sp_page_off (r_shared_pages r ! k)) \<Longrightarrow> c \<in> T k \<longleftrightarrow> c \<in> T' k"
  shows "staging_inv os r m T'"
proof -
  note W = region_wfD [of os r]
  have "page_stage_ok r m (T' k) k" if "k < r_nshared r" for k
    using assms page_stage_ok_cong [OF W(1,2) that, of "T k" "T' k" m] that by (simp add: staging_inv_def)
  then show ?thesis using assms(1) by (simp add: staging_inv_def)
qed

text \<open>The same, indexed by the offset of the page.\<close>

definition staged_at :: "os \<Rightarrow> fc_region \<Rightarrow> mem \<Rightarrow> (size_t \<Rightarrow> nat set) \<Rightarrow> bool" where
  "staged_at os r m U \<longleftrightarrow> staging_inv os r m (\<lambda>k. U (sp_page_off (r_shared_pages r ! k)))"

definition stage_end_post where
  "stage_end_post os r m U p c scr lo = (\<lambda>(r', m').
     (\<exists>sps. r' = r\<lparr>r_chunk_staged := (r_chunk_staged r)[c := True], r_shared_pages := sps\<rparr>) \<and>
     staged_at os r' m' (U(p := insert c (U p))) \<and>
     vm_frame (shared_area r) m (staging_ranges r) m' (staging_ranges r') \<and> scratch_holds r' c scr lo m')"

lemma stage_end:
  assumes inv: "staged_at os r m U" and sh: "shared_at r p" and con: "contributes r c p"
    and cU: "c \<notin> U p" "U p \<subseteq> {..<r_nchunks r}" and scr: "scratch_holds r c scr lo m"
  shows "res_ok map_error (stage_end_post os r m U p c scr lo)
    (case find_shared_page r p of None \<Rightarrow> Inl (Segv 0) | Some k \<Rightarrow> stage_into_shared_page os r k c scr lo m)"
proof -
  let ?T = "\<lambda>k. U (sp_page_off (r_shared_pages r ! k))"
  have sinv: "staging_inv os r m ?T" and wf: "region_wf os r" using inv by (simp_all add: staged_at_def staging_inv_def)
  note W = region_wfD [OF wf]
  from sh obtain k where k: "k < r_nshared r" "sp_page_off (r_shared_pages r ! k) = p" using W(2) by (auto simp: shared_static_def)
  then have find: "find_shared_page r p = Some k" using find_shared_page_Some [OF W(2)] by simp
  have "res_ok map_error (stage_end_post os r m U p c scr lo) (stage_into_shared_page os r k c scr lo m)"
  proof (rule res_ok_mono [OF stage_one [OF sinv k(1) _ _ _ scr]], goal_cases)
    case (4 x)
    obtain r' m' where x: "x = (r', m')" by fastforce
    from 4 obtain sps where r': "r' = r\<lparr>r_chunk_staged := (r_chunk_staged r)[c := True], r_shared_pages := sps\<rparr>"
      and pages: "map sp_page_off sps = map sp_page_off (r_shared_pages r)"
      and inv': "staging_inv os r' m' (?T(k := insert c (?T k)))" unfolding x by auto
    have off: "sp_page_off (r_shared_pages r' ! j) = sp_page_off (r_shared_pages r ! j)" if "j < r_nshared r" for j
      using arg_cong [OF pages, of "\<lambda>xs. xs ! j"] map_eq_imp_length_eq [OF pages] that W(9) r' by simp
    have nsh: "r_nshared r' = r_nshared r" by (simp add: r')
    have "j = k \<longleftrightarrow> sp_page_off (r_shared_pages r ! j) = p" if "j < r_nshared r" for j
      using shared_static_unique [OF W(2) that k(1)] k by auto
    then have "staged_at os r' m' (U(p := insert c (U p)))"
      unfolding staged_at_def using k by (intro staging_inv_cong [OF inv']) (auto simp: off nsh)
    with 4 show ?case unfolding x stage_end_post_def by auto
  qed (use k con cU in auto)
  then show ?thesis by (simp add: find)
qed

definition stage_chunk_post where
  "stage_chunk_post os r m c = (\<lambda>(r', m').
     (\<exists>b sps. r' = r\<lparr>r_chunk_staged := (r_chunk_staged r)[c := b], r_shared_pages := sps\<rparr>) \<and>
     (has_head r c \<or> has_tail r c \<longrightarrow> r_chunk_staged r' ! c) \<and>
     staging_inv os r' m' (\<lambda>_. staged_set r') \<and>
     vm_frame (shared_area r) m (staging_ranges r) m' (staging_ranges r'))"

lemma shared_area_cong:
  assumes "static r' = static r"
  shows "shared_area r' = shared_area r" "region_range r' = region_range r"
  by (simp_all add: shared_area_def region_range_def static_congs [OF assms])

lemma staging_inv_disjoint: "staging_inv os r m T \<Longrightarrow> shared_area r \<inter> staging_ranges r = {}"
  using shared_area_sub [of r] by (fastforce simp: staging_inv_def staging_disjoint_def staging_ranges_def)

text \<open>The state between the two ends of a chunk.\<close>

definition stage_mid where
  "stage_mid os r m c scr b U = (\<lambda>(r', m').
     (\<exists>sps. r' = r\<lparr>r_chunk_staged := (r_chunk_staged r)[c := b], r_shared_pages := sps\<rparr>) \<and>
     staged_at os r' m' U \<and> vm_frame (shared_area r) m (staging_ranges r) m' (staging_ranges r') \<and>
     scratch_holds r' c scr (head_page r c) m')"

lemma stage_mid_step:
  assumes mid: "stage_mid os r m c scr b U (r1, m1)" and disj: "shared_area r \<inter> staging_ranges r = {}"
    and post: "stage_end_post os r1 m1 U p c scr (head_page r c) (r2, m2)"
  shows "stage_mid os r m c scr True (U(p := insert c (U p))) (r2, m2)"
proof -
  from mid obtain sps where r1: "r1 = r\<lparr>r_chunk_staged := (r_chunk_staged r)[c := b], r_shared_pages := sps\<rparr>"
    and inv1: "staged_at os r1 m1 U" and fr1: "vm_frame (shared_area r) m (staging_ranges r) m1 (staging_ranges r1)"
    by (auto simp: stage_mid_def)
  have st: "static r1 = static r" by (simp add: r1 static_def)
  from post obtain sps2 where r2: "r2 = r1\<lparr>r_chunk_staged := (r_chunk_staged r1)[c := True], r_shared_pages := sps2\<rparr>"
    and inv2: "staged_at os r2 m2 (U(p := insert c (U p)))" and scr2: "scratch_holds r2 c scr (head_page r c) m2"
    and fr2: "vm_frame (shared_area r) m1 (staging_ranges r1) m2 (staging_ranges r2)"
    by (auto simp: stage_end_post_def shared_area_cong [OF st])
  have st2: "static r2 = static r" by (simp add: r2 r1 static_def)
  have "vm_frame (shared_area r) m (staging_ranges r) m2 (staging_ranges r2)"
    using vm_frame_trans [OF fr1 fr2 disj] staging_inv_disjoint inv1 inv2 shared_area_cong [OF st] shared_area_cong [OF st2]
    by (metis staged_at_def)
  then show ?thesis using inv2 scr2 unfolding stage_mid_def by (auto simp: r2 r1)
qed

lemma stage_mid_done:
  assumes mid: "stage_mid os r m c scr b U (r', m')" and c: "c < r_nchunks r" and len: "length (r_chunk_staged r) = r_nchunks r"
    and b: "b = (has_head r c \<or> has_tail r c)" and ns: "\<not> r_chunk_staged r ! c"
    and U: "\<And>p. shared_at r p \<Longrightarrow> U p = (if contributes r c p then insert c (staged_set r) else staged_set r)"
  shows "stage_chunk_post os r m c (r', m')"
proof -
  from mid obtain sps where r': "r' = r\<lparr>r_chunk_staged := (r_chunk_staged r)[c := b], r_shared_pages := sps\<rparr>"
    and inv: "staged_at os r' m' U" and fr: "vm_frame (shared_area r) m (staging_ranges r) m' (staging_ranges r')"
    by (auto simp: stage_mid_def)
  have wf: "region_wf os r'" using inv by (simp add: staged_at_def staging_inv_def)
  have st: "static r' = static r" by (simp add: r' static_def)
  note W = region_wfD [OF wf] and C = static_congs [OF st]
  have lay: "region_layout r" using W(1) by (simp add: C)
  have set': "staged_set r' = (if b then insert c (staged_set r) else staged_set r)"
    using c len ns by (auto simp: r' nth_list_update split: if_splits)
  have "staging_inv os r' m' (\<lambda>_. staged_set r')"
  proof (rule staging_inv_cong [OF inv [unfolded staged_at_def]])
    fix k d assume k: "k < r_nshared r'" and d: "contributes r' d (sp_page_off (r_shared_pages r' ! k))"
    have sh: "shared_at r (sp_page_off (r_shared_pages r' ! k))"
      using shared_static_contributes(2) [OF W(1,2) k] by (simp add: C)
    then show "d \<in> U (sp_page_off (r_shared_pages r' ! k)) \<longleftrightarrow> d \<in> staged_set r'"
      unfolding U [OF sh] set' using d contributes_ends [OF lay sh, of c] by (auto simp: C b)
  qed
  then show ?thesis using fr b c len unfolding stage_chunk_post_def by (auto simp: r')
qed

lemma stage_chunk_ok:
  assumes inv: "staging_inv os r m (\<lambda>_. staged_set r)" and c: "c < r_nchunks r"
    and scr: "scratch_holds r c scr (head_page r c) m"
  shows "res_ok map_error (stage_chunk_post os r m c) (stage_chunk os r c scr m)"
proof (cases "r_chunk_staged r ! c")
  case True
  have "r = r\<lparr>r_chunk_staged := (r_chunk_staged r)[c := r_chunk_staged r ! c], r_shared_pages := r_shared_pages r\<rparr>" by simp
  then show ?thesis
    using True inv vm_frame_refl unfolding stage_chunk_def stage_chunk_post_def Let_def by (simp, blast)
next
  case False
  have wf: "region_wf os r" using inv by (simp add: staging_inv_def)
  note W = region_wfD [OF wf] and ends = contributes_ends [OF region_wfD(1) [OF wf]]
  have len: "length (r_chunk_staged r) = r_nchunks r" using wf by (simp add: region_wf_def)
  let ?U = "\<lambda>_ :: size_t. staged_set r" and ?h = "head_page r c" and ?t = "tail_page r c"
  let ?stage = "\<lambda>(r, m) p. case find_shared_page r p of None \<Rightarrow> Inl (Segv 0) | Some k \<Rightarrow> stage_into_shared_page os r k c scr ?h m"
  have cU: "c \<notin> staged_set r" "staged_set r \<subseteq> {..<r_nchunks r}" using False by auto
  have eq: "stage_chunk os r c scr m = res_bind (if has_head r c then ?stage (r, m) ?h else Inr (r, m)) (\<lambda>(r', m').
      if has_tail r c then ?stage (r', m') ?t else Inr (r', m'))"
    using False by (simp add: stage_chunk_def Let_def has_tail_def has_head_def)
  have mid0: "stage_mid os r m c scr False ?U (r, m)"
  proof -
    have "r = r\<lparr>r_chunk_staged := (r_chunk_staged r)[c := r_chunk_staged r ! c], r_shared_pages := r_shared_pages r\<rparr>" by simp
    then show ?thesis using False inv scr vm_frame_refl unfolding stage_mid_def staged_at_def prod.case by (metis (full_types))
  qed
  define U1 where "U1 = (if has_head r c then ?U(?h := insert c (staged_set r)) else ?U)"
  note disj = staging_inv_disjoint [OF inv]
  have head: "res_ok map_error (stage_mid os r m c scr (has_head r c) U1) (if has_head r c then ?stage (r, m) ?h else Inr (r, m))"
  proof (cases "has_head r c")
    case True
    have "res_ok map_error (stage_end_post os r m ?U ?h c scr ?h) (?stage (r, m) ?h)"
      using stage_end [of os r m ?U ?h c scr ?h] inv scr cU head_shared [OF W(1) c True] ends [of ?h c] True c
      by (simp add: staged_at_def)
    then show ?thesis
      using True stage_mid_step [OF mid0 disj] by (auto simp: U1_def elim!: res_ok_mono)
  qed (use mid0 in \<open>simp add: U1_def\<close>)
  show ?thesis unfolding eq
  proof (rule res_ok_bind2 [OF head])
    fix r1 m1 assume mid: "stage_mid os r m c scr (has_head r c) U1 (r1, m1)"
    have st: "static r1 = static r" using mid by (auto simp: stage_mid_def static_def)
    show "res_ok map_error (stage_chunk_post os r m c) (if has_tail r c then ?stage (r1, m1) ?t else Inr (r1, m1))"
    proof (cases "has_tail r c")
      case True
      then have sh: "shared_at r ?t" and ct: "contributes r c ?t" using tail_shared [OF c] ends c by auto
      have U1t: "U1 ?t = staged_set r" using head_tail_differ [of r c] True by (auto simp: U1_def)
      have "res_ok map_error (stage_end_post os r1 m1 U1 ?t c scr ?h) (?stage (r1, m1) ?t)"
        using stage_end [of os r1 m1 U1 ?t c scr ?h] mid sh ct cU U1t
        by (auto simp: stage_mid_def static_congs [OF st])
      then show ?thesis unfolding if_P [OF True]
      proof (rule res_ok_mono2)
        fix r2 m2 assume "stage_end_post os r1 m1 U1 ?t c scr ?h (r2, m2)"
        from stage_mid_done [OF stage_mid_step [OF mid disj this] c len] True False
        show "stage_chunk_post os r m c (r2, m2)" using ends c U1t by (simp add: U1_def)
      qed
    next
      case notail: False
      show ?thesis
        using stage_mid_done [OF mid c len _ False] notail ends c by (simp add: U1_def)
    qed
  qed
qed

end
