(* ===== verification/Fill_Region.thy ===== *)
theory Fill_Region
  imports Fill_Chunk
begin

text \<open>
  The fill as a whole: from a region that satisfies its invariant to one that does,
  with the chunk populated.  Publishing is described as one change of memory; the
  scratch buffer is gone at the end and nothing outside the region has changed.
\<close>

section \<open>Every address of a region is in a shared or in an exclusive page\<close>

lemma region_cell_cases:
  assumes wf: "region_wf os r" and x: "x < r_mapped_size r"
  obtains (shared) k i where "k < r_nshared r" "i < r_page_size r" "x = sp_page_off (r_shared_pages r ! k) + i"
      "page_floor x (r_page_size r) = sp_page_off (r_shared_pages r ! k)" "shared_at r (page_floor x (r_page_size r))"
  | (exclusive) c where "c < r_nchunks r" "c = find_chunk r (page_floor x (r_page_size r))"
      "fst (chunk_exclusive_pages r c) \<le> x" "x < snd (chunk_exclusive_pages r c)" "\<not> shared_at r (page_floor x (r_page_size r))"
proof (cases "shared_at r (page_floor x (r_page_size r))")
  case True
  note W = region_wfD [OF wf]
  obtain k where "k < r_nshared r" "sp_page_off (r_shared_pages r ! k) = page_floor x (r_page_size r)"
    using True W(2) by (auto simp: shared_static_def)
  moreover have "x - page_floor x (r_page_size r) < r_page_size r" "x = page_floor x (r_page_size r) + (x - page_floor x (r_page_size r))"
    using page_floor_gt [OF W(5), of x] page_floor_le [of x "r_page_size r"] by linarith+
  ultimately show thesis using True by (intro shared) auto
next
  case False
  note W = region_wfD [OF wf]
  let ?p = "page_floor x (r_page_size r)" let ?c = "find_chunk r ?p"
  obtain lo hi where ex: "chunk_exclusive_pages r ?c = (lo, hi)" by fastforce
  have "?p < r_mapped_size r" using x page_floor_le [of x "r_page_size r"] by linarith
  from unshared_page_exclusive [OF W(1) page_floor_dvd this False ex]
  have "lo \<le> ?p" "?p + r_page_size r \<le> hi" .
  then have "lo \<le> x" "x < hi" using page_floor_gt [OF W(5), of x] page_floor_le [of x "r_page_size r"] by linarith+
  then show thesis using False ex find_chunk_spec(1) [OF W(1)] by (intro exclusive) auto
qed

lemma exclusive_range:
  assumes wf: "region_wf os r" and c: "c < r_nchunks r"
    and x: "fst (chunk_exclusive_pages r c) \<le> x" "x < snd (chunk_exclusive_pages r c)"
  shows "x < r_mapped_size r" "\<not> shared_at r (page_floor x (r_page_size r))" "find_chunk r x = c"
    "find_chunk r (page_floor x (r_page_size r)) = c" "r_base r + x \<in> region_range r" "r_base r + x \<notin> shared_area r"
proof -
  note W = region_wfD [OF wf]
  have ex: "chunk_exclusive_pages r c = (fst (chunk_exclusive_pages r c), snd (chunk_exclusive_pages r c))" by simp
  show lt: "x < r_mapped_size r" using exclusive_bounds(5) [OF W(1) c ex] x(2) by simp
  show "\<not> shared_at r (page_floor x (r_page_size r))" "find_chunk r x = c" "find_chunk r (page_floor x (r_page_size r)) = c"
    using exclusive_owned [OF W(1) c ex x] by auto
  then show "r_base r + x \<in> region_range r" "r_base r + x \<notin> shared_area r" using lt by (auto simp: region_range_def shared_area_def)
qed

abbreviation excl_area :: "fc_region \<Rightarrow> uint32_t \<Rightarrow> addr set" where
  "excl_area r c \<equiv> {r_base r + fst (chunk_exclusive_pages r c)..<r_base r + snd (chunk_exclusive_pages r c)}"

lemma excl_area_sub:
  assumes wf: "region_wf os r" and c: "c < r_nchunks r"
  shows "excl_area r c \<subseteq> region_range r" "excl_area r c \<inter> shared_area r = {}"
proof -
  have "y \<in> region_range r \<and> y \<notin> shared_area r" if "y \<in> excl_area r c" for y
  proof -
    have "fst (chunk_exclusive_pages r c) \<le> y - r_base r" "y - r_base r < snd (chunk_exclusive_pages r c)" "r_base r + (y - r_base r) = y"
      using that by auto
    then show ?thesis using exclusive_range(5,6) [OF wf c, of "y - r_base r"] by simp
  qed
  then show "excl_area r c \<subseteq> region_range r" "excl_area r c \<inter> shared_area r = {}" by blast+
qed

lemma region_inv_staging:
  "region_inv os r m \<longleftrightarrow> staging_inv os r m (\<lambda>_. staged_set r) \<and>
     (\<forall>c<r_nchunks r. r_initialized r ! c \<longrightarrow> has_head r c \<or> has_tail r c \<longrightarrow> r_chunk_staged r ! c) \<and>
     (\<forall>c<r_nchunks r. excl_cells r m c)"
proof -
  have "m x \<noteq> None" if inv: "region_inv os r m" and x: "x \<in> region_range r" for x
  proof -
    have wf: "region_wf os r" using inv by (simp add: region_inv_def)
    have "x - r_base r < r_mapped_size r" and e: "r_base r + (x - r_base r) = x" using x by (auto simp: region_range_def)
    from wf this(1) show ?thesis
    proof (cases rule: region_cell_cases)
      case (shared k i)
      then have "shared_cells r m k" using inv by (simp add: region_inv_def)
      then obtain pr b where "m (r_base r + sp_page_off (r_shared_pages r ! k) + i) = Some (pr, b)"
        using shared(2) unfolding shared_cells_def Let_def by metis
      moreover have "r_base r + sp_page_off (r_shared_pages r ! k) + i = x" using shared(3) e by simp
      ultimately show ?thesis by simp
    next
      case (exclusive c)
      then have "excl_cells r m c" using inv by (simp add: region_inv_def)
      then show ?thesis using exclusive(3,4) e unfolding excl_cells_def by (metis option.distinct(1))
    qed
  qed
  then show ?thesis unfolding region_inv_def staging_inv_def by blast
qed

section \<open>Transferring the invariant\<close>

lemma staging_inv_transfer:
  assumes inv: "staging_inv os r m T" and st: "static r' = static r" and wf: "region_wf os r'"
    and sps: "r_shared_pages r' = r_shared_pages r" "r_nshared r' = r_nshared r"
    and mem: "\<And>x. x \<in> staging_ranges r \<Longrightarrow> m' x = m x" "\<And>x. x \<in> shared_area r \<Longrightarrow> m' x = m x"
      "\<And>x. x \<in> region_range r \<Longrightarrow> m' x \<noteq> None"
  shows "staging_inv os r' m' T" "staging_ranges r' = staging_ranges r"
proof -
  note C = static_congs [OF st] staged_byte_cong [OF st] shared_area_cong [OF st]
  have wf0: "region_wf os r" using inv by (simp add: staging_inv_def)
  have sr: "staging_range r' k = staging_range r k" for k by (simp add: staging_range_def sps C Let_def)
  then show "staging_ranges r' = staging_ranges r" by (simp add: staging_ranges_def sps)
  have "page_stage_ok r' m' (T k) k" if "k < r_nshared r" for k
  proof -
    have "\<And>x. x \<in> staging_range r k \<Longrightarrow> m' x = m x" using mem(1) that by (auto simp: staging_ranges_def)
    then show ?thesis using inv that by (auto simp: staging_inv_def page_stage_ok_def Let_def sps C staging_range_def)
  qed
  moreover have "shared_cells r' m' k" if "k < r_nshared r" for k
    using inv that mem(2) [OF shared_page_area(1) [OF wf0 that]] by (auto simp: staging_inv_def shared_cells_def Let_def sps C)
  ultimately show "staging_inv os r' m' T"
    using inv wf mem(3) by (simp add: staging_inv_def sps sr C staging_disjoint_def)
qed

lemma excl_cells_transfer:
  assumes "excl_cells r m c" and st: "static r' = static r"
    and flags: "r_initialized r' ! c = r_initialized r ! c" "r_lru_cold r' ! c = r_lru_cold r ! c"
    and mem: "\<And>x. fst (chunk_exclusive_pages r c) \<le> x \<Longrightarrow> x < snd (chunk_exclusive_pages r c) \<Longrightarrow> m' (r_base r + x) = m (r_base r + x)"
  shows "excl_cells r' m' c"
  using assms(1) mem by (simp add: excl_cells_def static_congs [OF st] flags)

section \<open>Publishing the exclusive pages\<close>

lemma span_bounds:
  assumes wf: "region_wf os r" and c: "c < r_nchunks r"
  defines "lo \<equiv> head_page r c" and "hi \<equiv> page_ceil (r_chunk_start r ! Suc c) (r_page_size r)"
  shows "r_page_size r dvd lo" "r_page_size r dvd hi" "lo \<le> r_chunk_start r ! c" "r_chunk_start r ! Suc c \<le> hi" "lo < hi"
    "lo \<le> fst (chunk_exclusive_pages r c)"
    "fst (chunk_exclusive_pages r c) < snd (chunk_exclusive_pages r c) \<Longrightarrow> snd (chunk_exclusive_pages r c) \<le> hi"
proof -
  note W = region_wfD [OF wf]
  have ex: "chunk_exclusive_pages r c = (fst (chunk_exclusive_pages r c), snd (chunk_exclusive_pages r c))" by simp
  note E = exclusive_bounds [OF W(1) c ex]
  show "r_page_size r dvd lo" "r_page_size r dvd hi" by (simp_all add: lo_def hi_def)
  show lo: "lo \<le> r_chunk_start r ! c" by (simp add: lo_def)
  show hi: "r_chunk_start r ! Suc c \<le> hi"
    unfolding hi_def by (rule page_ceil_ge) (use W(5) region_start_mono(4) [OF W(1), of "Suc c"] c in auto)
  show "lo < hi" using lo hi region_start_mono(1) [OF W(1), of c "Suc c"] c by simp
  show "lo \<le> fst (chunk_exclusive_pages r c)" using lo E(4) by simp
  show "snd (chunk_exclusive_pages r c) \<le> hi" if "fst (chunk_exclusive_pages r c) < snd (chunk_exclusive_pages r c)"
  proof (cases "Suc c < r_nchunks r")
    case True
    then show ?thesis using E(6) that hi by simp
  next
    case False
    then have "Suc c = r_nchunks r" using c by simp
    then have "hi = r_mapped_size r" using region_layoutD(5,6) [OF W(1)] by (simp add: hi_def)
    then show ?thesis using E(5) by simp
  qed
qed

lemma publish_exclusive_ok:
  assumes wf: "region_wf os r" and c: "c < r_nchunks r"
  defines "lo \<equiv> head_page r c" and "hi \<equiv> page_ceil (r_chunk_start r ! Suc c) (r_page_size r)"
    and "elo \<equiv> fst (chunk_exclusive_pages r c)" and "ehi \<equiv> snd (chunk_exclusive_pages r c)"
  assumes s: "s_size s = hi - lo" "r_page_size r dvd s_addr s" "mem_mapped m (s_addr s) (hi - lo)"
    "{s_addr s..<s_addr s + (hi - lo)} \<inter> region_range r = {}"
  obtains m' where "publish_exclusive os r c s m = Inr m'"
    "\<And>x. elo \<le> x \<Longrightarrow> x < ehi \<Longrightarrow> m' (r_base r + x) = map_option (\<lambda>(_, b). (PROT_READ, b)) (m (s_addr s + (x - lo)))"
    "vm_frame {r_base r + elo..<r_base r + ehi} m {s_addr s..<s_addr s + (hi - lo)} m' {}"
proof -
  note W = region_wfD [OF wf] and B = span_bounds [OF wf c, folded lo_def hi_def elo_def ehi_def]
  let ?S = "{s_addr s..<s_addr s + (hi - lo)}"
  have ex: "chunk_exclusive_pages r c = (elo, ehi)" by (simp add: elo_def ehi_def)
  note E = exclusive_bounds [OF W(1) c ex]
  have pr: "page_range (vm_page_size os) (s_addr s) (hi - lo)"
    using W(4,5) B(1,2,5) s(2) by (simp add: page_range_def vm_page_size_def dvd_diff_nat)
  show thesis
  proof (cases "elo < ehi")
    case True
    define m' where "m' = (\<lambda>x. if r_base r + elo \<le> x \<and> x < r_base r + elo + (ehi - elo)
        then map_option (\<lambda>(_, b). (PROT_READ, b)) (m (s_addr s + (elo - lo) + (x - (r_base r + elo))))
        else if s_addr s \<le> x \<and> x < s_addr s + (hi - lo) then None else m x)"
    have sep: "s_addr s + (hi - lo) \<le> r_base r + elo \<or> r_base r + elo + (ehi - elo) \<le> s_addr s"
    proof (rule ccontr)
      assume "\<not> ?thesis"
      then have "max (s_addr s) (r_base r + elo) \<in> ?S \<inter> region_range r"
        using True E(5) B(5) by (auto simp: region_range_def)
      then show False using s(4) by simp
    qed
    have arith: "elo - lo < ehi - lo" "ehi - lo \<le> hi - lo" "ehi - lo - (elo - lo) = ehi - elo"
      "0 < elo - lo \<longleftrightarrow> lo < elo" "ehi - lo < hi - lo \<longleftrightarrow> ehi < hi" "hi - lo - (ehi - lo) = hi - ehi"
      using True B(5,6,7) by auto
    have "res_bind (vm_scratch_seal os m s) (\<lambda>m. res_bind (vm_scratch_publish os m s (elo - lo) (ehi - elo) (r_base r + elo)) (\<lambda>m.
      res_bind (if lo < elo then vm_scratch_discard os m s 0 (elo - lo) else Inr m) (\<lambda>m.
        if ehi < hi then vm_scratch_discard os m s (ehi - lo) (hi - ehi) else Inr m))) = Inr m'"
      using posix.publish_piece [OF pr s(1), of "elo - lo" "ehi - lo" "r_base r + elo" m, unfolded arith] W(4,6) E(1,2) B(1) s(3) sep arith(1,2)
      by (simp add: vm_page_size_def dvd_diff_nat m'_def)
    then have "publish_exclusive os r c s m = Inr m'"
      using True by (simp add: publish_exclusive_def Let_def ex lo_def [symmetric] hi_def [symmetric])
    moreover have "m' (r_base r + x) = map_option (\<lambda>(_, b). (PROT_READ, b)) (m (s_addr s + (x - lo)))" if "elo \<le> x" "x < ehi" for x
      using that B(6) by (simp add: m'_def)
    moreover have "vm_frame {r_base r + elo..<r_base r + ehi} m ?S m' {}"
      using sep True by (auto simp: vm_frame_def m'_def)
    ultimately show thesis by (rule that)
  next
    case False
    have "publish_exclusive os r c s m = Inr (mem_set m (s_addr s) (hi - lo) None)"
      using posix.discard_whole [OF pr s(1,3)] False by (simp add: publish_exclusive_def Let_def ex lo_def hi_def)
    moreover have "vm_frame {r_base r + elo..<r_base r + ehi} m ?S (mem_set m (s_addr s) (hi - lo) None) {}"
      by (auto simp: vm_frame_def)
    ultimately show thesis using that False by auto
  qed
qed

section \<open>The callback on its scratch buffer\<close>

abbreviation span_hi :: "fc_region \<Rightarrow> uint32_t \<Rightarrow> size_t" where
  "span_hi r c \<equiv> page_ceil (r_chunk_start r ! Suc c) (r_page_size r)"

abbreviation span_len :: "fc_region \<Rightarrow> uint32_t \<Rightarrow> size_t" where
  "span_len r c \<equiv> span_hi r c - head_page r c"

lemma content_chunk:
  assumes "region_layout r" "c < r_nchunks r" "r_chunk_start r ! c \<le> x" "x < r_chunk_start r ! Suc c"
  shows "content r x = fill_bytes r c ! (x - r_chunk_start r ! c)"
  using assms inproc.find_eq [OF assms(1,2,3)] region_start_mono(3) [OF assms(1), of "Suc c"] by (simp add: content_def)

lemma content_exclusive:
  assumes wf: "region_wf os r" and c: "c < r_nchunks r"
    and x: "fst (chunk_exclusive_pages r c) \<le> x" "x < snd (chunk_exclusive_pages r c)"
  shows "(if r_chunk_start r ! c \<le> x \<and> x < r_chunk_start r ! Suc c then content r x else 0) = content r x"
proof -
  note W = region_wfD [OF wf]
  have ex: "chunk_exclusive_pages r c = (fst (chunk_exclusive_pages r c), snd (chunk_exclusive_pages r c))" by simp
  note E = exclusive_bounds [OF W(1) c ex]
  show ?thesis
  proof (cases "Suc c < r_nchunks r")
    case True
    then show ?thesis using E(4,6) x by auto
  next
    case False
    then have "Suc c = r_nchunks r" using c by simp
    then have "r_chunk_start r ! Suc c = r_total_size r" using region_layoutD(5) [OF W(1)] by simp
    then show ?thesis using E(4) x by (auto simp: content_def)
  qed
qed

definition scratch_filled :: "fc_region \<Rightarrow> uint32_t \<Rightarrow> addr \<Rightarrow> mem \<Rightarrow> bool" where
  "scratch_filled r c a m \<longleftrightarrow> (\<forall>x. head_page r c \<le> x \<longrightarrow> x < span_hi r c \<longrightarrow>
     m (a + (x - head_page r c)) = Some (PROT_RW, if r_chunk_start r ! c \<le> x \<and> x < r_chunk_start r ! Suc c then content r x else 0))"

lemma call_fill_ok:
  assumes wf: "region_wf os r" and c: "c < r_nchunks r"
  shows "res_ok (fill_error_of r) (\<lambda>m2. scratch_filled r c a m2 \<and> (\<forall>x. x \<notin> {a..<a + span_len r c} \<longrightarrow> m2 x = m x))
    (call_fill_chunk r c (a + (r_chunk_start r ! c - head_page r c)) (chunk_size r c)
      (mem_set m a (span_len r c) (Some (PROT_RW, 0))))"
    (is "res_ok _ ?Q (call_fill_chunk r c ?b _ ?m1)")
proof -
  note W = region_wfD [OF wf] and B = span_bounds [OF wf c]
  have se: "r_chunk_start r ! c < r_chunk_start r ! Suc c" using region_start_mono(1) [OF W(1), of c "Suc c"] c by simp
  have len: "length (fill_bytes r c) = chunk_size r c" using W(3) c by (simp add: fill_contract_def)
  have inS: "a \<le> x \<and> x < a + span_len r c" if "?b \<le> x" "x < ?b + chunk_size r c" for x
    using that B(3,4) se by linarith
  have store: "mem_store ?m1 ?b (fill_bytes r c) = Some (mem_put ?m1 ?b (fill_bytes r c))"
    by (rule mem_store_ok) (use inS len in \<open>simp add: mem_writable_def\<close>)
  have "?Q (mem_put ?m1 ?b (fill_bytes r c))"
  proof (rule conjI)
    show "scratch_filled r c a (mem_put ?m1 ?b (fill_bytes r c))"
      unfolding scratch_filled_def
    proof (intro allI impI)
      fix x assume x: "head_page r c \<le> x" "x < span_hi r c"
      let ?y = "a + (x - head_page r c)"
      have y: "a \<le> ?y" "?y < a + span_len r c" using x by auto
      have iff: "?b \<le> ?y \<and> ?y < ?b + length (fill_bytes r c) \<longleftrightarrow> r_chunk_start r ! c \<le> x \<and> x < r_chunk_start r ! Suc c"
        unfolding len using x B(3) se by linarith
      have off: "?y - ?b = x - r_chunk_start r ! c" if "r_chunk_start r ! c \<le> x" using that B(3) x by linarith
      show "mem_put ?m1 ?b (fill_bytes r c) ?y =
          Some (PROT_RW, if r_chunk_start r ! c \<le> x \<and> x < r_chunk_start r ! Suc c then content r x else 0)"
        unfolding mem_put_def iff using y off content_chunk [OF W(1) c] by simp
    qed
    show "\<forall>x. x \<notin> {a..<a + span_len r c} \<longrightarrow> mem_put ?m1 ?b (fill_bytes r c) x = m x"
      using inS len by (auto simp: mem_put_def mem_set_def)
  qed
  then show ?thesis
    using store c by (cases "r_fill_chunk r c (chunk_size r c)") (force simp: call_fill_chunk_def fill_bytes_def fill_error_of_def quiet_fill_def)
qed

section \<open>The whole fill\<close>

definition fill_post :: "os \<Rightarrow> fc_region \<Rightarrow> mem \<Rightarrow> uint32_t \<Rightarrow> fc_region \<times> mem \<Rightarrow> bool" where
  "fill_post os r m c = (\<lambda>(r', m').
     (\<exists>b sps. r' = r\<lparr>r_initialized := (r_initialized r)[c := True], r_chunk_staged := (r_chunk_staged r)[c := b],
        r_shared_pages := sps,
        r_chunk_faults_total := (r_chunk_faults_total r)[c := size_add (r_chunk_faults_total r ! c) 1],
        r_fault_events_total := size_add (r_fault_events_total r) 1\<rparr>) \<and>
     region_inv os (r'\<lparr>r_lru_cold := (r_lru_cold r)[c := False]\<rparr>) m' \<and>
     vm_frame (region_range r) m (staging_ranges r) m' (staging_ranges r'))"

lemma staging_ranges_mapped: "staging_inv os r m T \<Longrightarrow> x \<in> staging_ranges r \<Longrightarrow> m x \<noteq> None"
  using staging_mapped [of r m _ _ x] by (auto simp: staging_inv_def staging_ranges_def simp del: not_None_eq)

lemma footprint_mapped: "staging_inv os r m T \<Longrightarrow> x \<in> footprint r \<Longrightarrow> m x \<noteq> None"
  using staging_ranges_mapped [of os r m T x] by (auto simp: footprint_def staging_inv_def simp del: not_None_eq)

lemma staging_disjoint_region: "staging_inv os r m T \<Longrightarrow> region_range r \<inter> staging_ranges r = {}"
  by (fastforce simp: staging_inv_def staging_disjoint_def staging_ranges_def)

text \<open>The state after the scratch buffer has been filled and the slices staged.\<close>

lemma fill_stage:
  assumes inv: "region_inv os r m" and c: "c < r_nchunks r"
    and free: "\<And>x. x \<in> {a..<a + span_len r c} \<Longrightarrow> m x = None"
    and filled: "scratch_filled r c a m2" and out: "\<And>x. x \<notin> {a..<a + span_len r c} \<Longrightarrow> m2 x = m x"
  defines "r1 \<equiv> r\<lparr>r_initialized := (r_initialized r)[c := True]\<rparr>"
  shows "res_ok map_error (stage_chunk_post os r1 m2 c) (stage_chunk os r1 c a m2)"
    and "staging_inv os r1 m2 (\<lambda>_. staged_set r1)"
proof -
  have sinv: "staging_inv os r m (\<lambda>_. staged_set r)" using inv by (simp add: region_inv_staging)
  then have wf: "region_wf os r" by (simp add: staging_inv_def)
  note W = region_wfD [OF wf] and B = span_bounds [OF wf c]
  have st: "static r1 = static r" by (simp add: static_def r1_def)
  have "shared_static r1" by (rule shared_static_cong [OF st W(2)]) (simp_all add: r1_def)
  then have wf1: "region_wf os r1" by (rule region_wf_cong [OF wf st]) (use wf in \<open>auto simp: r1_def region_wf_def\<close>)
  have same: "m2 x = m x" if "m x \<noteq> None" for x using free [of x] out [of x] that by auto
  have "staging_inv os r1 m2 (\<lambda>_. staged_set r)"
  proof (rule staging_inv_transfer(1) [OF sinv st wf1])
    show "m2 x \<noteq> None" if "x \<in> region_range r" for x
      using same footprint_mapped [OF sinv, of x] that by (auto simp: footprint_def)
    show "m2 x = m x" if "x \<in> staging_ranges r" for x
      using same footprint_mapped [OF sinv, of x] that by (auto simp: footprint_def)
    show "m2 x = m x" if "x \<in> shared_area r" for x
      using same footprint_mapped [OF sinv, of x] that shared_area_sub [of r] by (auto simp: footprint_def)
  qed (simp_all add: r1_def)
  then show s1: "staging_inv os r1 m2 (\<lambda>_. staged_set r1)" by (simp add: r1_def)
  have foot: "footprint r1 = footprint r"
    by (simp add: footprint_def region_range_def staging_ranges_def staging_range_def r1_def Let_def)
  have "scratch_holds r1 c a (head_page r1 c) m2"
    unfolding scratch_holds_def foot static_congs [OF st]
  proof (intro conjI allI impI)
    fix x assume x: "r_chunk_start r ! c \<le> x" "x < r_chunk_start r ! Suc c"
    then have lohi: "head_page r c \<le> x" "x < span_hi r c" using B(3,4) by linarith+
    then show "m2 (a + (x - head_page r c)) = Some (PROT_RW, content r x)"
      using filled x by (simp add: scratch_filled_def)
    have "a + (x - head_page r c) \<in> {a..<a + span_len r c}" using lohi by auto
    then show "a + (x - head_page r c) \<notin> footprint r" using free footprint_mapped [OF sinv] by blast
  qed (rule B(3))
  then show "res_ok map_error (stage_chunk_post os r1 m2 c) (stage_chunk os r1 c a m2)"
    using stage_chunk_ok [OF s1] c by (simp add: r1_def)
qed

lemma fill_inv:
  assumes inv: "region_inv os r m" and c: "c < r_nchunks r"
    and old: "\<And>d x. d < r_nchunks r \<Longrightarrow> d \<noteq> c \<Longrightarrow> fst (chunk_exclusive_pages r d) \<le> x \<Longrightarrow> x < snd (chunk_exclusive_pages r d) \<Longrightarrow>
      m' (r_base r + x) = m (r_base r + x)"
    and new: "\<And>x. fst (chunk_exclusive_pages r c) \<le> x \<Longrightarrow> x < snd (chunk_exclusive_pages r c) \<Longrightarrow>
      m' (r_base r + x) = Some (PROT_READ, content r x)"
    and s': "staging_inv os r' m' (\<lambda>_. staged_set r')" and st: "static r' = static r"
    and r': "r_initialized r' = (r_initialized r)[c := True]" "r_lru_cold r' = (r_lru_cold r)[c := False]"
      "r_chunk_staged r' = (r_chunk_staged r)[c := b]" "has_head r c \<or> has_tail r c \<longrightarrow> b"
  shows "region_inv os r' m'"
proof -
  have len: "length (r_initialized r) = r_nchunks r" "length (r_chunk_staged r) = r_nchunks r" "length (r_lru_cold r) = r_nchunks r"
    using inv by (auto simp: region_inv_def region_wf_def)
  have "excl_cells r' m' d" if d: "d < r_nchunks r" for d
  proof (cases "d = c")
    case True
    then show ?thesis using new c len by (simp add: excl_cells_def static_congs [OF st] r')
  next
    case False
    show ?thesis
      by (rule excl_cells_transfer [OF _ st]) (use inv d False old in \<open>auto simp: region_inv_def r'\<close>)
  qed
  moreover have "r_initialized r' ! d \<longrightarrow> has_head r d \<or> has_tail r d \<longrightarrow> r_chunk_staged r' ! d" if "d < r_nchunks r" for d
    using inv that r' len by (cases "d = c") (auto simp: region_inv_def)
  ultimately show ?thesis using s' by (simp add: region_inv_staging static_congs [OF st])
qed

lemma fill_publish_mem:
  assumes inv: "region_inv os r m" and c: "c < r_nchunks r"
    and s: "s_size s = span_len r c" "r_page_size r dvd s_addr s"
    and free: "\<And>x. x \<in> {s_addr s..<s_addr s + span_len r c} \<Longrightarrow> m x = None"
    and filled: "scratch_filled r c (s_addr s) m2" and out: "\<And>x. x \<notin> {s_addr s..<s_addr s + span_len r c} \<Longrightarrow> m2 x = m x"
    and post: "stage_chunk_post os (r\<lparr>r_initialized := (r_initialized r)[c := True]\<rparr>) m2 c (r2, m3)"
    and st2: "static r2 = static r"
  defines "S \<equiv> {s_addr s..<s_addr s + span_len r c}"
    and "elo \<equiv> fst (chunk_exclusive_pages r c)" and "ehi \<equiv> snd (chunk_exclusive_pages r c)"
  obtains m4 where "publish_exclusive os r2 c s m3 = Inr m4"
    "\<And>x. elo \<le> x \<Longrightarrow> x < ehi \<Longrightarrow> m4 (r_base r + x) = Some (PROT_READ, content r x)"
    "vm_frame {r_base r + elo..<r_base r + ehi} m3 S m4 {}"
    "vm_frame (shared_area r) m (staging_ranges r) m3 (staging_ranges r2 \<union> S)"
    "S \<inter> region_range r = {}" "S \<inter> staging_ranges r2 = {}"
proof -
  define r1 where "r1 = r\<lparr>r_initialized := (r_initialized r)[c := True]\<rparr>"
  have inv2: "staging_inv os r2 m3 (\<lambda>_. staged_set r2)" and fr: "vm_frame (shared_area r1) m2 (staging_ranges r1) m3 (staging_ranges r2)"
    using post unfolding r1_def [symmetric] stage_chunk_post_def by auto
  have st1: "static r1 = static r" by (simp add: static_def r1_def)
  note C1 = static_congs [OF st1] shared_area_cong [OF st1] and C2 = static_congs [OF st2] shared_area_cong [OF st2]
  have sinv: "staging_inv os r m (\<lambda>_. staged_set r)" using inv by (simp add: region_inv_staging)
  have sr1: "staging_ranges r1 = staging_ranges r" by (simp add: staging_ranges_def staging_range_def r1_def Let_def)
  have wf: "region_wf os r" and wf2: "region_wf os r2" using sinv inv2 by (simp_all add: staging_inv_def)
  note B = span_bounds [OF wf c, folded elo_def ehi_def]
  have Sreg: "S \<inter> region_range r = {}" and Sstg: "S \<inter> staging_ranges r = {}"
    using free footprint_mapped [OF sinv] unfolding S_def footprint_def by blast+
  have cell: "m2 (s_addr s + (x - head_page r c)) = Some (PROT_RW, if r_chunk_start r ! c \<le> x \<and> x < r_chunk_start r ! Suc c then content r x else 0)"
    if "head_page r c \<le> x" "x < span_hi r c" for x using filled that by (simp add: scratch_filled_def)
  have Smap: "m2 y \<noteq> None" if "y \<in> S" for y
    using cell [of "head_page r c + (y - s_addr s)"] that by (auto simp: S_def)
  have S3: "m3 y = m2 y" if "y \<in> S" for y
    using vm_frame_same [OF fr, of y] Smap [OF that] that Sreg Sstg shared_area_sub [of r] by (auto simp: C1 sr1)
  have Sstg2: "S \<inter> staging_ranges r2 = {}" using fr Smap Sstg unfolding vm_frame_def sr1 by blast
  have "mem_mapped m3 (s_addr s) (span_len r c)" using S3 Smap by (intro mem_mappedI) (auto simp: S_def)
  then obtain m4 where pub: "publish_exclusive os r2 c s m3 = Inr m4"
    and m4: "\<And>x. elo \<le> x \<Longrightarrow> x < ehi \<Longrightarrow> m4 (r_base r + x) = map_option (\<lambda>(_, b). (PROT_READ, b)) (m3 (s_addr s + (x - head_page r c)))"
    and fr4: "vm_frame {r_base r + elo..<r_base r + ehi} m3 S m4 {}"
    using publish_exclusive_ok [OF wf2, of c s m3] c s Sreg by (auto simp: C2 S_def elo_def ehi_def)
  have new: "m4 (r_base r + x) = Some (PROT_READ, content r x)" if "elo \<le> x" "x < ehi" for x
  proof -
    have x: "head_page r c \<le> x" "x < span_hi r c" using that B(6,7) by linarith+
    then have "s_addr s + (x - head_page r c) \<in> S" by (auto simp: S_def)
    from S3 [OF this] cell [OF x] show ?thesis
      using m4 [OF that] content_exclusive [OF wf c] that by (simp add: elo_def ehi_def)
  qed
  have "vm_frame {} m (staging_ranges r) m2 (staging_ranges r \<union> S)" using free out unfolding vm_frame_def S_def by blast
  then have f02: "vm_frame (shared_area r) m (staging_ranges r) m2 (staging_ranges r \<union> S)" by (rule vm_frame_mono) simp
  have f23: "vm_frame (shared_area r) m2 (staging_ranges r \<union> S) m3 (staging_ranges r2 \<union> S)"
    using vm_frame_add [OF fr, of S] by (simp add: C1 sr1)
  have d: "shared_area r \<inter> staging_ranges r = {}" "shared_area r \<inter> staging_ranges r2 = {}" "shared_area r \<inter> S = {}"
    using staging_inv_disjoint [OF sinv] staging_inv_disjoint [OF inv2] Sreg shared_area_sub [of r] by (auto simp: C2)
  have "vm_frame (shared_area r) m (staging_ranges r) m3 (staging_ranges r2 \<union> S)"
    by (rule vm_frame_trans [OF f02 f23]) (use d in auto)
  then show thesis using that pub new fr4 Sreg Sstg2 by blast
qed

text \<open>Memory outside the shared pages and the chunk's own pages stays as it was.\<close>

lemma fill_untouched:
  assumes inv: "region_inv os r m" and c: "c < r_nchunks r"
    and fr3: "vm_frame (shared_area r) m (staging_ranges r) m3 F"
    and fr4: "vm_frame {r_base r + fst (chunk_exclusive_pages r c)..<r_base r + snd (chunk_exclusive_pages r c)} m3 S m4 {}"
    and S: "S \<inter> region_range r = {}"
    and d: "d < r_nchunks r" "d \<noteq> c" and x: "fst (chunk_exclusive_pages r d) \<le> x" "x < snd (chunk_exclusive_pages r d)"
  shows "m4 (r_base r + x) = m (r_base r + x)"
proof -
  have sinv: "staging_inv os r m (\<lambda>_. staged_set r)" using inv by (simp add: region_inv_staging)
  then have wf: "region_wf os r" by (simp add: staging_inv_def)
  note E = exclusive_range [OF wf d(1) x]
  have mapped: "m (r_base r + x) \<noteq> None" using sinv E(5) by (simp add: staging_inv_def)
  have m3: "m3 (r_base r + x) = m (r_base r + x)"
    using vm_frame_same [OF fr3 E(6) _ mapped] staging_disjoint_region [OF sinv] E(5) by auto
  have "\<not> (fst (chunk_exclusive_pages r c) \<le> x \<and> x < snd (chunk_exclusive_pages r c))"
    using exclusive_range(3) [OF wf c, of x] E(3) d(2) by auto
  then have "m4 (r_base r + x) = m3 (r_base r + x)"
    using vm_frame_same [OF fr4, of "r_base r + x"] m3 mapped S E(5) by auto
  with m3 show ?thesis by simp
qed

lemma publish_staging:
  assumes inv: "staging_inv os r m T" and c: "c < r_nchunks r" and fr: "vm_frame (excl_area r c) m S m' {}"
    and new: "\<And>x. x \<in> excl_area r c \<Longrightarrow> m' x \<noteq> None"
    and S: "S \<inter> region_range r = {}" "S \<inter> staging_ranges r = {}"
    and st: "static r' = static r" and wf': "region_wf os r'"
    and sps: "r_shared_pages r' = r_shared_pages r" "r_nshared r' = r_nshared r"
  shows "staging_inv os r' m' T" "staging_ranges r' = staging_ranges r"
proof -
  have wf: "region_wf os r" using inv by (simp add: staging_inv_def)
  note X = excl_area_sub [OF wf c]
  have same: "m' x = m x" if "x \<in> footprint r" "x \<notin> excl_area r c" for x
    using vm_frame_same [OF fr that(2) _ footprint_mapped [OF inv that(1)]] S that(1) by (auto simp: footprint_def)
  have a: "m' x = m x" if "x \<in> staging_ranges r" for x
    using same [of x] that X(1) staging_disjoint_region [OF inv] unfolding footprint_def by blast
  have b: "m' x = m x" if "x \<in> shared_area r" for x
    using same [of x] that X(2) shared_area_sub [of r] unfolding footprint_def by blast
  have e: "m' x \<noteq> None" if "x \<in> region_range r" for x
    using same [of x] new [of x] that footprint_mapped [OF inv, of x] by (cases "x \<in> excl_area r c") (auto simp: footprint_def)
  show "staging_inv os r' m' T" "staging_ranges r' = staging_ranges r"
    using staging_inv_transfer [OF inv st wf' sps a b e] by blast+
qed

lemma fill_publish:
  assumes inv: "region_inv os r m" and c: "c < r_nchunks r"
    and s: "s_size s = span_len r c" "r_page_size r dvd s_addr s"
    and free: "\<And>x. x \<in> {s_addr s..<s_addr s + span_len r c} \<Longrightarrow> m x = None"
    and filled: "scratch_filled r c (s_addr s) m2" and out: "\<And>x. x \<notin> {s_addr s..<s_addr s + span_len r c} \<Longrightarrow> m2 x = m x"
    and post: "stage_chunk_post os (r\<lparr>r_initialized := (r_initialized r)[c := True]\<rparr>) m2 c (r2, m3)"
  shows "\<exists>m4. publish_exclusive os r2 c s m3 = Inr m4 \<and> fill_post os r m c (r2\<lparr>
      r_chunk_faults_total := (r_chunk_faults_total r2)[c := size_add (r_chunk_faults_total r2 ! c) 1],
      r_fault_events_total := size_add (r_fault_events_total r2) 1\<rparr>, m4)"
proof -
  define r1 where "r1 = r\<lparr>r_initialized := (r_initialized r)[c := True]\<rparr>"
  from post obtain b sps where r2: "r2 = r1\<lparr>r_chunk_staged := (r_chunk_staged r1)[c := b], r_shared_pages := sps\<rparr>"
    and hb: "has_head r1 c \<or> has_tail r1 c \<longrightarrow> r_chunk_staged r2 ! c"
    and inv2: "staging_inv os r2 m3 (\<lambda>_. staged_set r2)"
    unfolding r1_def [symmetric] stage_chunk_post_def by auto
  have st1: "static r1 = static r" and st2: "static r2 = static r" by (simp_all add: static_def r1_def r2)
  note C2 = static_congs [OF st2] shared_area_cong [OF st2]
  let ?elo = "fst (chunk_exclusive_pages r c)" and ?ehi = "snd (chunk_exclusive_pages r c)"
  let ?S = "{s_addr s..<s_addr s + span_len r c}" and ?X = "{r_base r + ?elo..<r_base r + ?ehi}"
  obtain m4 where pub: "publish_exclusive os r2 c s m3 = Inr m4"
    and new: "\<And>x. ?elo \<le> x \<Longrightarrow> x < ?ehi \<Longrightarrow> m4 (r_base r + x) = Some (PROT_READ, content r x)"
    and fr4: "vm_frame ?X m3 ?S m4 {}" and fr3: "vm_frame (shared_area r) m (staging_ranges r) m3 (staging_ranges r2 \<union> ?S)"
    and S: "?S \<inter> region_range r = {}" "?S \<inter> staging_ranges r2 = {}"
    by (rule fill_publish_mem [OF inv c s free filled out post st2]) blast+
  have wf: "region_wf os r" and wf2: "region_wf os r2" using inv inv2 by (simp_all add: region_inv_def staging_inv_def)
  have len: "length (r_chunk_staged r) = r_nchunks r" using wf by (simp add: region_wf_def)
  note X = excl_area_sub [OF wf c]
  have dj2: "region_range r \<inter> staging_ranges r2 = {}" using staging_disjoint_region [OF inv2] by (simp add: C2)
  define r3 where "r3 = r2\<lparr>r_chunk_faults_total := (r_chunk_faults_total r2)[c := size_add (r_chunk_faults_total r2 ! c) 1],
      r_fault_events_total := size_add (r_fault_events_total r2) 1\<rparr>"
  define r4 where "r4 = r3\<lparr>r_lru_cold := (r_lru_cold r)[c := False]\<rparr>"
  have st4: "static r4 = static r2" by (simp add: static_def r4_def r3_def)
  have "shared_static r4" by (rule shared_static_cong [OF st4 region_wfD(2) [OF wf2]]) (simp_all add: r4_def r3_def)
  then have wf4: "region_wf os r4"
    by (rule region_wf_cong [OF wf2 st4]) (use wf2 wf in \<open>auto simp: r4_def r3_def region_wf_def C2\<close>)
  have news: "m4 y \<noteq> None" if "y \<in> ?X" for y using new [of "y - r_base r"] that by auto
  have "staging_inv os r4 m4 (\<lambda>_. staged_set r2)" and sr4: "staging_ranges r4 = staging_ranges r2"
    using publish_staging [OF inv2 _ _ _ _ S(2) st4 wf4] c S(1) fr4 news by (simp_all add: C2 r4_def r3_def)
  then have sinv4: "staging_inv os r4 m4 (\<lambda>_. staged_set r4)" by (simp add: r4_def r3_def)
  have bb: "has_head r c \<or> has_tail r c \<longrightarrow> b" using hb [unfolded static_cong [OF st1]] c len by (simp add: r2 r1_def)
  have inv4: "region_inv os r4 m4"
    by (rule fill_inv [OF inv c fill_untouched [OF inv c fr3 fr4 S(1)] new sinv4 _ _ _ _ bb])
      (simp_all add: static_def r4_def r3_def r2 r1_def)
  have fb: "vm_frame (region_range r) m3 (staging_ranges r2 \<union> ?S) m4 (staging_ranges r2)"
    using vm_frame_add [OF vm_frame_mono [OF fr4 X(1)], of "staging_ranges r2"] by (simp add: Un_commute)
  have fa: "vm_frame (region_range r) m (staging_ranges r) m3 (staging_ranges r2 \<union> ?S)"
    by (rule vm_frame_mono [OF fr3 shared_area_sub])
  have "region_range r \<inter> staging_ranges r = {}" using inv staging_disjoint_region unfolding region_inv_staging by blast
  then have "vm_frame (region_range r) m (staging_ranges r) m4 (staging_ranges r2)"
    by (rule vm_frame_trans [OF fa fb]) (use S(1) dj2 in auto)
  moreover have "staging_ranges r3 = staging_ranges r2" using sr4 by (simp add: staging_ranges_def staging_range_def r4_def Let_def)
  ultimately have "vm_frame (region_range r) m (staging_ranges r) m4 (staging_ranges r3)" by simp
  moreover have "\<exists>b sps. r3 = r\<lparr>r_initialized := (r_initialized r)[c := True], r_chunk_staged := (r_chunk_staged r)[c := b],
        r_shared_pages := sps,
        r_chunk_faults_total := (r_chunk_faults_total r)[c := size_add (r_chunk_faults_total r ! c) 1],
        r_fault_events_total := size_add (r_fault_events_total r) 1\<rparr>"
    by (intro exI [of _ b] exI [of _ sps]) (simp add: r3_def r2 r1_def)
  ultimately have "fill_post os r m c (r3, m4)" using inv4 by (simp add: fill_post_def r4_def)
  then show ?thesis using pub unfolding r3_def by blast
qed

theorem fill_chunk_region_ok:
  assumes inv: "region_inv os r m" and c: "c < r_nchunks r"
  shows "res_ok (fill_error_of r) (fill_post os r m c) (fill_chunk_region os r c m)"
proof -
  have wf: "region_wf os r" using inv by (simp add: region_inv_def)
  note W = region_wfD [OF wf] and B = span_bounds [OF wf c]
  let ?r1 = "r\<lparr>r_initialized := (r_initialized r)[c := True]\<rparr>"
  have create: "res_ok (fill_error_of r) (\<lambda>(s, m1). s_size s = span_len r c \<and> r_page_size r dvd s_addr s \<and>
      (\<forall>x\<in>{s_addr s..<s_addr s + span_len r c}. m x = None) \<and>
      m1 = mem_set m (s_addr s) (span_len r c) (Some (PROT_RW, 0))) (vm_scratch_create os m (span_len r c))"
    using posix.create_law [of os "span_len r c" m] W(4,5) B(1,2)
    by (auto simp: vm_page_size_def dvd_diff_nat fresh_range_def mem_free_def fill_error_of_def map_error_def
        elim!: res_ok_mono intro: res_ok_weaken [where E = "\<lambda>e. \<exists>w. e = Map_failed w"])
  show ?thesis
    unfolding fill_chunk_region_def Let_def Suc_eq_plus1 [symmetric]
  proof (rule res_ok_bind2 [OF create], clarify)
    fix s :: vm_scratch
    assume s: "s_size s = span_len r c" "r_page_size r dvd s_addr s" "\<forall>x\<in>{s_addr s..<s_addr s + span_len r c}. m x = None"
    show "res_ok (fill_error_of r) (fill_post os r m c)
      (res_bind (call_fill_chunk r c (s_addr s + (r_chunk_start r ! c - head_page r c)) (chunk_size r c)
          (mem_set m (s_addr s) (span_len r c) (Some (PROT_RW, 0)))) (\<lambda>m.
        res_bind (stage_chunk os ?r1 c (s_addr s) m) (\<lambda>(r, m).
        res_bind (publish_exclusive os r c s m) (\<lambda>m.
        Inr (r\<lparr>r_chunk_faults_total := (r_chunk_faults_total r)[c := size_add (r_chunk_faults_total r ! c) 1],
               r_fault_events_total := size_add (r_fault_events_total r) 1\<rparr>, m)))))"
    proof (rule res_ok_bind [OF call_fill_ok [OF wf c]])
      fix m2 assume m2: "scratch_filled r c (s_addr s) m2 \<and> (\<forall>x. x \<notin> {s_addr s..<s_addr s + span_len r c} \<longrightarrow> m2 x = m x)"
      then have stage: "res_ok (fill_error_of r) (stage_chunk_post os ?r1 m2 c) (stage_chunk os ?r1 c (s_addr s) m2)"
        using res_ok_weaken [OF fill_stage(1) [OF inv c, of "s_addr s" m2]] s(3) fill_error_of_weaken(1) by blast
      show "res_ok (fill_error_of r) (fill_post os r m c) (res_bind (stage_chunk os ?r1 c (s_addr s) m2) (\<lambda>(r, m).
        res_bind (publish_exclusive os r c s m) (\<lambda>m.
        Inr (r\<lparr>r_chunk_faults_total := (r_chunk_faults_total r)[c := size_add (r_chunk_faults_total r ! c) 1],
               r_fault_events_total := size_add (r_fault_events_total r) 1\<rparr>, m))))"
        by (rule res_ok_bind2 [OF stage]) (use fill_publish [OF inv c s(1,2)] s(3) m2 in force)
    qed
  qed
qed

end
