(* ===== verification/Linked_List.thy ===== *)
theory Linked_List
  imports FC_Prelude
begin

text \<open>
  The intrusive circular doubly-linked lists of the library, at pointer level.
  One list has a sentinel that lives in its owner (\<open>fc_pool.regions\<close>,
  \<open>fc_pool.lru_head\<close>, \<open>fc_pool_impl.regions\<close>) and nodes that live in their
  elements; each pointer field is a function from pointers to pointers.
  \<open>dlist l xs\<close> relates the links to the list of elements in forward order.  The
  interface \<open>linked_queue\<close> says what insertion at the head and removal do to
  that list; it is interpreted on the region list and on the queue's links.
\<close>

datatype 'a ptr = Null | Sentinel | Node 'a

record 'a links =
  l_next :: "'a ptr \<Rightarrow> 'a ptr"
  l_prev :: "'a ptr \<Rightarrow> 'a ptr"

text \<open>An empty list: both fields of the sentinel point back at it, all others are null.\<close>

definition links_empty :: "'a links" where
  "links_empty = \<lparr>l_next = (\<lambda>_. Null)(Sentinel := Sentinel), l_prev = (\<lambda>_. Null)(Sentinel := Sentinel)\<rparr>"

text \<open>The four assignments of \<open>region_list_insert\<close>, in the order of the source.\<close>

definition region_list_insert :: "'a links \<Rightarrow> 'a \<Rightarrow> 'a links" where
  "region_list_insert l x =
     (let l = l\<lparr>l_next := (l_next l)(Node x := l_next l Sentinel)\<rparr>;
          l = l\<lparr>l_prev := (l_prev l)(Node x := Sentinel)\<rparr>;
          l = l\<lparr>l_prev := (l_prev l)(l_next l Sentinel := Node x)\<rparr>
      in l\<lparr>l_next := (l_next l)(Sentinel := Node x)\<rparr>)"

definition region_list_remove :: "'a links \<Rightarrow> 'a \<Rightarrow> 'a links" where
  "region_list_remove l x =
     (let l = l\<lparr>l_prev := (l_prev l)(l_next l (Node x) := l_prev l (Node x))\<rparr>
      in l\<lparr>l_next := (l_next l)(l_prev l (Node x) := l_next l (Node x))\<rparr>)"

text \<open>The link assignments of \<open>lru_unlink\<close>, which also nulls the node's own fields.\<close>

definition lru_links_unlink :: "'a links \<Rightarrow> 'a \<Rightarrow> 'a links" where
  "lru_links_unlink l x =
     (let l = l\<lparr>l_next := (l_next l)(l_prev l (Node x) := l_next l (Node x))\<rparr>;
          l = l\<lparr>l_prev := (l_prev l)(l_next l (Node x) := l_prev l (Node x))\<rparr>
      in l\<lparr>l_next := (l_next l)(Node x := Null), l_prev := (l_prev l)(Node x := Null)\<rparr>)"

section \<open>Segments and lists\<close>

fun dseg :: "'a links \<Rightarrow> 'a ptr \<Rightarrow> 'a list \<Rightarrow> 'a ptr \<Rightarrow> bool" where
  "dseg l p [] q \<longleftrightarrow> l_next l p = q \<and> l_prev l q = p"
| "dseg l p (x # xs) q \<longleftrightarrow> l_next l p = Node x \<and> l_prev l (Node x) = p \<and> dseg l (Node x) xs q"

definition dlist :: "'a links \<Rightarrow> 'a list \<Rightarrow> bool" where
  "dlist l xs \<longleftrightarrow> dseg l Sentinel xs Sentinel \<and> distinct xs"

definition last_ptr :: "'a list \<Rightarrow> 'a ptr" where
  "last_ptr xs = (if xs = [] then Sentinel else Node (last xs))"

definition first_ptr :: "'a list \<Rightarrow> 'a ptr" where
  "first_ptr xs = (if xs = [] then Sentinel else Node (hd xs))"

lemma last_ptr_simps [simp]: "last_ptr [] = Sentinel" "last_ptr (xs @ [x]) = Node x"
  by (auto simp: last_ptr_def)

lemma first_ptr_simps [simp]: "first_ptr [] = Sentinel" "first_ptr (x # xs) = Node x"
  by (auto simp: first_ptr_def)

lemma dseg_cong:
  assumes "\<And>y. y = p \<or> y \<in> Node ` set xs \<Longrightarrow> l_next l' y = l_next l y"
    and "\<And>y. y = q \<or> y \<in> Node ` set xs \<Longrightarrow> l_prev l' y = l_prev l y"
  shows "dseg l' p xs q = dseg l p xs q"
  using assms by (induction xs arbitrary: p) auto

lemma dseg_append:
  "dseg l p (xs @ x # ys) q \<longleftrightarrow> dseg l p xs (Node x) \<and> dseg l (Node x) ys q"
  by (induction xs arbitrary: p) auto

lemma dseg_snoc:
  "dseg l p (xs @ [x]) q \<longleftrightarrow> dseg l p xs (Node x) \<and> l_next l (Node x) = q \<and> l_prev l q = Node x"
  using dseg_append [of l p xs x "[]" q] by simp

lemma dseg_first: "dseg l Sentinel xs q \<Longrightarrow> l_next l Sentinel = (if xs = [] then q else Node (hd xs))"
  by (cases xs) auto

lemma dseg_last: "dseg l Sentinel xs q \<Longrightarrow> l_prev l q = last_ptr xs"
  by (cases xs rule: rev_cases) (auto simp: dseg_snoc)

lemma dseg_next: "dseg l (Node x) xs Sentinel \<Longrightarrow> l_next l (Node x) = first_ptr xs"
  by (cases xs) auto

lemma dlist_empty [simp]: "dlist links_empty []"
  by (simp add: dlist_def links_empty_def)

lemma dlist_distinct: "dlist l xs \<Longrightarrow> distinct xs"
  by (simp add: dlist_def)

lemma dlist_next_head: "dlist l xs \<Longrightarrow> l_next l Sentinel = first_ptr xs"
  by (auto simp: dlist_def first_ptr_def dest: dseg_first)

lemma dlist_prev_head: "dlist l xs \<Longrightarrow> l_prev l Sentinel = last_ptr xs"
  by (auto simp: dlist_def dest: dseg_last)

lemma dlist_neighbours:
  assumes "dlist l (xs @ x # ys)"
  shows "l_prev l (Node x) = last_ptr xs" and "l_next l (Node x) = first_ptr ys"
  using assms dseg_last [of l xs "Node x"] dseg_next [of l x ys]
  by (auto simp: dlist_def dseg_append)

lemma dseg_unique:
  "dseg l p xs Sentinel \<Longrightarrow> dseg l p ys Sentinel \<Longrightarrow> xs = ys"
proof (induction xs arbitrary: p ys)
  case Nil
  then show ?case by (cases ys) auto
next
  case (Cons x xs)
  then show ?case by (cases ys) auto
qed

lemma dlist_unique: "dlist l xs \<Longrightarrow> dlist l ys \<Longrightarrow> xs = ys"
  by (auto simp: dlist_def intro: dseg_unique)

section \<open>Insertion and removal\<close>

lemma dlist_insert:
  assumes "dlist l xs" "x \<notin> set xs"
  shows "dlist (region_list_insert l x) (x # xs)"
proof (cases xs)
  case Nil
  with assms show ?thesis
    by (simp add: dlist_def region_list_insert_def)
next
  case (Cons y ys)
  with assms have seg: "dseg l (Node y) ys Sentinel" and y: "l_next l Sentinel = Node y" "x \<noteq> y" "x \<notin> set ys" "y \<notin> set ys"
    by (auto simp: dlist_def)
  have "dseg (region_list_insert l x) (Node y) ys Sentinel = dseg l (Node y) ys Sentinel"
    using y by (intro dseg_cong) (auto simp: region_list_insert_def Let_def)
  with seg y Cons assms show ?thesis
    by (simp add: dlist_def region_list_insert_def Let_def)
qed

lemma dseg_join:
  assumes seg: "dseg l Sentinel (xs @ x # ys) Sentinel" and dist: "distinct (xs @ x # ys)"
    and nx: "l_next l' (last_ptr xs) = first_ptr ys" "\<And>y. y \<noteq> last_ptr xs \<Longrightarrow> y \<noteq> Node x \<Longrightarrow> l_next l' y = l_next l y"
    and pv: "l_prev l' (first_ptr ys) = last_ptr xs" "\<And>y. y \<noteq> first_ptr ys \<Longrightarrow> y \<noteq> Node x \<Longrightarrow> l_prev l' y = l_prev l y"
  shows "dseg l' Sentinel (xs @ ys) Sentinel"
proof -
  from seg have s1: "dseg l Sentinel xs (Node x)" and s2: "dseg l (Node x) ys Sentinel"
    by (auto simp: dseg_append)
  show ?thesis
  proof (cases xs rule: rev_cases)
    case Nil
    show ?thesis
    proof (cases ys)
      case (Cons y zs)
      have "dseg l' (Node y) zs Sentinel = dseg l (Node y) zs Sentinel"
        using Nil Cons dist by (intro dseg_cong nx pv) (auto)
      then show ?thesis using Nil Cons s2 nx(1) pv(1) by simp
    qed (use Nil nx pv in simp)
  next
    case (snoc us u)
    have front: "dseg l' Sentinel us (Node u) = dseg l Sentinel us (Node u)"
      using snoc dist by (intro dseg_cong nx pv) (auto simp: first_ptr_def split: if_splits)
    show ?thesis
    proof (cases ys)
      case Nil
      then show ?thesis using snoc front s1 nx(1) pv(1) by (simp add: dseg_snoc)
    next
      case (Cons y zs)
      have "dseg l' (Node y) zs Sentinel = dseg l (Node y) zs Sentinel"
        using snoc Cons dist by (intro dseg_cong nx pv) (auto)
      then show ?thesis using snoc Cons front s1 s2 nx(1) pv(1)
        by (simp add: dseg_append dseg_snoc)
    qed
  qed
qed

lemma dlist_remove_split:
  assumes "dlist l (xs @ x # ys)"
  shows "dlist (region_list_remove l x) (xs @ ys)" and "dlist (lru_links_unlink l x) (xs @ ys)"
proof -
  note nb = dlist_neighbours [OF assms]
  have seg: "dseg l Sentinel (xs @ x # ys) Sentinel" and dist: "distinct (xs @ x # ys)"
    using assms by (auto simp: dlist_def)
  have ne: "last_ptr xs \<noteq> Node x" "first_ptr ys \<noteq> Node x" "last_ptr xs \<noteq> Null" "first_ptr ys \<noteq> Null"
    using dist by (auto simp: last_ptr_def first_ptr_def dest: hd_in_set)
  show "dlist (region_list_remove l x) (xs @ ys)"
    using dist ne dseg_join [OF seg dist, of "region_list_remove l x"]
    by (simp add: dlist_def region_list_remove_def Let_def nb)
  show "dlist (lru_links_unlink l x) (xs @ ys)"
    using dist ne dseg_join [OF seg dist, of "lru_links_unlink l x"]
    by (simp add: dlist_def lru_links_unlink_def Let_def nb)
qed

lemma remove1_split: "x \<notin> set xs \<Longrightarrow> remove1 x (xs @ x # ys) = xs @ ys"
  by (simp add: remove1_append)

section \<open>The interface of a linked queue\<close>

locale linked_queue =
  fixes rep :: "'q \<Rightarrow> 'a list \<Rightarrow> bool"
    and empty :: 'q
    and ins :: "'q \<Rightarrow> 'a \<Rightarrow> 'q"
    and del :: "'q \<Rightarrow> 'a \<Rightarrow> 'q"
  assumes rep_empty: "rep empty []"
    and rep_unique: "rep q xs \<Longrightarrow> rep q ys \<Longrightarrow> xs = ys"
    and rep_distinct: "rep q xs \<Longrightarrow> distinct xs"
    and rep_ins: "rep q xs \<Longrightarrow> x \<notin> set xs \<Longrightarrow> rep (ins q x) (x # xs)"
    and rep_del: "rep q xs \<Longrightarrow> x \<in> set xs \<Longrightarrow> rep (del q x) (remove1 x xs)"
begin

lemma del_ins: "rep q xs \<Longrightarrow> x \<notin> set xs \<Longrightarrow> rep (del (ins q x) x) xs"
  using rep_del [OF rep_ins, of q xs x x] by simp

lemma move_to_front: "rep q xs \<Longrightarrow> x \<in> set xs \<Longrightarrow> rep (ins (del q x) x) (x # remove1 x xs)"
  using rep_ins [OF rep_del, of q xs x x] rep_distinct [of q xs] by simp

lemma del_append: "rep q (xs @ x # ys) \<Longrightarrow> rep (del q x) (xs @ ys)"
  using rep_del [of q "xs @ x # ys" x] rep_distinct [of q "xs @ x # ys"] by (simp add: remove1_split)

lemma rep_ins_all:
  "rep q xs \<Longrightarrow> distinct zs \<Longrightarrow> set zs \<inter> set xs = {} \<Longrightarrow> rep (foldl ins q zs) (rev zs @ xs)"
proof (induction zs arbitrary: q xs)
  case Nil
  then show ?case by simp
next
  case (Cons z zs)
  then have "rep (ins q z) (z # xs)" by (simp add: rep_ins)
  with Cons show ?case using Cons.IH [of "ins q z" "z # xs"] by simp
qed

end

lemma dlist_remove_member:
  assumes "dlist l xs" "x \<in> set xs"
  shows "dlist (region_list_remove l x) (remove1 x xs)" and "dlist (lru_links_unlink l x) (remove1 x xs)"
proof -
  obtain us ys where split: "xs = us @ x # ys" using assms(2) by (meson split_list)
  then have "x \<notin> set us" using dlist_distinct [OF assms(1)] by auto
  then show "dlist (region_list_remove l x) (remove1 x xs)" "dlist (lru_links_unlink l x) (remove1 x xs)"
    using dlist_remove_split [of l us x ys] assms(1) split by (simp_all add: remove1_split)
qed

interpretation region_list: linked_queue dlist links_empty region_list_insert region_list_remove
  by unfold_locales
    (auto intro: dlist_unique dlist_distinct dlist_insert dlist_remove_member(1))

interpretation lru_links: linked_queue dlist links_empty region_list_insert lru_links_unlink
  by unfold_locales
    (auto intro: dlist_unique dlist_distinct dlist_insert dlist_remove_member(2))

end
