(* ===== verification/Lru.thy ===== *)
theory Lru
  imports Region_Inv Linked_List "HOL-Library.Multiset"
begin

text \<open>
  The pool and its recency queue: \<open>struct fc_pool\<close> and the \<open>lru_*\<close> functions of
  \<open>inproc.c\<close>.  A region pointer is a number, the pool maps it to the struct it
  points to, and a queue node is a region pointer with a chunk number.  The queue is
  the list \<open>hs @ cs\<close>: a hot half that ends at the midpoint and a cold half.  The
  lemmas of this theory are about the queue, its counters and its flags; memory
  comes in with theory \<open>Pool_Inv\<close>.
\<close>

section \<open>Definitions\<close>

type_synonym node = "nat \<times> uint32_t"

record fc_pool =
  p_target_size :: size_t
  p_resident_bytes :: size_t
  p_lru :: "node links"
  p_midpoint :: "node ptr"
  p_hot_bytes :: size_t
  p_regions :: "nat links"
  p_region :: "nat \<Rightarrow> fc_region"

definition upd_region :: "fc_pool \<Rightarrow> nat \<Rightarrow> (fc_region \<Rightarrow> fc_region) \<Rightarrow> fc_pool" where
  "upd_region p rid f = p\<lparr>p_region := (p_region p)(rid := f (p_region p rid))\<rparr>"

definition lru_node_size :: "fc_pool \<Rightarrow> node \<Rightarrow> size_t" where
  "lru_node_size p n =
     (case n of (rid, c) \<Rightarrow> r_chunk_start (p_region p rid) ! (c + 1) - r_chunk_start (p_region p rid) ! c)"

definition chunk_set_readable :: "os \<Rightarrow> fc_region \<Rightarrow> uint32_t \<Rightarrow> bool \<Rightarrow> mem \<Rightarrow> mem res" where
  "chunk_set_readable os r c readable m =
     (case chunk_exclusive_pages r c of (lo, hi) \<Rightarrow>
        if hi > lo then vm_set_readable os m (r_base r + lo) (hi - lo) readable else Inr m)"

abbreviation node_resident :: "fc_pool \<Rightarrow> node \<Rightarrow> bool" where
  "node_resident p n \<equiv> r_lru_resident (p_region p (fst n)) ! snd n"

abbreviation node_cold :: "fc_pool \<Rightarrow> node \<Rightarrow> bool" where
  "node_cold p n \<equiv> r_lru_cold (p_region p (fst n)) ! snd n"

definition lru_unlink :: "fc_pool \<Rightarrow> node \<Rightarrow> fc_pool res" where
  "lru_unlink p n =
     fc_assert ''node->resident'' (node_resident p n)
     (let p = (if p_midpoint p = Node n then p\<lparr>p_midpoint := l_prev (p_lru p) (Node n)\<rparr> else p);
          p = (if \<not> node_cold p n then p\<lparr>p_hot_bytes := size_sub (p_hot_bytes p) (lru_node_size p n)\<rparr> else p);
          p = p\<lparr>p_lru := lru_links_unlink (p_lru p) n\<rparr>
      in Inr (upd_region p (fst n) (\<lambda>r. r\<lparr>r_lru_resident := (r_lru_resident r)[snd n := False]\<rparr>)))"

definition lru_insert_mru :: "fc_pool \<Rightarrow> node \<Rightarrow> fc_pool res" where
  "lru_insert_mru p n =
     fc_assert ''!node->resident'' (\<not> node_resident p n)
     (let p = p\<lparr>p_lru := region_list_insert (p_lru p) n\<rparr>;
          p = upd_region p (fst n) (\<lambda>r. r\<lparr>r_lru_resident := (r_lru_resident r)[snd n := True],
                r_lru_cold := (r_lru_cold r)[snd n := False]\<rparr>);
          p = p\<lparr>p_hot_bytes := size_add (p_hot_bytes p) (lru_node_size p n)\<rparr>
      in Inr (if p_midpoint p = Sentinel then p\<lparr>p_midpoint := Node n\<rparr> else p))"

text \<open>
  The loop of \<open>lru_rebalance\<close>; each round demotes a node of at least one byte, so
  \<open>hot_bytes\<close> bounds the number of rounds.
\<close>

fun lru_rebalance_loop :: "nat \<Rightarrow> os \<Rightarrow> fc_pool \<Rightarrow> mem \<Rightarrow> (fc_pool \<times> mem) res" where
  "lru_rebalance_loop 0 os p m = Inl (Diverged ''lru_rebalance'')"
| "lru_rebalance_loop (Suc fuel) os p m =
     (if p_hot_bytes p > p_resident_bytes p div 2 \<and> p_midpoint p \<noteq> l_next (p_lru p) Sentinel then
        case p_midpoint p of
          Node n \<Rightarrow>
            res_bind (chunk_set_readable os (p_region p (fst n)) (snd n) False m) (\<lambda>m.
            let p = upd_region p (fst n) (\<lambda>r. r\<lparr>r_lru_cold := (r_lru_cold r)[snd n := True]\<rparr>);
                p = p\<lparr>p_hot_bytes := size_sub (p_hot_bytes p) (lru_node_size p n)\<rparr>;
                p = p\<lparr>p_midpoint := l_prev (p_lru p) (Node n)\<rparr>
            in lru_rebalance_loop fuel os p m)
        | _ \<Rightarrow> Inl (Segv 0)
      else Inr (p, m))"

definition lru_rebalance :: "os \<Rightarrow> fc_pool \<Rightarrow> mem \<Rightarrow> (fc_pool \<times> mem) res" where
  "lru_rebalance os p m =
     (if p_target_size p = 0 then Inr (p, m) else lru_rebalance_loop (Suc (p_hot_bytes p)) os p m)"

definition lru_promote :: "os \<Rightarrow> fc_pool \<Rightarrow> node \<Rightarrow> mem \<Rightarrow> (fc_pool \<times> mem) res" where
  "lru_promote os p n m =
     fc_assert ''node->cold'' (node_cold p n)
     (res_bind (chunk_set_readable os (p_region p (fst n)) (snd n) True m) (\<lambda>m.
      res_bind (lru_unlink p n) (\<lambda>p.
      res_bind (lru_insert_mru p n) (\<lambda>p. Inr (p, m)))))"

definition lru_forget_chunk :: "fc_pool \<Rightarrow> nat \<Rightarrow> uint32_t \<Rightarrow> fc_pool res" where
  "lru_forget_chunk p rid chunk =
     (if \<not> node_resident p (rid, chunk) then Inr p
      else
        let chunk_size = lru_node_size p (rid, chunk) in
        res_bind (lru_unlink p (rid, chunk)) (\<lambda>p.
        let p = upd_region p rid (\<lambda>r. r\<lparr>r_initialized := (r_initialized r)[chunk := False],
                  r_resident_bytes := size_sub (r_resident_bytes r) chunk_size,
                  r_resident_chunks := u32_sub (r_resident_chunks r) 1\<rparr>)
        in Inr (p\<lparr>p_resident_bytes := size_sub (p_resident_bytes p) chunk_size\<rparr>)))"

definition lru_evict_chunk :: "os \<Rightarrow> fc_pool \<Rightarrow> nat \<Rightarrow> uint32_t \<Rightarrow> mem \<Rightarrow> (fc_pool \<times> mem) res" where
  "lru_evict_chunk os p rid chunk m =
     res_bind (lru_forget_chunk p rid chunk) (\<lambda>p.
     case chunk_exclusive_pages (p_region p rid) chunk of (lo, hi) \<Rightarrow>
       if hi = lo then Inr (p, m)
       else res_bind (vm_decommit os m (r_base (p_region p rid) + lo) (hi - lo)) (\<lambda>m. Inr (p, m)))"

text \<open>Each round of the eviction loop removes at least one resident byte.\<close>

fun evict_loop :: "nat \<Rightarrow> os \<Rightarrow> fc_pool \<Rightarrow> nat \<Rightarrow> uint32_t \<Rightarrow> uint32_t \<Rightarrow> mem \<Rightarrow> (fc_pool \<times> mem) res" where
  "evict_loop 0 os p prot_rid prot_lo prot_hi m = Inl (Diverged ''evict_until_within_budget'')"
| "evict_loop (Suc fuel) os p prot_rid prot_lo prot_hi m =
     (if p_resident_bytes p > p_target_size p then
        case l_prev (p_lru p) Sentinel of
          Sentinel \<Rightarrow> Inl (Assert_failed ''victim != &pool->lru_head'')
        | Null \<Rightarrow> Inl (Segv 0)
        | Node (rid, c) \<Rightarrow>
            if rid = prot_rid \<and> c \<ge> prot_lo \<and> c \<le> prot_hi then Inr (p, m)
            else res_bind (lru_evict_chunk os p rid c m) (\<lambda>(p, m).
                 evict_loop fuel os p prot_rid prot_lo prot_hi m)
      else Inr (p, m))"

definition evict_until_within_budget ::
    "os \<Rightarrow> fc_pool \<Rightarrow> nat \<Rightarrow> uint32_t \<Rightarrow> uint32_t \<Rightarrow> mem \<Rightarrow> (fc_pool \<times> mem) res" where
  "evict_until_within_budget os p prot_rid prot_lo prot_hi m =
     (if p_target_size p = 0 then Inr (p, m)
      else evict_loop (Suc (p_resident_bytes p)) os p prot_rid prot_lo prot_hi m)"

section \<open>The bytes of distinct chunks fit the address space\<close>

definition nodes :: "fc_pool \<Rightarrow> nat set \<Rightarrow> node set" where
  "nodes p rids = {(rid, c). rid \<in> rids \<and> c < r_nchunks (p_region p rid)}"

definition regions_apart :: "os \<Rightarrow> fc_pool \<Rightarrow> nat set \<Rightarrow> bool" where
  "regions_apart os p rids \<longleftrightarrow> (\<forall>rid\<in>rids. region_wf os (p_region p rid)) \<and>
     (\<forall>rid\<in>rids. \<forall>rid'\<in>rids. rid \<noteq> rid' \<longrightarrow> region_range (p_region p rid) \<inter> region_range (p_region p rid') = {})"

definition node_area :: "fc_pool \<Rightarrow> node \<Rightarrow> addr set" where
  "node_area p n = (case n of (rid, c) \<Rightarrow>
     {r_base (p_region p rid) + r_chunk_start (p_region p rid) ! c..<
      r_base (p_region p rid) + r_chunk_start (p_region p rid) ! Suc c})"

lemma node_area_facts:
  assumes ap: "regions_apart os p rids" and n: "n \<in> nodes p rids"
  shows "card (node_area p n) = lru_node_size p n" "node_area p n \<subseteq> region_range (p_region p (fst n))"
    "0 < lru_node_size p n" "node_area p n \<subseteq> {1..<SIZE_RANGE}"
proof -
  obtain rid c where rc: "n = (rid, c)" by fastforce
  let ?r = "p_region p rid"
  have wf: "region_wf os ?r" and c: "c < r_nchunks ?r" using ap n by (auto simp: rc regions_apart_def nodes_def)
  have lay: "region_layout ?r" and b: "0 < r_base ?r" "r_base ?r + r_mapped_size ?r \<le> SIZE_RANGE" using wf by (auto simp: region_wf_def)
  have m: "r_chunk_start ?r ! c < r_chunk_start ?r ! Suc c" "r_chunk_start ?r ! Suc c \<le> r_total_size ?r" "r_total_size ?r \<le> r_mapped_size ?r"
    using region_start_mono(1) [OF lay, of c "Suc c"] region_start_mono(3) [OF lay, of "Suc c"] c region_layoutD(9) [OF lay] by auto
  show "card (node_area p n) = lru_node_size p n" by (simp add: rc node_area_def lru_node_size_def)
  show "0 < lru_node_size p n" using m by (simp add: rc lru_node_size_def)
  show "node_area p n \<subseteq> region_range (p_region p (fst n))" using m by (auto simp: rc node_area_def region_range_def)
  show "node_area p n \<subseteq> {1..<SIZE_RANGE}" using m b by (auto simp: rc node_area_def simp del: One_nat_def)
qed

lemma node_area_disjoint:
  assumes ap: "regions_apart os p rids" and n: "n \<in> nodes p rids" "n' \<in> nodes p rids" "n \<noteq> n'"
  shows "node_area p n \<inter> node_area p n' = {}"
proof (cases "fst n = fst n'")
  case False
  moreover have "fst n \<in> rids" "fst n' \<in> rids" using n by (auto simp: nodes_def)
  ultimately have "region_range (p_region p (fst n)) \<inter> region_range (p_region p (fst n')) = {}"
    using ap by (simp add: regions_apart_def)
  then show ?thesis using node_area_facts(2) [OF ap n(1)] node_area_facts(2) [OF ap n(2)] by blast
next
  case True
  then obtain rid c c' where rc: "n = (rid, c)" "n' = (rid, c')" by (metis prod.collapse)
  have lay: "region_layout (p_region p rid)" and c: "c < r_nchunks (p_region p rid)" "c' < r_nchunks (p_region p rid)" "c \<noteq> c'"
    using ap n by (auto simp: rc regions_apart_def nodes_def region_wf_def)
  then have "r_chunk_start (p_region p rid) ! Suc c \<le> r_chunk_start (p_region p rid) ! c' \<or>
      r_chunk_start (p_region p rid) ! Suc c' \<le> r_chunk_start (p_region p rid) ! c"
    using region_start_mono(2) [OF lay, of "Suc c" c'] region_start_mono(2) [OF lay, of "Suc c'" c] by (cases c c' rule: linorder_cases) auto
  then show ?thesis by (auto simp: node_area_def rc)
qed

lemma nodes_bytes_bound:
  assumes ap: "regions_apart os p rids" and ns: "distinct ns" "set ns \<subseteq> nodes p rids"
  shows "sum_list (map (lru_node_size p) ns) < SIZE_RANGE"
proof -
  have "sum_list (map (lru_node_size p) ns) = (\<Sum>n\<in>set ns. lru_node_size p n)"
    by (simp add: sum_list_distinct_conv_sum_set ns(1))
  also have "\<dots> = (\<Sum>n\<in>set ns. card (node_area p n))"
    using node_area_facts(1) [OF ap] ns(2) by (intro sum.cong) auto
  also have "\<dots> = card (\<Union>n\<in>set ns. node_area p n)"
  proof (rule card_UN_disjoint [symmetric])
    show "\<forall>n\<in>set ns. finite (node_area p n)" by (auto simp: node_area_def)
    show "\<forall>n\<in>set ns. \<forall>n'\<in>set ns. n \<noteq> n' \<longrightarrow> node_area p n \<inter> node_area p n' = {}"
      using node_area_disjoint [OF ap] ns(2) by blast
  qed simp
  also have "\<dots> \<le> card {1..<SIZE_RANGE}"
    using node_area_facts(4) [OF ap] ns(2) by (intro card_mono) (simp, blast)
  also have "\<dots> < SIZE_RANGE" by simp
  finally show ?thesis .
qed

section \<open>The queue invariant\<close>

abbreviation nodes_bytes :: "fc_pool \<Rightarrow> node list \<Rightarrow> size_t" where
  "nodes_bytes p ns \<equiv> sum_list (map (lru_node_size p) ns)"

text \<open>The links and the midpoint represent the queue \<open>hs @ cs\<close>.\<close>

definition lru_rep :: "fc_pool \<Rightarrow> node list \<Rightarrow> node list \<Rightarrow> bool" where
  "lru_rep p hs cs \<longleftrightarrow> dlist (p_lru p) (hs @ cs) \<and> p_midpoint p = last_ptr hs \<and> p_hot_bytes p = nodes_bytes p hs"

definition region_counts :: "fc_pool \<Rightarrow> nat \<Rightarrow> node list \<Rightarrow> bool" where
  "region_counts p rid ns \<longleftrightarrow>
     r_resident_bytes (p_region p rid) = nodes_bytes p (filter (\<lambda>n. fst n = rid) ns) \<and>
     r_resident_chunks (p_region p rid) = length (filter (\<lambda>n. fst n = rid) ns)"

definition pool_lru :: "os \<Rightarrow> fc_pool \<Rightarrow> nat set \<Rightarrow> node list \<Rightarrow> node list \<Rightarrow> bool" where
  "pool_lru os p rids hs cs \<longleftrightarrow> regions_apart os p rids \<and> lru_rep p hs cs \<and>
     p_resident_bytes p = nodes_bytes p (hs @ cs) \<and>
     set (hs @ cs) = {n \<in> nodes p rids. node_resident p n} \<and>
     (\<forall>n\<in>set hs. \<not> node_cold p n) \<and> (\<forall>n\<in>set cs. node_cold p n) \<and>
     (\<forall>(rid, c)\<in>nodes p rids. r_initialized (p_region p rid) ! c = r_lru_resident (p_region p rid) ! c) \<and>
     (\<forall>rid\<in>rids. region_counts p rid (hs @ cs))"

lemma pool_lruD:
  assumes "pool_lru os p rids hs cs"
  shows "regions_apart os p rids" "lru_rep p hs cs" "p_resident_bytes p = nodes_bytes p (hs @ cs)"
    "set hs \<union> set cs = {n \<in> nodes p rids. node_resident p n}" "\<And>n. n \<in> set hs \<Longrightarrow> \<not> node_cold p n" "\<And>n. n \<in> set cs \<Longrightarrow> node_cold p n"
    "distinct (hs @ cs)" "set (hs @ cs) \<subseteq> nodes p rids" "nodes_bytes p (hs @ cs) < SIZE_RANGE"
    "\<And>rid. rid \<in> rids \<Longrightarrow> region_counts p rid (hs @ cs)"
    "\<And>rid c. (rid, c) \<in> nodes p rids \<Longrightarrow> r_initialized (p_region p rid) ! c = r_lru_resident (p_region p rid) ! c"
proof -
  show ap: "regions_apart os p rids" and rep: "lru_rep p hs cs" and "p_resident_bytes p = nodes_bytes p (hs @ cs)"
    and res: "set hs \<union> set cs = {n \<in> nodes p rids. node_resident p n}"
    and "\<And>n. n \<in> set hs \<Longrightarrow> \<not> node_cold p n" "\<And>n. n \<in> set cs \<Longrightarrow> node_cold p n" "\<And>rid. rid \<in> rids \<Longrightarrow> region_counts p rid (hs @ cs)"
    and "\<And>rid c. (rid, c) \<in> nodes p rids \<Longrightarrow> r_initialized (p_region p rid) ! c = r_lru_resident (p_region p rid) ! c"
    using assms by (auto simp: pool_lru_def)
  show d: "distinct (hs @ cs)" using rep by (metis lru_rep_def dlist_distinct)
  show sub: "set (hs @ cs) \<subseteq> nodes p rids" using res by auto
  show "nodes_bytes p (hs @ cs) < SIZE_RANGE" by (rule nodes_bytes_bound [OF ap d sub])
qed

text \<open>The counters in terms of the flags: sums and cardinalities over the chunks marked resident.\<close>

definition resident_nodes :: "fc_pool \<Rightarrow> nat set \<Rightarrow> node set" where
  "resident_nodes p rids = {(rid, c). rid \<in> rids \<and> c < r_nchunks (p_region p rid) \<and> r_lru_resident (p_region p rid) ! c}"

lemma resident_nodes_queue:
  assumes "pool_lru os p rids hs cs"
  shows "resident_nodes p rids = set hs \<union> set cs"
  unfolding pool_lruD(4) [OF assms] by (auto simp: resident_nodes_def nodes_def)

lemma pool_counters:
  assumes "pool_lru os p rids hs cs"
  shows "p_resident_bytes p = sum (lru_node_size p) (resident_nodes p rids)" "p_resident_bytes p < SIZE_RANGE"
    "p_hot_bytes p = sum (lru_node_size p) {n \<in> resident_nodes p rids. \<not> node_cold p n}"
    "rid \<in> rids \<Longrightarrow> r_resident_bytes (p_region p rid) = sum (lru_node_size p) {n \<in> resident_nodes p rids. fst n = rid}"
    "rid \<in> rids \<Longrightarrow> r_resident_chunks (p_region p rid) = card {n \<in> resident_nodes p rids. fst n = rid}"
proof -
  note L = pool_lruD [OF assms]
  have all: "resident_nodes p rids = set (hs @ cs)" using resident_nodes_queue [OF assms] by simp
  have hot: "{n \<in> resident_nodes p rids. \<not> node_cold p n} = set hs" unfolding all using L(5,6) by auto
  have own: "{n \<in> resident_nodes p rids. fst n = rid} = set (filter (\<lambda>n. fst n = rid) (hs @ cs))" for rid unfolding all by auto
  have bytes: "nodes_bytes p ns = sum (lru_node_size p) (set ns)" if "distinct ns" for ns
    using that by (rule sum_list_distinct_conv_sum_set)
  show "p_resident_bytes p = sum (lru_node_size p) (resident_nodes p rids)" unfolding all L(3) by (rule bytes [OF L(7)])
  show "p_resident_bytes p < SIZE_RANGE" using L(3,9) by simp
  show "p_hot_bytes p = sum (lru_node_size p) {n \<in> resident_nodes p rids. \<not> node_cold p n}"
    unfolding hot using bytes [of hs] L(2,7) by (simp add: lru_rep_def)
  have d: "distinct (filter (\<lambda>n. fst n = rid) (hs @ cs))" for rid by (rule distinct_filter [OF L(7)])
  show "r_resident_bytes (p_region p rid) = sum (lru_node_size p) {n \<in> resident_nodes p rids. fst n = rid}" if "rid \<in> rids"
    unfolding own using bytes [OF d] L(10) [OF that] by (simp only: region_counts_def)
  show "r_resident_chunks (p_region p rid) = card {n \<in> resident_nodes p rids. fst n = rid}" if "rid \<in> rids"
    unfolding own distinct_card [OF d] using L(10) [OF that] by (simp only: region_counts_def)
qed

text \<open>Operations on the queue leave the fixed fields of every region alone.\<close>

definition pool_static :: "fc_pool \<Rightarrow> fc_pool \<Rightarrow> bool" where
  "pool_static p p' \<longleftrightarrow> (\<forall>rid. static (p_region p' rid) = static (p_region p rid))"

lemma pool_static_cong:
  assumes "pool_static p p'"
  shows "lru_node_size p' = lru_node_size p" "nodes p' rids = nodes p rids"
    "region_range (p_region p' rid) = region_range (p_region p rid)"
  using assms by (auto simp: pool_static_def lru_node_size_def nodes_def region_range_def static_def fun_eq_iff)

lemma pool_static_upd:
  "p_region p' = (p_region p)(rid := r') \<Longrightarrow> static r' = static (p_region p rid) \<Longrightarrow> pool_static p p'"
  by (simp add: pool_static_def)

lemma regions_apart_upd:
  assumes "regions_apart os p rids" "p_region p' = (p_region p)(rid := r')" "region_wf os r'" "static r' = static (p_region p rid)"
  shows "regions_apart os p' rids"
  using assms pool_static_cong(3) [OF pool_static_upd [OF assms(2,4)]] by (simp add: regions_apart_def)

lemma last_ptr_remove1: "distinct hs \<Longrightarrow> hs \<noteq> [] \<Longrightarrow> n \<noteq> last hs \<Longrightarrow> last_ptr (remove1 n hs) = last_ptr hs"
  by (cases hs rule: rev_cases) (auto simp: remove1_append last_ptr_def)

lemma last_ptr_Node: "last_ptr hs = Node n \<longleftrightarrow> hs \<noteq> [] \<and> last hs = n"
  by (auto simp: last_ptr_def)

lemma last_ptr_Sentinel: "last_ptr hs = Sentinel \<longleftrightarrow> hs = []"
  by (auto simp: last_ptr_def)

lemma remove1_halves: "distinct (hs @ cs) \<Longrightarrow> remove1 n (hs @ cs) = remove1 n hs @ remove1 n cs"
proof (cases "n \<in> set hs")
  case True
  moreover assume "distinct (hs @ cs)"
  ultimately have "n \<notin> set cs" by auto
  then show ?thesis using True by (simp add: remove1_append remove1_idem)
qed (simp add: remove1_append remove1_idem)

abbreviation same_pool :: "fc_pool \<Rightarrow> fc_pool \<Rightarrow> bool" where
  "same_pool p p' \<equiv> p_target_size p' = p_target_size p \<and> p_regions p' = p_regions p"

text \<open>What \<open>lru_unlink\<close> does to the queue.\<close>

lemma lru_unlink_ok:
  assumes rep: "lru_rep p hs cs" and n: "n \<in> set (hs @ cs)" and res: "node_resident p n"
    and flag: "node_cold p n \<longleftrightarrow> n \<in> set cs" and small: "nodes_bytes p hs < SIZE_RANGE"
  obtains p' where "lru_unlink p n = Inr p'" "lru_rep p' (remove1 n hs) (remove1 n cs)"
    "same_pool p p'" "p_resident_bytes p' = p_resident_bytes p"
    "p_region p' = (p_region p)(fst n := (p_region p (fst n))\<lparr>r_lru_resident := (r_lru_resident (p_region p (fst n)))[snd n := False]\<rparr>)"
proof -
  have dl: "dlist (p_lru p) (hs @ cs)" and mid: "p_midpoint p = last_ptr hs" and hot: "p_hot_bytes p = nodes_bytes p hs"
    using rep by (auto simp: lru_rep_def)
  have dist: "distinct (hs @ cs)" using dl by (rule dlist_distinct)
  define mid' where "mid' = (if p_midpoint p = Node n then l_prev (p_lru p) (Node n) else p_midpoint p)"
  define hot' where "hot' = (if node_cold p n then p_hot_bytes p else size_sub (p_hot_bytes p) (lru_node_size p n))"
  define p' where "p' = p\<lparr>p_midpoint := mid', p_hot_bytes := hot', p_lru := lru_links_unlink (p_lru p) n,
       p_region := (p_region p)(fst n := (p_region p (fst n))\<lparr>r_lru_resident := (r_lru_resident (p_region p (fst n)))[snd n := False]\<rparr>)\<rparr>"
  have eq: "lru_unlink p n = Inr p'"
    using res by (simp add: lru_unlink_def Let_def upd_region_def p'_def mid'_def hot'_def lru_node_size_def)
  have "pool_static p p'" by (simp add: pool_static_def p'_def static_def)
  note size = pool_static_cong(1) [OF this]
  have mid_ok: "mid' = last_ptr (remove1 n hs)"
  proof (cases "p_midpoint p = Node n")
    case True
    then have h: "hs = butlast hs @ [n]" using mid append_butlast_last_id [of hs] by (auto simp: last_ptr_Node)
    then have "l_prev (p_lru p) (Node n) = last_ptr (butlast hs)"
      using dlist_neighbours(1) [of "p_lru p" "butlast hs" n cs] dl by (metis append.assoc append_Cons append_Nil)
    moreover have "remove1 n hs = butlast hs" using h dist by (metis distinct_append remove1_append remove1_split append_Nil2 not_distinct_conv_prefix append.assoc)
    ultimately show ?thesis using True by (simp add: mid'_def)
  next
    case False
    then show ?thesis using mid dist last_ptr_remove1 [of hs n]
      by (cases "hs = []") (auto simp: mid'_def last_ptr_Node last_ptr_def)
  qed
  have "hot' = nodes_bytes p (remove1 n hs)"
  proof (cases "n \<in> set cs")
    case True
    then have "n \<notin> set hs" using dist by auto
    then show ?thesis using True flag hot by (simp add: hot'_def remove1_idem)
  next
    case False
    then have nh: "n \<in> set hs" using n by simp
    then show ?thesis
      using False flag hot small member_le_sum_list_map [OF nh, of "lru_node_size p"]
      by (simp add: hot'_def sum_list_remove1)
  qed
  moreover have "dlist (lru_links_unlink (p_lru p) n) (remove1 n hs @ remove1 n cs)"
    using lru_links.rep_del [OF dl, of n] n remove1_halves [OF dist, of n] by simp
  ultimately have "lru_rep p' (remove1 n hs) (remove1 n cs)"
    using mid_ok size by (simp add: lru_rep_def p'_def)
  then show thesis using that [OF eq] by (simp add: p'_def)
qed

lemma lru_insert_mru_ok:
  assumes rep: "lru_rep p hs cs" and n: "n \<notin> set (hs @ cs)" and res: "\<not> node_resident p n"
    and small: "lru_node_size p n + nodes_bytes p hs < SIZE_RANGE"
  obtains p' where "lru_insert_mru p n = Inr p'" "lru_rep p' (n # hs) cs"
    "same_pool p p'" "p_resident_bytes p' = p_resident_bytes p"
    "p_region p' = (p_region p)(fst n := (p_region p (fst n))\<lparr>r_lru_resident := (r_lru_resident (p_region p (fst n)))[snd n := True],
         r_lru_cold := (r_lru_cold (p_region p (fst n)))[snd n := False]\<rparr>)"
proof -
  have dl: "dlist (p_lru p) (hs @ cs)" and mid: "p_midpoint p = last_ptr hs" and hot: "p_hot_bytes p = nodes_bytes p hs"
    using rep by (auto simp: lru_rep_def)
  define p' where "p' = p\<lparr>p_midpoint := if p_midpoint p = Sentinel then Node n else p_midpoint p,
       p_hot_bytes := size_add (p_hot_bytes p) (lru_node_size p n), p_lru := region_list_insert (p_lru p) n,
       p_region := (p_region p)(fst n := (p_region p (fst n))\<lparr>r_lru_resident := (r_lru_resident (p_region p (fst n)))[snd n := True],
         r_lru_cold := (r_lru_cold (p_region p (fst n)))[snd n := False]\<rparr>)\<rparr>"
  have eq: "lru_insert_mru p n = Inr p'"
    using res by (cases n) (simp add: lru_insert_mru_def Let_def upd_region_def p'_def lru_node_size_def)
  have "pool_static p p'" by (simp add: pool_static_def p'_def static_def)
  note size = pool_static_cong(1) [OF this]
  have "dlist (region_list_insert (p_lru p) n) (n # hs @ cs)" using lru_links.rep_ins [OF dl n] .
  then have "lru_rep p' (n # hs) cs"
    using mid hot small size by (auto simp: lru_rep_def p'_def last_ptr_def add.commute)
  then show thesis using that [OF eq] by (simp add: p'_def)
qed

section \<open>Operations keep the queue invariant\<close>

abbreviation of_region :: "nat \<Rightarrow> node list \<Rightarrow> node list" where
  "of_region rid ns \<equiv> filter (\<lambda>n. fst n = rid) ns"

lemma region_nodes_count:
  assumes "distinct ns" "set ns \<subseteq> nodes p rids"
  shows "length (of_region rid ns) \<le> r_nchunks (p_region p rid)"
proof -
  have "length (of_region rid ns) = card (set (of_region rid ns))" using distinct_card [OF distinct_filter [OF assms(1)]] by metis
  also have "\<dots> \<le> card (Pair rid ` {..<r_nchunks (p_region p rid)})"
    using assms(2) by (intro card_mono) (auto simp: nodes_def)
  also have "\<dots> \<le> r_nchunks (p_region p rid)" using card_image_le [of "{..<r_nchunks (p_region p rid)}" "Pair rid"] by simp
  finally show ?thesis .
qed

text \<open>One node \<open>n\<close> of one region changes: \<open>b\<close> says whether it is resident afterwards, \<open>d\<close> whether cold.\<close>

lemma pool_lru_update:
  assumes lru: "pool_lru os p rids hs cs" and n: "n = (rid, c)" "n \<in> nodes p rids"
    and p': "p_region p' = (p_region p)(rid := r')" and st: "static r' = static (p_region p rid)" and wf: "region_wf os r'"
    and rep: "lru_rep p' hs' cs'" and bytes: "p_resident_bytes p' = nodes_bytes p' (hs' @ cs')" and cnt: "region_counts p' rid (hs' @ cs')"
    and flags: "r_lru_resident r' = (r_lru_resident (p_region p rid))[c := b]" "r_lru_cold r' = (r_lru_cold (p_region p rid))[c := d]"
      "r_initialized r' = (r_initialized (p_region p rid))[c := b]"
    and hs: "n \<in> set hs' \<longleftrightarrow> b \<and> \<not> d" "set hs' - {n} = set hs - {n}"
    and cs: "n \<in> set cs' \<longleftrightarrow> b \<and> d" "set cs' - {n} = set cs - {n}"
    and oth: "\<And>rid'. rid' \<noteq> rid \<Longrightarrow> of_region rid' (hs' @ cs') = of_region rid' (hs @ cs)"
  shows "pool_lru os p' rids hs' cs'"
proof -
  note L = pool_lruD [OF lru]
  have "pool_static p p'" by (rule pool_static_upd [OF p' st])
  note C = pool_static_cong [OF this]
  have wf0: "region_wf os (p_region p rid)" and c: "c < r_nchunks (p_region p rid)"
    using L(1) n by (auto simp: regions_apart_def nodes_def)
  have len: "length (r_lru_resident (p_region p rid)) = r_nchunks (p_region p rid)" "length (r_lru_cold (p_region p rid)) = r_nchunks (p_region p rid)"
    "length (r_initialized (p_region p rid)) = r_nchunks (p_region p rid)" using wf0 by (auto simp: region_wf_def)
  have res: "node_resident p' k = (if k = n then b else node_resident p k)"
    and cold: "node_cold p' k = (if k = n then d else node_cold p k)" for k
    using c len by (auto simp: p' flags n(1) prod_eq_iff)
  have "set (hs' @ cs') = {k \<in> nodes p' rids. node_resident p' k}"
  proof -
    have "k \<in> set (hs' @ cs') \<longleftrightarrow> k \<in> nodes p' rids \<and> node_resident p' k" for k
      using hs cs n(2) L(4) unfolding C res by (cases "k = n") (simp, blast)+
    then show ?thesis by blast
  qed
  moreover have "\<not> node_cold p' k" if "k \<in> set hs'" for k
    using that hs L(5) [of k] unfolding cold by (cases "k = n") auto
  moreover have "node_cold p' k" if "k \<in> set cs'" for k
    using that cs L(6) [of k] unfolding cold by (cases "k = n") auto
  moreover have "r_initialized (p_region p' rid') ! c' = r_lru_resident (p_region p' rid') ! c'" if "(rid', c') \<in> nodes p rids" for rid' c'
    using L(11) [OF that] c len by (cases "rid' = rid"; cases "c' = c") (simp_all add: p' flags)
  moreover have "region_counts p' rid' (hs' @ cs')" if "rid' \<in> rids" for rid'
    using cnt L(10) [OF that] oth [of rid'] by (cases "rid' = rid") (simp_all add: region_counts_def C p')
  ultimately show ?thesis
    using rep bytes regions_apart_upd [OF L(1) p' wf st] unfolding pool_lru_def C by (auto simp: C)
qed

text \<open>An update of a region's flags and counters keeps it well-formed.\<close>

lemma region_wf_flags:
  assumes "region_wf os r" "static r' = static r" "r_nshared r' = r_nshared r" "r_shared_pages r' = r_shared_pages r"
    "length (r_initialized r') = length (r_initialized r)" "length (r_chunk_staged r') = length (r_chunk_staged r)"
    "length (r_lru_resident r') = length (r_lru_resident r)" "length (r_lru_cold r') = length (r_lru_cold r)"
    "length (r_chunk_faults_total r') = length (r_chunk_faults_total r)"
  shows "region_wf os r'"
proof -
  have "shared_static r'" by (rule shared_static_cong [OF assms(2)]) (use assms(1,3,4) in \<open>auto simp: region_wf_def\<close>)
  then show ?thesis using assms(1,5-) by (auto simp: region_wf_def static_congs [OF assms(2)])
qed

lemma nodes_bytes_mset: "mset xs = mset ys \<Longrightarrow> nodes_bytes p xs = nodes_bytes p ys"
  by (metis mset_map sum_mset_sum_list)

lemma region_counts_mset: "mset xs = mset ys \<Longrightarrow> region_counts p rid xs = region_counts p rid ys"
proof -
  assume "mset xs = mset ys"
  then have "mset (of_region rid xs) = mset (of_region rid ys)" by simp
  from nodes_bytes_mset [OF this, of p] mset_eq_length [OF this] show ?thesis unfolding region_counts_def by simp
qed

lemma of_region_remove1: "of_region rid (remove1 n ns) = (if fst n = rid then remove1 n (of_region rid ns) else of_region rid ns)"
  by (induction ns) auto

lemma lru_forget_ok:
  assumes lru: "pool_lru os p rids hs cs" and n: "(rid, c) \<in> nodes p rids"
  obtains p' where "lru_forget_chunk p rid c = Inr p'" "pool_lru os p' rids (remove1 (rid, c) hs) (remove1 (rid, c) cs)"
    "same_pool p p'" "p_region p' = (p_region p)(rid := p_region p' rid)"
    "p_region p' rid = (p_region p rid)\<lparr>r_lru_resident := (r_lru_resident (p_region p rid))[c := False],
       r_initialized := (r_initialized (p_region p rid))[c := False],
       r_resident_bytes := r_resident_bytes (p_region p' rid), r_resident_chunks := r_resident_chunks (p_region p' rid)\<rparr>"
proof (cases "node_resident p (rid, c)")
  case False
  note L = pool_lruD [OF lru]
  have "(rid, c) \<notin> set hs \<union> set cs" unfolding L(4) using False by simp
  moreover have "(r_lru_resident (p_region p rid))[c := False] = r_lru_resident (p_region p rid)"
    "(r_initialized (p_region p rid))[c := False] = r_initialized (p_region p rid)"
    using False L(11) [OF n] by (metis fst_conv snd_conv list_update_id)+
  ultimately show thesis using that [of p] False lru by (simp add: lru_forget_chunk_def remove1_idem)
next
  case True
  note L = pool_lruD [OF lru]
  let ?n = "(rid, c)" and ?r = "p_region p rid"
  let ?s = "lru_node_size p ?n"
  have q: "?n \<in> set (hs @ cs)" unfolding set_append L(4) using True n by simp
  have fl: "node_cold p ?n \<longleftrightarrow> ?n \<in> set cs" using L(5) [of ?n] L(6) [of ?n] q by auto
  have hb: "nodes_bytes p hs < SIZE_RANGE" using L(9) by simp
  obtain p1 where un: "lru_unlink p ?n = Inr p1" and rep1: "lru_rep p1 (remove1 ?n hs) (remove1 ?n cs)"
    and p1: "same_pool p p1" "p_resident_bytes p1 = p_resident_bytes p"
      "p_region p1 = (p_region p)(rid := ?r\<lparr>r_lru_resident := (r_lru_resident ?r)[c := False]\<rparr>)"
    using lru_unlink_ok [OF L(2) q True fl hb] by (metis fst_conv snd_conv)
  define r' where "r' = ?r\<lparr>r_lru_resident := (r_lru_resident ?r)[c := False], r_initialized := (r_initialized ?r)[c := False],
       r_resident_bytes := size_sub (r_resident_bytes ?r) ?s, r_resident_chunks := u32_sub (r_resident_chunks ?r) 1\<rparr>"
  define p' where "p' = p1\<lparr>p_region := (p_region p)(rid := r'), p_resident_bytes := size_sub (p_resident_bytes p) ?s\<rparr>"
  have eq: "lru_forget_chunk p rid c = Inr p'"
    using True un by (simp add: lru_forget_chunk_def Let_def upd_region_def r'_def p'_def p1)
  have st: "static r' = static ?r" by (simp add: static_def r'_def)
  have rid: "rid \<in> rids" and wf0: "region_wf os ?r" using L(1) n by (auto simp: regions_apart_def nodes_def)
  have wf: "region_wf os r'" by (rule region_wf_flags [OF wf0 st]) (simp_all add: r'_def)
  have "pool_static p p'" "pool_static p p1" by (simp_all add: pool_static_def p'_def p1 st) (simp add: static_def)
  note size = pool_static_cong(1) [OF this(1)] pool_static_cong(1) [OF this(2)]
  have rm: "remove1 ?n hs @ remove1 ?n cs = remove1 ?n (hs @ cs)" by (simp only: remove1_halves [OF L(7)])
  have bytes: "p_resident_bytes p' = nodes_bytes p' (remove1 ?n hs @ remove1 ?n cs)"
    using L(3,9) member_le_sum_list_map [OF q, of "lru_node_size p"] sum_list_remove1 [OF q, of "lru_node_size p"]
    unfolding rm size by (simp add: p'_def)
  have qr: "?n \<in> set (of_region rid (hs @ cs))" using q by simp
  let ?q = "of_region rid (hs @ cs)"
  have "length ?q < UINT32_RANGE" using region_nodes_count [OF L(7,8), of rid] wf0 by (simp add: region_wf_def)
  then have chunks: "u32_sub (length ?q) 1 = length (remove1 ?n ?q)"
    using length_pos_if_in_set [OF qr] by (simp only: length_remove1 qr if_True u32_sub_exact Suc_leI One_nat_def)
  have "nodes_bytes p ?q \<le> nodes_bytes p (hs @ cs)" by (rule sum_list_filter_le_nat)
  then have sub: "size_sub (nodes_bytes p ?q) ?s = nodes_bytes p (remove1 ?n ?q)"
    unfolding sum_list_remove1 [OF qr] using L(9) member_le_sum_list_map [OF qr, of "lru_node_size p"] by (intro size_sub_exact) linarith+
  have cnt: "region_counts p' rid (remove1 ?n hs @ remove1 ?n cs)"
    using L(10) [OF rid] chunks sub unfolding region_counts_def rm size of_region_remove1
    by (simp add: p'_def r'_def del: filter_append)
  have rep': "lru_rep p' (remove1 ?n hs) (remove1 ?n cs)" using rep1 size by (simp add: lru_rep_def p'_def)
  have "pool_lru os p' rids (remove1 ?n hs) (remove1 ?n cs)"
  proof (rule pool_lru_update [where b = False and d = "r_lru_cold ?r ! c", OF lru refl n _ st wf rep' bytes cnt])
    show "r_lru_cold r' = (r_lru_cold ?r)[c := r_lru_cold ?r ! c]" by (simp add: r'_def)
    show "of_region rid' (remove1 ?n hs @ remove1 ?n cs) = of_region rid' (hs @ cs)" if "rid' \<noteq> rid" for rid'
      using that unfolding rm of_region_remove1 by simp
  qed (use L(7) in \<open>simp_all add: p'_def r'_def set_remove1_eq\<close>)
  then show thesis using that [OF eq] p1 by (simp add: p'_def r'_def)
qed

text \<open>One round of the rebalancing loop: the last node of the hot half becomes the first of the cold half.\<close>

definition demote :: "fc_pool \<Rightarrow> node \<Rightarrow> fc_pool" where
  "demote p n =
     (let p = upd_region p (fst n) (\<lambda>r. r\<lparr>r_lru_cold := (r_lru_cold r)[snd n := True]\<rparr>);
          p = p\<lparr>p_hot_bytes := size_sub (p_hot_bytes p) (lru_node_size p n)\<rparr>
      in p\<lparr>p_midpoint := l_prev (p_lru p) (Node n)\<rparr>)"

lemma demote_ok:
  assumes lru: "pool_lru os p rids (us @ [n]) cs"
  shows "pool_lru os (demote p n) rids us (n # cs)"
    and "p_region (demote p n) = (p_region p)(fst n := (p_region p (fst n))\<lparr>r_lru_cold := (r_lru_cold (p_region p (fst n)))[snd n := True]\<rparr>)"
    and "same_pool p (demote p n)" "p_resident_bytes (demote p n) = p_resident_bytes p"
proof -
  note L = pool_lruD [OF lru]
  let ?p = "demote p n"
  obtain rid c where rc: "n = (rid, c)" by fastforce
  let ?r = "p_region p rid"
  define r' where "r' = ?r\<lparr>r_lru_cold := (r_lru_cold ?r)[c := True]\<rparr>"
  have n: "n \<in> nodes p rids" "node_resident p n" using L(4) by auto
  show reg: "p_region ?p = (p_region p)(fst n := (p_region p (fst n))\<lparr>r_lru_cold := (r_lru_cold (p_region p (fst n)))[snd n := True]\<rparr>)"
    and same: "same_pool p ?p" and rb: "p_resident_bytes ?p = p_resident_bytes p" by (simp_all add: demote_def Let_def upd_region_def)
  have st: "static r' = static ?r" by (simp add: static_def r'_def)
  have rid: "rid \<in> rids" and wf0: "region_wf os ?r" using L(1) n by (auto simp: regions_apart_def nodes_def rc)
  have wf: "region_wf os r'" by (rule region_wf_flags [OF wf0 st]) (simp_all add: r'_def)
  have ps: "pool_static p ?p" unfolding pool_static_def reg by (simp add: static_def)
  note size = pool_static_cong(1) [OF ps]
  have rep: "lru_rep ?p us (n # cs)"
    using L(2,9) dlist_neighbours(1) [of "p_lru p" us n cs] size
    by (simp add: lru_rep_def) (simp add: demote_def Let_def upd_region_def lru_node_size_def rc)
  have bytes: "p_resident_bytes ?p = nodes_bytes ?p (us @ n # cs)" using L(3) rb size by simp
  have cnt: "region_counts ?p rid (us @ n # cs)"
    using L(10) [OF rid] unfolding region_counts_def size reg by (simp add: rc)
  have fl: "(r_lru_resident ?r)[c := True] = r_lru_resident ?r" "(r_initialized ?r)[c := True] = r_initialized ?r"
    using n(2) L(11) [of rid c] n(1) unfolding rc by (metis fst_conv snd_conv list_update_id)+
  show "pool_lru os ?p rids us (n # cs)"
    by (rule pool_lru_update [where b = True and d = True, OF lru rc n(1) _ st wf rep bytes cnt])
      (use L(7) fl in \<open>auto simp: reg [unfolded rc] rc r'_def\<close>)
qed

lemma lru_promote_queue:
  assumes lru: "pool_lru os p rids hs cs" and n: "n \<in> set cs"
  obtains p1 p' where "lru_unlink p n = Inr p1" "lru_insert_mru p1 n = Inr p'" "pool_lru os p' rids (n # hs) (remove1 n cs)"
    "same_pool p p'" "p_resident_bytes p' = p_resident_bytes p"
    "p_region p' = (p_region p)(fst n := (p_region p (fst n))\<lparr>r_lru_cold := (r_lru_cold (p_region p (fst n)))[snd n := False]\<rparr>)"
proof -
  note L = pool_lruD [OF lru]
  obtain rid c where rc: "n = (rid, c)" by fastforce
  let ?r = "p_region p rid"
  have nn: "n \<in> nodes p rids" "node_resident p n" using L(4) n by auto
  have q: "n \<in> set (hs @ cs)" "n \<notin> set hs" using n L(7) by auto
  have fl: "node_cold p n \<longleftrightarrow> n \<in> set cs" using L(6) n by simp
  have hb: "nodes_bytes p hs < SIZE_RANGE" using L(9) by simp
  have rid: "rid \<in> rids" and wf0: "region_wf os ?r" and c: "c < r_nchunks ?r" using L(1) nn by (auto simp: regions_apart_def nodes_def rc)
  have len: "length (r_lru_resident ?r) = r_nchunks ?r" using wf0 by (simp add: region_wf_def)
  obtain p1 where un: "lru_unlink p n = Inr p1" and rep1: "lru_rep p1 (remove1 n hs) (remove1 n cs)"
    and p1: "same_pool p p1" "p_resident_bytes p1 = p_resident_bytes p"
      "p_region p1 = (p_region p)(rid := ?r\<lparr>r_lru_resident := (r_lru_resident ?r)[c := False]\<rparr>)"
    using lru_unlink_ok [OF L(2) q(1) nn(2) fl hb] by (metis fst_conv snd_conv rc)
  have "pool_static p p1" by (simp add: pool_static_def p1 static_def)
  note size1 = pool_static_cong(1) [OF this]
  have rm: "remove1 n hs = hs" using q(2) by (rule remove1_idem)
  have dist: "n \<notin> set (hs @ remove1 n cs)" using q(2) L(7) by simp
  have small: "lru_node_size p1 n + nodes_bytes p1 hs < SIZE_RANGE"
    using L(9) member_le_sum_list_map [OF n, of "lru_node_size p"] by (simp add: size1)
  have nr: "\<not> node_resident p1 n" using c len by (simp add: p1 rc)
  obtain p' where ins: "lru_insert_mru p1 n = Inr p'" and rep: "lru_rep p' (n # hs) (remove1 n cs)"
    and p': "same_pool p1 p'" "p_resident_bytes p' = p_resident_bytes p1"
      "p_region p' = (p_region p1)(rid := (p_region p1 rid)\<lparr>r_lru_resident := (r_lru_resident (p_region p1 rid))[c := True],
         r_lru_cold := (r_lru_cold (p_region p1 rid))[c := False]\<rparr>)"
    using lru_insert_mru_ok [OF rep1 [unfolded rm] dist nr small] by (metis fst_conv snd_conv rc)
  define r' where "r' = ?r\<lparr>r_lru_cold := (r_lru_cold ?r)[c := False]\<rparr>"
  have fl2: "(r_lru_resident ?r)[c := True] = r_lru_resident ?r" "(r_initialized ?r)[c := True] = r_initialized ?r"
    using nn L(11) [of rid c] unfolding rc by (metis fst_conv snd_conv list_update_id)+
  have reg: "p_region p' = (p_region p)(rid := r')" by (simp add: p' p1 r'_def fl2)
  have st: "static r' = static ?r" by (simp add: static_def r'_def)
  have wf: "region_wf os r'" by (rule region_wf_flags [OF wf0 st]) (simp_all add: r'_def)
  note size = pool_static_cong(1) [OF pool_static_upd [OF reg st]]
  have perm: "mset ((n # hs) @ remove1 n cs) = mset (hs @ cs)" using n by simp
  have bytes: "p_resident_bytes p' = nodes_bytes p' ((n # hs) @ remove1 n cs)"
    unfolding nodes_bytes_mset [OF perm] size using L(3) p'(2) p1(2) by simp
  have cnt: "region_counts p' rid ((n # hs) @ remove1 n cs)"
    unfolding region_counts_mset [OF perm] using L(10) [OF rid] by (simp add: region_counts_def size reg r'_def)
  have "pool_lru os p' rids (n # hs) (remove1 n cs)"
    by (rule pool_lru_update [where b = True and d = False, OF lru rc nn(1) reg st wf rep bytes cnt])
      (use L(7) n in \<open>auto simp: r'_def fl2 rc of_region_remove1\<close>)
  then show thesis using that un ins p' p1 reg rc by (auto simp: r'_def)
qed

end
