(* ===== verification/Pool_Inv.thy ===== *)
theory Pool_Inv
  imports Fill_Region Lru
begin

text \<open>
  The pool invariant: the queue invariant of theory \<open>Lru\<close> together with the memory
  invariant of every region, over disjoint pieces of memory.  The operations of the
  queue that touch memory (demotion, promotion, eviction) and their loops are shown
  to keep it, to end, and to do what an abstract two-segment queue does.
\<close>

section \<open>One chunk of one region changes\<close>

lemma region_inv_mem:
  assumes inv: "region_inv os r m" and mem: "\<And>x. x \<in> footprint r \<Longrightarrow> m' x = m x"
  shows "region_inv os r m'"
proof -
  have sinv: "staging_inv os r m (\<lambda>_. staged_set r)" and wf: "region_wf os r" using inv by (simp_all add: region_inv_staging staging_inv_def)
  have reg: "m' x = m x" if "x \<in> region_range r" for x using mem that by (simp add: footprint_def)
  have "staging_inv os r m' (\<lambda>_. staged_set r)"
  proof (rule staging_inv_transfer(1) [OF sinv refl wf refl refl])
    show "m' x \<noteq> None" if "x \<in> region_range r" for x using reg [OF that] sinv that by (simp add: staging_inv_def)
    show "m' x = m x" if "x \<in> shared_area r" for x using reg that shared_area_sub by blast
  qed (use mem in \<open>auto simp: footprint_def\<close>)
  moreover have "excl_cells r m' c" if "c < r_nchunks r" for c
    by (rule excl_cells_transfer [OF _ refl refl refl]) (use inv that exclusive_range(5) [OF wf that] reg in \<open>auto simp: region_inv_def\<close>)
  ultimately show ?thesis using inv by (simp add: region_inv_staging)
qed

lemma region_inv_chunk_update:
  assumes inv: "region_inv os r m" and c: "c < r_nchunks r" and st: "static r' = static r" and wf': "region_wf os r'"
    and same: "r_shared_pages r' = r_shared_pages r" "r_nshared r' = r_nshared r" "r_chunk_staged r' = r_chunk_staged r"
    and flags: "r_initialized r' = (r_initialized r)[c := i]" "r_lru_cold r' = (r_lru_cold r)[c := d]" "i \<Longrightarrow> r_initialized r ! c"
    and mem: "\<And>x. x \<notin> excl_area r c \<Longrightarrow> m' x = m x" and cells: "excl_cells r' m' c"
  shows "region_inv os r' m'" "staging_ranges r' = staging_ranges r"
proof -
  have sinv: "staging_inv os r m (\<lambda>_. staged_set r)" and wf: "region_wf os r" using inv by (simp_all add: region_inv_staging staging_inv_def)
  note C = static_congs [OF st] and X = excl_area_sub [OF wf c]
  have len: "length (r_initialized r) = r_nchunks r" "length (r_lru_cold r) = r_nchunks r" using wf by (auto simp: region_wf_def)
  have a: "m' x = m x" if "x \<in> staging_ranges r" for x using mem [of x] that X(1) staging_disjoint_region [OF sinv] by blast
  have b: "m' x = m x" if "x \<in> shared_area r" for x using mem [of x] that X(2) by blast
  have e: "m' x \<noteq> None" if x: "x \<in> region_range r" for x
  proof (cases "x \<in> excl_area r c")
    case True
    then have "fst (chunk_exclusive_pages r c) \<le> x - r_base r" "x - r_base r < snd (chunk_exclusive_pages r c)" "r_base r + (x - r_base r) = x" by auto
    then show ?thesis using cells unfolding excl_cells_def C by (metis option.distinct(1))
  next
    case False
    then show ?thesis using mem [OF False] sinv x by (simp add: staging_inv_def)
  qed
  note tr = staging_inv_transfer [OF sinv st wf' same(1,2) a b e]
  show "staging_ranges r' = staging_ranges r" using tr(2) by blast
  have "excl_cells r' m' k" if k: "k < r_nchunks r" for k
  proof (cases "k = c")
    case False
    have "r_base r + x \<notin> excl_area r c" if "fst (chunk_exclusive_pages r k) \<le> x" "x < snd (chunk_exclusive_pages r k)" for x
      using exclusive_range(3) [OF wf k that] exclusive_range(3) [OF wf c, of x] False by auto
    then show ?thesis
      by (intro excl_cells_transfer [OF _ st]) (use inv k False mem in \<open>auto simp: region_inv_def flags\<close>)
  qed (use cells in simp)
  moreover have "r_initialized r' ! k \<longrightarrow> has_head r k \<or> has_tail r k \<longrightarrow> r_chunk_staged r' ! k" if "k < r_nchunks r" for k
    using inv that flags len by (cases "k = c") (auto simp: region_inv_def same)
  ultimately show "region_inv os r' m'" using tr(1) by (simp add: region_inv_staging C same)
qed

section \<open>The memory of all regions\<close>

definition pool_mem :: "os \<Rightarrow> fc_pool \<Rightarrow> mem \<Rightarrow> nat set \<Rightarrow> bool" where
  "pool_mem os p m rids \<longleftrightarrow> (\<forall>rid\<in>rids. region_inv os (p_region p rid) m) \<and>
     (\<forall>rid\<in>rids. \<forall>rid'\<in>rids. rid \<noteq> rid' \<longrightarrow> footprint (p_region p rid) \<inter> footprint (p_region p rid') = {})"

definition pool_range :: "fc_pool \<Rightarrow> nat set \<Rightarrow> addr set" where
  "pool_range p rids = (\<Union>rid\<in>rids. region_range (p_region p rid))"

definition pool_staging :: "fc_pool \<Rightarrow> nat set \<Rightarrow> addr set" where
  "pool_staging p rids = (\<Union>rid\<in>rids. staging_ranges (p_region p rid))"

lemma region_footprint_mapped: "region_inv os r m \<Longrightarrow> x \<in> footprint r \<Longrightarrow> m x \<noteq> None"
  unfolding region_inv_staging by (meson footprint_mapped)

lemma pool_range_cong: "pool_static p p' \<Longrightarrow> pool_range p' rids = pool_range p rids"
  by (simp add: pool_range_def pool_static_cong(3))

text \<open>A step of one region within its own memory is a step of the pool.\<close>

lemma pool_region_step:
  assumes mem: "pool_mem os p m rids" and rid: "rid \<in> rids" and p': "p_region p' = (p_region p)(rid := r')"
    and st: "static r' = static (p_region p rid)" and inv': "region_inv os r' m'"
    and fr: "vm_frame (region_range (p_region p rid)) m (staging_ranges (p_region p rid)) m' (staging_ranges r')"
  shows "pool_mem os p' m' rids" "vm_frame (pool_range p rids) m (pool_staging p rids) m' (pool_staging p' rids)"
proof -
  let ?r = "p_region p rid"
  have inv: "region_inv os (p_region p k) m" if "k \<in> rids" for k using mem that by (simp add: pool_mem_def)
  have apart: "footprint (p_region p k) \<inter> footprint ?r = {}" if "k \<in> rids" "k \<noteq> rid" for k
    using mem that rid by (simp add: pool_mem_def)
  have keep: "m' x = m x" if "k \<in> rids" "k \<noteq> rid" "x \<in> footprint (p_region p k)" for k x
    using vm_frame_same [OF fr _ _ region_footprint_mapped [OF inv [OF that(1)] that(3)]] apart [OF that(1,2)] that(3)
    unfolding footprint_def by blast
  have reg: "region_range r' = region_range ?r" by (rule shared_area_cong(2) [OF st])
  have new: "footprint (p_region p k) \<inter> footprint r' = {}" if k: "k \<in> rids" "k \<noteq> rid" for k
  proof -
    have "x \<notin> footprint (p_region p k)" if "x \<in> staging_ranges r'" "x \<notin> staging_ranges ?r" for x
    proof -
      have "m x = None" using fr that by (simp add: vm_frame_def)
      then show ?thesis using region_footprint_mapped [OF inv [OF k(1)], of x] by blast
    qed
    then show ?thesis using apart [OF k] unfolding footprint_def reg by blast
  qed
  show "pool_mem os p' m' rids"
    unfolding pool_mem_def p'
  proof (intro conjI ballI impI)
    fix k assume k: "k \<in> rids"
    show "region_inv os (((p_region p)(rid := r')) k) m'"
      using inv' region_inv_mem [OF inv [OF k] keep [OF k]] by (cases "k = rid") auto
    fix k' assume k': "k' \<in> rids" "k \<noteq> k'"
    show "footprint (((p_region p)(rid := r')) k) \<inter> footprint (((p_region p)(rid := r')) k') = {}"
      using new [OF k] new [OF k'(1)] mem k k' by (cases "k = rid"; cases "k' = rid") (auto simp: pool_mem_def)
  qed
  have stg: "pool_staging p rids = staging_ranges ?r \<union> (\<Union>k\<in>rids - {rid}. staging_ranges (p_region p k))"
    "pool_staging p' rids = staging_ranges r' \<union> (\<Union>k\<in>rids - {rid}. staging_ranges (p_region p k))"
    using rid by (auto simp: pool_staging_def p' split: if_splits)
  have "region_range ?r \<subseteq> pool_range p rids" using rid by (auto simp: pool_range_def)
  then show "vm_frame (pool_range p rids) m (pool_staging p rids) m' (pool_staging p' rids)"
    unfolding stg by (intro vm_frame_add vm_frame_mono [OF fr])
qed

lemma pool_mem_disjoint:
  assumes "pool_mem os p m rids"
  shows "pool_range p rids \<inter> pool_staging p rids = {}"
proof -
  have "region_range (p_region p k) \<inter> staging_ranges (p_region p k') = {}" if "k \<in> rids" "k' \<in> rids" for k k'
  proof (cases "k = k'")
    case True
    then show ?thesis using assms that staging_disjoint_region unfolding pool_mem_def region_inv_staging by blast
  next
    case False
    then show ?thesis using assms that unfolding pool_mem_def footprint_def by blast
  qed
  then show ?thesis by (auto simp: pool_range_def pool_staging_def)
qed

section \<open>Hiding, handing back and dropping a chunk's pages\<close>

lemma excl_page_range:
  assumes wf: "region_wf os r" and c: "c < r_nchunks r" and ex: "chunk_exclusive_pages r c = (lo, hi)" "lo < hi"
  shows "page_range (vm_page_size os) (r_base r + lo) (hi - lo)" "r_base r + lo + (hi - lo) = r_base r + hi"
  using exclusive_bounds(1,2) [OF region_wfD(1) [OF wf] c ex(1)] region_wfD [OF wf] ex(2)
  by (auto simp: page_range_def vm_page_size_def dvd_diff_nat)

lemma chunk_set_readable_ok:
  assumes inv: "region_inv os r m" and c: "c < r_nchunks r" and ini: "r_initialized r ! c"
    and r': "r' = r\<lparr>r_lru_cold := (r_lru_cold r)[c := \<not> b]\<rparr>"
  obtains m' where "chunk_set_readable os r c b m = Inr m'" "region_inv os r' m'" "staging_ranges r' = staging_ranges r"
    "\<And>x. x \<notin> excl_area r c \<Longrightarrow> m' x = m x"
proof -
  have wf: "region_wf os r" using inv by (simp add: region_inv_def)
  obtain lo hi where ex: "chunk_exclusive_pages r c = (lo, hi)" by fastforce
  note E = exclusive_bounds [OF region_wfD(1) [OF wf] c ex]
  define m' where "m' = mem_protect m (r_base r + lo) (hi - lo) (if b then PROT_READ else PROT_NONE)"
  have "excl_cells r m c" using inv c by (simp add: region_inv_def)
  then have cell: "\<exists>pr. m (r_base r + x) = Some (pr, content r x)" if "lo \<le> x" "x < hi" for x
    using ini that by (auto simp: excl_cells_def ex)
  have eq: "chunk_set_readable os r c b m = Inr m'"
  proof (cases "lo < hi")
    case True
    have "m x \<noteq> None" if "r_base r + lo \<le> x" "x < r_base r + lo + (hi - lo)" for x
    proof -
      have "lo \<le> x - r_base r" "x - r_base r < hi" "r_base r + (x - r_base r) = x" using that by linarith+
      with cell [of "x - r_base r"] show ?thesis by auto
    qed
    then have "mem_mapped m (r_base r + lo) (hi - lo)" by (rule mem_mappedI)
    then show ?thesis
      using posix.set_readable_law [OF excl_page_range(1) [OF wf c ex True], of m b] True by (simp add: chunk_set_readable_def ex m'_def)
  next
    case False
    then show ?thesis by (auto simp: chunk_set_readable_def ex m'_def mem_protect_def fun_eq_iff)
  qed
  have out: "m' x = m x" if "x \<notin> excl_area r c" for x using that E(3) by (auto simp: m'_def ex)
  have st: "static r' = static r" by (simp add: static_def r')
  have len: "length (r_lru_cold r) = r_nchunks r" using wf by (simp add: region_wf_def)
  have wf': "region_wf os r'" by (rule region_wf_flags [OF wf st]) (simp_all add: r')
  have cells: "excl_cells r' m' c"
    unfolding excl_cells_def static_congs [OF st] ex fst_conv snd_conv
  proof (intro allI impI)
    fix x assume x: "lo \<le> x" "x < hi"
    obtain pr where "m (r_base r + x) = Some (pr, content r x)" using cell [OF x] by blast
    then have "m' (r_base r + x) = Some (if b then PROT_READ else PROT_NONE, content r x)"
      using x by (simp add: m'_def)
    then show "\<exists>b'. m' (r_base r + x) = Some (if r_initialized r' ! c \<and> \<not> r_lru_cold r' ! c then PROT_READ else PROT_NONE, b') \<and>
        (r_initialized r' ! c \<longrightarrow> b' = content r x)" using ini c len by (simp add: r')
  qed
  have "r_initialized r' = (r_initialized r)[c := r_initialized r ! c]" by (simp add: r')
  note upd = region_inv_chunk_update [OF inv c st wf' _ _ _ this _ _ out cells]
  have "region_inv os r' m'" by (rule upd(1)) (simp_all add: r')
  moreover have "staging_ranges r' = staging_ranges r" by (rule upd(2)) (simp_all add: r')
  ultimately show thesis using that eq out by blast
qed

lemma chunk_decommit_ok:
  assumes inv: "region_inv os r m" and c: "c < r_nchunks r" and st: "static r' = static r" and wf': "region_wf os r'"
    and same: "r_shared_pages r' = r_shared_pages r" "r_nshared r' = r_nshared r" "r_chunk_staged r' = r_chunk_staged r"
      "r_lru_cold r' = r_lru_cold r" "r_initialized r' = (r_initialized r)[c := False]"
    and ex: "chunk_exclusive_pages r c = (lo, hi)"
  obtains m' where "(if hi = lo then Inr m else vm_decommit os m (r_base r + lo) (hi - lo)) = Inr m'"
    "region_inv os r' m'" "staging_ranges r' = staging_ranges r" "\<And>x. x \<notin> excl_area r c \<Longrightarrow> m' x = m x"
proof -
  have wf: "region_wf os r" using inv by (simp add: region_inv_def)
  note E = exclusive_bounds [OF region_wfD(1) [OF wf] c ex]
  define m' where "m' = mem_set m (r_base r + lo) (hi - lo) (Some (PROT_NONE, 0))"
  have eq: "(if hi = lo then Inr m else vm_decommit os m (r_base r + lo) (hi - lo)) = Inr m'"
    using posix.decommit_law [OF excl_page_range(1) [OF wf c ex], of m] E(3) by (cases "hi = lo") (auto simp: m'_def)
  have out: "m' x = m x" if "x \<notin> excl_area r c" for x using that E(3) by (auto simp: m'_def ex)
  have len: "length (r_initialized r) = r_nchunks r" using wf by (simp add: region_wf_def)
  have cells: "excl_cells r' m' c"
    using c len by (auto simp: excl_cells_def static_congs [OF st] ex same m'_def)
  have cold: "r_lru_cold r' = (r_lru_cold r)[c := r_lru_cold r ! c]" by (simp add: same)
  note upd = region_inv_chunk_update [OF inv c st wf' same(1,2,3,5) cold _ out cells]
  have "region_inv os r' m'" "staging_ranges r' = staging_ranges r" using upd by simp_all
  then show thesis using that eq out by blast
qed

text \<open>What changes inside one region's exclusive pages is a step of the pool.\<close>

lemma excl_step_frame:
  assumes wf: "region_wf os r" and c: "c < r_nchunks r" and out: "\<And>x. x \<notin> excl_area r c \<Longrightarrow> m' x = m x"
    and stg: "staging_ranges r' = staging_ranges r"
  shows "vm_frame (region_range r) m (staging_ranges r) m' (staging_ranges r')"
  using excl_area_sub(1) [OF wf c] out unfolding stg vm_frame_def by blast

end
