(* ===== verification/Pool_Ops.thy ===== *)
theory Pool_Ops
  imports Pool_Inv
begin

text \<open>
  The operations of the queue on a whole pool.  \<open>pool_ok\<close> is the pool invariant
  with the two halves of the queue; \<open>pool_step\<close> says that a step stays inside
  the pool's memory.  The loops of \<open>lru_rebalance\<close> and
  \<open>evict_until_within_budget\<close> end, and their effect on the queue is given exactly.
\<close>

definition pool_ok :: "os \<Rightarrow> fc_pool \<Rightarrow> mem \<Rightarrow> nat set \<Rightarrow> node list \<Rightarrow> node list \<Rightarrow> bool" where
  "pool_ok os p m rids hs cs \<longleftrightarrow> pool_lru os p rids hs cs \<and> pool_mem os p m rids"

definition pool_step :: "nat set \<Rightarrow> fc_pool \<Rightarrow> mem \<Rightarrow> fc_pool \<Rightarrow> mem \<Rightarrow> bool" where
  "pool_step rids p m p' m' \<longleftrightarrow> same_pool p p' \<and> pool_static p p' \<and>
     vm_frame (pool_range p rids) m (pool_staging p rids) m' (pool_staging p' rids)"

text \<open>The operations of the queue never touch the table of shared pages.\<close>

definition pages_kept :: "fc_pool \<Rightarrow> fc_pool \<Rightarrow> bool" where
  "pages_kept p p' \<longleftrightarrow> (\<forall>rid. r_shared_pages (p_region p' rid) = r_shared_pages (p_region p rid) \<and>
     r_nshared (p_region p' rid) = r_nshared (p_region p rid))"

lemma pages_kept_refl: "pages_kept p p"
  by (simp add: pages_kept_def)

lemma pages_kept_trans: "pages_kept p p1 \<Longrightarrow> pages_kept p1 p2 \<Longrightarrow> pages_kept p p2"
  by (simp add: pages_kept_def)

lemma pool_step_refl: "pool_step rids p m p m"
  by (simp add: pool_step_def pool_static_def vm_frame_refl)

lemma pool_step_trans:
  assumes "pool_step rids p m p1 m1" "pool_step rids p1 m1 p2 m2"
    and "pool_mem os p m rids" "pool_mem os p1 m1 rids" "pool_mem os p2 m2 rids"
  shows "pool_step rids p m p2 m2"
proof -
  have st: "pool_static p p1" "pool_static p1 p2" using assms(1,2) by (auto simp: pool_step_def)
  then have st2: "pool_static p p2" by (simp add: pool_static_def)
  note R = pool_range_cong [OF st(1), of rids] pool_range_cong [OF st2, of rids]
  have "vm_frame (pool_range p rids) m (pool_staging p rids) m2 (pool_staging p2 rids)"
  proof (rule vm_frame_trans)
    show "vm_frame (pool_range p rids) m (pool_staging p rids) m1 (pool_staging p1 rids)"
      "vm_frame (pool_range p rids) m1 (pool_staging p1 rids) m2 (pool_staging p2 rids)"
      using assms(1,2) R by (simp_all add: pool_step_def)
  qed (use pool_mem_disjoint [OF assms(3)] pool_mem_disjoint [OF assms(4)] pool_mem_disjoint [OF assms(5)] R in simp_all)
  then show ?thesis using assms(1,2) st2 by (simp add: pool_step_def)
qed

lemma pool_step_trans_ok:
  assumes "pool_step rids p m p1 m1" "pool_step rids p1 m1 p2 m2"
    and "pool_ok os p m rids hs cs" "pool_ok os p1 m1 rids hs1 cs1" "pool_ok os p2 m2 rids hs2 cs2"
  shows "pool_step rids p m p2 m2"
  using pool_step_trans [OF assms(1,2), of os] assms(3-5) by (simp add: pool_ok_def)

lemma pool_region_ok:
  assumes "pool_ok os p m rids hs cs" "n \<in> nodes p rids"
  shows "region_inv os (p_region p (fst n)) m" "region_wf os (p_region p (fst n))" "fst n \<in> rids"
    "snd n < r_nchunks (p_region p (fst n))"
  using assms by (auto simp: pool_ok_def pool_mem_def nodes_def region_inv_def)

text \<open>A change of one chunk's pages and flags, lifted to the pool.\<close>

lemma pool_chunk_step:
  assumes ok: "pool_ok os p m rids hs cs" and n: "n \<in> nodes p rids"
    and p': "same_pool p p'" "p_region p' = (p_region p)(fst n := r')" and st: "static r' = static (p_region p (fst n))"
    and inv': "region_inv os r' m'" and stg: "staging_ranges r' = staging_ranges (p_region p (fst n))"
    and out: "\<And>x. x \<notin> excl_area (p_region p (fst n)) (snd n) \<Longrightarrow> m' x = m x"
  shows "pool_mem os p' m' rids" "pool_step rids p m p' m'"
proof -
  note R = pool_region_ok [OF ok n]
  have fr: "vm_frame (region_range (p_region p (fst n))) m (staging_ranges (p_region p (fst n))) m' (staging_ranges r')"
    by (rule excl_step_frame [OF R(2,4) out stg])
  have mem: "pool_mem os p m rids" using ok by (simp add: pool_ok_def)
  note step = pool_region_step [OF mem R(3) p'(2) st inv' fr]
  then show "pool_mem os p' m' rids" by simp
  show "pool_step rids p m p' m'" using step(2) p'(1) pool_static_upd [OF p'(2) st] by (simp add: pool_step_def)
qed

lemma queue_nodes:
  assumes "pool_ok os p m rids hs cs" "n \<in> set (hs @ cs)"
  shows "n \<in> nodes p rids" "node_resident p n" "r_initialized (p_region p (fst n)) ! snd n" "0 < lru_node_size p n"
proof -
  note L = pool_lruD [of os p rids hs cs]
  have lru: "pool_lru os p rids hs cs" using assms(1) by (simp add: pool_ok_def)
  show n: "n \<in> nodes p rids" and res: "node_resident p n" using L(4) [OF lru] assms(2) by auto
  show "r_initialized (p_region p (fst n)) ! snd n" using L(11) [OF lru, of "fst n" "snd n"] n res by simp
  show "0 < lru_node_size p n" by (rule node_area_facts(3) [OF L(1) [OF lru] n])
qed

section \<open>Demotion and rebalancing\<close>

lemma demote_step:
  assumes ok: "pool_ok os p m rids (us @ [n]) cs"
  obtains m' where "chunk_set_readable os (p_region p (fst n)) (snd n) False m = Inr m'"
    "pool_ok os (demote p n) m' rids us (n # cs)" "pool_step rids p m (demote p n) m'" "pages_kept p (demote p n)"
proof -
  have lru: "pool_lru os p rids (us @ [n]) cs" using ok by (simp add: pool_ok_def)
  note D = demote_ok [OF lru]
  have q: "n \<in> set ((us @ [n]) @ cs)" by simp
  note Q = queue_nodes [OF ok q]
  note R = pool_region_ok [OF ok Q(1)]
  let ?r = "p_region p (fst n)"
  let ?r' = "?r\<lparr>r_lru_cold := (r_lru_cold ?r)[snd n := \<not> False]\<rparr>"
  obtain m' where m': "chunk_set_readable os ?r (snd n) False m = Inr m'" "region_inv os ?r' m'" "staging_ranges ?r' = staging_ranges ?r"
    "\<And>x. x \<notin> excl_area ?r (snd n) \<Longrightarrow> m' x = m x"
    by (rule chunk_set_readable_ok [where b = False, OF R(1,4) Q(3) refl]) blast
  have reg: "p_region (demote p n) = (p_region p)(fst n := ?r')" using D(2) by simp
  have st: "static ?r' = static ?r" by (simp add: static_def)
  note step = pool_chunk_step [OF ok Q(1) D(3) reg st m'(2,3,4)]
  have "pages_kept p (demote p n)" by (simp add: pages_kept_def reg)
  then show thesis using that [OF m'(1)] step D(1) by (simp add: pool_ok_def)
qed

text \<open>The hot half is cut at \<open>k\<close>: the longest prefix of at most half the resident bytes, but not the MRU node.\<close>

definition rebalanced :: "(node \<Rightarrow> size_t) \<Rightarrow> size_t \<Rightarrow> node list \<Rightarrow> nat \<Rightarrow> bool" where
  "rebalanced sz half hs k \<longleftrightarrow> k \<le> length hs \<and> (hs \<noteq> [] \<longrightarrow> 1 \<le> k) \<and>
     (k \<le> 1 \<or> sum_list (map sz (take k hs)) \<le> half) \<and>
     (k < length hs \<longrightarrow> half < sum_list (map sz (take (Suc k) hs)))"

lemma lru_rebalance_loop_ok:
  assumes "pool_ok os p m rids hs cs" "nodes_bytes p hs < fuel"
  shows "\<exists>p' m' k. lru_rebalance_loop fuel os p m = Inr (p', m') \<and> pool_ok os p' m' rids (take k hs) (drop k hs @ cs) \<and>
    pool_step rids p m p' m' \<and> pages_kept p p' \<and> p_resident_bytes p' = p_resident_bytes p \<and> rebalanced (lru_node_size p) (p_resident_bytes p div 2) hs k"
  using assms
proof (induction hs arbitrary: p m cs fuel rule: rev_induct)
  case Nil
  have hot: "p_hot_bytes p = 0" using Nil(1) by (simp add: pool_ok_def pool_lru_def lru_rep_def)
  obtain f where f: "fuel = Suc f" using Nil(2) by (cases fuel) auto
  have "lru_rebalance_loop fuel os p m = Inr (p, m)" using hot by (simp add: f)
  then show ?case using Nil(1) pool_step_refl pages_kept_refl by (intro exI [of _ p] exI [of _ m] exI [of _ 0]) (simp add: rebalanced_def)
next
  case (snoc n us)
  have lru: "pool_lru os p rids (us @ [n]) cs" using snoc.prems(1) by (simp add: pool_ok_def)
  note L = pool_lruD [OF lru]
  have hot: "p_hot_bytes p = nodes_bytes p (us @ [n])" and mid: "p_midpoint p = Node n" and dl: "dlist (p_lru p) (us @ n # cs)"
    using L(2) by (auto simp: lru_rep_def)
  have front: "p_midpoint p \<noteq> l_next (p_lru p) Sentinel \<longleftrightarrow> us \<noteq> []"
    using L(7) unfolding mid dlist_next_head [OF dl] by (cases us) auto
  obtain f where f: "fuel = Suc f" using snoc.prems(2) by (cases fuel) auto
  show ?case
  proof (cases "p_hot_bytes p > p_resident_bytes p div 2 \<and> us \<noteq> []")
    case False
    then have "lru_rebalance_loop fuel os p m = Inr (p, m)" using front by (auto simp: f)
    moreover have "rebalanced (lru_node_size p) (p_resident_bytes p div 2) (us @ [n]) (Suc (length us))"
      using False hot by (auto simp: rebalanced_def)
    ultimately show ?thesis
      using snoc.prems(1) pool_step_refl pages_kept_refl by (intro exI [of _ p] exI [of _ m] exI [of _ "Suc (length us)"]) simp
  next
    case True
    obtain m1 where m1: "chunk_set_readable os (p_region p (fst n)) (snd n) False m = Inr m1"
      and ok1: "pool_ok os (demote p n) m1 rids us (n # cs)" and step1: "pool_step rids p m (demote p n) m1"
      and kept1: "pages_kept p (demote p n)"
      by (rule demote_step [OF snoc.prems(1)])
    have size: "lru_node_size (demote p n) = lru_node_size p"
      using step1 pool_static_cong(1) by (simp add: pool_step_def)
    have rb: "p_resident_bytes (demote p n) = p_resident_bytes p" by (rule demote_ok(4) [OF lru])
    have "0 < lru_node_size p n" using queue_nodes(4) [OF snoc.prems(1)] by simp
    then have "nodes_bytes (demote p n) us < f" using snoc.prems(2) by (simp add: f size)
    from snoc.IH [OF ok1 this] obtain p' m' k where IH: "lru_rebalance_loop f os (demote p n) m1 = Inr (p', m')"
      "pool_ok os p' m' rids (take k us) (drop k us @ n # cs)" "pool_step rids (demote p n) m1 p' m'" "pages_kept (demote p n) p'"
      "p_resident_bytes p' = p_resident_bytes p" "rebalanced (lru_node_size p) (p_resident_bytes p div 2) us k"
      unfolding size rb by blast
    have "lru_rebalance_loop fuel os p m = Inr (p', m')"
      using True front IH(1) m1 unfolding f lru_rebalance_loop.simps mid by (simp add: demote_def Let_def)
    moreover have "pool_step rids p m p' m'"
      by (rule pool_step_trans_ok [OF step1 IH(3) snoc.prems(1) ok1 IH(2)])
    moreover have "pages_kept p p'" by (rule pages_kept_trans [OF kept1 IH(4)])
    moreover have "rebalanced (lru_node_size p) (p_resident_bytes p div 2) (us @ [n]) k"
      using IH(6) True hot unfolding rebalanced_def by (cases "k = length us") auto
    moreover have "take k (us @ [n]) = take k us" "drop k (us @ [n]) @ cs = drop k us @ n # cs"
      using IH(6) by (auto simp: rebalanced_def)
    ultimately show ?thesis using IH(2,5) by (intro exI [of _ p'] exI [of _ m'] exI [of _ k]) simp
  qed
qed

lemma lru_promote_ok:
  assumes ok: "pool_ok os p m rids hs cs" and n: "n \<in> set cs"
  obtains p' m' where "lru_promote os p n m = Inr (p', m')" "pool_ok os p' m' rids (n # hs) (remove1 n cs)"
    "pool_step rids p m p' m'" "p_resident_bytes p' = p_resident_bytes p" "pages_kept p p'"
proof -
  have lru: "pool_lru os p rids hs cs" using ok by (simp add: pool_ok_def)
  obtain p1 p' where q: "lru_unlink p n = Inr p1" "lru_insert_mru p1 n = Inr p'" "pool_lru os p' rids (n # hs) (remove1 n cs)"
    and p': "same_pool p p'" "p_resident_bytes p' = p_resident_bytes p"
    and reg: "p_region p' = (p_region p)(fst n := (p_region p (fst n))\<lparr>r_lru_cold := (r_lru_cold (p_region p (fst n)))[snd n := False]\<rparr>)"
    by (rule lru_promote_queue [OF lru n]) blast
  have inq: "n \<in> set (hs @ cs)" using n by simp
  note Q = queue_nodes [OF ok inq]
  note R = pool_region_ok [OF ok Q(1)]
  let ?r = "p_region p (fst n)"
  let ?r' = "?r\<lparr>r_lru_cold := (r_lru_cold ?r)[snd n := \<not> True]\<rparr>"
  obtain m' where m': "chunk_set_readable os ?r (snd n) True m = Inr m'" "region_inv os ?r' m'" "staging_ranges ?r' = staging_ranges ?r"
    "\<And>x. x \<notin> excl_area ?r (snd n) \<Longrightarrow> m' x = m x"
    by (rule chunk_set_readable_ok [where b = True, OF R(1,4) Q(3) refl]) blast
  have cold: "node_cold p n" using pool_lruD(6) [OF lru n] .
  have eq: "lru_promote os p n m = Inr (p', m')" using cold m'(1) q by (simp add: lru_promote_def)
  have reg': "p_region p' = (p_region p)(fst n := ?r')" using reg by simp
  have st: "static ?r' = static ?r" by (simp add: static_def)
  note step = pool_chunk_step [OF ok Q(1) p'(1) reg' st m'(2,3,4)]
  have "pages_kept p p'" by (simp add: pages_kept_def reg')
  then show thesis using that [OF eq] step q(3) p'(2) by (simp add: pool_ok_def)
qed

section \<open>Eviction\<close>

lemma lru_evict_chunk_ok:
  assumes ok: "pool_ok os p m rids hs cs" and n: "(rid, c) \<in> nodes p rids"
  obtains p' m' where "lru_evict_chunk os p rid c m = Inr (p', m')"
    "pool_ok os p' m' rids (remove1 (rid, c) hs) (remove1 (rid, c) cs)" "pool_step rids p m p' m'" "pages_kept p p'"
proof -
  have lru: "pool_lru os p rids hs cs" using ok by (simp add: pool_ok_def)
  obtain p' where f: "lru_forget_chunk p rid c = Inr p'" and lru': "pool_lru os p' rids (remove1 (rid, c) hs) (remove1 (rid, c) cs)"
    and p': "same_pool p p'" "p_region p' = (p_region p)(rid := p_region p' rid)"
    and r': "p_region p' rid = (p_region p rid)\<lparr>r_lru_resident := (r_lru_resident (p_region p rid))[c := False],
       r_initialized := (r_initialized (p_region p rid))[c := False],
       r_resident_bytes := r_resident_bytes (p_region p' rid), r_resident_chunks := r_resident_chunks (p_region p' rid)\<rparr>"
    by (rule lru_forget_ok [OF lru n]) blast
  let ?r = "p_region p rid" and ?r' = "p_region p' rid"
  note R = pool_region_ok [OF ok n, unfolded fst_conv snd_conv]
  obtain a b where ex: "chunk_exclusive_pages ?r c = (a, b)" by fastforce
  have st: "static ?r' = static ?r" by (subst r') (simp add: static_def)
  have wf': "region_wf os ?r'" using pool_lruD(1) [OF lru'] R(3) by (simp add: regions_apart_def)
  have same: "r_shared_pages ?r' = r_shared_pages ?r" "r_nshared ?r' = r_nshared ?r" "r_chunk_staged ?r' = r_chunk_staged ?r"
    "r_lru_cold ?r' = r_lru_cold ?r" "r_initialized ?r' = (r_initialized ?r)[c := False]" by (subst r', simp)+
  obtain m' where m': "(if b = a then Inr m else vm_decommit os m (r_base ?r + a) (b - a)) = Inr m'"
    "region_inv os ?r' m'" "staging_ranges ?r' = staging_ranges ?r" "\<And>x. x \<notin> excl_area ?r c \<Longrightarrow> m' x = m x"
    by (rule chunk_decommit_ok [OF R(1,4) st wf' same ex]) blast
  have eq: "lru_evict_chunk os p rid c m = Inr (p', m')"
    using m'(1) by (simp add: lru_evict_chunk_def f static_congs [OF st] ex split: if_splits)
  have "pool_mem os p' m' rids" "pool_step rids p m p' m'"
    using pool_chunk_step [OF ok n p'(1), unfolded fst_conv snd_conv, OF p'(2) st m'(2,3,4)] by blast+
  moreover have "pages_kept p p'" using same unfolding pages_kept_def by (subst (1 2) p'(2)) simp
  ultimately show thesis using that [OF eq] lru' by (simp add: pool_ok_def)
qed

lemma remove1_last_halves:
  assumes "distinct (hs @ cs)" "hs @ cs \<noteq> []"
  shows "remove1 (last (hs @ cs)) hs = take (length (hs @ cs) - 1) hs"
    "remove1 (last (hs @ cs)) cs = take (length (hs @ cs) - 1 - length hs) cs"
proof -
  have "remove1 (last (hs @ cs)) hs = take (length (hs @ cs) - 1) hs \<and>
    remove1 (last (hs @ cs)) cs = take (length (hs @ cs) - 1 - length hs) cs"
  proof (cases cs rule: rev_cases)
    case Nil
    with assms show ?thesis by (cases hs rule: rev_cases) (auto simp: remove1_append)
  next
    case (snoc ys y)
    with assms show ?thesis by (auto simp: remove1_append remove1_idem)
  qed
  then show "remove1 (last (hs @ cs)) hs = take (length (hs @ cs) - 1) hs"
    "remove1 (last (hs @ cs)) cs = take (length (hs @ cs) - 1 - length hs) cs" by blast+
qed

definition protected :: "nat \<Rightarrow> uint32_t \<Rightarrow> uint32_t \<Rightarrow> node \<Rightarrow> bool" where
  "protected rid lo hi n \<longleftrightarrow> fst n = rid \<and> lo \<le> snd n \<and> snd n \<le> hi"

text \<open>
  The queue is cut at \<open>k\<close>: what is dropped is a suffix with no protected node,
  no more than needed, and the loop stops early only at a protected node.
\<close>

definition evicted :: "(node \<Rightarrow> size_t) \<Rightarrow> size_t \<Rightarrow> (node \<Rightarrow> bool) \<Rightarrow> node list \<Rightarrow> nat \<Rightarrow> bool" where
  "evicted sz target prt q k \<longleftrightarrow> k \<le> length q \<and> (\<forall>n\<in>set (drop k q). \<not> prt n) \<and>
     (k < length q \<longrightarrow> target < sum_list (map sz (take (Suc k) q))) \<and>
     (sum_list (map sz (take k q)) \<le> target \<or> (0 < k \<and> prt (q ! (k - 1))))"

lemma evicted_snoc:
  assumes "evicted sz target prt q k" "\<not> prt v" "target < sum_list (map sz (q @ [v]))"
  shows "evicted sz target prt (q @ [v]) k"
  using assms by (cases "k = length q") (auto simp: evicted_def nth_append)

text \<open>Evicting the least recent node: what is left is a prefix of the queue.\<close>

lemma evict_last:
  assumes ok: "pool_ok os p m rids hs cs" and ne: "hs @ cs \<noteq> []" and v: "last (hs @ cs) = (vr, vc)"
  defines "j \<equiv> length (hs @ cs) - 1"
  obtains p1 m1 where "lru_evict_chunk os p vr vc m = Inr (p1, m1)" "pool_ok os p1 m1 rids (take j hs) (take (j - length hs) cs)"
    "pool_step rids p m p1 m1" "pages_kept p p1" "hs @ cs = take j (hs @ cs) @ [(vr, vc)]"
    "nodes_bytes p (take j (hs @ cs)) < nodes_bytes p (hs @ cs)"
proof -
  have "pool_lru os p rids hs cs" using ok by (simp add: pool_ok_def)
  note distinct = pool_lruD(7) [OF this]
  have vq: "(vr, vc) \<in> set (hs @ cs)" using ne v by (metis last_in_set)
  obtain p1 m1 where ev: "lru_evict_chunk os p vr vc m = Inr (p1, m1)"
    and ok1: "pool_ok os p1 m1 rids (remove1 (vr, vc) hs) (remove1 (vr, vc) cs)" and step1: "pool_step rids p m p1 m1"
    and kept1: "pages_kept p p1"
    by (rule lru_evict_chunk_ok [OF ok queue_nodes(1) [OF ok vq]])
  have cut: "remove1 (vr, vc) hs = take j hs" "remove1 (vr, vc) cs = take (j - length hs) cs"
    using remove1_last_halves [OF distinct ne] unfolding v j_def by auto
  have jq: "hs @ cs = take j (hs @ cs) @ [(vr, vc)]"
    using v append_butlast_last_id [OF ne] by (simp only: butlast_conv_take j_def)
  have "nodes_bytes p (hs @ cs) = nodes_bytes p (take j (hs @ cs)) + lru_node_size p (vr, vc)"
    using arg_cong [OF jq, of "nodes_bytes p"] by (simp only: map_append sum_list_append) simp
  then have "nodes_bytes p (take j (hs @ cs)) < nodes_bytes p (hs @ cs)" using queue_nodes(4) [OF ok vq] by linarith
  then show thesis using that ev ok1 [unfolded cut] step1 kept1 jq by blast
qed

lemma evict_loop_ok:
  assumes "pool_ok os p m rids hs cs" "nodes_bytes p (hs @ cs) < fuel"
  shows "\<exists>p' m' k. evict_loop fuel os p rid lo hi m = Inr (p', m') \<and>
    pool_ok os p' m' rids (take k hs) (take (k - length hs) cs) \<and> pool_step rids p m p' m' \<and> pages_kept p p' \<and>
    evicted (lru_node_size p) (p_target_size p) (protected rid lo hi) (hs @ cs) k"
  using assms
proof (induction fuel arbitrary: p m hs cs)
  case 0
  then show ?case by simp
next
  case (Suc f)
  have lru: "pool_lru os p rids hs cs" using Suc.prems(1) by (simp add: pool_ok_def)
  note L = pool_lruD [OF lru]
  let ?q = "hs @ cs" and ?j = "length (hs @ cs) - 1"
  have prev: "l_prev (p_lru p) Sentinel = last_ptr ?q" using dlist_prev_head L(2) by (auto simp: lru_rep_def)
  have stop: ?case if "evict_loop (Suc f) os p rid lo hi m = Inr (p, m)"
    "nodes_bytes p ?q \<le> p_target_size p \<or> ?q \<noteq> [] \<and> protected rid lo hi (last ?q)"
    using that Suc.prems(1) pool_step_refl pages_kept_refl
    by (intro exI [of _ p] exI [of _ m] exI [of _ "length ?q"]) (auto simp: evicted_def last_conv_nth simp del: map_append sum_list_append)
  show ?case
  proof (cases "p_resident_bytes p > p_target_size p")
    case False
    then show ?thesis using L(3) by (intro stop) simp_all
  next
    case over: True
    then have ne: "?q \<noteq> []" using L(3) by auto
    obtain vr vc where v: "last ?q = (vr, vc)" by fastforce
    have "l_prev (p_lru p) Sentinel = Node (vr, vc)" using prev ne v by (simp add: last_ptr_def)
    then have loop: "evict_loop (Suc f) os p rid lo hi m = (if protected rid lo hi (vr, vc) then Inr (p, m)
        else res_bind (lru_evict_chunk os p vr vc m) (\<lambda>(p, m). evict_loop f os p rid lo hi m))"
      using over by (simp add: protected_def)
    show ?thesis
    proof (cases "protected rid lo hi (vr, vc)")
      case True
      then show ?thesis using loop ne v by (intro stop) simp_all
    next
      case False
      obtain p1 m1 where ev: "lru_evict_chunk os p vr vc m = Inr (p1, m1)"
        and ok1: "pool_ok os p1 m1 rids (take ?j hs) (take (?j - length hs) cs)" and step1: "pool_step rids p m p1 m1" "pages_kept p p1"
        and jq: "?q = take ?j ?q @ [(vr, vc)]" and bytes: "nodes_bytes p (take ?j ?q) < nodes_bytes p ?q"
        by (rule evict_last [OF Suc.prems(1) ne v])
      have size: "lru_node_size p1 = lru_node_size p" and tgt: "p_target_size p1 = p_target_size p"
        using step1 pool_static_cong(1) by (simp_all add: pool_step_def)
      have q1: "take ?j hs @ take (?j - length hs) cs = take ?j ?q" by simp
      have "nodes_bytes p1 (take ?j hs @ take (?j - length hs) cs) < f" unfolding q1 size using Suc.prems(2) bytes by linarith
      from Suc.IH [OF ok1 this] obtain p' m' k where IH: "evict_loop f os p1 rid lo hi m1 = Inr (p', m')"
        "pool_ok os p' m' rids (take k (take ?j hs)) (take (k - length (take ?j hs)) (take (?j - length hs) cs))"
        "pool_step rids p1 m1 p' m'" "pages_kept p1 p'" "evicted (lru_node_size p) (p_target_size p) (protected rid lo hi) (take ?j ?q) k"
        unfolding q1 size tgt by blast
      have "length (take ?j ?q) = ?j" unfolding length_take by linarith
      then have kj: "k \<le> ?j" using IH(5) unfolding evicted_def by metis
      have "evict_loop (Suc f) os p rid lo hi m = Inr (p', m')" using loop False ev IH(1) by simp
      moreover have "take k (take ?j hs) = take k hs" "take (k - length (take ?j hs)) (take (?j - length hs) cs) = take (k - length hs) cs"
        using kj by (auto simp: min_def)
      moreover have "pool_step rids p m p' m'" by (rule pool_step_trans_ok [OF step1(1) IH(3) Suc.prems(1) ok1 IH(2)])
      moreover have "pages_kept p p'" by (rule pages_kept_trans [OF step1(2) IH(4)])
      moreover have "evicted (lru_node_size p) (p_target_size p) (protected rid lo hi) ?q k"
        using evicted_snoc [OF IH(5) False] over L(3) unfolding jq [symmetric] by simp
      ultimately show ?thesis using IH(2) by (intro exI [of _ p'] exI [of _ m'] exI [of _ k]) simp
    qed
  qed
qed

end
