(* ===== verification/Resolve.thy ===== *)
theory Resolve
  imports Pool_Ops
begin

text \<open>
  Resolving a fault inside one pool: \<open>fill_chunk_locked\<close> and
  \<open>resolve_fault_locked\<close>.  A resolved fault leaves the faulting page readable with
  the derived content, fills only the chunks that were missing, and keeps the pool
  invariant; it aborts only when no memory can be mapped or when the callback itself
  faults.
\<close>

section \<open>Definitions\<close>

definition fill_chunk_locked :: "os \<Rightarrow> fc_pool \<Rightarrow> nat \<Rightarrow> uint32_t \<Rightarrow> mem \<Rightarrow> (fc_pool \<times> mem) res" where
  "fill_chunk_locked os p rid c m =
     (let start = r_chunk_start (p_region p rid) ! c;
          end' = r_chunk_start (p_region p rid) ! (c + 1)
      in res_bind (fill_chunk_region os (p_region p rid) c m) (\<lambda>(r, m).
         let p = p\<lparr>p_region := (p_region p)(rid := r)\<rparr> in
         res_bind (if \<not> node_resident p (rid, c) then
                     res_bind (lru_insert_mru p (rid, c)) (\<lambda>p.
                     let p = upd_region p rid (\<lambda>r. r\<lparr>r_resident_bytes := size_add (r_resident_bytes r) (end' - start),
                               r_resident_chunks := u32_add (r_resident_chunks r) 1\<rparr>)
                     in Inr (p\<lparr>p_resident_bytes := size_add (p_resident_bytes p) (end' - start)\<rparr>))
                   else Inr p) (\<lambda>p.
         Inr (upd_region p rid (\<lambda>r. r\<lparr>r_chunks_resolved := u32_add (r_chunks_resolved r) 1\<rparr>), m))))"

text \<open>The loop over the contributors of a shared page.\<close>

fun fill_missing :: "os \<Rightarrow> fc_pool \<Rightarrow> nat \<Rightarrow> uint32_t list \<Rightarrow> mem \<Rightarrow> (fc_pool \<times> mem) res" where
  "fill_missing os p rid [] m = Inr (p, m)"
| "fill_missing os p rid (c # cs) m =
     res_bind (if \<not> r_initialized (p_region p rid) ! c then fill_chunk_locked os p rid c m else Inr (p, m)) (\<lambda>(p, m).
     fill_missing os p rid cs m)"

definition resolve_fault_locked :: "os \<Rightarrow> fc_pool \<Rightarrow> nat \<Rightarrow> size_t \<Rightarrow> mem \<Rightarrow> (fc_pool \<times> mem) res" where
  "resolve_fault_locked os p rid fault_off m =
     (let r = p_region p rid;
          page = page_floor fault_off (r_page_size r)
      in res_bind
          (case find_shared_page r page of
             Some k \<Rightarrow>
               let sp = r_shared_pages r ! k;
                   lo = sp_first_chunk sp;
                   hi = sp_last_chunk sp
               in fc_assert ''!sp->mapped'' (\<not> sp_mapped sp)
                  (res_bind (fill_missing os p rid [lo..<Suc hi] m) (\<lambda>(p, m). Inr (p, m, lo, hi)))
           | None \<Rightarrow>
               let lo = find_chunk r page in
               if r_initialized r ! lo then
                 res_bind (lru_promote os p (rid, lo) m) (\<lambda>(p, m).
                 Inr (upd_region p rid (\<lambda>r. r\<lparr>
                        r_chunk_faults_total := (r_chunk_faults_total r)[lo := size_add (r_chunk_faults_total r ! lo) 1],
                        r_fault_events_total := size_add (r_fault_events_total r) 1\<rparr>), m, lo, lo))
               else res_bind (fill_chunk_locked os p rid lo m) (\<lambda>(p, m). Inr (p, m, lo, lo)))
          (\<lambda>(p, m, lo, hi).
           fc_assert ''page_readable(r, page)'' (page_readable (p_region p rid) page)
           (res_bind (evict_until_within_budget os p rid lo hi m) (\<lambda>(p, m).
            res_bind (lru_rebalance os p m) (\<lambda>(p, m).
            Inr (upd_region p rid (\<lambda>r. r\<lparr>r_faults_handled := u32_add (r_faults_handled r) 1\<rparr>), m))))))"

section \<open>Filling a chunk of a pool\<close>

lemma region_inv_counters:
  assumes inv: "region_inv os r m" and st: "static r' = static r" and wf: "region_wf os r'"
    and same: "r_shared_pages r' = r_shared_pages r" "r_nshared r' = r_nshared r" "r_chunk_staged r' = r_chunk_staged r"
      "r_initialized r' = r_initialized r" "r_lru_cold r' = r_lru_cold r"
  shows "region_inv os r' m" "staging_ranges r' = staging_ranges r"
proof -
  have sinv: "staging_inv os r m (\<lambda>_. staged_set r)" using inv by (simp add: region_inv_staging)
  have mapped: "m x \<noteq> None" if "x \<in> region_range r" for x using sinv that by (simp add: staging_inv_def)
  note tr = staging_inv_transfer [OF sinv st wf same(1,2) refl refl mapped]
  show "staging_ranges r' = staging_ranges r" by (rule tr(2))
  have "excl_cells r' m c" if "c < r_nchunks r" for c
    by (rule excl_cells_transfer [OF _ st]) (use inv that in \<open>simp_all add: region_inv_def same\<close>)
  then show "region_inv os r' m" using tr(1) inv by (simp add: region_inv_staging static_congs [OF st] same)
qed

text \<open>The bookkeeping at the end of \<open>fill_chunk_locked\<close>, on the queue.\<close>

lemma fill_insert_queue:
  assumes lru: "pool_lru os p rids hs cs" and n: "n = (rid, c)" "n \<in> nodes p rids" and nr: "\<not> node_resident p n"
    and p1: "p1 = p\<lparr>p_region := (p_region p)(rid := r1)\<rparr>" and st1: "static r1 = static (p_region p rid)"
    and wf1: "region_wf os r1"
    and r1: "r_lru_resident r1 = r_lru_resident (p_region p rid)" "r_lru_cold r1 = r_lru_cold (p_region p rid)"
      "r_initialized r1 = (r_initialized (p_region p rid))[c := True]" "r_resident_bytes r1 = r_resident_bytes (p_region p rid)"
      "r_resident_chunks r1 = r_resident_chunks (p_region p rid)"
  obtains p2 where "lru_insert_mru p1 n = Inr p2"
    "p_region p2 = (p_region p)(rid := r1\<lparr>r_lru_resident := (r_lru_resident r1)[c := True], r_lru_cold := (r_lru_cold r1)[c := False]\<rparr>)"
    "same_pool p p2" "p_resident_bytes p2 = p_resident_bytes p"
    "\<And>p' :: fc_pool. p_lru p' = p_lru p2 \<Longrightarrow> p_midpoint p' = p_midpoint p2 \<Longrightarrow> p_hot_bytes p' = p_hot_bytes p2 \<Longrightarrow>
      p_resident_bytes p' = size_add (p_resident_bytes p) (lru_node_size p n) \<Longrightarrow>
      p_region p' = (p_region p)(rid := p_region p' rid) \<Longrightarrow> p_region p' rid = r1\<lparr>r_lru_resident := (r_lru_resident r1)[c := True],
        r_lru_cold := (r_lru_cold r1)[c := False], r_resident_bytes := size_add (r_resident_bytes r1) (lru_node_size p n),
        r_resident_chunks := u32_add (r_resident_chunks r1) 1, r_chunks_resolved := r_chunks_resolved (p_region p' rid)\<rparr> \<Longrightarrow>
      pool_lru os p' rids (n # hs) cs"
proof -
  note L = pool_lruD [OF lru]
  let ?r = "p_region p rid"
  have rid: "rid \<in> rids" and c: "c < r_nchunks ?r" using n by (auto simp: nodes_def)
  have nq: "n \<notin> set (hs @ cs)" using L(4) nr by (metis (mono_tags, lifting) mem_Collect_eq set_append)
  have "distinct (n # hs @ cs)" "set (n # hs @ cs) \<subseteq> nodes p rids" using nq L(7,8) n by auto
  note fresh = this nodes_bytes_bound [OF L(1) this]
  have "pool_static p p1" by (simp add: pool_static_def p1 st1)
  note size1 = pool_static_cong(1) [OF this]
  have rep1: "lru_rep p1 hs cs" using L(2) by (simp add: lru_rep_def size1) (simp add: p1)
  have nr1: "\<not> node_resident p1 n" using nr by (simp add: p1 n r1)
  have small: "lru_node_size p1 n + nodes_bytes p1 hs < SIZE_RANGE" using fresh(3) by (simp add: size1)
  obtain p2 where ins: "lru_insert_mru p1 n = Inr p2" and rep2: "lru_rep p2 (n # hs) cs" and p2: "same_pool p1 p2" "p_resident_bytes p2 = p_resident_bytes p1"
    "p_region p2 = (p_region p1)(fst n := (p_region p1 (fst n))\<lparr>r_lru_resident := (r_lru_resident (p_region p1 (fst n)))[snd n := True],
         r_lru_cold := (r_lru_cold (p_region p1 (fst n)))[snd n := False]\<rparr>)"
    by (rule lru_insert_mru_ok [OF rep1 nq nr1 small]) blast
  have reg2: "p_region p2 = (p_region p)(rid := r1\<lparr>r_lru_resident := (r_lru_resident r1)[c := True], r_lru_cold := (r_lru_cold r1)[c := False]\<rparr>)"
    using p2(3) by (simp add: n p1)
  have st2: "pool_static p p2" using st1 by (simp add: pool_static_def reg2 static_def)
  show thesis
  proof (rule that [OF ins reg2])
    show "same_pool p p2" "p_resident_bytes p2 = p_resident_bytes p" using p2 by (simp_all add: p1)
    fix p' :: fc_pool
    assume p': "p_lru p' = p_lru p2" "p_midpoint p' = p_midpoint p2" "p_hot_bytes p' = p_hot_bytes p2"
      "p_resident_bytes p' = size_add (p_resident_bytes p) (lru_node_size p n)" "p_region p' = (p_region p)(rid := p_region p' rid)"
      and r': "p_region p' rid = r1\<lparr>r_lru_resident := (r_lru_resident r1)[c := True],
        r_lru_cold := (r_lru_cold r1)[c := False], r_resident_bytes := size_add (r_resident_bytes r1) (lru_node_size p n),
        r_resident_chunks := u32_add (r_resident_chunks r1) 1, r_chunks_resolved := r_chunks_resolved (p_region p' rid)\<rparr>"
    have st: "static (p_region p' rid) = static ?r" using st1 by (subst r') (simp add: static_def)
    have wf: "region_wf os (p_region p' rid)" by (rule region_wf_flags [OF wf1]) (subst r', simp add: static_def)+
    note size = pool_static_cong(1) [OF pool_static_upd [OF p'(5) st]] pool_static_cong(1) [OF st2]
    have rep: "lru_rep p' (n # hs) cs" using rep2 by (simp add: lru_rep_def size p')
    have bytes: "p_resident_bytes p' = nodes_bytes p' ((n # hs) @ cs)" using L(3) fresh(3) by (simp add: size p'(4) add.commute)
    have "nodes_bytes p (of_region rid (n # hs @ cs)) \<le> nodes_bytes p (n # hs @ cs)" by (rule sum_list_filter_le_nat)
    moreover have "length (of_region rid (n # hs @ cs)) < UINT32_RANGE"
      using region_nodes_count [OF fresh(1,2), of rid] wf1 static_fields(5) [OF st1] by (simp add: region_wf_def)
    ultimately have cnt: "region_counts p' rid ((n # hs) @ cs)"
      using L(10) [OF rid] fresh(3) unfolding region_counts_def size
      by (subst (1 2) r') (simp add: r1 n(1) add.commute)
    show "pool_lru os p' rids (n # hs) cs"
      by (rule pool_lru_update [where b = True and d = False, OF lru n p'(5) st wf rep bytes cnt])
        (use nq in \<open>(subst r', simp add: r1)?; auto simp: n(1)\<close>)+
  qed
qed

definition fill_locked_post :: "os \<Rightarrow> fc_pool \<Rightarrow> mem \<Rightarrow> nat set \<Rightarrow> node list \<Rightarrow> node list \<Rightarrow> nat \<Rightarrow> uint32_t \<Rightarrow> fc_pool \<times> mem \<Rightarrow> bool" where
  "fill_locked_post os p m rids hs cs rid c = (\<lambda>(p', m').
     pool_ok os p' m' rids ((rid, c) # hs) cs \<and> pool_step rids p m p' m' \<and>
     (\<forall>k. k \<noteq> rid \<longrightarrow> p_region p' k = p_region p k) \<and>
     r_initialized (p_region p' rid) = (r_initialized (p_region p rid))[c := True])"

lemma fill_chunk_locked_ok:
  assumes ok: "pool_ok os p m rids hs cs" and n: "(rid, c) \<in> nodes p rids" and ni: "\<not> r_initialized (p_region p rid) ! c"
  shows "res_ok (fill_error_of (p_region p rid)) (fill_locked_post os p m rids hs cs rid c) (fill_chunk_locked os p rid c m)"
proof -
  let ?r = "p_region p rid" and ?n = "(rid, c)"
  note R = pool_region_ok [OF ok n, unfolded fst_conv snd_conv]
  have lru: "pool_lru os p rids hs cs" and mem: "pool_mem os p m rids" using ok by (simp_all add: pool_ok_def)
  have nr: "\<not> node_resident p ?n" using pool_lruD(11) [OF lru n] ni by simp
  have size: "lru_node_size p ?n = chunk_size ?r c" by (simp add: lru_node_size_def)
  show ?thesis unfolding fill_chunk_locked_def Let_def
  proof (rule res_ok_bind2 [OF fill_chunk_region_ok [OF R(1,4)]])
    fix r1 m1 assume post: "fill_post os ?r m c (r1, m1)"
    then obtain b sps where r1: "r1 = ?r\<lparr>r_initialized := (r_initialized ?r)[c := True], r_chunk_staged := (r_chunk_staged ?r)[c := b],
        r_shared_pages := sps, r_chunk_faults_total := (r_chunk_faults_total ?r)[c := size_add (r_chunk_faults_total ?r ! c) 1],
        r_fault_events_total := size_add (r_fault_events_total ?r) 1\<rparr>"
      and inv1: "region_inv os (r1\<lparr>r_lru_cold := (r_lru_cold ?r)[c := False]\<rparr>) m1" (is "region_inv os ?rc m1")
      and fr1: "vm_frame (region_range ?r) m (staging_ranges ?r) m1 (staging_ranges r1)"
      unfolding fill_post_def by blast
    have st1: "static r1 = static ?r" by (simp add: r1 static_def)
    have wfc: "region_wf os ?rc" using inv1 by (simp add: region_inv_def)
    have wf1: "region_wf os r1" by (rule region_wf_flags [OF wfc]) (simp_all add: r1 static_def)
    define p1 where "p1 = p\<lparr>p_region := (p_region p)(rid := r1)\<rparr>"
    obtain p2 where ins: "lru_insert_mru p1 ?n = Inr p2"
      and reg2: "p_region p2 = (p_region p)(rid := r1\<lparr>r_lru_resident := (r_lru_resident r1)[c := True], r_lru_cold := (r_lru_cold r1)[c := False]\<rparr>)"
      and p2: "same_pool p p2" "p_resident_bytes p2 = p_resident_bytes p"
      and fin: "\<And>p' :: fc_pool. p_lru p' = p_lru p2 \<Longrightarrow> p_midpoint p' = p_midpoint p2 \<Longrightarrow> p_hot_bytes p' = p_hot_bytes p2 \<Longrightarrow>
      p_resident_bytes p' = size_add (p_resident_bytes p) (lru_node_size p ?n) \<Longrightarrow>
      p_region p' = (p_region p)(rid := p_region p' rid) \<Longrightarrow> p_region p' rid = r1\<lparr>r_lru_resident := (r_lru_resident r1)[c := True],
        r_lru_cold := (r_lru_cold r1)[c := False], r_resident_bytes := size_add (r_resident_bytes r1) (lru_node_size p ?n),
        r_resident_chunks := u32_add (r_resident_chunks r1) 1, r_chunks_resolved := r_chunks_resolved (p_region p' rid)\<rparr> \<Longrightarrow>
      pool_lru os p' rids (?n # hs) cs"
      by (rule fill_insert_queue [OF lru refl n nr p1_def st1 wf1]) (simp_all add: r1)
    define r' where "r' = r1\<lparr>r_lru_resident := (r_lru_resident r1)[c := True],
        r_lru_cold := (r_lru_cold r1)[c := False], r_resident_bytes := size_add (r_resident_bytes r1) (lru_node_size p ?n),
        r_resident_chunks := u32_add (r_resident_chunks r1) 1, r_chunks_resolved := u32_add (r_chunks_resolved r1) 1\<rparr>"
    define p' where "p' = p2\<lparr>p_resident_bytes := size_add (p_resident_bytes p) (lru_node_size p ?n), p_region := (p_region p)(rid := r')\<rparr>"
    have lru': "pool_lru os p' rids (?n # hs) cs" by (rule fin) (simp_all add: p'_def r'_def)
    have st': "static r' = static ?rc" by (simp add: r'_def static_def)
    have wf': "region_wf os r'" by (rule region_wf_flags [OF wfc st']) (simp_all add: r'_def r1)
    have inv': "region_inv os r' m1" by (rule region_inv_counters(1) [OF inv1 st' wf']) (simp_all add: r'_def r1)
    have stg: "staging_ranges r' = staging_ranges r1" by (rule staging_ranges_cong) (simp_all add: r'_def)
    have st: "static r' = static ?r" using st' st1 by (simp add: static_def)
    have reg': "p_region p' = (p_region p)(rid := r')" by (simp add: p'_def)
    note step = pool_region_step [OF mem R(3) reg' st inv' fr1 [folded stg]]
    have "fill_locked_post os p m rids hs cs rid c (p', m1)"
      using lru' step pool_static_upd [OF reg' st] p2
      by (simp add: fill_locked_post_def pool_ok_def pool_step_def) (simp add: p'_def r'_def r1)
    moreover have "\<not> node_resident p1 ?n" using nr by (simp add: p1_def r1)
    ultimately show "res_ok (fill_error_of (p_region p rid)) (fill_locked_post os p m rids hs cs rid c)
      (res_bind (if \<not> node_resident (p\<lparr>p_region := (p_region p)(rid := r1)\<rparr>) ?n then
          res_bind (lru_insert_mru (p\<lparr>p_region := (p_region p)(rid := r1)\<rparr>) ?n) (\<lambda>pa.
            Inr ((upd_region pa rid (\<lambda>ra. ra\<lparr>r_resident_bytes := size_add (r_resident_bytes ra) (r_chunk_start ?r ! (c + 1) - r_chunk_start ?r ! c),
                 r_resident_chunks := u32_add (r_resident_chunks ra) 1\<rparr>))
               \<lparr>p_resident_bytes := size_add (p_resident_bytes (upd_region pa rid (\<lambda>ra. ra\<lparr>r_resident_bytes := size_add (r_resident_bytes ra) (r_chunk_start ?r ! (c + 1) - r_chunk_start ?r ! c),
                 r_resident_chunks := u32_add (r_resident_chunks ra) 1\<rparr>))) (r_chunk_start ?r ! (c + 1) - r_chunk_start ?r ! c)\<rparr>))
        else Inr (p\<lparr>p_region := (p_region p)(rid := r1)\<rparr>)) (\<lambda>p. Inr (upd_region p rid (\<lambda>r. r\<lparr>r_chunks_resolved := u32_add (r_chunks_resolved r) 1\<rparr>), m1)))"
      unfolding p1_def [symmetric] using ins p2 size
      by (simp add: upd_region_def reg2 p'_def r'_def)
  qed
qed

text \<open>Statistics are invisible to the invariant.\<close>

lemma pool_ok_counters:
  assumes ok: "pool_ok os p m rids hs cs" and rid: "rid \<in> rids" and st: "static r' = static (p_region p rid)"
    and same: "r_shared_pages r' = r_shared_pages (p_region p rid)" "r_nshared r' = r_nshared (p_region p rid)"
      "r_chunk_staged r' = r_chunk_staged (p_region p rid)" "r_initialized r' = r_initialized (p_region p rid)"
      "r_lru_cold r' = r_lru_cold (p_region p rid)" "r_lru_resident r' = r_lru_resident (p_region p rid)"
      "r_resident_bytes r' = r_resident_bytes (p_region p rid)" "r_resident_chunks r' = r_resident_chunks (p_region p rid)"
      "length (r_chunk_faults_total r') = length (r_chunk_faults_total (p_region p rid))"
  defines "p' \<equiv> p\<lparr>p_region := (p_region p)(rid := r')\<rparr>"
  shows "pool_ok os p' m rids hs cs" "pool_step rids p m p' m" "pages_kept p p'"
proof -
  have lru: "pool_lru os p rids hs cs" and mem: "pool_mem os p m rids" using ok by (simp_all add: pool_ok_def)
  have inv: "region_inv os (p_region p rid) m" using mem rid by (simp add: pool_mem_def)
  have wf0: "region_wf os (p_region p rid)" using inv by (simp add: region_inv_def)
  have wf: "region_wf os r'" by (rule region_wf_flags [OF wf0 st]) (simp_all add: same)
  have reg: "p_region p' = (p_region p)(rid := r')" by (simp add: p'_def)
  have inv': "region_inv os r' m" and stg: "staging_ranges r' = staging_ranges (p_region p rid)"
    using region_inv_counters [OF inv st wf] same by simp_all
  have "vm_frame (region_range (p_region p rid)) m (staging_ranges (p_region p rid)) m (staging_ranges r')"
    unfolding stg by (rule vm_frame_refl)
  note step = pool_region_step [OF mem rid reg st inv' this]
  have ps: "pool_static p p'" by (rule pool_static_upd [OF reg st])
  note C = pool_static_cong [OF ps]
  have fl: "node_resident p' k = node_resident p k" "node_cold p' k = node_cold p k" for k by (auto simp: reg same)
  have f1: "r_initialized (p_region p' k) = r_initialized (p_region p k)" "r_lru_resident (p_region p' k) = r_lru_resident (p_region p k)" for k
    by (auto simp: reg same)
  have f2: "region_counts p' k ns = region_counts p k ns" for k ns by (auto simp: region_counts_def C reg same)
  have f3: "lru_rep p' hs cs = lru_rep p hs cs" "p_resident_bytes p' = p_resident_bytes p"
    unfolding lru_rep_def C by (simp_all add: p'_def)
  have "pool_lru os p' rids hs cs"
    using lru regions_apart_upd [OF _ reg wf st] unfolding pool_lru_def C fl f1 f2 f3 by blast
  then show "pool_ok os p' m rids hs cs" using step by (simp add: pool_ok_def)
  show "pool_step rids p m p' m" using step ps by (simp add: pool_step_def p'_def)
  show "pages_kept p p'" by (simp add: pages_kept_def reg same)
qed

lemma fill_missing_ok:
  assumes "pool_ok os p m rids hs cs" "rid \<in> rids" "\<forall>c\<in>set l. c < r_nchunks (p_region p rid)" "distinct l"
  shows "res_ok (fill_error_of (p_region p rid)) (\<lambda>(p', m').
      pool_ok os p' m' rids (rev (map (Pair rid) (filter (\<lambda>c. \<not> r_initialized (p_region p rid) ! c) l)) @ hs) cs \<and>
      pool_step rids p m p' m' \<and>
      (\<forall>c<r_nchunks (p_region p rid). r_initialized (p_region p' rid) ! c \<longleftrightarrow> r_initialized (p_region p rid) ! c \<or> c \<in> set l))
    (fill_missing os p rid l m)"
  using assms
proof (induction l arbitrary: p m hs)
  case Nil
  then show ?case by (simp add: pool_step_refl)
next
  case (Cons c l)
  let ?r = "p_region p rid"
  have n: "(rid, c) \<in> nodes p rids" using Cons.prems by (simp add: nodes_def)
  have wf: "region_wf os ?r" using pool_region_ok(2) [OF Cons.prems(1) n] by simp
  show ?case
  proof (cases "r_initialized ?r ! c")
    case True
    then have "fill_missing os p rid (c # l) m = fill_missing os p rid l m" by simp
    then show ?thesis using Cons.IH [OF Cons.prems(1,2)] Cons.prems(3,4) True by (auto elim!: res_ok_mono)
  next
    case False
    have eq: "fill_missing os p rid (c # l) m = res_bind (fill_chunk_locked os p rid c m) (\<lambda>(p, m). fill_missing os p rid l m)"
      using False by simp
    show ?thesis unfolding eq
    proof (rule res_ok_bind2 [OF fill_chunk_locked_ok [OF Cons.prems(1) n False]])
      fix p1 m1 assume "fill_locked_post os p m rids hs cs rid c (p1, m1)"
      then have ok1: "pool_ok os p1 m1 rids ((rid, c) # hs) cs" and step1: "pool_step rids p m p1 m1"
        and ini: "r_initialized (p_region p1 rid) = (r_initialized ?r)[c := True]" by (auto simp: fill_locked_post_def)
      have st1: "static (p_region p1 rid) = static ?r" using step1 by (simp add: pool_step_def pool_static_def)
      note F = static_fields [OF st1]
      have len: "length (r_initialized ?r) = r_nchunks ?r" using wf by (simp add: region_wf_def)
      have "\<forall>d\<in>set l. d < r_nchunks (p_region p1 rid)" "distinct l" using Cons.prems(3,4) by (simp_all add: F)
      note IH = Cons.IH [OF ok1 Cons.prems(2) this, unfolded fill_error_of_cong(1) [OF st1]]
      have flt: "filter (\<lambda>d. \<not> r_initialized (p_region p1 rid) ! d) l = filter (\<lambda>d. \<not> r_initialized ?r ! d) l"
      proof (rule filter_cong [OF refl])
        fix d assume "d \<in> set l"
        then have "c \<noteq> d" using Cons.prems(4) by auto
        then show "(\<not> r_initialized (p_region p1 rid) ! d) = (\<not> r_initialized ?r ! d)" by (simp add: ini)
      qed
      have all: "r_initialized (p_region p1 rid) ! d \<longleftrightarrow> r_initialized ?r ! d \<or> d = c" if "d < r_nchunks ?r" for d
        using that len by (cases "d = c") (simp_all add: ini)
      show "res_ok (fill_error_of (p_region p rid)) (\<lambda>(p', m').
        pool_ok os p' m' rids (rev (map (Pair rid) (filter (\<lambda>d. \<not> r_initialized ?r ! d) (c # l))) @ hs) cs \<and>
        pool_step rids p m p' m' \<and>
        (\<forall>d<r_nchunks ?r. r_initialized (p_region p' rid) ! d \<longleftrightarrow> r_initialized ?r ! d \<or> d \<in> set (c # l)))
       (fill_missing os p1 rid l m1)"
      proof (rule res_ok_mono2 [OF IH], unfold prod.case, elim conjE)
        fix p' m'
        assume a: "pool_ok os p' m' rids (rev (map (Pair rid) (filter (\<lambda>d. \<not> r_initialized (p_region p1 rid) ! d) l)) @ (rid, c) # hs) cs"
          "pool_step rids p1 m1 p' m'"
          "\<forall>d<r_nchunks (p_region p1 rid). r_initialized (p_region p' rid) ! d \<longleftrightarrow> r_initialized (p_region p1 rid) ! d \<or> d \<in> set l"
        have "pool_step rids p m p' m'" by (rule pool_step_trans_ok [OF step1 a(2) Cons.prems(1) ok1 a(1)])
        then show "pool_ok os p' m' rids (rev (map (Pair rid) (filter (\<lambda>d. \<not> r_initialized ?r ! d) (c # l))) @ hs) cs \<and>
          pool_step rids p m p' m' \<and>
          (\<forall>d<r_nchunks ?r. r_initialized (p_region p' rid) ! d \<longleftrightarrow> r_initialized ?r ! d \<or> d \<in> set (c # l))"
          using a(1,3) False all by (auto simp: flt F)
      qed
    qed
  qed
qed

section \<open>What a reader sees\<close>

text \<open>The library's \<open>page_readable\<close> agrees with the page tables, and readable bytes are the derived content.\<close>

lemma region_load:
  assumes inv: "region_inv os r m" and off: "off < r_mapped_size r"
  shows "mem_load m (r_base r + off) = (if page_readable r off then Some (content r off) else None)"
proof -
  have wf: "region_wf os r" using inv by (simp add: region_inv_def)
  note W = region_wfD [OF wf]
  from wf off show ?thesis
  proof (cases rule: region_cell_cases)
    case (shared k i)
    have "find_shared_page r (page_floor off (r_page_size r)) = Some k"
      using shared(1,4) find_shared_page_Some [OF W(2)] by simp
    moreover have "shared_cells r m k" using inv shared(1) by (simp add: region_inv_def)
    then obtain b where "m (r_base r + off) = Some (if sp_mapped (r_shared_pages r ! k) then PROT_READ else PROT_NONE, b)"
      "sp_mapped (r_shared_pages r ! k) \<longrightarrow> b = content r off"
      using shared(2,3) unfolding shared_cells_def Let_def add.assoc by blast
    ultimately show ?thesis by (simp add: page_readable_def)
  next
    case (exclusive c)
    have "find_shared_page r (page_floor off (r_page_size r)) = None" using exclusive(5) find_shared_page_None [OF W(2)] by simp
    moreover have "excl_cells r m c" using inv exclusive(1) by (simp add: region_inv_def)
    ultimately show ?thesis using exclusive(2,3,4) by (auto simp: page_readable_def excl_cells_def Let_def)
  qed
qed

lemma shared_complete:
  assumes inv: "region_inv os r m" and k: "k < r_nshared r"
    and all: "\<And>c. contributes r c (sp_page_off (r_shared_pages r ! k)) \<Longrightarrow> r_initialized r ! c"
  shows "sp_mapped (r_shared_pages r ! k)"
proof -
  let ?sp = "r_shared_pages r ! k"
  have wf: "region_wf os r" using inv by (simp add: region_inv_def)
  note W = region_wfD [OF wf]
  have sh: "shared_at r (sp_page_off ?sp)" using shared_static_contributes(2) [OF W(1,2) k] .
  have staged: "c \<in> staged_set r" if con: "contributes r c (sp_page_off ?sp)" for c
    using inv all [OF con] contributes_ends [OF W(1) sh, of c] con by (auto simp: region_inv_def)
  obtain i where "0 < i" "i < r_nchunks r" "sp_page_off ?sp < r_total_size r" using shared_at_less [OF W(1) sh] by metis
  then have "contributes r (find_chunk r (sp_page_off ?sp)) (sp_page_off ?sp)"
    using byte_contributes [OF W(1), of "sp_page_off ?sp"] shared_page_area(2) [OF wf k, of 0] W(5) by simp
  from contributors_complete(1) [OF W(1,2) k _ this, of "staged_set r"] staged
  have "card {d \<in> staged_set r. contributes r d (sp_page_off ?sp)} = sp_last_chunk ?sp - sp_first_chunk ?sp + 1" by auto
  then show ?thesis using inv k by (auto simp: region_inv_def page_stage_ok_def Let_def)
qed

end
