(* ===== verification/Transparency.thy ===== *)
theory Transparency
  imports Resolve
begin

text \<open>
  What \<open>resolve_fault_locked\<close> achieves, as a whole: the queue it leaves behind is
  given exactly by \<open>brought\<close>, \<open>evicted\<close> and \<open>rebalanced\<close>, and the page
  that faulted is readable.
\<close>

section \<open>Bringing in the chunks of a page\<close>

definition fault_range :: "fc_region \<Rightarrow> size_t \<Rightarrow> uint32_t \<times> uint32_t" where
  "fault_range r page =
     (case find_shared_page r page of
        Some k \<Rightarrow> (sp_first_chunk (r_shared_pages r ! k), sp_last_chunk (r_shared_pages r ! k))
      | None \<Rightarrow> (find_chunk r page, find_chunk r page))"

definition missing :: "fc_region \<Rightarrow> size_t \<Rightarrow> uint32_t list" where
  "missing r page = (case fault_range r page of (lo, hi) \<Rightarrow> filter (\<lambda>c. \<not> r_initialized r ! c) [lo..<Suc hi])"

text \<open>The queue once the missing chunks have been filled or the hidden one handed back.\<close>

definition brought :: "fc_region \<Rightarrow> nat \<Rightarrow> size_t \<Rightarrow> node list \<Rightarrow> node list \<Rightarrow> node list \<times> node list" where
  "brought r rid page hs cs =
     (if find_shared_page r page = None \<and> missing r page = []
      then ((rid, find_chunk r page) # hs, remove1 (rid, find_chunk r page) cs)
      else (rev (map (Pair rid) (missing r page)) @ hs, cs))"

lemma page_readable_page: "0 < r_page_size r \<Longrightarrow> page_readable r (page_floor off (r_page_size r)) = page_readable r off"
  by (simp add: page_readable_def page_floor_unique)

lemma upt_single: "[c..<Suc c] = [c]"
  by simp

definition fetch_post where
  "fetch_post os p m rids hs cs rid page = (\<lambda>(p1, m1, lo, hi).
     (case brought (p_region p rid) rid page hs cs of (hs1, cs1) \<Rightarrow> pool_ok os p1 m1 rids hs1 cs1) \<and>
     pool_step rids p m p1 m1 \<and> (lo, hi) = fault_range (p_region p rid) page \<and> page_readable (p_region p1 rid) page)"

lemma fetch_shared:
  assumes ok: "pool_ok os p m rids hs cs" and rid: "rid \<in> rids"
    and k: "find_shared_page (p_region p rid) page = Some k" and nm: "\<not> sp_mapped (r_shared_pages (p_region p rid) ! k)"
  defines "lo \<equiv> sp_first_chunk (r_shared_pages (p_region p rid) ! k)" and "hi \<equiv> sp_last_chunk (r_shared_pages (p_region p rid) ! k)"
  shows "res_ok (fill_error_of (p_region p rid)) (fetch_post os p m rids hs cs rid page)
    (res_bind (fill_missing os p rid [lo..<Suc hi] m) (\<lambda>(p, m). Inr (p, m, lo, hi)))"
proof -
  let ?r = "p_region p rid"
  have inv: "region_inv os ?r m" using ok rid by (simp add: pool_ok_def pool_mem_def)
  then have wf: "region_wf os ?r" by (simp add: region_inv_def)
  note W = region_wfD [OF wf]
  have kk: "k < r_nshared ?r" "sp_page_off (r_shared_pages ?r ! k) = page" using k find_shared_page_Some [OF W(2)] by auto
  have con: "contributes ?r c page \<longleftrightarrow> lo \<le> c \<and> c \<le> hi" for c
    using shared_static_contributes(1) [OF W(1,2) kk(1)] kk(2) by (simp add: lo_def hi_def)
  have "c < r_nchunks ?r" if "c \<in> set [lo..<Suc hi]" for c
    using con [of c] that unfolding contributes_def set_upt atLeastLessThan_iff less_Suc_eq_le by blast
  then have "\<forall>c\<in>set [lo..<Suc hi]. c < r_nchunks ?r" by blast
  note fm = fill_missing_ok [OF ok rid this distinct_upt]
  have fr: "fault_range ?r page = (lo, hi)" using k by (simp add: fault_range_def lo_def hi_def)
  have br: "brought ?r rid page hs cs = (rev (map (Pair rid) (filter (\<lambda>c. \<not> r_initialized ?r ! c) [lo..<Suc hi])) @ hs, cs)"
    using k fr by (simp add: brought_def missing_def)
  show ?thesis
  proof (rule res_ok_bind2 [OF fm], unfold prod.case, elim conjE)
    fix p1 m1
    assume ok1: "pool_ok os p1 m1 rids (rev (map (Pair rid) (filter (\<lambda>c. \<not> r_initialized ?r ! c) [lo..<Suc hi])) @ hs) cs"
      and step: "pool_step rids p m p1 m1"
      and ini: "\<forall>c<r_nchunks ?r. r_initialized (p_region p1 rid) ! c \<longleftrightarrow> r_initialized ?r ! c \<or> c \<in> set [lo..<Suc hi]"
    let ?r1 = "p_region p1 rid"
    have inv1: "region_inv os ?r1 m1" using ok1 rid by (simp add: pool_ok_def pool_mem_def)
    then have wf1: "region_wf os ?r1" by (simp add: region_inv_def)
    have st: "static ?r1 = static ?r" using step by (simp add: pool_step_def pool_static_def)
    note C = static_congs [OF st]
    have sh: "shared_at ?r page" using shared_static_contributes(2) [OF W(1,2) kk(1)] kk(2) by simp
    then obtain k1 where k1: "k1 < r_nshared ?r1" "sp_page_off (r_shared_pages ?r1 ! k1) = page"
      using region_wfD(2) [OF wf1] by (auto simp: shared_static_def C)
    have "sp_mapped (r_shared_pages ?r1 ! k1)"
    proof (rule shared_complete [OF inv1 k1(1)])
      fix c assume "contributes ?r1 c (sp_page_off (r_shared_pages ?r1 ! k1))"
      then have cc: "contributes ?r c page" by (simp add: k1(2) C)
      then have "c \<in> set [lo..<Suc hi]" using con [of c] unfolding set_upt atLeastLessThan_iff less_Suc_eq_le by blast
      moreover have "c < r_nchunks ?r" using cc by (simp add: contributes_def)
      ultimately show "r_initialized ?r1 ! c" using ini by blast
    qed
    moreover have "find_shared_page ?r1 page = Some k1" using k1 find_shared_page_Some [OF region_wfD(2) [OF wf1]] by simp
    moreover have "page_floor page (r_page_size ?r1) = page"
      using shared_page_area(2) [OF wf1 k1(1), of 0] region_wfD(5) [OF wf1] k1(2) by simp
    ultimately have "page_readable ?r1 page" by (simp add: page_readable_def)
    then show "res_ok (fill_error_of (p_region p rid)) (fetch_post os p m rids hs cs rid page) (Inr (p1, m1, lo, hi))"
      using ok1 step fr br by (simp add: fetch_post_def)
  qed
qed

lemma hot_head_readable:
  assumes ok: "pool_ok os p m rids hs cs" and n: "(rid, find_chunk (p_region p rid) page) \<in> set hs"
    and ns: "find_shared_page (p_region p rid) page = None" and pg: "page_floor page (r_page_size (p_region p rid)) = page"
  shows "page_readable (p_region p rid) page"
proof -
  have lru: "pool_lru os p rids hs cs" using ok by (simp add: pool_ok_def)
  have "(rid, find_chunk (p_region p rid) page) \<in> set (hs @ cs)" using n by simp
  from queue_nodes(3) [OF ok this] pool_lruD(5) [OF lru n] show ?thesis using ns pg by (simp add: page_readable_def)
qed

lemma fetch_exclusive:
  assumes ok: "pool_ok os p m rids hs cs" and rid: "rid \<in> rids" and pg: "page_floor page (r_page_size (p_region p rid)) = page"
    and ns: "find_shared_page (p_region p rid) page = None" and nr: "\<not> page_readable (p_region p rid) page"
  defines "c \<equiv> find_chunk (p_region p rid) page"
  shows "res_ok (fill_error_of (p_region p rid)) (fetch_post os p m rids hs cs rid page)
    (if r_initialized (p_region p rid) ! c then
       res_bind (lru_promote os p (rid, c) m) (\<lambda>(p, m). Inr (upd_region p rid (\<lambda>r. r\<lparr>
          r_chunk_faults_total := (r_chunk_faults_total r)[c := size_add (r_chunk_faults_total r ! c) 1],
          r_fault_events_total := size_add (r_fault_events_total r) 1\<rparr>), m, c, c))
     else res_bind (fill_chunk_locked os p rid c m) (\<lambda>(p, m). Inr (p, m, c, c)))"
proof -
  let ?r = "p_region p rid" and ?n = "(rid, c)"
  have inv: "region_inv os ?r m" using ok rid by (simp add: pool_ok_def pool_mem_def)
  then have wf: "region_wf os ?r" by (simp add: region_inv_def)
  note W = region_wfD [OF wf]
  have lru: "pool_lru os p rids hs cs" using ok by (simp add: pool_ok_def)
  note L = pool_lruD [OF lru]
  have n: "?n \<in> nodes p rids" using rid find_chunk_spec(1) [OF W(1)] by (simp add: nodes_def c_def)
  have fr: "fault_range ?r page = (c, c)" using ns by (simp add: fault_range_def c_def)
  have readable: "page_readable (p_region p1 rid) page"
    if ok1: "pool_ok os p1 m1 rids (?n # hs) cs1" and step: "pool_step rids p m p1 m1" for p1 m1 cs1
  proof -
    have st: "static (p_region p1 rid) = static ?r" using step by (simp add: pool_step_def pool_static_def)
    have wf1: "region_wf os (p_region p1 rid)" using ok1 rid by (simp add: pool_ok_def pool_mem_def region_inv_def)
    have "find_shared_page (p_region p1 rid) page = None"
      using ns find_shared_page_None [OF W(2)] find_shared_page_None [OF region_wfD(2) [OF wf1]] by (simp add: static_congs [OF st])
    then show ?thesis using hot_head_readable [OF ok1] pg by (simp add: static_congs [OF st] c_def)
  qed
  show ?thesis
  proof (cases "r_initialized ?r ! c")
    case True
    have br: "brought ?r rid page hs cs = (?n # hs, remove1 ?n cs)" using ns fr True by (simp add: brought_def missing_def c_def)
    have "node_cold p ?n" using nr ns pg True by (simp add: page_readable_def c_def)
    then have "?n \<notin> set hs" using L(5) by auto
    moreover have "?n \<in> set hs \<union> set cs" unfolding L(4) using n True L(11) [OF n] by simp
    ultimately have ncs: "?n \<in> set cs" by simp
    obtain p1 m1 where pr: "lru_promote os p ?n m = Inr (p1, m1)" and ok1: "pool_ok os p1 m1 rids (?n # hs) (remove1 ?n cs)"
      and step1: "pool_step rids p m p1 m1"
      by (rule lru_promote_ok [OF ok ncs])
    let ?r2 = "(p_region p1 rid)\<lparr>r_chunk_faults_total := (r_chunk_faults_total (p_region p1 rid))[c := size_add (r_chunk_faults_total (p_region p1 rid) ! c) 1],
          r_fault_events_total := size_add (r_fault_events_total (p_region p1 rid)) 1\<rparr>"
    let ?p2 = "p1\<lparr>p_region := (p_region p1)(rid := ?r2)\<rparr>"
    have ok2: "pool_ok os ?p2 m1 rids (?n # hs) (remove1 ?n cs)" and step2: "pool_step rids p1 m1 ?p2 m1"
      by (rule pool_ok_counters [OF ok1 rid], simp_all add: static_def)+
    have step: "pool_step rids p m ?p2 m1" by (rule pool_step_trans_ok [OF step1 step2 ok ok1 ok2])
    have "fetch_post os p m rids hs cs rid page (?p2, m1, c, c)"
      using ok2 step br fr readable [OF ok2 step] by (simp add: fetch_post_def)
    then show ?thesis using True pr by (simp add: upd_region_def)
  next
    case False
    have br: "brought ?r rid page hs cs = (?n # hs, cs)" using ns fr False by (simp add: brought_def missing_def c_def)
    show ?thesis unfolding if_not_P [OF False]
    proof (rule res_ok_bind2 [OF fill_chunk_locked_ok [OF ok n False]])
      fix p1 m1 assume "fill_locked_post os p m rids hs cs rid c (p1, m1)"
      then have ok1: "pool_ok os p1 m1 rids (?n # hs) cs" and step1: "pool_step rids p m p1 m1" by (auto simp: fill_locked_post_def)
      then show "res_ok (fill_error_of (p_region p rid)) (fetch_post os p m rids hs cs rid page) (Inr (p1, m1, c, c))"
        using br fr readable [OF ok1 step1] by (simp add: fetch_post_def)
    qed
  qed
qed

section \<open>Evicting and rebalancing after the fetch\<close>

definition settled :: "fc_pool \<Rightarrow> (node \<Rightarrow> bool) \<Rightarrow> node list \<Rightarrow> node list \<Rightarrow> nat \<Rightarrow> nat \<Rightarrow> bool" where
  "settled p prt hs cs k j \<longleftrightarrow>
     (if p_target_size p = 0 then k = length (hs @ cs) \<and> j = length hs
      else evicted (lru_node_size p) (p_target_size p) prt (hs @ cs) k \<and>
           rebalanced (lru_node_size p) (nodes_bytes p (take k (hs @ cs)) div 2) (take k hs) j)"

lemma settle_ok:
  assumes ok: "pool_ok os p m rids hs cs"
  obtains p1 m1 p' m' k j where "evict_until_within_budget os p rid lo hi m = Inr (p1, m1)" "lru_rebalance os p1 m1 = Inr (p', m')"
    "pool_ok os p' m' rids (take j (take k hs)) (drop j (take k hs) @ take (k - length hs) cs)"
    "pool_step rids p m p' m'" "pages_kept p p'" "settled p (protected rid lo hi) hs cs k j"
proof (cases "p_target_size p = 0")
  case True
  then have "evict_until_within_budget os p rid lo hi m = Inr (p, m)" "lru_rebalance os p m = Inr (p, m)"
    by (simp_all add: evict_until_within_budget_def lru_rebalance_def)
  then show thesis using that [of p m p m "length hs" "length (hs @ cs)"] ok True pool_step_refl pages_kept_refl
    by (simp add: settled_def)
next
  case False
  have lru: "pool_lru os p rids hs cs" using ok by (simp add: pool_ok_def)
  note L = pool_lruD [OF lru]
  have "nodes_bytes p (hs @ cs) < Suc (p_resident_bytes p)" using L(3) by simp
  from evict_loop_ok [OF ok this, of rid lo hi] obtain p1 m1 k where
    ev: "evict_until_within_budget os p rid lo hi m = Inr (p1, m1)"
    and ok1: "pool_ok os p1 m1 rids (take k hs) (take (k - length hs) cs)" and step1: "pool_step rids p m p1 m1" "pages_kept p p1"
    and e: "evicted (lru_node_size p) (p_target_size p) (protected rid lo hi) (hs @ cs) k"
    using False by (auto simp: evict_until_within_budget_def)
  have size: "lru_node_size p1 = lru_node_size p" and tgt: "p_target_size p1 = p_target_size p"
    using step1 pool_static_cong(1) by (simp_all add: pool_step_def)
  have lru1: "pool_lru os p1 rids (take k hs) (take (k - length hs) cs)" using ok1 by (simp add: pool_ok_def)
  have rb: "p_resident_bytes p1 = nodes_bytes p (take k (hs @ cs))" using pool_lruD(3) [OF lru1] by (simp add: size)
  have hot: "p_hot_bytes p1 = nodes_bytes p1 (take k hs)" using pool_lruD(2) [OF lru1] by (simp add: lru_rep_def)
  have "nodes_bytes p1 (take k hs) < Suc (p_hot_bytes p1)" using hot by simp
  from lru_rebalance_loop_ok [OF ok1 this] obtain p' m' j where rbl: "lru_rebalance os p1 m1 = Inr (p', m')"
    and ok2: "pool_ok os p' m' rids (take j (take k hs)) (drop j (take k hs) @ take (k - length hs) cs)"
    and step2: "pool_step rids p1 m1 p' m'" "pages_kept p1 p'"
    and rl: "rebalanced (lru_node_size p) (p_resident_bytes p1 div 2) (take k hs) j"
    unfolding size using False tgt by (auto simp: lru_rebalance_def)
  have step: "pool_step rids p m p' m'" by (rule pool_step_trans_ok [OF step1(1) step2(1) ok ok1 ok2])
  have "settled p (protected rid lo hi) hs cs k j" using False e rl rb by (simp add: settled_def)
  then show thesis using that [OF ev rbl ok2 step pages_kept_trans [OF step1(2) step2(2)]] by blast
qed

text \<open>The MRU node survives when it is protected.\<close>

lemma settled_mru:
  assumes "settled p prt (n # hs) cs k j" "prt n"
  shows "n \<in> set (take j (take k (n # hs)))"
proof (cases "p_target_size p = 0")
  case False
  then have e: "evicted (lru_node_size p) (p_target_size p) prt ((n # hs) @ cs) k"
    and r: "rebalanced (lru_node_size p) (nodes_bytes p (take k ((n # hs) @ cs)) div 2) (take k (n # hs)) j"
    using assms(1) by (simp_all add: settled_def)
  have "0 < k" using e assms(2) by (cases k) (auto simp: evicted_def)
  moreover from this have "0 < j" using r by (cases k) (auto simp: rebalanced_def)
  ultimately show ?thesis by (cases k; cases j) auto
qed (use assms in \<open>auto simp: settled_def\<close>)

definition resolve_post where
  "resolve_post os p m rids hs cs rid page = (\<lambda>(p', m').
     case brought (p_region p rid) rid page hs cs of (hs1, cs1) \<Rightarrow> case fault_range (p_region p rid) page of (lo, hi) \<Rightarrow>
     \<exists>k j. settled p (protected rid lo hi) hs1 cs1 k j \<and>
       pool_ok os p' m' rids (take j (take k hs1)) (drop j (take k hs1) @ take (k - length hs1) cs1) \<and>
       pool_step rids p m p' m' \<and> page_readable (p_region p' rid) page)"

lemma find_shared_page_kept:
  "pages_kept p p' \<Longrightarrow> find_shared_page (p_region p' rid) page = find_shared_page (p_region p rid) page"
  by (simp add: find_shared_page_def pages_kept_def)

lemma readable_settled:
  assumes ok: "pool_ok os p m rids hs1 cs1" and rd: "page_readable (p_region p rid) page" and pg: "page_floor page (r_page_size (p_region p rid)) = page"
    and kept: "pages_kept p p'" and st: "pool_static p p'" and ok': "pool_ok os p' m' rids hs' cs'"
    and mru: "find_shared_page (p_region p rid) page = None \<Longrightarrow> (rid, find_chunk (p_region p rid) page) \<in> set hs'"
  shows "page_readable (p_region p' rid) page"
proof (cases "find_shared_page (p_region p rid) page")
  case (Some k)
  then show ?thesis
    using rd pg find_shared_page_kept [OF kept, of rid page] kept st static_fields(4) [of "p_region p' rid" "p_region p rid"]
    by (simp add: page_readable_def pages_kept_def pool_static_def)
next
  case None
  have "static (p_region p' rid) = static (p_region p rid)" using st by (simp add: pool_static_def)
  note C = static_congs [OF this]
  show ?thesis
    using hot_head_readable [OF ok', of rid page] mru [OF None] None pg find_shared_page_kept [OF kept, of rid page] by (simp add: C)
qed

text \<open>The branch of \<open>resolve_fault_locked\<close> that brings the page in, before the pool is settled.\<close>

lemma fetch_ok:
  assumes ok: "pool_ok os p m rids hs cs" and rid: "rid \<in> rids" and nr: "\<not> page_readable (p_region p rid) page"
    and pg: "page_floor page (r_page_size (p_region p rid)) = page"
  shows "res_ok (fill_error_of (p_region p rid)) (fetch_post os p m rids hs cs rid page) (case find_shared_page (p_region p rid) page of
       Some k \<Rightarrow> fc_assert ''!sp->mapped'' (\<not> sp_mapped (r_shared_pages (p_region p rid) ! k))
          (res_bind (fill_missing os p rid [sp_first_chunk (r_shared_pages (p_region p rid) ! k)..<Suc (sp_last_chunk (r_shared_pages (p_region p rid) ! k))] m)
            (\<lambda>(p', m). Inr (p', m, sp_first_chunk (r_shared_pages (p_region p rid) ! k), sp_last_chunk (r_shared_pages (p_region p rid) ! k))))
     | None \<Rightarrow> if r_initialized (p_region p rid) ! find_chunk (p_region p rid) page then
         res_bind (lru_promote os p (rid, find_chunk (p_region p rid) page) m) (\<lambda>(p', m). Inr (upd_region p' rid (\<lambda>r'. r'\<lparr>
          r_chunk_faults_total := (r_chunk_faults_total r')[find_chunk (p_region p rid) page := size_add (r_chunk_faults_total r' ! find_chunk (p_region p rid) page) 1],
          r_fault_events_total := size_add (r_fault_events_total r') 1\<rparr>), m, find_chunk (p_region p rid) page, find_chunk (p_region p rid) page))
       else res_bind (fill_chunk_locked os p rid (find_chunk (p_region p rid) page) m) (\<lambda>(p', m). Inr (p', m, find_chunk (p_region p rid) page, find_chunk (p_region p rid) page)))"
proof (cases "find_shared_page (p_region p rid) page")
  case (Some k)
  then have "\<not> sp_mapped (r_shared_pages (p_region p rid) ! k)" using nr pg by (simp add: page_readable_def)
  then show ?thesis using fetch_shared [OF ok rid Some] Some by simp
next
  case None
  then show ?thesis using fetch_exclusive [OF ok rid pg None nr] by simp
qed

text \<open>Settling the pool keeps the page that was brought in readable: its chunks are protected from eviction, and a chunk fetched
  for an exclusive page is the most recent.\<close>

lemma fetched_stays_readable:
  assumes ok1: "pool_ok os p1 m1 rids hs1 cs1" and rid: "rid \<in> rids" and st: "static (p_region p1 rid) = static (p_region p rid)"
    and wf: "region_wf os (p_region p rid)"
    and pg: "page_floor page (r_page_size (p_region p rid)) = page" and rd: "page_readable (p_region p1 rid) page"
    and br: "brought (p_region p rid) rid page hs cs = (hs1, cs1)" and fr: "fault_range (p_region p rid) page = (lo, hi)"
    and set0: "settled p (protected rid lo hi) hs1 cs1 k j"
    and kept: "pages_kept p1 p4" "pool_static p1 p4"
    and ok4: "pool_ok os p4 m4 rids (take j (take k hs1)) (drop j (take k hs1) @ take (k - length hs1) cs1)"
  shows "page_readable (p_region p4 rid) page"
proof (rule readable_settled [OF ok1 rd _ kept ok4])
  let ?r = "p_region p rid"
  show "page_floor page (r_page_size (p_region p1 rid)) = page" using pg by (simp add: static_congs [OF st])
  assume "find_shared_page (p_region p1 rid) page = None"
  then have none: "find_shared_page ?r page = None"
    using ok1 rid find_shared_page_None [OF region_wfD(2) [OF wf]] find_shared_page_None [of "p_region p1 rid" page]
    by (simp add: static_congs [OF st] pool_ok_def pool_mem_def region_inv_def region_wf_def)
  then have lh: "lo = find_chunk ?r page" "hi = find_chunk ?r page" using fr by (simp_all add: fault_range_def)
  then have "hs1 = (rid, find_chunk ?r page) # hs" using br none by (auto simp: brought_def missing_def fr split: if_splits)
  with settled_mru [of p _ "(rid, find_chunk ?r page)" hs cs1 k j] set0 lh
  show "(rid, find_chunk (p_region p1 rid) page) \<in> set (take j (take k hs1))"
    by (simp add: protected_def static_congs [OF st])
qed

theorem resolve_fault_locked_ok:
  assumes ok: "pool_ok os p m rids hs cs" and rid: "rid \<in> rids" and nr: "\<not> page_readable (p_region p rid) off"
  shows "res_ok (fill_error_of (p_region p rid)) (resolve_post os p m rids hs cs rid (page_floor off (r_page_size (p_region p rid))))
    (resolve_fault_locked os p rid off m)"
proof -
  let ?r = "p_region p rid" let ?page = "page_floor off (r_page_size ?r)"
  have wf: "region_wf os ?r" using ok rid by (simp add: pool_ok_def pool_mem_def region_inv_def)
  note W = region_wfD [OF wf]
  have pg: "page_floor ?page (r_page_size ?r) = ?page" by (simp add: page_floor_unique W(5))
  have nrp: "\<not> page_readable ?r ?page" using nr page_readable_page [OF W(5)] by simp
  show ?thesis
    unfolding resolve_fault_locked_def Let_def
  proof (rule res_ok_bind [OF fetch_ok [OF ok rid nrp pg]])
    fix x assume post: "fetch_post os p m rids hs cs rid ?page x"
    obtain p1 m1 lo hi where x: "x = (p1, m1, lo, hi)" by (cases x) auto
    obtain hs1 cs1 where br: "brought ?r rid ?page hs cs = (hs1, cs1)" by fastforce
    from post have ok1: "pool_ok os p1 m1 rids hs1 cs1" and step1: "pool_step rids p m p1 m1"
      and fr: "fault_range ?r ?page = (lo, hi)" and rd: "page_readable (p_region p1 rid) ?page"
      by (auto simp: x fetch_post_def br)
    obtain p2 m2 p3 m3 k j where ev: "evict_until_within_budget os p1 rid lo hi m1 = Inr (p2, m2)" and rb: "lru_rebalance os p2 m2 = Inr (p3, m3)"
      and ok3: "pool_ok os p3 m3 rids (take j (take k hs1)) (drop j (take k hs1) @ take (k - length hs1) cs1)"
      and step3: "pool_step rids p1 m1 p3 m3" "pages_kept p1 p3" and set: "settled p1 (protected rid lo hi) hs1 cs1 k j"
      by (rule settle_ok [OF ok1])
    let ?r4 = "(p_region p3 rid)\<lparr>r_faults_handled := u32_add (r_faults_handled (p_region p3 rid)) 1\<rparr>"
    define p4 where "p4 = p3\<lparr>p_region := (p_region p3)(rid := ?r4)\<rparr>"
    have ok4: "pool_ok os p4 m3 rids (take j (take k hs1)) (drop j (take k hs1) @ take (k - length hs1) cs1)"
      and step4: "pool_step rids p3 m3 p4 m3" and kept4: "pages_kept p3 p4"
      unfolding p4_def by (rule pool_ok_counters [OF ok3 rid], simp_all add: static_def)+
    have st: "static (p_region p1 rid) = static ?r" using step1 by (simp add: pool_step_def pool_static_def)
    have st14: "pool_static p1 p4" using step3 step4 by (simp add: pool_step_def pool_static_def)
    have "lru_node_size p1 = lru_node_size p" "p_target_size p1 = p_target_size p"
      using step1 pool_static_cong(1) by (simp_all add: pool_step_def)
    then have set0: "settled p (protected rid lo hi) hs1 cs1 k j" using set unfolding settled_def by (simp only:)
    have "page_readable (p_region p4 rid) ?page"
      by (rule fetched_stays_readable [OF ok1 rid st wf pg rd br fr set0 pages_kept_trans [OF step3(2) kept4] st14 ok4])
    moreover have "pool_step rids p m p4 m3"
      using pool_step_trans_ok [OF pool_step_trans_ok [OF step1 step3(1) ok ok1 ok3] step4 ok ok3 ok4] .
    ultimately have "resolve_post os p m rids hs cs rid ?page (p4, m3)"
      using ok4 set0 by (auto simp: resolve_post_def br fr)
    then show "res_ok (fill_error_of (p_region p rid)) (resolve_post os p m rids hs cs rid ?page)
      (case x of (p, m, lo, hi) \<Rightarrow> fc_assert ''page_readable(r, page)'' (page_readable (p_region p rid) ?page)
           (res_bind (evict_until_within_budget os p rid lo hi m) (\<lambda>(p, m).
            res_bind (lru_rebalance os p m) (\<lambda>(p, m).
            Inr (upd_region p rid (\<lambda>r. r\<lparr>r_faults_handled := u32_add (r_faults_handled r) 1\<rparr>), m)))))"
      using rd ev rb by (simp add: x upd_region_def p4_def)
  qed
qed

end
