(* ===== verification/Fault_Posix.thy ===== *)
theory Fault_Posix
  imports FC_Prelude
begin

text \<open>
  The POSIX side of the fault seam, \<open>fault-posix.c\<close>: installing the SIGSEGV
  handler, re-arming it, and passing on faults that are not the library's.  Other
  handlers of the process are named by numbers; a disposition is what
  \<open>sigaction\<close> stores.
\<close>

section \<open>Definitions\<close>

datatype handler = Segv_handler | Foreign nat

datatype sigaction = Sig_dfl | Sig_ign | Plain handler | Siginfo handler

record sigstate =
  sg_current :: sigaction
  sg_old_action :: sigaction
  sg_once :: bool
  sg_handler_installed :: bool
  sg_chaining :: bool

definition install_handler :: "sigstate \<Rightarrow> sigstate" where
  "install_handler g =
     (let prev = sg_current g;
          g = g\<lparr>sg_current := Siginfo Segv_handler\<rparr>;
          g = (if prev \<noteq> Siginfo Segv_handler then g\<lparr>sg_old_action := prev\<rparr> else g)
      in g\<lparr>sg_handler_installed := True\<rparr>)"

definition fault_arm :: "sigstate \<Rightarrow> sigstate" where
  "fault_arm g = (if sg_once g then g else (install_handler g)\<lparr>sg_once := True\<rparr>)"

definition fault_rearm :: "sigstate \<Rightarrow> sigstate" where
  "fault_rearm g = install_handler g"

definition fault_armed :: "sigstate \<Rightarrow> bool" where
  "fault_armed g = sg_handler_installed g"

text \<open>
  What \<open>segv_handler\<close> does with one fault: it returns to retry the instruction,
  or calls another handler, or puts a disposition in place and returns.  The
  argument says whether \<open>fault_try_resolve\<close> took the fault.
\<close>

datatype outcome = Retry | Call handler | Disposition sigaction

definition segv_handler :: "sigstate \<Rightarrow> bool \<Rightarrow> outcome \<times> sigstate" where
  "segv_handler g resolved =
     (if resolved then (Retry, g)
      else if sg_chaining g then (Disposition Sig_dfl, g\<lparr>sg_current := Sig_dfl\<rparr>)
      else case sg_old_action g of
             Siginfo h \<Rightarrow> (Call h, g\<lparr>sg_chaining := True\<rparr>)
           | Plain h \<Rightarrow> (Call h, g\<lparr>sg_chaining := True\<rparr>)
           | Sig_dfl \<Rightarrow> (Disposition Sig_dfl, g\<lparr>sg_current := Sig_dfl\<rparr>)
           | Sig_ign \<Rightarrow> (Disposition Sig_ign, g\<lparr>sg_current := Sig_ign\<rparr>))"

text \<open>
  A handler that was called returns to \<open>segv_handler\<close>, which then clears
  \<open>g_chaining\<close>.
\<close>

definition segv_return :: "sigstate \<Rightarrow> sigstate" where
  "segv_return g = g\<lparr>sg_chaining := False\<rparr>"

text \<open>
  The chain of one fault: a foreign handler \<open>h\<close> either deals with it or passes it
  on to the handler it saved (\<open>saved h\<close>), which may be the library's again; a
  handler that chains to nothing ends there.  The result is how the fault ends and
  the state once every handler has returned.
\<close>

datatype ending = Resumed | Handled_by nat | Default_action

fun chain :: "nat \<Rightarrow> (nat \<Rightarrow> bool) \<Rightarrow> (nat \<Rightarrow> sigaction) \<Rightarrow> sigstate \<Rightarrow> bool \<Rightarrow> handler \<Rightarrow> (ending \<times> sigstate) option" where
  "chain 0 handles saved g resolved h = None"
| "chain (Suc fuel) handles saved g resolved Segv_handler =
     (case segv_handler g resolved of
        (Retry, g) \<Rightarrow> Some (Resumed, g)
      | (Call h, g) \<Rightarrow> map_option (\<lambda>(e, g). (e, segv_return g)) (chain fuel handles saved g resolved h)
      | (Disposition d, g) \<Rightarrow> Some (Default_action, g))"
| "chain (Suc fuel) handles saved g resolved (Foreign k) =
     (if handles k then Some (Handled_by k, g)
      else case saved k of
             Siginfo h \<Rightarrow> chain fuel handles saved g resolved h
           | Plain h \<Rightarrow> chain fuel handles saved g resolved h
           | _ \<Rightarrow> Some (Default_action, g))"

text \<open>
  What happens to the disposition in the life of a process: arming, re-arming, and \<open>sigaction\<close>
  calls of anybody else, with any disposition at all.  One of them is the library's own handler without
  \<open>SA_SIGINFO\<close>: it is what \<open>signal(SIGSEGV, old)\<close> puts back for an \<open>old\<close> that
  \<open>signal\<close> had returned while the handler was installed.
\<close>

datatype sig_event = Arm | Rearm | Sigaction sigaction

fun sig_act :: "sig_event \<Rightarrow> sigstate \<Rightarrow> sigstate" where
  "sig_act Arm g = fault_arm g"
| "sig_act Rearm g = fault_rearm g"
| "sig_act (Sigaction d) g = g\<lparr>sg_current := d\<rparr>"

definition sig_start :: "sigaction \<Rightarrow> sigstate" where
  "sig_start d = \<lparr>sg_current = d, sg_old_action = Sig_dfl, sg_once = False, sg_handler_installed = False, sg_chaining = False\<rparr>"

definition sig_run :: "sig_event list \<Rightarrow> sigaction \<Rightarrow> sigstate" where
  "sig_run es d = fold sig_act es (sig_start d)"

section \<open>The chain target\<close>

definition sig_inv :: "sigstate \<Rightarrow> bool" where
  "sig_inv g \<longleftrightarrow> sg_old_action g \<noteq> Siginfo Segv_handler"

lemma install_handler_fields [simp]:
  "sg_current (install_handler g) = Siginfo Segv_handler"
  "sg_old_action (install_handler g) = (if sg_current g = Siginfo Segv_handler then sg_old_action g else sg_current g)"
  by (simp_all add: install_handler_def Let_def)

text \<open>The dispositions that other parties have put in place; the library's own action is the only other one.\<close>

definition others :: "sigaction \<Rightarrow> sig_event list \<Rightarrow> sigaction set" where
  "others d es = insert d {x. Sigaction x \<in> set es}"

lemma sig_run_target:
  "sg_current (sig_run es d) \<in> insert (Siginfo Segv_handler) (others d es) \<and>
   sg_old_action (sig_run es d) \<in> insert Sig_dfl (others d es) - {Siginfo Segv_handler}"
proof (induction es rule: rev_induct)
  case Nil
  then show ?case by (simp add: sig_run_def sig_start_def others_def)
next
  case (snoc e es)
  then show ?case by (cases e) (auto simp: sig_run_def others_def fault_arm_def fault_rearm_def)
qed

text \<open>Once the handler is in place, arming, re-arming and putting it back change neither it nor the chain target.\<close>

lemma sig_run_settled:
  assumes "set ts \<subseteq> {Arm, Rearm, Sigaction (Siginfo Segv_handler)}" "sg_current g = Siginfo Segv_handler"
  shows "sg_current (fold sig_act ts g) = Siginfo Segv_handler \<and> sg_old_action (fold sig_act ts g) = sg_old_action g"
  using assms by (induction ts arbitrary: g) (auto simp: fault_arm_def fault_rearm_def)

text \<open>A fault the library did not take is never retried by its own handler.\<close>

lemma segv_not_ours: "\<exists>out g'. segv_handler g False = (out, g') \<and> out \<noteq> Retry"
  by (auto simp: segv_handler_def split: sigaction.split)

lemma armed_once:
  "fault_arm (fault_arm g) = fault_arm g"
  by (simp add: fault_arm_def)

text \<open>A path of handlers, none of which takes the fault, each having saved the next.\<close>

fun passes_on :: "(nat \<Rightarrow> bool) \<Rightarrow> (nat \<Rightarrow> sigaction) \<Rightarrow> nat list \<Rightarrow> sigaction \<Rightarrow> bool" where
  "passes_on handles saved [] d \<longleftrightarrow> True"
| "passes_on handles saved (k # ks) d \<longleftrightarrow> \<not> handles k \<and>
     saved k = (case ks of [] \<Rightarrow> d | k' # _ \<Rightarrow> Siginfo (Foreign k')) \<and> passes_on handles saved ks d"

lemma chain_path:
  assumes "passes_on handles saved (k # ks) (Siginfo Segv_handler)"
  shows "chain (Suc (length ks) + n) handles saved g resolved (Foreign k) = chain n handles saved g resolved Segv_handler"
  using assms
proof (induction ks arbitrary: k)
  case Nil
  then show ?case by simp
next
  case (Cons k' ks)
  then show ?case using Cons.IH [of k'] by simp
qed

text \<open>
  A chain target that is the library's own handler: a fault it did not take is passed to itself, which
  \<open>g_chaining\<close> ends with the default action; no other handler gets it.
\<close>

lemma chain_own_target:
  assumes "sg_old_action g = Plain Segv_handler" "\<not> sg_chaining g"
  shows "chain 2 handles saved g False Segv_handler = Some (Default_action, g\<lparr>sg_current := Sig_dfl\<rparr>)"
  using assms by (simp add: segv_handler_def segv_return_def numeral_2_eq_2)

section \<open>The contract of \<open>fault.h\<close>\<close>

text \<open>
  Arming succeeds and is idempotent; re-arming is allowed once armed and keeps the process armed.  Both
  platforms implement it; the Windows one is in theory \<open>Fault_Win32\<close>.
\<close>

locale fault_seam =
  fixes arm :: "'s \<Rightarrow> 's res" and rearm :: "'s \<Rightarrow> 's res" and armed :: "'s \<Rightarrow> bool" and valid :: "'s \<Rightarrow> bool"
  assumes arm_law: "valid s \<Longrightarrow> \<exists>s'. arm s = Inr s' \<and> valid s' \<and> armed s'"
    and arm_again: "valid s \<Longrightarrow> armed s \<Longrightarrow> arm s = Inr s"
    and rearm_law: "valid s \<Longrightarrow> armed s \<Longrightarrow> \<exists>s'. rearm s = Inr s' \<and> valid s' \<and> armed s'"
begin

lemma rearms_ok: "valid s \<Longrightarrow> armed s \<Longrightarrow> \<exists>s'. iterate_res rearm n s = Inr s' \<and> valid s' \<and> armed s'"
proof (induction n arbitrary: s)
  case (Suc n)
  obtain s1 where "rearm s = Inr s1" "valid s1" "armed s1" using rearm_law [OF Suc.prems] by blast
  then show ?case using Suc.IH [of s1] by simp
qed simp

lemma init_rearms_init:
  assumes "valid s"
  shows "\<exists>s'. res_bind (arm s) (iterate_res rearm n) = Inr s' \<and> valid s' \<and> armed s' \<and> arm s' = Inr s'"
proof -
  obtain s1 where s1: "arm s = Inr s1" "valid s1" "armed s1" using arm_law [OF assms] by blast
  then show ?thesis using rearms_ok [OF s1(2,3), of n] arm_again by auto
qed

end

definition sig_valid :: "sigstate \<Rightarrow> bool" where
  "sig_valid g \<longleftrightarrow> sg_once g = sg_handler_installed g \<and> sig_inv g"

interpretation posix_fault: fault_seam "\<lambda>g. Inr (fault_arm g)" "\<lambda>g. Inr (fault_rearm g)" fault_armed sig_valid
  by unfold_locales (auto simp: sig_valid_def sig_inv_def fault_arm_def fault_rearm_def fault_armed_def install_handler_def Let_def)

end
