(* ===== verification/Process.thy ===== *)
theory Process
  imports Transparency Fault_Posix
begin

text \<open>
  The process: its page tables, the registry of pools, and one thread's view of
  \<open>fault_try_resolve\<close>.  The locks of the source make every resolution atomic, so a
  process is a sequence of these operations; what a thread sees when another one
  resolves the same page first is a property of the sequence.
\<close>

section \<open>Definitions\<close>

text \<open>
  \<open>g_pools\<close> is the chain of \<open>next_pool\<close> pointers from the global \<open>g_pools\<close>;
  the pointers that \<open>malloc\<close> hands out are counters.
\<close>

record proc =
  g_mem :: mem
  g_pools :: "nat list"
  g_pool :: "nat \<Rightarrow> fc_pool"
  g_next_pool :: nat
  g_next_region :: nat
  g_sig :: sigstate
  g_resolving_fault :: bool

text \<open>The walk of \<open>find_region_locked\<close>; \<open>None\<close> would be a walk that never ends.\<close>

partial_function (option) find_region_loop :: "fc_pool \<Rightarrow> addr \<Rightarrow> nat ptr \<Rightarrow> nat option option" where
  "find_region_loop p a r =
     (case r of
        Sentinel \<Rightarrow> Some None
      | Null \<Rightarrow> None
      | Node rid \<Rightarrow>
          if a \<ge> r_base (p_region p rid) \<and> a < size_add (r_base (p_region p rid)) (r_mapped_size (p_region p rid))
          then Some (Some rid) else find_region_loop p a (l_next (p_regions p) (Node rid)))"

definition find_region_locked :: "fc_pool \<Rightarrow> addr \<Rightarrow> nat option option" where
  "find_region_locked p a = find_region_loop p a (l_next (p_regions p) Sentinel)"

fun fault_try_pools :: "os \<Rightarrow> proc \<Rightarrow> nat list \<Rightarrow> addr \<Rightarrow> (bool \<times> proc) res" where
  "fault_try_pools os s [] a = Inr (False, s)"
| "fault_try_pools os s (pid # pids) a =
     (case find_region_locked (g_pool s pid) a of
        None \<Rightarrow> Inl (Diverged ''find_region_locked'')
      | Some None \<Rightarrow> fault_try_pools os s pids a
      | Some (Some rid) \<Rightarrow>
          let r = p_region (g_pool s pid) rid;
              fault_off = a - r_base r
          in if \<not> page_readable r fault_off then
               res_bind (resolve_fault_locked os (g_pool s pid) rid fault_off (g_mem s)) (\<lambda>(p, m).
               Inr (True, s\<lparr>g_pool := (g_pool s)(pid := p), g_mem := m, g_resolving_fault := False\<rparr>))
             else fault_try_pools os s pids a)"

definition fault_try_resolve :: "os \<Rightarrow> proc \<Rightarrow> addr \<Rightarrow> (bool \<times> proc) res" where
  "fault_try_resolve os s a =
     (if g_resolving_fault s then Inl nested_fault else fault_try_pools os s (g_pools s) a)"

text \<open>
  SIGSEGV is delivered to whatever disposition is installed.  The library's handler asks
  \<open>fault_try_resolve\<close> first; any other disposition means that the library is not asked,
  and what another handler then does is not followed here (\<open>chain\<close> of theory
  \<open>Fault_Posix\<close> is about handlers that call each other).  The library's handler
  installed without \<open>SA_SIGINFO\<close> has no \<open>si_addr\<close> to read and counts as such a handler.
\<close>

definition deliver_segv :: "os \<Rightarrow> proc \<Rightarrow> addr \<Rightarrow> (outcome \<times> proc) res" where
  "deliver_segv os s a =
     (case sg_current (g_sig s) of
        Siginfo Segv_handler \<Rightarrow>
          res_bind (fault_try_resolve os s a) (\<lambda>(ours, s).
          case segv_handler (g_sig s) ours of (out, g) \<Rightarrow> Inr (out, s\<lparr>g_sig := g\<rparr>))
      | Siginfo h \<Rightarrow> Inr (Call h, s)
      | Plain h \<Rightarrow> Inr (Call h, s)
      | d \<Rightarrow> Inr (Disposition d, s))"

text \<open>
  A load instruction: a fault that the library resolved retries the instruction, any
  other one ends the access here.
\<close>

fun cpu_load :: "nat \<Rightarrow> os \<Rightarrow> proc \<Rightarrow> addr \<Rightarrow> (byte \<times> proc) res" where
  "cpu_load 0 os s a = Inl (Diverged ''load'')"
| "cpu_load (Suc fuel) os s a =
     (case mem_load (g_mem s) a of
        Some b \<Rightarrow> Inr (b, s)
      | None \<Rightarrow> res_bind (deliver_segv os s a) (\<lambda>(out, s).
          if out = Retry then cpu_load fuel os s a else Inl (Segv a)))"

section \<open>The invariant of the process\<close>

abbreviation pool_foot :: "fc_pool \<Rightarrow> nat set \<Rightarrow> addr set" where
  "pool_foot p rids \<equiv> pool_range p rids \<union> pool_staging p rids"

text \<open>\<open>RL\<close> gives the regions of each pool in list order.\<close>

definition proc_inv :: "os \<Rightarrow> proc \<Rightarrow> (nat \<Rightarrow> nat list) \<Rightarrow> bool" where
  "proc_inv os s RL \<longleftrightarrow> 0 < os_page_size os \<and> \<not> g_resolving_fault s \<and> distinct (g_pools s) \<and>
     (\<forall>pid\<in>set (g_pools s). pid < g_next_pool s \<and> dlist (p_regions (g_pool s pid)) (RL pid) \<and>
        (\<forall>rid\<in>set (RL pid). rid < g_next_region s) \<and>
        (\<exists>hs cs. pool_ok os (g_pool s pid) (g_mem s) (set (RL pid)) hs cs)) \<and>
     (\<forall>pid\<in>set (g_pools s). \<forall>pid'\<in>set (g_pools s). pid \<noteq> pid' \<longrightarrow>
        pool_foot (g_pool s pid) (set (RL pid)) \<inter> pool_foot (g_pool s pid') (set (RL pid')) = {})"

lemma pool_foot_footprint: "pool_foot p rids = (\<Union>rid\<in>rids. footprint (p_region p rid))"
  by (auto simp: pool_range_def pool_staging_def footprint_def)

lemma pool_foot_mapped:
  assumes "pool_ok os p m rids hs cs" "x \<in> pool_foot p rids"
  shows "m x \<noteq> None"
proof -
  obtain rid where "rid \<in> rids" "x \<in> footprint (p_region p rid)" using assms(2) unfolding pool_foot_footprint by blast
  moreover from this have "region_inv os (p_region p rid) m" using assms(1) by (simp add: pool_ok_def pool_mem_def)
  ultimately show ?thesis using region_footprint_mapped by blast
qed

lemma pool_ok_mem:
  assumes ok: "pool_ok os p m rids hs cs" and mem: "\<And>x. x \<in> pool_foot p rids \<Longrightarrow> m' x = m x"
  shows "pool_ok os p m' rids hs cs"
proof -
  have "region_inv os (p_region p rid) m'" if rid: "rid \<in> rids" for rid
  proof (rule region_inv_mem)
    show "region_inv os (p_region p rid) m" using ok rid by (simp add: pool_ok_def pool_mem_def)
    show "m' x = m x" if "x \<in> footprint (p_region p rid)" for x using mem that rid unfolding pool_foot_footprint by blast
  qed
  then show ?thesis using ok by (simp add: pool_ok_def pool_mem_def)
qed

text \<open>A step inside one pool leaves the other pools alone.\<close>

lemma proc_pool_step:
  assumes inv: "proc_inv os s RL" and pid: "pid \<in> set (g_pools s)" and ok': "pool_ok os p' m' (set (RL pid)) hs' cs'"
    and step: "pool_step (set (RL pid)) (g_pool s pid) (g_mem s) p' m'"
  shows "proc_inv os (s\<lparr>g_pool := (g_pool s)(pid := p'), g_mem := m', g_resolving_fault := False\<rparr>) RL"
proof -
  let ?R = "\<lambda>q. set (RL q)" and ?m = "g_mem s" and ?p = "g_pool s pid"
  have fr: "vm_frame (pool_range ?p (?R pid)) ?m (pool_staging ?p (?R pid)) m' (pool_staging p' (?R pid))"
    and st: "pool_static ?p p'" and same: "same_pool ?p p'" using step by (auto simp: pool_step_def)
  have apart: "pool_foot (g_pool s q) (?R q) \<inter> pool_foot ?p (?R pid) = {}" if "q \<in> set (g_pools s)" "q \<noteq> pid" for q
    using inv that pid by (simp add: proc_inv_def)
  have okq: "\<exists>hs cs. pool_ok os (g_pool s q) ?m (?R q) hs cs" if "q \<in> set (g_pools s)" for q
    using inv that by (simp add: proc_inv_def)
  have mapped: "?m x \<noteq> None" if "q \<in> set (g_pools s)" "x \<in> pool_foot (g_pool s q) (?R q)" for q x
    using okq [OF that(1)] pool_foot_mapped that(2) by blast
  have other: "\<exists>hs cs. pool_ok os (g_pool s q) m' (?R q) hs cs" if q: "q \<in> set (g_pools s)" "q \<noteq> pid" for q
  proof -
    have "m' x = ?m x" if "x \<in> pool_foot (g_pool s q) (?R q)" for x
      using vm_frame_same [OF fr _ _ mapped [OF q(1) that]] apart [OF q] that by blast
    then show ?thesis using okq [OF q(1)] pool_ok_mem by blast
  qed
  have new: "pool_foot (g_pool s q) (?R q) \<inter> pool_foot p' (?R pid) = {}" if q: "q \<in> set (g_pools s)" "q \<noteq> pid" for q
  proof -
    have "x \<notin> pool_foot (g_pool s q) (?R q)" if "x \<in> pool_staging p' (?R pid)" "x \<notin> pool_staging ?p (?R pid)" for x
    proof
      assume "x \<in> pool_foot (g_pool s q) (?R q)"
      moreover have "?m x = None" using fr that by (simp add: vm_frame_def)
      ultimately show False using mapped [OF q(1)] by blast
    qed
    then show ?thesis using apart [OF q] unfolding pool_range_cong [OF st] by blast
  qed
  show ?thesis
    unfolding proc_inv_def
  proof (intro conjI ballI impI)
    fix q assume q: "q \<in> set (g_pools (s\<lparr>g_pool := (g_pool s)(pid := p'), g_mem := m', g_resolving_fault := False\<rparr>))"
    then show "\<exists>hs cs. pool_ok os (g_pool (s\<lparr>g_pool := (g_pool s)(pid := p'), g_mem := m', g_resolving_fault := False\<rparr>) q)
        (g_mem (s\<lparr>g_pool := (g_pool s)(pid := p'), g_mem := m', g_resolving_fault := False\<rparr>)) (?R q) hs cs"
      using ok' other [of q] by (cases "q = pid") auto
    fix q' assume q': "q' \<in> set (g_pools (s\<lparr>g_pool := (g_pool s)(pid := p'), g_mem := m', g_resolving_fault := False\<rparr>))" "q \<noteq> q'"
    show "pool_foot (g_pool (s\<lparr>g_pool := (g_pool s)(pid := p'), g_mem := m', g_resolving_fault := False\<rparr>) q) (?R q) \<inter>
        pool_foot (g_pool (s\<lparr>g_pool := (g_pool s)(pid := p'), g_mem := m', g_resolving_fault := False\<rparr>) q') (?R q') = {}"
      using new [of q] new [of q'] inv q q' by (cases "q = pid"; cases "q' = pid") (auto simp: proc_inv_def)
  qed (use inv same in \<open>auto simp: proc_inv_def\<close>)
qed

section \<open>Finding the region of an address\<close>

lemma find_region_walk:
  assumes "dseg (p_regions p) x rl Sentinel"
    "\<forall>rid\<in>set rl. r_base (p_region p rid) + r_mapped_size (p_region p rid) < SIZE_RANGE"
  shows "find_region_loop p a (l_next (p_regions p) x) = Some (find (\<lambda>rid. a \<in> region_range (p_region p rid)) rl)"
  using assms
proof (induction rl arbitrary: x)
  case Nil
  then show ?case by (simp add: find_region_loop.simps)
next
  case (Cons rid rl)
  then have "find_region_loop p a (l_next (p_regions p) (Node rid)) = Some (find (\<lambda>rid. a \<in> region_range (p_region p rid)) rl)" by simp
  then show ?case using Cons.prems by (subst find_region_loop.simps) (simp add: region_range_def)
qed

lemma find_region_locked_eq:
  "dlist (p_regions p) rl \<Longrightarrow> \<forall>rid\<in>set rl. r_base (p_region p rid) + r_mapped_size (p_region p rid) < SIZE_RANGE \<Longrightarrow>
    find_region_locked p a = Some (find (\<lambda>rid. a \<in> region_range (p_region p rid)) rl)"
  by (simp add: find_region_locked_def dlist_def find_region_walk)

text \<open>Whatever the sizes, the walk ends, and what it finds is in the list and holds the address.\<close>

lemma find_region_walk_ends:
  assumes "dseg (p_regions p) x rl Sentinel"
  shows "\<exists>f. find_region_loop p a (l_next (p_regions p) x) = Some f \<and> (\<forall>rid. f = Some rid \<longrightarrow> rid \<in> set rl \<and> a \<in> region_range (p_region p rid))"
  using assms
proof (induction rl arbitrary: x)
  case Nil
  then show ?case by (simp add: find_region_loop.simps)
next
  case (Cons rid rl)
  then obtain f where f: "find_region_loop p a (l_next (p_regions p) (Node rid)) = Some f"
    "\<forall>rid. f = Some rid \<longrightarrow> rid \<in> set rl \<and> a \<in> region_range (p_region p rid)" by auto
  have "size_add (r_base (p_region p rid)) (r_mapped_size (p_region p rid)) \<le> r_base (p_region p rid) + r_mapped_size (p_region p rid)"
    by (simp add: size_add_def)
  then show ?case using Cons.prems f by (subst find_region_loop.simps) (auto simp: region_range_def)
qed

lemma find_region_locked_ends:
  "dlist (p_regions p) rl \<Longrightarrow>
    \<exists>f. find_region_locked p a = Some f \<and> (\<forall>rid. f = Some rid \<longrightarrow> rid \<in> set rl \<and> a \<in> region_range (p_region p rid))"
  by (simp add: find_region_locked_def dlist_def find_region_walk_ends)

lemma pool_region_bound:
  "pool_ok os p m rids hs cs \<Longrightarrow> \<forall>rid\<in>rids. r_base (p_region p rid) + r_mapped_size (p_region p rid) < SIZE_RANGE"
  by (auto simp: pool_ok_def pool_mem_def region_inv_def region_wf_def)

lemma find_unique:
  assumes "x \<in> set xs" "P x" "\<And>y. y \<in> set xs \<Longrightarrow> P y \<Longrightarrow> y = x"
  shows "find P xs = Some x"
proof (cases "find P xs")
  case None
  then show ?thesis using assms(1,2) by (auto simp: find_None_iff)
next
  case (Some y)
  then show ?thesis using assms(3) [of y] by (auto simp: find_Some_iff)
qed

lemma find_region_own:
  assumes ok: "pool_ok os p m (set rl) hs cs" and dl: "dlist (p_regions p) rl" and rid: "rid \<in> set rl" and a: "a \<in> region_range (p_region p rid)"
  shows "find_region_locked p a = Some (Some rid)"
proof -
  have "rid' = rid" if "rid' \<in> set rl" "a \<in> region_range (p_region p rid')" for rid'
    using ok that rid a by (auto simp: pool_ok_def pool_mem_def footprint_def)
  then show ?thesis using find_region_locked_eq [OF dl pool_region_bound [OF ok]] find_unique [OF rid, of "\<lambda>rid. a \<in> region_range (p_region p rid)"] a by simp
qed

lemma find_region_none:
  assumes dl: "dlist (p_regions p) rl" and a: "a \<notin> pool_range p (set rl)"
  shows "find_region_locked p a = Some None"
  using find_region_locked_ends [OF dl, of a] a unfolding pool_range_def by (metis UN_I not_None_eq)

section \<open>Faults\<close>

definition live :: "proc \<Rightarrow> (nat \<Rightarrow> nat list) \<Rightarrow> nat \<Rightarrow> nat \<Rightarrow> bool" where
  "live s RL pid rid \<longleftrightarrow> pid \<in> set (g_pools s) \<and> rid \<in> set (RL pid)"

abbreviation region_of :: "proc \<Rightarrow> nat \<Rightarrow> nat \<Rightarrow> fc_region" where
  "region_of s pid rid \<equiv> p_region (g_pool s pid) rid"

lemma live_region:
  assumes inv: "proc_inv os s RL" and lv: "live s RL pid rid"
  shows "region_inv os (region_of s pid rid) (g_mem s)" "dlist (p_regions (g_pool s pid)) (RL pid)"
    "\<exists>hs cs. pool_ok os (g_pool s pid) (g_mem s) (set (RL pid)) hs cs"
proof -
  show ok: "\<exists>hs cs. pool_ok os (g_pool s pid) (g_mem s) (set (RL pid)) hs cs" and "dlist (p_regions (g_pool s pid)) (RL pid)"
    using assms by (simp_all add: proc_inv_def live_def)
  then show "region_inv os (region_of s pid rid) (g_mem s)" using lv by (auto simp: pool_ok_def pool_mem_def live_def)
qed

lemma other_pool_none:
  assumes inv: "proc_inv os s RL" and lv: "live s RL pid rid" and a: "a \<in> region_range (region_of s pid rid)"
    and q: "q \<in> set (g_pools s)" "q \<noteq> pid"
  shows "find_region_locked (g_pool s q) a = Some None"
proof (rule find_region_none)
  show "dlist (p_regions (g_pool s q)) (RL q)" using inv q by (simp add: proc_inv_def)
  have "a \<in> pool_range (g_pool s pid) (set (RL pid))" using a lv by (auto simp: pool_range_def live_def)
  moreover have "pool_foot (g_pool s q) (set (RL q)) \<inter> pool_foot (g_pool s pid) (set (RL pid)) = {}"
    using inv lv q by (simp add: proc_inv_def live_def)
  ultimately show "a \<notin> pool_range (g_pool s q) (set (RL q))" by blast
qed

text \<open>The scan over the pools reaches the region of the address and only that one.\<close>

lemma fault_try_pools_own:
  assumes inv: "proc_inv os s RL" and lv: "live s RL pid rid" and a: "a \<in> region_range (region_of s pid rid)"
    and nr: "\<not> page_readable (region_of s pid rid) (a - r_base (region_of s pid rid))"
  shows "pid \<in> set pids \<Longrightarrow> set pids \<subseteq> set (g_pools s) \<Longrightarrow>
    fault_try_pools os s pids a =
      res_bind (resolve_fault_locked os (g_pool s pid) rid (a - r_base (region_of s pid rid)) (g_mem s)) (\<lambda>(p, m).
        Inr (True, s\<lparr>g_pool := (g_pool s)(pid := p), g_mem := m, g_resolving_fault := False\<rparr>))"
proof (induction pids)
  case (Cons q pids)
  obtain hs cs where ok: "pool_ok os (g_pool s pid) (g_mem s) (set (RL pid)) hs cs" using live_region(3) [OF inv lv] by blast
  have own: "find_region_locked (g_pool s pid) a = Some (Some rid)"
    using find_region_own [OF ok live_region(2) [OF inv lv] _ a] lv by (simp add: live_def)
  show ?case
    using Cons own nr other_pool_none [OF inv lv a, of q] by (cases "q = pid") (simp_all add: Let_def fun_upd_def)
qed simp

lemma fault_try_pools_readable:
  assumes inv: "proc_inv os s RL" and lv: "live s RL pid rid" and a: "a \<in> region_range (region_of s pid rid)"
    and rd: "page_readable (region_of s pid rid) (a - r_base (region_of s pid rid))"
  shows "set pids \<subseteq> set (g_pools s) \<Longrightarrow> fault_try_pools os s pids a = Inr (False, s)"
proof (induction pids)
  case (Cons q pids)
  obtain hs cs where ok: "pool_ok os (g_pool s pid) (g_mem s) (set (RL pid)) hs cs" using live_region(3) [OF inv lv] by blast
  have own: "find_region_locked (g_pool s pid) a = Some (Some rid)"
    using find_region_own [OF ok live_region(2) [OF inv lv] _ a] lv by (simp add: live_def)
  show ?case
    using Cons own rd other_pool_none [OF inv lv a, of q] by (cases "q = pid") (simp_all add: Let_def)
qed simp

lemma fault_try_pools_foreign:
  assumes inv: "proc_inv os s RL" and a: "\<And>pid rid. live s RL pid rid \<Longrightarrow> a \<notin> region_range (region_of s pid rid)"
  shows "set pids \<subseteq> set (g_pools s) \<Longrightarrow> fault_try_pools os s pids a = Inr (False, s)"
proof (induction pids)
  case (Cons q pids)
  have "find_region_locked (g_pool s q) a = Some None"
    by (rule find_region_none [of _ "RL q"]) (use inv a Cons.prems in \<open>auto simp: proc_inv_def pool_range_def live_def\<close>)
  then show ?case using Cons by simp
qed simp

text \<open>What a fault leaves alone: the creation-time part of every region, and the signal state.\<close>

definition same_static :: "proc \<Rightarrow> proc \<Rightarrow> bool" where
  "same_static s s' \<longleftrightarrow> g_sig s' = g_sig s \<and> (\<forall>pid rid. static (region_of s' pid rid) = static (region_of s pid rid))"

lemma same_staticD: "same_static s s' \<Longrightarrow> static (region_of s' pid rid) = static (region_of s pid rid)"
  by (simp add: same_static_def)

text \<open>
  The addresses that the library uses, and a memory \<open>m0\<close> that the process would have without it: the
  library's addresses are free in \<open>m0\<close>, and all others are as they are.
\<close>

definition lib_foot :: "proc \<Rightarrow> (nat \<Rightarrow> nat list) \<Rightarrow> addr set" where
  "lib_foot s RL = (\<Union>pid\<in>set (g_pools s). pool_foot (g_pool s pid) (set (RL pid)))"

definition borrowed :: "mem \<Rightarrow> proc \<Rightarrow> (nat \<Rightarrow> nat list) \<Rightarrow> bool" where
  "borrowed m0 s RL \<longleftrightarrow> (\<forall>x. if x \<in> lib_foot s RL then m0 x = None else g_mem s x = m0 x)"

lemma borrowed_pool_step:
  assumes bor: "borrowed m0 s RL" and pid: "pid \<in> set (g_pools s)" and step: "pool_step (set (RL pid)) (g_pool s pid) (g_mem s) p' m'"
  shows "borrowed m0 (s\<lparr>g_pool := (g_pool s)(pid := p'), g_mem := m', g_resolving_fault := False\<rparr>) RL" (is "borrowed m0 ?s RL")
proof -
  let ?R = "set (RL pid)" and ?F = "\<Union>q\<in>set (g_pools s) - {pid}. pool_foot (g_pool s q) (set (RL q))"
  have rng: "pool_range p' ?R = pool_range (g_pool s pid) ?R" using step by (simp add: pool_step_def pool_range_cong)
  have fr: "vm_frame (pool_range p' ?R) (g_mem s) (pool_staging (g_pool s pid) ?R) m' (pool_staging p' ?R)"
    using step by (simp add: pool_step_def rng)
  have old: "lib_foot s RL = ?F \<union> (pool_range p' ?R \<union> pool_staging (g_pool s pid) ?R)" using pid rng by (auto simp: lib_foot_def)
  have new: "lib_foot ?s RL = ?F \<union> (pool_range p' ?R \<union> pool_staging p' ?R)" using pid by (auto simp: lib_foot_def split: if_splits)
  show ?thesis unfolding borrowed_def
  proof
    fix x
    have "if x \<in> lib_foot s RL then m0 x = None else g_mem s x = m0 x" using bor by (simp add: borrowed_def)
    then show "if x \<in> lib_foot ?s RL then m0 x = None else g_mem ?s x = m0 x"
      using fr unfolding vm_frame_def old new by (cases "x \<in> ?F"; cases "x \<in> pool_range p' ?R") (auto split: if_splits)
  qed
qed

text \<open>What a fault in a live region keeps.\<close>

definition kept :: "os \<Rightarrow> proc \<Rightarrow> (nat \<Rightarrow> nat list) \<Rightarrow> proc \<Rightarrow> bool" where
  "kept os s RL s' \<longleftrightarrow> proc_inv os s' RL \<and> g_pools s' = g_pools s \<and> same_static s s' \<and> (\<forall>m0. borrowed m0 s RL \<longrightarrow> borrowed m0 s' RL)"

lemma kept_refl: "proc_inv os s RL \<Longrightarrow> kept os s RL s"
  by (simp add: kept_def same_static_def)

lemma kept_trans: "kept os s RL s' \<Longrightarrow> kept os s' RL s'' \<Longrightarrow> kept os s RL s''"
  by (simp add: kept_def same_static_def)

lemma keptD:
  assumes "kept os s RL s'"
  shows "proc_inv os s' RL" "live s' RL pid rid = live s RL pid rid" "static (region_of s' pid rid) = static (region_of s pid rid)"
    "g_pools s' = g_pools s" "same_static s s'" "g_sig s' = g_sig s" "borrowed m0 s RL \<Longrightarrow> borrowed m0 s' RL"
  using assms by (simp_all add: kept_def live_def same_static_def)

lemma fault_resolved_kept:
  assumes inv: "proc_inv os s RL" and lv: "live s RL pid rid" and off: "off < r_mapped_size (region_of s pid rid)"
    and nr: "\<not> page_readable (region_of s pid rid) off"
  shows "res_ok (fill_error_of (region_of s pid rid)) (\<lambda>(ours, s'). ours \<and> kept os s RL s' \<and> page_readable (region_of s' pid rid) off)
    (fault_try_resolve os s (r_base (region_of s pid rid) + off))"
proof -
  let ?r = "region_of s pid rid" let ?a = "r_base ?r + off"
  have a: "?a \<in> region_range ?r" using off by (simp add: region_range_def)
  have eo: "?a - r_base ?r = off" by simp
  have pid: "pid \<in> set (g_pools s)" and rid: "rid \<in> set (RL pid)" using lv by (simp_all add: live_def)
  have eq: "fault_try_resolve os s ?a = res_bind (resolve_fault_locked os (g_pool s pid) rid off (g_mem s)) (\<lambda>(p, m).
        Inr (True, s\<lparr>g_pool := (g_pool s)(pid := p), g_mem := m, g_resolving_fault := False\<rparr>))"
    using fault_try_pools_own [OF inv lv a, unfolded eo, OF nr pid order_refl] inv by (simp add: fault_try_resolve_def proc_inv_def)
  obtain hs cs where ok: "pool_ok os (g_pool s pid) (g_mem s) (set (RL pid)) hs cs" using live_region(3) [OF inv lv] by blast
  have ps: "0 < r_page_size ?r" using live_region(1) [OF inv lv] region_wfD(5) by (auto simp: region_inv_def)
  let ?page = "page_floor off (r_page_size ?r)"
  show ?thesis unfolding eq
  proof (rule res_ok_bind2 [OF resolve_fault_locked_ok [OF ok rid nr]])
    fix p' m' assume post: "resolve_post os (g_pool s pid) (g_mem s) (set (RL pid)) hs cs rid ?page (p', m')"
    then obtain hs' cs' where ok': "pool_ok os p' m' (set (RL pid)) hs' cs'" and step: "pool_step (set (RL pid)) (g_pool s pid) (g_mem s) p' m'"
      and rd: "page_readable (p_region p' rid) ?page"
      by (auto simp: resolve_post_def split: prod.splits)
    have st: "static (p_region p' rid) = static ?r" using step by (simp add: pool_step_def pool_static_def)
    have "page_readable (p_region p' rid) off"
      using rd page_readable_page [of "p_region p' rid" off] ps by (simp add: static_fields [OF st])
    then show "res_ok (fill_error_of (region_of s pid rid)) (\<lambda>(ours, s'). ours \<and> kept os s RL s' \<and> page_readable (region_of s' pid rid) off)
      (Inr (True, s\<lparr>g_pool := (g_pool s)(pid := p'), g_mem := m', g_resolving_fault := False\<rparr>))"
      using proc_pool_step [OF inv pid ok' step] borrowed_pool_step [where s = s and RL = RL, OF _ pid step] step
      by (simp add: kept_def same_static_def pool_step_def pool_static_def)
  qed
qed

lemma fault_resolved:
  assumes "proc_inv os s RL" "live s RL pid rid" "off < r_mapped_size (region_of s pid rid)" "\<not> page_readable (region_of s pid rid) off"
  shows "res_ok fill_error (\<lambda>(ours, s'). ours \<and> proc_inv os s' RL \<and> g_pools s' = g_pools s \<and>
      same_static s s' \<and> page_readable (region_of s' pid rid) off)
    (fault_try_resolve os s (r_base (region_of s pid rid) + off))"
  by (rule res_ok_weaken [OF res_ok_mono2 [OF fault_resolved_kept [OF assms]]]) (auto simp: kept_def)

lemma fault_try_pools_sig: "fault_try_pools os s pids a = Inr (ours, s') \<Longrightarrow> g_sig s' = g_sig s"
  by (induction pids) (auto simp: Let_def res_bind_def split: option.splits if_splits sum.splits prod.splits)

lemma fault_try_resolve_sig: "fault_try_resolve os s a = Inr (ours, s') \<Longrightarrow> g_sig s' = g_sig s"
  using fault_try_pools_sig by (auto simp: fault_try_resolve_def split: if_splits)

text \<open>While the library's handler is the installed one, a load that faults asks \<open>fault_try_resolve\<close>.\<close>

abbreviation handler_current :: "proc \<Rightarrow> bool" where
  "handler_current s \<equiv> sg_current (g_sig s) = Siginfo Segv_handler"

lemma deliver_segv_other: "\<not> handler_current s \<Longrightarrow> \<exists>out. deliver_segv os s a = Inr (out, s) \<and> out \<noteq> Retry"
  by (auto simp: deliver_segv_def split: sigaction.split handler.split)

lemma cpu_load_fault:
  assumes "mem_load (g_mem s) a = None" "handler_current s"
  shows "cpu_load (Suc fuel) os s a = res_bind (fault_try_resolve os s a) (\<lambda>(ours, s).
    if ours then cpu_load fuel os s a else Inl (Segv a))"
proof (cases "fault_try_resolve os s a")
  case (Inr r)
  obtain ours s' where r: "r = (ours, s')" by (cases r)
  show ?thesis
    using assms Inr r by (cases ours) (auto simp: deliver_segv_def segv_handler_def split: sigaction.split)
qed (use assms in \<open>simp add: deliver_segv_def\<close>)

text \<open>Loads from a live region return the derived content, whatever state it is in.\<close>

lemma cpu_load_content:
  assumes inv: "proc_inv os s RL" and cur: "handler_current s" and lv: "live s RL pid rid" and off: "off < r_mapped_size (region_of s pid rid)"
  shows "res_ok (fill_error_of (region_of s pid rid)) (\<lambda>(b, s'). b = content (region_of s pid rid) off \<and> kept os s RL s')
    (cpu_load (Suc (Suc fuel)) os s (r_base (region_of s pid rid) + off))"
proof -
  let ?r = "region_of s pid rid" let ?a = "r_base ?r + off"
  note load = region_load [OF live_region(1) [OF inv lv] off]
  show ?thesis
  proof (cases "page_readable ?r off")
    case True
    then show ?thesis using load kept_refl [OF inv] by simp
  next
    case False
    then have eq: "cpu_load (Suc (Suc fuel)) os s ?a = res_bind (fault_try_resolve os s ?a) (\<lambda>(ours, s).
        if ours then cpu_load (Suc fuel) os s ?a else Inl (Segv ?a))"
      using load cur by (intro cpu_load_fault) simp_all
    show ?thesis unfolding eq
    proof (rule res_ok_bind2 [OF fault_resolved_kept [OF inv lv off False]])
      fix ours s' assume "case (ours, s') of (ours, s') \<Rightarrow> ours \<and> kept os s RL s' \<and> page_readable (region_of s' pid rid) off"
      then have o: "ours" and k: "kept os s RL s'" and rd: "page_readable (region_of s' pid rid) off" by auto
      note K = keptD [OF k]
      have inv': "proc_inv os s' RL" and st: "static (region_of s' pid rid) = static ?r" and lv': "live s' RL pid rid" using K lv by simp_all
      note C = static_congs [OF st]
      have "mem_load (g_mem s') ?a = Some (content ?r off)"
        using region_load [OF live_region(1) [OF inv' lv'], of off] off rd by (simp add: C)
      then show "res_ok (fill_error_of ?r) (\<lambda>(b, s'). b = content ?r off \<and> kept os s RL s')
        (if ours then cpu_load (Suc fuel) os s' ?a else Inl (Segv ?a))" using o k by simp
    qed
  qed
qed

text \<open>A program that reads a list of bytes of live regions, in any order.\<close>

fun cpu_read :: "nat \<Rightarrow> os \<Rightarrow> proc \<Rightarrow> addr list \<Rightarrow> (byte list \<times> proc) res" where
  "cpu_read fuel os s [] = Inr ([], s)"
| "cpu_read fuel os s (a # as) =
     res_bind (cpu_load fuel os s a) (\<lambda>(b, s). res_bind (cpu_read fuel os s as) (\<lambda>(bs, s). Inr (b # bs, s)))"

type_synonym location = "nat \<times> nat \<times> size_t"

definition located :: "proc \<Rightarrow> (nat \<Rightarrow> nat list) \<Rightarrow> location \<Rightarrow> bool" where
  "located s RL l = (case l of (pid, rid, off) \<Rightarrow> live s RL pid rid \<and> off < r_mapped_size (region_of s pid rid))"

definition location_addr :: "proc \<Rightarrow> location \<Rightarrow> addr" where
  "location_addr s l = (case l of (pid, rid, off) \<Rightarrow> r_base (region_of s pid rid) + off)"

definition location_byte :: "proc \<Rightarrow> location \<Rightarrow> byte" where
  "location_byte s l = (case l of (pid, rid, off) \<Rightarrow> content (region_of s pid rid) off)"

lemma located_cong:
  assumes "same_static s s'" "g_pools s' = g_pools s"
  shows "located s' RL = located s RL" "location_addr s' = location_addr s" "location_byte s' = location_byte s"
proof -
  have st: "static (region_of s' pid rid) = static (region_of s pid rid)" for pid rid using assms(1) by (simp add: same_static_def)
  show "located s' RL = located s RL" "location_addr s' = location_addr s" "location_byte s' = location_byte s"
    by (auto simp: fun_eq_iff located_def location_addr_def location_byte_def live_def assms(2)
        static_fields [OF st] content_cong [OF st])
qed

lemma cpu_read_content:
  assumes "proc_inv os s RL" "handler_current s" "\<forall>l\<in>set ls. located s RL l"
  shows "res_ok fill_error (\<lambda>(bs, s'). bs = map (location_byte s) ls \<and> proc_inv os s' RL \<and> g_pools s' = g_pools s \<and> same_static s s')
    (cpu_read (Suc (Suc fuel)) os s (map (location_addr s) ls))"
  using assms
proof (induction ls arbitrary: s)
  case Nil
  then show ?case by (simp add: same_static_def)
next
  case (Cons l ls)
  obtain pid rid off where l: "l = (pid, rid, off)" by (cases l)
  have lv: "live s RL pid rid" and off: "off < r_mapped_size (region_of s pid rid)"
    using Cons.prems(3) by (auto simp: l located_def)
  have addr: "location_addr s l = r_base (region_of s pid rid) + off" by (simp add: l location_addr_def)
  show ?case unfolding list.map cpu_read.simps addr
  proof (rule res_ok_bind2 [OF res_ok_weaken [OF cpu_load_content [OF Cons.prems(1,2) lv off] fill_error_of_weaken(2)]])
    fix b s1 assume "case (b, s1) of (b, s') \<Rightarrow> b = content (region_of s pid rid) off \<and> kept os s RL s'"
    then have b: "b = location_byte s l" and inv: "proc_inv os s1 RL" and gp: "g_pools s1 = g_pools s" and st: "same_static s s1"
      by (auto simp: l location_byte_def kept_def)
    note E = located_cong [OF st gp]
    have IH: "res_ok fill_error (\<lambda>(bs, s'). bs = map (location_byte s) ls \<and> proc_inv os s' RL \<and> g_pools s' = g_pools s1 \<and> same_static s1 s')
      (cpu_read (Suc (Suc fuel)) os s1 (map (location_addr s) ls))"
      using Cons.IH [OF inv] Cons.prems(2,3) st by (simp add: E same_static_def)
    show "res_ok fill_error (\<lambda>(bs, s'). bs = location_byte s l # map (location_byte s) ls \<and> proc_inv os s' RL \<and> g_pools s' = g_pools s \<and> same_static s s')
      (res_bind (cpu_read (Suc (Suc fuel)) os s1 (map (location_addr s) ls)) (\<lambda>(bs, s). Inr (b # bs, s)))"
      by (rule res_ok_bind2 [OF IH]) (use b gp st in \<open>auto simp: same_static_def\<close>)
  qed
qed

end
