(* ===== verification/Api.thy ===== *)
theory Api
  imports Process
begin

text \<open>
  The public API of \<open>faultcache.h\<close> over the process: pools and regions are created
  and destroyed, and the accessors.  Creation establishes the invariants the fault
  path relies on; destruction gives every page back.  Null arguments are \<open>None\<close>;
  a handle is the pair of the region's \<open>pool\<close> field and its own address.
\<close>

section \<open>Definitions\<close>

text \<open>\<open>calloc\<close>ed memory of a region before its fields are set.\<close>

definition zero_region :: fc_region where
  "zero_region = \<lparr>r_base = 0, r_total_size = 0, r_mapped_size = 0, r_page_size = 0, r_nchunks = 0, r_chunk_start = [],
     r_initialized = [], r_shared_pages = [], r_nshared = 0, r_chunk_staged = [], r_lru_resident = [], r_lru_cold = [],
     r_chunk_faults_total = [], r_resident_bytes = 0, r_resident_chunks = 0, r_fault_events_total = 0,
     r_fill_chunk = (\<lambda>_ _. ([], [])), r_chunks_resolved = 0, r_faults_handled = 0\<rparr>"

definition fc_init :: "proc \<Rightarrow> proc" where
  "fc_init s = s\<lparr>g_sig := fault_arm (g_sig s)\<rparr>"

definition fc_rearm_handler :: "proc \<Rightarrow> proc res" where
  "fc_rearm_handler s =
     (if \<not> fault_armed (g_sig s) then Inl (Misuse ''fc_rearm_handler: fc_init() has not been called'')
      else Inr (s\<lparr>g_sig := fault_rearm (g_sig s)\<rparr>))"

text \<open>The flag says whether \<open>malloc\<close> has memory for the pool.\<close>

definition fc_pool_create :: "bool \<Rightarrow> proc \<Rightarrow> size_t \<Rightarrow> nat option \<times> proc" where
  "fc_pool_create malloc_ok s target =
     (if \<not> malloc_ok then (None, s)
      else
        let pid = g_next_pool s;
            p = \<lparr>p_target_size = target, p_resident_bytes = 0, p_lru = links_empty, p_midpoint = Sentinel,
                 p_hot_bytes = 0, p_regions = links_empty, p_region = (\<lambda>_. zero_region)\<rparr>
        in (Some pid, s\<lparr>g_pools := pid # g_pools s, g_pool := (g_pool s)(pid := p), g_next_pool := Suc pid\<rparr>))"

fun discard_staging :: "os \<Rightarrow> size_t \<Rightarrow> shared_page list \<Rightarrow> mem \<Rightarrow> mem res" where
  "discard_staging os page_size [] m = Inr m"
| "discard_staging os page_size (sp # sps) m =
     res_bind (if s_addr (sp_staging sp) \<noteq> 0 then vm_scratch_discard os m (sp_staging sp) 0 page_size else Inr m)
       (discard_staging os page_size sps)"

definition region_free :: "os \<Rightarrow> fc_region \<Rightarrow> mem \<Rightarrow> mem res" where
  "region_free os r m =
     res_bind (vm_release os m (r_base r) (r_mapped_size r))
       (discard_staging os (r_page_size r) (take (r_nshared r) (r_shared_pages r)))"

partial_function (option) pool_free_loop :: "os \<Rightarrow> fc_pool \<Rightarrow> mem \<Rightarrow> mem res option" where
  "pool_free_loop os p m =
     (case l_next (p_regions p) Sentinel of
        Sentinel \<Rightarrow> Some (Inr m)
      | Null \<Rightarrow> Some (Inl (Segv 0))
      | Node rid \<Rightarrow>
          (case region_free os (p_region p rid) m of
             Inl e \<Rightarrow> Some (Inl e)
           | Inr m \<Rightarrow> pool_free_loop os (p\<lparr>p_regions := region_list_remove (p_regions p) rid\<rparr>) m))"

definition fc_pool_destroy :: "os \<Rightarrow> proc \<Rightarrow> nat option \<Rightarrow> proc res" where
  "fc_pool_destroy os s pool =
     (case pool of
        None \<Rightarrow> Inr s
      | Some pid \<Rightarrow>
          let s = s\<lparr>g_pools := remove1 pid (g_pools s)\<rparr> in
          case pool_free_loop os (g_pool s pid) (g_mem s) of
            None \<Rightarrow> Inl (Diverged ''fc_pool_destroy'')
          | Some r \<Rightarrow> res_bind r (\<lambda>m. Inr (s\<lparr>g_mem := m\<rparr>)))"

text \<open>
  \<open>fc_region_create\<close> up to the point where it takes the pool's lock: the checks, the struct and the
  reservation.  \<open>None\<close> is the null result with \<open>errno = EINVAL\<close>.
\<close>

definition region_prepare ::
    "os \<Rightarrow> sigstate \<Rightarrow> mem \<Rightarrow> nat option \<Rightarrow> uint32_t \<Rightarrow> size_t list option \<Rightarrow> fc_fill_chunk_fn option \<Rightarrow> (fc_region option \<times> mem) res" where
  "region_prepare os g m pool nchunks chunk_sizes fill_chunk =
     (case (pool, chunk_sizes, fill_chunk) of
        (Some pid, Some sizes, Some fill) \<Rightarrow>
          if nchunks = 0 then Inl (Misuse ''fc_region_create: invalid arguments'')
          else if \<not> fault_armed g then Inl (Misuse ''fc_region_create: fc_init() has not been called'')
          else if length sizes < nchunks then Inl (Out_of_bounds ''chunk_sizes'')
          else
            let sizes = take nchunks sizes in
            case sum_chunk_sizes 0 sizes of
              None \<Rightarrow> Inr (None, m)
            | Some total_size \<Rightarrow>
                res_bind (fill_chunk_start sizes) (\<lambda>chunk_start.
                let r = zero_region\<lparr>r_chunk_start := chunk_start, r_initialized := replicate nchunks False,
                          r_chunk_staged := replicate nchunks False, r_total_size := total_size, r_nchunks := nchunks,
                          r_page_size := vm_page_size os, r_fill_chunk := fill\<rparr>;
                    r = r\<lparr>r_mapped_size := page_ceil total_size (r_page_size r)\<rparr>
                in res_bind (vm_reserve os m (r_mapped_size r)) (\<lambda>(base, m).
                   res_bind (shared_pages_init (r\<lparr>r_base := base\<rparr>)) (\<lambda>r. Inr (Some (lru_init r), m))))
      | _ \<Rightarrow> Inl (Misuse ''fc_region_create: invalid arguments''))"

text \<open>What it does under the lock.\<close>

definition region_link :: "fc_pool \<Rightarrow> nat \<Rightarrow> fc_region \<Rightarrow> fc_pool" where
  "region_link p rid r = p\<lparr>p_region := (p_region p)(rid := r), p_regions := region_list_insert (p_regions p) rid\<rparr>"

definition fc_region_create ::
    "os \<Rightarrow> proc \<Rightarrow> nat option \<Rightarrow> uint32_t \<Rightarrow> size_t list option \<Rightarrow> fc_fill_chunk_fn option \<Rightarrow> ((nat \<times> nat) option \<times> proc) res" where
  "fc_region_create os s pool nchunks chunk_sizes fill_chunk =
     res_bind (region_prepare os (g_sig s) (g_mem s) pool nchunks chunk_sizes fill_chunk) (\<lambda>(region, m).
     case (pool, region) of
       (Some pid, Some r) \<Rightarrow>
         let rid = g_next_region s
         in Inr (Some (pid, rid), s\<lparr>g_mem := m, g_pool := (g_pool s)(pid := region_link (g_pool s pid) rid r), g_next_region := Suc rid\<rparr>)
     | _ \<Rightarrow> Inr (None, s))"

fun forget_chunks :: "fc_pool \<Rightarrow> nat \<Rightarrow> uint32_t list \<Rightarrow> fc_pool res" where
  "forget_chunks p rid [] = Inr p"
| "forget_chunks p rid (c # cs) = res_bind (lru_forget_chunk p rid c) (\<lambda>p. forget_chunks p rid cs)"

text \<open>What \<open>fc_region_destroy\<close> does under the lock.\<close>

definition region_unlink :: "fc_pool \<Rightarrow> nat \<Rightarrow> fc_pool res" where
  "region_unlink p rid =
     res_bind (forget_chunks p rid [0..<r_nchunks (p_region p rid)]) (\<lambda>p.
     Inr (p\<lparr>p_regions := region_list_remove (p_regions p) rid\<rparr>))"

definition fc_region_destroy :: "os \<Rightarrow> proc \<Rightarrow> (nat \<times> nat) option \<Rightarrow> proc res" where
  "fc_region_destroy os s region =
     (case region of
        None \<Rightarrow> Inl (Misuse ''fc_region_destroy: nullptr region'')
      | Some (pid, rid) \<Rightarrow>
          res_bind (region_unlink (g_pool s pid) rid) (\<lambda>p.
          res_bind (region_free os (p_region p rid) (g_mem s)) (\<lambda>m.
          Inr (s\<lparr>g_pool := (g_pool s)(pid := p), g_mem := m\<rparr>))))"

definition fc_region_base :: "proc \<Rightarrow> (nat \<times> nat) option \<Rightarrow> addr res" where
  "fc_region_base s region =
     (case region of
        None \<Rightarrow> Inl (Misuse ''fc_region_base: nullptr region'')
      | Some (pid, rid) \<Rightarrow> Inr (r_base (p_region (g_pool s pid) rid)))"

definition fc_region_size :: "proc \<Rightarrow> (nat \<times> nat) option \<Rightarrow> size_t res" where
  "fc_region_size s region =
     (case region of
        None \<Rightarrow> Inl (Misuse ''fc_region_size: nullptr region'')
      | Some (pid, rid) \<Rightarrow> Inr (r_total_size (p_region (g_pool s pid) rid)))"

section \<open>Giving memory back\<close>

lemma discard_staging_ok:
  assumes "0 < os_page_size os" "\<forall>sp\<in>set sps. os_page_size os dvd s_addr (sp_staging sp)"
  shows "discard_staging os (os_page_size os) sps m = Inr (\<lambda>x. if \<exists>sp\<in>set sps. s_addr (sp_staging sp) \<noteq> 0 \<and>
    x \<in> {s_addr (sp_staging sp)..<s_addr (sp_staging sp) + os_page_size os} then None else m x)"
  using assms(2)
proof (induction sps arbitrary: m)
  case (Cons sp sps)
  let ?a = "s_addr (sp_staging sp)" and ?n = "os_page_size os"
  have "vm_scratch_discard os m (sp_staging sp) 0 ?n = Inr (mem_set m ?a ?n None)"
    using posix.discard_law [of os "sp_staging sp" 0 ?n m] assms(1) Cons.prems by (simp add: page_range_def vm_page_size_def)
  then show ?case using Cons by (auto simp: fun_eq_iff mem_set_def)
qed simp

lemma region_free_ok:
  assumes inv: "region_inv os r m"
  obtains m' where "region_free os r m = Inr m'" "\<And>x. m' x = (if x \<in> footprint r then None else m x)"
proof -
  have wf: "region_wf os r" using inv by (simp add: region_inv_def)
  note W = region_wfD [OF wf] and D = region_layoutD [OF region_wfD(1) [OF wf]]
  have "page_range (vm_page_size os) (r_base r) (r_mapped_size r)"
    using W(4,5,6) D(8,9,11) by (auto simp: page_range_def vm_page_size_def)
  then have rel: "vm_release os m (r_base r) (r_mapped_size r) = Inr (mem_set m (r_base r) (r_mapped_size r) None)"
    by (rule posix.release_law)
  have al: "\<forall>sp\<in>set (r_shared_pages r). os_page_size os dvd s_addr (sp_staging sp)"
  proof
    fix sp assume "sp \<in> set (r_shared_pages r)"
    then obtain k where "k < r_nshared r" "r_shared_pages r ! k = sp" using W(9) by (auto simp: in_set_conv_nth)
    then show "os_page_size os dvd s_addr (sp_staging sp)"
      using inv W(4) by (cases "s_addr (sp_staging sp) = 0") (auto simp: region_inv_def page_stage_ok_def Let_def)
  qed
  define m' where "m' = (\<lambda>x. if \<exists>sp\<in>set (r_shared_pages r). s_addr (sp_staging sp) \<noteq> 0 \<and>
    x \<in> {s_addr (sp_staging sp)..<s_addr (sp_staging sp) + os_page_size os} then None else mem_set m (r_base r) (r_mapped_size r) None x)"
  have "region_free os r m = Inr m'"
    using rel discard_staging_ok [OF _ al] W(4,5,9) by (simp add: region_free_def m'_def)
  moreover have "m' x = (if x \<in> footprint r then None else m x)" for x
  proof -
    have "(\<exists>sp\<in>set (r_shared_pages r). s_addr (sp_staging sp) \<noteq> 0 \<and> x \<in> {s_addr (sp_staging sp)..<s_addr (sp_staging sp) + os_page_size os}) \<longleftrightarrow>
      x \<in> staging_ranges r"
      unfolding staging_ranges_def staging_range_def Let_def W(4) using W(9) by (fastforce simp: in_set_conv_nth split: if_splits)
    then show ?thesis by (auto simp: m'_def footprint_def region_range_def mem_set_def)
  qed
  ultimately show thesis by (rule that)
qed

section \<open>Creating a region\<close>

lemma fresh_region_inv:
  assumes lay: "region_layout r" and st: "shared_static r" and fc: "fill_contract r"
    and os: "r_page_size r = os_page_size os" "os_page_size os dvd r_base r" "0 < r_base r" "r_base r + r_mapped_size r < SIZE_RANGE"
    and n: "r_nchunks r < UINT32_RANGE"
    and pages: "\<forall>sp\<in>set (r_shared_pages r). sp_staged sp = 0 \<and> sp_staging sp = null_scratch \<and> \<not> sp_mapped sp"
    and flags: "r_initialized r = replicate (r_nchunks r) False" "r_chunk_staged r = replicate (r_nchunks r) False"
      "r_lru_resident r = replicate (r_nchunks r) False" "r_lru_cold r = replicate (r_nchunks r) False"
      "length (r_chunk_faults_total r) = r_nchunks r"
    and mem: "\<And>x. x \<in> region_range r \<Longrightarrow> m x = Some (PROT_NONE, 0)"
  shows "region_inv os r m" "staging_ranges r = {}"
proof -
  have wf: "region_wf os r" using assms by (simp add: region_wf_def)
  have sp: "r_shared_pages r ! k \<in> set (r_shared_pages r)" if "k < r_nshared r" for k
    using that st by (simp add: shared_static_def)
  have none: "staging_range r k = {}" if "k < r_nshared r" for k
    using pages sp [OF that] by (simp add: staging_range_def null_scratch_def)
  then show "staging_ranges r = {}" by (simp add: staging_ranges_def)
  have empty: "staged_set r = {}" using flags(2) by auto
  have "page_stage_ok r m (staged_set r) k" if "k < r_nshared r" for k
    using pages sp [OF that] unfolding empty by (simp add: page_stage_ok_def Let_def null_scratch_def)
  moreover have "shared_cells r m k" if k: "k < r_nshared r" for k
  proof -
    have "m (r_base r + sp_page_off (r_shared_pages r ! k) + i) = Some (PROT_NONE, 0)" if "i < r_page_size r" for i
      using mem shared_page_area(1) [OF wf k that] shared_area_sub by blast
    then show ?thesis using pages sp [OF k] by (simp add: shared_cells_def Let_def)
  qed
  moreover have "excl_cells r m c" if c: "c < r_nchunks r" for c
    using mem exclusive_range(5) [OF wf c] c by (simp add: excl_cells_def flags)
  ultimately show "region_inv os r m"
    using wf none by (simp add: region_inv_def staging_disjoint_def flags)
qed

text \<open>A new region of a pool, in memory and in the queue.\<close>

lemma pool_add_mem:
  assumes mem: "pool_mem os p m' rids" and rid: "rid \<notin> rids" and inv: "region_inv os r m'" and stg: "staging_ranges r = {}"
    and disj: "pool_foot p rids \<inter> region_range r = {}" and p': "p' = p\<lparr>p_region := (p_region p)(rid := r), p_regions := l\<rparr>"
  shows "pool_mem os p' m' (insert rid rids)" "pool_foot p' (insert rid rids) = pool_foot p rids \<union> region_range r"
proof -
  have old: "p_region p' k = p_region p k" if "k \<in> rids" for k using that rid by (auto simp: p')
  have new: "p_region p' rid = r" by (simp add: p')
  have foot: "pool_foot p' rids = pool_foot p rids" using old by (auto simp: pool_foot_footprint)
  have fr: "footprint r = region_range r" using stg by (simp add: footprint_def)
  show "pool_foot p' (insert rid rids) = pool_foot p rids \<union> region_range r"
    using foot fr new unfolding pool_foot_footprint by auto
  have d: "footprint (p_region p k) \<inter> region_range r = {}" if "k \<in> rids" for k
    using disj that unfolding pool_foot_footprint by blast
  show "pool_mem os p' m' (insert rid rids)"
    unfolding pool_mem_def
  proof (intro conjI ballI impI)
    fix k assume k: "k \<in> insert rid rids"
    show "region_inv os (p_region p' k) m'" using inv mem k old [of k] new by (cases "k = rid") (auto simp: pool_mem_def)
    fix k' assume k': "k' \<in> insert rid rids" "k \<noteq> k'"
    show "footprint (p_region p' k) \<inter> footprint (p_region p' k') = {}"
      using d [of k] d [of k'] mem k k' old [of k] old [of k'] new fr
      by (cases "k = rid"; cases "k' = rid") (auto simp: pool_mem_def)
  qed
qed

lemma pool_add_resident:
  assumes lru: "pool_lru os p rids hs cs" and rid: "rid \<notin> rids" and flags: "\<And>c. c < r_nchunks r \<Longrightarrow> \<not> r_lru_resident r ! c"
    and p': "p' = p\<lparr>p_region := (p_region p)(rid := r), p_regions := l\<rparr>"
  shows "set (hs @ cs) = {n \<in> nodes p' (insert rid rids). node_resident p' n}"
proof -
  note L = pool_lruD [OF lru]
  have nodes: "nodes p' (insert rid rids) = nodes p rids \<union> Pair rid ` {..<r_nchunks r}"
    using rid by (auto simp: nodes_def p' split: if_splits)
  have "n \<in> set (hs @ cs) \<longleftrightarrow> n \<in> nodes p' (insert rid rids) \<and> node_resident p' n" for n
  proof (cases "n \<in> nodes p rids")
    case True
    then have "fst n \<noteq> rid" using rid by (auto simp: nodes_def)
    then show ?thesis using True L(4) nodes by (auto simp: p')
  next
    case False
    then have "n \<notin> set (hs @ cs)" using L(8) by blast
    moreover have "\<not> node_resident p' n" if "n \<in> Pair rid ` {..<r_nchunks r}" using that flags by (auto simp: p')
    ultimately show ?thesis using False nodes by blast
  qed
  then show ?thesis by blast
qed

lemma pool_add_lru:
  assumes lru: "pool_lru os p rids hs cs" and rid: "rid \<notin> rids"
    and flags: "\<And>c. c < r_nchunks r \<Longrightarrow> \<not> r_lru_resident r ! c \<and> \<not> r_initialized r ! c" "r_resident_bytes r = 0" "r_resident_chunks r = 0"
    and p': "p' = p\<lparr>p_region := (p_region p)(rid := r), p_regions := l\<rparr>" and ap: "regions_apart os p' (insert rid rids)"
  shows "pool_lru os p' (insert rid rids) hs cs"
proof -
  note L = pool_lruD [OF lru]
  have old: "p_region p' k = p_region p k" if "k \<in> rids" for k using that rid by (auto simp: p')
  have new: "p_region p' rid = r" by (simp add: p')
  have size: "lru_node_size p' n = lru_node_size p n" if "n \<in> nodes p rids" for n
    using that old by (auto simp: lru_node_size_def nodes_def)
  have bytes: "nodes_bytes p' ns = nodes_bytes p ns" if "set ns \<subseteq> nodes p rids" for ns
    using that size by (intro arg_cong [of _ _ sum_list] map_cong) auto
  have notin: "rid \<noteq> fst n" if "n \<in> nodes p rids" for n using that rid by (auto simp: nodes_def)
  have sub: "set hs \<subseteq> nodes p rids" "set cs \<subseteq> nodes p rids" using L(8) by auto
  have rep: "lru_rep p' hs cs" using L(2) bytes [OF sub(1)] by (simp add: lru_rep_def p')
  have cnt: "region_counts p' k (hs @ cs)" if "k \<in> insert rid rids" for k
  proof (cases "k = rid")
    case True
    have "of_region rid (hs @ cs) = []" using sub notin by (auto simp: filter_empty_conv)
    then show ?thesis using True new flags(2,3) by (simp add: region_counts_def)
  next
    case False
    then have k: "k \<in> rids" using that by simp
    have "set (of_region k (hs @ cs)) \<subseteq> nodes p rids" using sub by auto
    then show ?thesis using L(10) [OF k] bytes old [OF k] by (simp add: region_counts_def)
  qed
  have ini: "r_initialized (p_region p' k) ! c = r_lru_resident (p_region p' k) ! c" if "(k, c) \<in> nodes p' (insert rid rids)" for k c
    using that flags(1) new L(11) [of k c] old [of k] by (cases "k = rid") (simp_all add: nodes_def)
  have rb: "p_resident_bytes p' = nodes_bytes p' (hs @ cs)" using L(3) bytes [OF L(8)] by (simp add: p')
  have "node_cold p' n = node_cold p n" if "n \<in> nodes p rids" for n using notin [OF that] by (auto simp: p')
  then have cold: "\<forall>n\<in>set hs. \<not> node_cold p' n" "\<forall>n\<in>set cs. node_cold p' n" using L(5,6) sub by blast+
  have res: "set (hs @ cs) = {n \<in> nodes p' (insert rid rids). node_resident p' n}"
    by (rule pool_add_resident [OF lru rid _ p']) (use flags(1) in simp)
  show ?thesis unfolding pool_lru_def using ap rep rb res cold ini cnt by blast
qed

lemma pool_add_region:
  assumes ok: "pool_ok os p m rids hs cs" and rid: "rid \<notin> rids" and inv: "region_inv os r m'" and stg: "staging_ranges r = {}"
    and flags: "\<And>c. c < r_nchunks r \<Longrightarrow> \<not> r_lru_resident r ! c \<and> \<not> r_initialized r ! c" "r_resident_bytes r = 0" "r_resident_chunks r = 0"
    and fresh: "\<And>x. x \<in> region_range r \<Longrightarrow> m x = None" and same: "\<And>x. x \<notin> region_range r \<Longrightarrow> m' x = m x"
    and p': "p' = p\<lparr>p_region := (p_region p)(rid := r), p_regions := l\<rparr>"
  shows "pool_ok os p' m' (insert rid rids) hs cs" "pool_foot p' (insert rid rids) = pool_foot p rids \<union> region_range r"
proof -
  have lru: "pool_lru os p rids hs cs" using ok by (simp add: pool_ok_def)
  have disj: "pool_foot p rids \<inter> region_range r = {}" using pool_foot_mapped [OF ok] fresh by blast
  have "m' x = m x" if "x \<in> pool_foot p rids" for x using same disj that by blast
  from pool_ok_mem [OF ok this] have "pool_mem os p m' rids" by (simp add: pool_ok_def)
  note pm = pool_add_mem [OF this rid inv stg disj p']
  show "pool_foot p' (insert rid rids) = pool_foot p rids \<union> region_range r" by (rule pm(2))
  have "regions_apart os p' (insert rid rids)"
    using pm(1) unfolding pool_mem_def regions_apart_def region_inv_def footprint_def by blast
  then show "pool_ok os p' m' (insert rid rids) hs cs"
    using pool_add_lru [OF lru rid flags p'] pm(1) by (simp add: pool_ok_def)
qed

text \<open>The region struct that \<open>fc_region_create\<close> sets up before it reserves memory.\<close>

abbreviation new_region :: "os \<Rightarrow> size_t list \<Rightarrow> fc_fill_chunk_fn \<Rightarrow> fc_region" where
  "new_region os sizes fill \<equiv> zero_region\<lparr>r_chunk_start := chunk_starts 0 sizes, r_initialized := replicate (length sizes) False,
     r_chunk_staged := replicate (length sizes) False, r_total_size := sum_list sizes, r_nchunks := length sizes,
     r_page_size := vm_page_size os, r_fill_chunk := fill, r_mapped_size := page_ceil (sum_list sizes) (vm_page_size os)\<rparr>"

definition valid_sizes :: "size_t list \<Rightarrow> bool" where
  "valid_sizes sizes \<longleftrightarrow> sizes \<noteq> [] \<and> (\<forall>s\<in>set sizes. 0 < s) \<and> sum_list sizes < SIZE_RANGE"

definition honours_sizes :: "size_t list \<Rightarrow> fc_fill_chunk_fn \<Rightarrow> bool" where
  "honours_sizes sizes fill \<longleftrightarrow> (\<forall>c<length sizes. length (snd (fill c (sizes ! c))) = sizes ! c)"

lemma new_region_layout:
  assumes "valid_sizes sizes" "0 < os_page_size os" "sum_list sizes + os_page_size os \<le> SIZE_RANGE"
  shows "region_layout (new_region os sizes fill)"
proof -
  have nth: "chunk_starts 0 sizes ! length sizes = sum_list sizes"
    using chunk_starts_nth [of 0 sizes "length sizes"] assms(1) by (simp add: valid_sizes_def)
  show ?thesis
    using layout_chunk_starts [of sizes "os_page_size os"] assms nth
    by (simp add: region_layout_def valid_sizes_def vm_page_size_def)
qed

lemma new_region_contract:
  assumes "valid_sizes sizes" "honours_sizes sizes fill" and f: "r_chunk_start r = chunk_starts 0 sizes" "r_nchunks r = length sizes" "r_fill_chunk r = fill"
  shows "fill_contract r"
proof -
  have "chunk_size r c = sizes ! c" if "c < length sizes" for c
    using chunk_starts_nth [of 0 sizes c] chunk_starts_nth [of 0 sizes "Suc c"] assms(1) that
    by (simp add: f valid_sizes_def take_Suc_conv_app_nth)
  then show ?thesis using assms(2) by (simp add: fill_contract_def honours_sizes_def fill_bytes_def f)
qed

lemma create_region_struct:
  assumes vs: "valid_sizes sizes" and hon: "honours_sizes sizes fill" and ps: "0 < os_page_size os" "sum_list sizes + os_page_size os \<le> SIZE_RANGE"
    and n: "length sizes < UINT32_RANGE" and res: "vm_reserve os m (r_mapped_size (new_region os sizes fill)) = Inr (base, m1)"
  obtains r1 where "shared_pages_init (new_region os sizes fill\<lparr>r_base := base\<rparr>) = Inr r1"
    "region_inv os (lru_init r1) m1" "staging_ranges (lru_init r1) = {}"
    "\<And>x. x \<in> region_range (lru_init r1) \<Longrightarrow> m x = None" "\<And>x. x \<notin> region_range (lru_init r1) \<Longrightarrow> m1 x = m x"
    "static (lru_init r1) = static (new_region os sizes fill\<lparr>r_base := base\<rparr>)"
    "\<And>c. c < r_nchunks (lru_init r1) \<Longrightarrow> \<not> r_lru_resident (lru_init r1) ! c \<and> \<not> r_initialized (lru_init r1) ! c"
    "r_resident_bytes (lru_init r1) = 0" "r_resident_chunks (lru_init r1) = 0"
proof -
  let ?r0 = "new_region os sizes fill\<lparr>r_base := base\<rparr>" and ?n = "page_ceil (sum_list sizes) (os_page_size os)"
  have lay0: "region_layout (new_region os sizes fill)" by (rule new_region_layout [OF vs ps])
  then have lay: "region_layout ?r0" by (simp add: region_layout_def)
  have "res_ok (\<lambda>e. \<exists>w. e = Map_failed w) (\<lambda>(a, m'). 0 < ?n \<and> fresh_range (os_page_size os) m a ?n \<and> m' = mem_set m a ?n (Some (PROT_NONE, 0)))
      (vm_reserve os m ?n)"
    using posix.reserve_law [of os ?n m] ps(1) by (simp add: vm_page_size_def)
  then have base: "fresh_range (os_page_size os) m base ?n" and m1: "m1 = mem_set m base ?n (Some (PROT_NONE, 0))"
    using res by (simp_all add: vm_page_size_def)
  obtain r1 where init: "shared_pages_init ?r0 = Inr r1" and sst: "shared_static r1"
    and r1: "r1 = ?r0\<lparr>r_nshared := r_nshared r1, r_shared_pages := r_shared_pages r1\<rparr>"
    and pages: "\<forall>sp\<in>set (r_shared_pages r1). sp_staged sp = 0 \<and> sp_staging sp = null_scratch \<and> \<not> sp_mapped sp"
    by (rule shared_pages_init_ok [OF lay]) (simp_all add: zero_region_def)
  define r where "r = lru_init r1"
  have st1: "static r1 = static ?r0" by (subst r1) (simp add: static_def)
  have fl1: "r_initialized r1 = replicate (length sizes) False" "r_chunk_staged r1 = replicate (length sizes) False" by (subst r1, simp)+
  have st: "static r = static ?r0" using st1 by (simp add: r_def lru_init_def static_def)
  have nc: "r_nchunks r = length sizes" using static_fields(5) [OF st] by simp
  have sst': "shared_static r"
    by (rule shared_static_cong [OF _ sst]) (simp_all add: r_def lru_init_def static_def)
  have fc: "fill_contract r" by (rule new_region_contract [OF vs hon]) (simp_all add: static_fields [OF st])
  have rr: "region_range r = {base..<base + ?n}" using static_fields [OF st] by (simp add: region_range_def vm_page_size_def)
  have mem: "m1 x = Some (PROT_NONE, 0)" if "x \<in> region_range r" for x using that by (simp add: rr m1)
  have fresh: "m x = None" if "x \<in> region_range r" for x using base that by (simp add: rr fresh_range_def mem_free_def)
  have out: "m1 x = m x" if "x \<notin> region_range r" for x using that by (auto simp: rr m1)
  have lay': "region_layout r" using lay by (simp add: static_congs [OF st])
  have a: "r_page_size r = os_page_size os" "os_page_size os dvd r_base r" "0 < r_base r" "r_base r + r_mapped_size r < SIZE_RANGE"
    "r_nchunks r < UINT32_RANGE"
    using base n by (simp_all add: static_fields [OF st] vm_page_size_def fresh_range_def)
  have nc1: "r_nchunks r1 = length sizes" using static_fields(5) [OF st1] by simp
  have fl: "r_initialized r = replicate (r_nchunks r) False" "r_chunk_staged r = replicate (r_nchunks r) False"
      "r_lru_resident r = replicate (r_nchunks r) False" "r_lru_cold r = replicate (r_nchunks r) False"
      "length (r_chunk_faults_total r) = r_nchunks r"
    by (simp_all add: r_def lru_init_def nc1 fl1)
  have pages': "\<forall>sp\<in>set (r_shared_pages r). sp_staged sp = 0 \<and> sp_staging sp = null_scratch \<and> \<not> sp_mapped sp"
    using pages by (simp add: r_def lru_init_def)
  note inv = fresh_region_inv [OF lay' sst' fc a pages' fl mem]
  show thesis
    by (rule that [OF init, folded r_def, OF inv fresh out st]) (use nc fl1 in \<open>simp_all add: r_def lru_init_def\<close>)
qed

text \<open>The content of a region over a table of prefix sums, chunk by chunk.\<close>

lemma layout_content:
  assumes lay: "region_layout r" and vs: "valid_sizes sizes"
    and r: "r_total_size r = sum_list sizes" "r_nchunks r = length sizes" "r_fill_chunk r = fill" "r_chunk_start r = chunk_starts 0 sizes"
    and c: "c < length sizes" and i: "i < sizes ! c"
  shows "content r (sum_list (take c sizes) + i) = snd (fill c (sizes ! c)) ! i"
proof -
  let ?x = "sum_list (take c sizes) + i"
  have st: "r_chunk_start r ! c = sum_list (take c sizes)" "r_chunk_start r ! Suc c = sum_list (take c sizes) + sizes ! c"
    using chunk_starts_nth [of 0 sizes c] chunk_starts_nth [of 0 sizes "Suc c"] vs c
    by (simp_all add: r valid_sizes_def take_Suc_conv_app_nth)
  have x: "?x < r_total_size r"
    using region_start_mono(3) [OF lay, of "Suc c"] c i by (simp add: st r(2))
  have "find_chunk r ?x = c" by (rule inproc.find_eq [OF lay]) (use c i in \<open>simp_all add: st r(2)\<close>)
  then show ?thesis using x by (simp add: content_def fill_bytes_def st r(3))
qed

end
