(* ===== verification/Lifecycle.thy ===== *)
theory Lifecycle
  imports Api
begin

text \<open>
  Every call of the API keeps the invariant of the process: a created region is live
  and inaccessible, a destroyed region or pool leaves no page mapped, and nobody
  else's memory changes.
\<close>

section \<open>One pool of the process changes\<close>

text \<open>
  \<open>F\<close> is the memory the pool owns afterwards; what it gained was free, and outside
  the old and the new memory nothing changes.
\<close>

lemma proc_pool_update:
  assumes inv: "proc_inv os s RL" and pid: "pid \<in> set (g_pools s)"
    and ok: "pool_ok os p' m' (set rl) hs cs" and dl: "dlist (p_regions p') rl" and lt: "\<forall>rid\<in>set rl. rid < nr" "g_next_region s \<le> nr"
    and gain: "\<And>x. x \<in> pool_foot p' (set rl) \<Longrightarrow> x \<notin> pool_foot (g_pool s pid) (set (RL pid)) \<Longrightarrow> g_mem s x = None"
    and same: "\<And>x. x \<notin> pool_foot p' (set rl) \<Longrightarrow> x \<notin> pool_foot (g_pool s pid) (set (RL pid)) \<Longrightarrow> m' x = g_mem s x"
  shows "proc_inv os (s\<lparr>g_mem := m', g_pool := (g_pool s)(pid := p'), g_next_region := nr\<rparr>) (RL(pid := rl))"
proof -
  let ?F = "\<lambda>q. pool_foot (g_pool s q) (set (RL q))" and ?F' = "pool_foot p' (set rl)" and ?m = "g_mem s"
  have apart: "?F q \<inter> ?F pid = {}" if "q \<in> set (g_pools s)" "q \<noteq> pid" for q using inv that pid by (simp add: proc_inv_def)
  have okq: "\<exists>hs cs. pool_ok os (g_pool s q) ?m (set (RL q)) hs cs" if "q \<in> set (g_pools s)" for q
    using inv that by (simp add: proc_inv_def)
  have mapped: "?m x \<noteq> None" if "q \<in> set (g_pools s)" "x \<in> ?F q" for q x
    using okq [OF that(1)] pool_foot_mapped that(2) by blast
  have new: "?F q \<inter> ?F' = {}" if q: "q \<in> set (g_pools s)" "q \<noteq> pid" for q
    using apart [OF q] gain mapped [OF q(1)] by blast
  have other: "\<exists>hs cs. pool_ok os (g_pool s q) m' (set (RL q)) hs cs" if q: "q \<in> set (g_pools s)" "q \<noteq> pid" for q
  proof -
    have "m' x = ?m x" if "x \<in> ?F q" for x using same [of x] new [OF q] apart [OF q] that by blast
    then show ?thesis using okq [OF q(1)] pool_ok_mem by blast
  qed
  have lt': "rid < nr" if "q \<in> set (g_pools s)" "rid \<in> set (RL q)" for q rid
    using inv that lt(2) by (fastforce simp: proc_inv_def)
  let ?s = "s\<lparr>g_mem := m', g_pool := (g_pool s)(pid := p'), g_next_region := nr\<rparr>"
  show ?thesis
    unfolding proc_inv_def
  proof (intro conjI ballI impI)
    fix q assume q: "q \<in> set (g_pools ?s)"
    show "\<exists>hs cs. pool_ok os (g_pool ?s q) (g_mem ?s) (set ((RL(pid := rl)) q)) hs cs"
      using ok other [of q] q by (cases "q = pid") auto
    show "dlist (p_regions (g_pool ?s q)) ((RL(pid := rl)) q)" using inv q dl by (simp add: proc_inv_def)
    fix q' assume q': "q' \<in> set (g_pools ?s)" "q \<noteq> q'"
    show "pool_foot (g_pool ?s q) (set ((RL(pid := rl)) q)) \<inter> pool_foot (g_pool ?s q') (set ((RL(pid := rl)) q')) = {}"
      using new [of q] new [of q'] inv q q' by (cases "q = pid"; cases "q' = pid") (auto simp: proc_inv_def)
  next
    fix q rid assume "q \<in> set (g_pools ?s)" "rid \<in> set ((RL(pid := rl)) q)"
    then show "rid < g_next_region ?s" using lt lt' [of q rid] by (cases "q = pid") simp_all
  qed (use inv in \<open>auto simp: proc_inv_def\<close>)
qed

section \<open>Creation\<close>

lemma fc_pool_create_ok:
  assumes inv: "proc_inv os s RL" and c: "fc_pool_create True s target = (Some pid, s')"
  shows "proc_inv os s' (RL(pid := []))" "g_pools s' = pid # g_pools s" "pid \<notin> set (g_pools s)" "g_mem s' = g_mem s"
    "p_target_size (g_pool s' pid) = target" "g_sig s' = g_sig s"
proof -
  define p where "p = \<lparr>p_target_size = target, p_resident_bytes = 0, p_lru = links_empty, p_midpoint = Sentinel,
               p_hot_bytes = 0, p_regions = links_empty, p_region = (\<lambda>_. zero_region)\<rparr>"
  have eq: "pid = g_next_pool s" "s' = s\<lparr>g_pools := pid # g_pools s, g_pool := (g_pool s)(pid := p), g_next_pool := Suc pid\<rparr>"
    using c by (auto simp: fc_pool_create_def Let_def p_def)
  show nin: "pid \<notin> set (g_pools s)" using inv eq(1) by (auto simp: proc_inv_def)
  have ok: "pool_ok os p m {} [] []" for m
    by (simp add: pool_ok_def pool_lru_def pool_mem_def regions_apart_def lru_rep_def nodes_def p_def)
  have foot: "pool_foot p {} = {}" by (simp add: pool_range_def pool_staging_def)
  have other: "q \<noteq> pid" if "q \<in> set (g_pools s)" for q using nin that by blast
  show "proc_inv os s' (RL(pid := []))"
    unfolding proc_inv_def
  proof (intro conjI ballI impI)
    fix q assume q: "q \<in> set (g_pools s')"
    show "\<exists>hs cs. pool_ok os (g_pool s' q) (g_mem s') (set ((RL(pid := [])) q)) hs cs"
      using ok q inv by (cases "q = pid") (auto simp: eq(2) proc_inv_def)
    show "q < g_next_pool s'" using inv q by (auto simp: eq proc_inv_def)
    show "dlist (p_regions (g_pool s' q)) ((RL(pid := [])) q)" using inv q by (cases "q = pid") (auto simp: eq(2) p_def proc_inv_def)
    show "rid < g_next_region s'" if "rid \<in> set ((RL(pid := [])) q)" for rid
      using inv q that by (cases "q = pid") (auto simp: eq(2) proc_inv_def)
    fix q' assume q': "q' \<in> set (g_pools s')" "q \<noteq> q'"
    show "pool_foot (g_pool s' q) (set ((RL(pid := [])) q)) \<inter> pool_foot (g_pool s' q') (set ((RL(pid := [])) q')) = {}"
      using q q' inv foot by (cases "q = pid"; cases "q' = pid") (auto simp: eq(2) proc_inv_def)
  qed (use inv nin in \<open>auto simp: proc_inv_def eq(2)\<close>)
qed (use c in \<open>auto simp: fc_pool_create_def Let_def\<close>)

definition create_post where
  "create_post os s RL pid sizes fill = (\<lambda>(h, s'). let rid = g_next_region s; r = region_of s' pid rid in
     h = Some (pid, rid) \<and> proc_inv os s' (RL(pid := rid # RL pid)) \<and> g_pools s' = g_pools s \<and>
     r_total_size r = sum_list sizes \<and> r_nchunks r = length sizes \<and> r_fill_chunk r = fill \<and>
     r_chunk_start r = chunk_starts 0 sizes \<and> staging_ranges r = {} \<and> g_sig s' = g_sig s \<and>
     (\<forall>x. x \<in> region_range r \<longrightarrow> g_mem s x = None \<and> g_mem s' x = Some (PROT_NONE, 0)) \<and>
     (\<forall>x. x \<notin> region_range r \<longrightarrow> g_mem s' x = g_mem s x))"

lemma fc_region_create_eq:
  assumes armed: "fault_armed (g_sig s)" and vs: "valid_sizes sizes" and lt: "\<forall>x\<in>set sizes. x < SIZE_RANGE"
    and n: "length sizes + 1 < UINT32_RANGE"
  shows "fc_region_create os s (Some pid) (length sizes) (Some sizes) (Some fill) =
    res_bind (vm_reserve os (g_mem s) (r_mapped_size (new_region os sizes fill))) (\<lambda>(base, m).
    res_bind (shared_pages_init (new_region os sizes fill\<lparr>r_base := base\<rparr>)) (\<lambda>r.
      Inr (Some (pid, g_next_region s), s\<lparr>g_mem := m, g_pool := (g_pool s)(pid :=
        (g_pool s pid)\<lparr>p_region := (p_region (g_pool s pid))(g_next_region s := lru_init r),
          p_regions := region_list_insert (p_regions (g_pool s pid)) (g_next_region s)\<rparr>), g_next_region := Suc (g_next_region s)\<rparr>)))"
proof -
  have "sum_chunk_sizes 0 sizes = Some (sum_list sizes)"
    using sum_chunk_sizes_iff [OF lt] vs by (simp add: valid_sizes_def)
  moreover have "fill_chunk_start sizes = Inr (chunk_starts 0 sizes)" using n by (simp add: fill_chunk_start_def)
  moreover have "length sizes \<noteq> 0" using vs by (simp add: valid_sizes_def)
  ultimately show ?thesis using armed
    by (auto simp: fc_region_create_def region_prepare_def region_link_def Let_def res_bind_def split: sum.splits)
qed

lemma vm_reserve_zero: "vm_reserve os m 0 = Inl (Map_failed ''vm_reserve'')"
  by (auto simp: vm_reserve_def os_mmap_def split: option.split)

lemma fc_region_create_ok:
  assumes inv: "proc_inv os s RL" and pid: "pid \<in> set (g_pools s)" and armed: "fault_armed (g_sig s)"
    and vs: "valid_sizes sizes" and hon: "honours_sizes sizes fill" and lt: "\<forall>x\<in>set sizes. x < SIZE_RANGE"
    and n: "length sizes + 1 < UINT32_RANGE" and ps: "os_page_size os \<le> SIZE_RANGE"
  shows "res_ok (\<lambda>e. e = Map_failed ''vm_reserve'') (create_post os s RL pid sizes fill)
    (fc_region_create os s (Some pid) (length sizes) (Some sizes) (Some fill))"
proof (cases "sum_list sizes + os_page_size os \<le> SIZE_RANGE")
  case False
  then have "r_mapped_size (new_region os sizes fill) = 0"
    using page_ceil_wraps [of "os_page_size os" "sum_list sizes"] inv vs ps by (simp add: proc_inv_def valid_sizes_def vm_page_size_def)
  then show ?thesis unfolding fc_region_create_eq [OF armed vs lt n] by (simp add: vm_reserve_zero)
next
  case True
  have ps0: "0 < os_page_size os" using inv by (simp add: proc_inv_def)
  let ?rid = "g_next_region s" and ?p = "g_pool s pid"
  have res: "res_ok (\<lambda>e. e = Map_failed ''vm_reserve'') (\<lambda>(b, m1). vm_reserve os (g_mem s) (r_mapped_size (new_region os sizes fill)) = Inr (b, m1))
      (vm_reserve os (g_mem s) (r_mapped_size (new_region os sizes fill)))"
    by (auto simp: vm_reserve_def split: option.split)
  show ?thesis unfolding fc_region_create_eq [OF armed vs lt n]
  proof (rule res_ok_bind2 [OF res], unfold prod.case)
    fix base m1 assume rs: "vm_reserve os (g_mem s) (r_mapped_size (new_region os sizes fill)) = Inr (base, m1)"
    have n': "length sizes < UINT32_RANGE" using n by simp
    obtain r1 where init: "shared_pages_init (new_region os sizes fill\<lparr>r_base := base\<rparr>) = Inr r1"
      and ri: "region_inv os (lru_init r1) m1" "staging_ranges (lru_init r1) = {}"
      and fresh: "\<And>x. x \<in> region_range (lru_init r1) \<Longrightarrow> g_mem s x = None" and same: "\<And>x. x \<notin> region_range (lru_init r1) \<Longrightarrow> m1 x = g_mem s x"
      and st: "static (lru_init r1) = static (new_region os sizes fill\<lparr>r_base := base\<rparr>)"
      and fl: "\<And>c. c < r_nchunks (lru_init r1) \<Longrightarrow> \<not> r_lru_resident (lru_init r1) ! c \<and> \<not> r_initialized (lru_init r1) ! c"
        "r_resident_bytes (lru_init r1) = 0" "r_resident_chunks (lru_init r1) = 0"
      by (rule create_region_struct [OF vs hon ps0 True n' rs]) blast
    let ?r = "lru_init r1"
    define p' where "p' = ?p\<lparr>p_region := (p_region ?p)(?rid := ?r), p_regions := region_list_insert (p_regions ?p) ?rid\<rparr>"
    obtain hs cs where ok: "pool_ok os ?p (g_mem s) (set (RL pid)) hs cs" and dl: "dlist (p_regions ?p) (RL pid)"
      and lts: "\<forall>rid\<in>set (RL pid). rid < ?rid" using inv pid by (auto simp: proc_inv_def)
    have nin: "?rid \<notin> set (RL pid)" using lts by auto
    note add = pool_add_region [OF ok nin ri fl fresh same p'_def]
    have "proc_inv os (s\<lparr>g_mem := m1, g_pool := (g_pool s)(pid := p'), g_next_region := Suc ?rid\<rparr>) (RL(pid := ?rid # RL pid))"
    proof (rule proc_pool_update [OF inv pid])
      show "pool_ok os p' m1 (set (?rid # RL pid)) hs cs" using add(1) by simp
      show "dlist (p_regions p') (?rid # RL pid)" using region_list.rep_ins [OF dl nin] by (simp add: p'_def)
    qed (use add(2) lts fresh same in \<open>auto simp: less_Suc_eq\<close>)
    moreover have "m1 x = Some (PROT_NONE, 0)" if "x \<in> region_range ?r" for x
    proof -
      have "m1 x = mem_set (g_mem s) base (r_mapped_size (new_region os sizes fill)) (Some (PROT_NONE, 0)) x"
        using rs posix.reserve_law [of os "r_mapped_size (new_region os sizes fill)" "g_mem s"] ps0 by (simp add: vm_page_size_def)
      then show ?thesis using that static_fields [OF st] by (simp add: region_range_def)
    qed
    ultimately show "res_ok (\<lambda>e. e = Map_failed ''vm_reserve'') (create_post os s RL pid sizes fill)
      (res_bind (shared_pages_init (new_region os sizes fill\<lparr>r_base := base\<rparr>)) (\<lambda>r.
        Inr (Some (pid, ?rid), s\<lparr>g_mem := m1, g_pool := (g_pool s)(pid :=
        ?p\<lparr>p_region := (p_region ?p)(?rid := lru_init r), p_regions := region_list_insert (p_regions ?p) ?rid\<rparr>), g_next_region := Suc ?rid\<rparr>)))"
      using init fresh same ri(2) static_fields [OF st] by (simp add: create_post_def Let_def p'_def)
  qed
qed

section \<open>Destruction\<close>

lemma remove1_filter: "distinct xs \<Longrightarrow> remove1 n xs = filter (\<lambda>x. x \<noteq> n) xs"
  by (simp add: distinct_remove1_removeAll removeAll_filter_not_eq) metis

abbreviation without :: "nat \<Rightarrow> uint32_t list \<Rightarrow> node list \<Rightarrow> node list" where
  "without rid l \<equiv> filter (\<lambda>n. n \<notin> Pair rid ` set l)"

lemma forget_chunks_ok:
  assumes "pool_lru os p rids hs cs" "rid \<in> rids" "\<forall>c\<in>set l. c < r_nchunks (p_region p rid)"
  shows "\<exists>p'. forget_chunks p rid l = Inr p' \<and> pool_lru os p' rids (without rid l hs) (without rid l cs) \<and> same_pool p p' \<and>
    (\<forall>k. k \<noteq> rid \<longrightarrow> p_region p' k = p_region p k) \<and> static (p_region p' rid) = static (p_region p rid) \<and>
    r_shared_pages (p_region p' rid) = r_shared_pages (p_region p rid) \<and> r_nshared (p_region p' rid) = r_nshared (p_region p rid)"
  using assms
proof (induction l arbitrary: p hs cs)
  case Nil
  then show ?case by simp
next
  case (Cons c l)
  have n: "(rid, c) \<in> nodes p rids" using Cons.prems by (simp add: nodes_def)
  obtain p1 where f: "lru_forget_chunk p rid c = Inr p1" and lru1: "pool_lru os p1 rids (remove1 (rid, c) hs) (remove1 (rid, c) cs)"
    and p1: "same_pool p p1" "p_region p1 = (p_region p)(rid := p_region p1 rid)"
    and r1: "p_region p1 rid = (p_region p rid)\<lparr>r_lru_resident := (r_lru_resident (p_region p rid))[c := False],
       r_initialized := (r_initialized (p_region p rid))[c := False],
       r_resident_bytes := r_resident_bytes (p_region p1 rid), r_resident_chunks := r_resident_chunks (p_region p1 rid)\<rparr>"
    by (rule lru_forget_ok [OF Cons.prems(1) n])
  have st: "static (p_region p1 rid) = static (p_region p rid)" by (subst r1) (simp add: static_def)
  have sp: "r_shared_pages (p_region p1 rid) = r_shared_pages (p_region p rid)" "r_nshared (p_region p1 rid) = r_nshared (p_region p rid)"
    by (subst r1, simp)+
  have k1: "p_region p1 k = p_region p k" if "k \<noteq> rid" for k using p1(2) that by (metis fun_upd_other)
  have dist: "distinct hs" "distinct cs" using pool_lruD(7) [OF Cons.prems(1)] by simp_all
  have w: "without rid l (remove1 (rid, c) xs) = without rid (c # l) xs" if "distinct xs" for xs
    using that by (auto simp: remove1_filter intro: filter_cong)
  have "\<forall>d\<in>set l. d < r_nchunks (p_region p1 rid)" using Cons.prems(3) static_fields(5) [OF st] by simp
  from Cons.IH [OF lru1 Cons.prems(2) this] show ?case
    unfolding w [OF dist(1)] w [OF dist(2)] using f p1(1) st sp k1 by auto
qed

lemma pool_drop_region:
  assumes ok: "pool_ok os p m rids hs cs" and lru: "pool_lru os p' rids hs' cs'" and none: "\<And>n. n \<in> set (hs' @ cs') \<Longrightarrow> fst n \<noteq> rid"
    and p': "\<And>k. k \<noteq> rid \<Longrightarrow> p_region p' k = p_region p k" and rid: "rid \<in> rids"
    and mem: "\<And>x. x \<notin> footprint (p_region p rid) \<Longrightarrow> m' x = m x"
  shows "pool_ok os (p'\<lparr>p_regions := l\<rparr>) m' (rids - {rid}) hs' cs'"
    "pool_foot (p'\<lparr>p_regions := l\<rparr>) (rids - {rid}) = pool_foot p rids - footprint (p_region p rid)"
proof -
  let ?p = "p'\<lparr>p_regions := l\<rparr>"
  have pm: "pool_mem os p m rids" using ok by (simp add: pool_ok_def)
  have apart: "footprint (p_region p k) \<inter> footprint (p_region p rid) = {}" if "k \<in> rids" "k \<noteq> rid" for k
    using pm that rid by (simp add: pool_mem_def)
  show "pool_foot ?p (rids - {rid}) = pool_foot p rids - footprint (p_region p rid)"
    unfolding pool_foot_footprint using apart p' by auto
  have "region_inv os (p_region p k) m'" if k: "k \<in> rids" "k \<noteq> rid" for k
    by (rule region_inv_mem [of os _ m]) (use pm k apart [OF k] mem in \<open>auto simp: pool_mem_def\<close>)
  then have mem': "pool_mem os ?p m' (rids - {rid})" using pm p' by (simp add: pool_mem_def)
  note L = pool_lruD [OF lru]
  have size: "lru_node_size ?p = lru_node_size p'" by (simp add: lru_node_size_def fun_eq_iff)
  have nodes: "nodes ?p (rids - {rid}) = {n \<in> nodes p' rids. fst n \<noteq> rid}" by (auto simp: nodes_def)
  have "set (hs' @ cs') = {n \<in> nodes ?p (rids - {rid}). node_resident ?p n}"
    unfolding nodes using L(4) none by auto
  moreover have "regions_apart os ?p (rids - {rid})" using L(1) by (simp add: regions_apart_def)
  moreover have "lru_rep ?p hs' cs'" using L(2) by (simp add: lru_rep_def size)
  moreover have "region_counts ?p k (hs' @ cs')" if "k \<in> rids - {rid}" for k
    using L(10) [of k] that by (simp add: region_counts_def size)
  moreover have "\<forall>(k, c)\<in>nodes ?p (rids - {rid}). r_initialized (p_region ?p k) ! c = r_lru_resident (p_region ?p k) ! c"
    using L(11) unfolding nodes by auto
  ultimately have "pool_lru os ?p (rids - {rid}) hs' cs'"
    using L(3,5,6) unfolding pool_lru_def size by simp
  then show "pool_ok os ?p m' (rids - {rid}) hs' cs'" using mem' by (simp add: pool_ok_def)
qed

lemma region_free_cong:
  assumes "static r' = static r" "r_shared_pages r' = r_shared_pages r" "r_nshared r' = r_nshared r"
  shows "region_free os r' m = region_free os r m"
  by (simp add: region_free_def assms(2,3) static_fields [OF assms(1)])

text \<open>The section under the lock: the region leaves the queue and the list, its memory stays mapped until \<open>region_free\<close>.\<close>

lemma region_unlink_ok:
  assumes ok: "pool_ok os p m (set rl) hs cs" and dl: "dlist (p_regions p) rl" and rid: "rid \<in> set rl"
  obtains p' hs' cs' where "region_unlink p rid = Inr p'" "dlist (p_regions p') (remove1 rid rl)"
    "set (remove1 rid rl) = set rl - {rid}"
    "\<And>m'. (\<And>x. x \<notin> footprint (p_region p rid) \<Longrightarrow> m' x = m x) \<Longrightarrow> pool_ok os p' m' (set rl - {rid}) hs' cs'"
    "pool_foot p' (set rl - {rid}) = pool_foot p (set rl) - footprint (p_region p rid)"
    "static (p_region p' rid) = static (p_region p rid)" "r_shared_pages (p_region p' rid) = r_shared_pages (p_region p rid)"
    "r_nshared (p_region p' rid) = r_nshared (p_region p rid)" "\<And>k. k \<noteq> rid \<Longrightarrow> p_region p' k = p_region p k"
proof -
  let ?l = "[0..<r_nchunks (p_region p rid)]"
  have lru: "pool_lru os p (set rl) hs cs" using ok by (simp add: pool_ok_def)
  have "\<forall>c\<in>set ?l. c < r_nchunks (p_region p rid)" by simp
  from forget_chunks_ok [OF lru rid this] obtain p1 where f: "forget_chunks p rid ?l = Inr p1"
    and lru1: "pool_lru os p1 (set rl) (without rid ?l hs) (without rid ?l cs)" and sm: "same_pool p p1"
    and k1: "\<And>k. k \<noteq> rid \<Longrightarrow> p_region p1 k = p_region p k" and st: "static (p_region p1 rid) = static (p_region p rid)"
    and sp: "r_shared_pages (p_region p1 rid) = r_shared_pages (p_region p rid)" "r_nshared (p_region p1 rid) = r_nshared (p_region p rid)"
    by blast
  have none: "fst n \<noteq> rid" if "n \<in> set (without rid ?l hs @ without rid ?l cs)" for n
    using that pool_lruD(8) [OF lru] by (fastforce simp: nodes_def)
  define p2 where "p2 = p1\<lparr>p_regions := region_list_remove (p_regions p1) rid\<rparr>"
  note drop = pool_drop_region [OF ok lru1 none k1 rid, of _ "region_list_remove (p_regions p1) rid", folded p2_def]
  show thesis
  proof (rule that)
    show "region_unlink p rid = Inr p2" using f by (simp add: region_unlink_def p2_def)
    show "dlist (p_regions p2) (remove1 rid rl)" using region_list.rep_del [OF dl rid] sm by (simp add: p2_def)
    show "set (remove1 rid rl) = set rl - {rid}" using dlist_distinct [OF dl] by (simp add: set_remove1_eq)
    show "pool_foot p2 (set rl - {rid}) = pool_foot p (set rl) - footprint (p_region p rid)" by (rule drop(2)) simp_all
    show "pool_ok os p2 m' (set rl - {rid}) (without rid ?l hs) (without rid ?l cs)"
      if "\<And>x. x \<notin> footprint (p_region p rid) \<Longrightarrow> m' x = m x" for m' by (rule drop(1)) (assumption+, rule that)
  qed (use st sp k1 in \<open>simp_all add: p2_def\<close>)
qed

lemma fc_region_destroy_ok:
  assumes inv: "proc_inv os s RL" and lv: "live s RL pid rid"
  obtains s' where "fc_region_destroy os s (Some (pid, rid)) = Inr s'" "proc_inv os s' (RL(pid := remove1 rid (RL pid)))"
    "\<And>x. g_mem s' x = (if x \<in> footprint (region_of s pid rid) then None else g_mem s x)" "g_pools s' = g_pools s"
proof -
  let ?p = "g_pool s pid" and ?r = "region_of s pid rid"
  have pid: "pid \<in> set (g_pools s)" and rid: "rid \<in> set (RL pid)" using lv by (simp_all add: live_def)
  obtain hs cs where ok: "pool_ok os ?p (g_mem s) (set (RL pid)) hs cs" using live_region(3) [OF inv lv] by blast
  obtain p2 hs' cs' where un: "region_unlink ?p rid = Inr p2" and dl: "dlist (p_regions p2) (remove1 rid (RL pid))"
    and set': "set (remove1 rid (RL pid)) = set (RL pid) - {rid}"
    and drop: "\<And>m'. (\<And>x. x \<notin> footprint ?r \<Longrightarrow> m' x = g_mem s x) \<Longrightarrow> pool_ok os p2 m' (set (RL pid) - {rid}) hs' cs'"
      "pool_foot p2 (set (RL pid) - {rid}) = pool_foot ?p (set (RL pid)) - footprint ?r"
    and st: "static (p_region p2 rid) = static ?r" "r_shared_pages (p_region p2 rid) = r_shared_pages ?r" "r_nshared (p_region p2 rid) = r_nshared ?r"
    by (rule region_unlink_ok [OF ok live_region(2) [OF inv lv] rid]) blast
  obtain m' where free: "region_free os ?r (g_mem s) = Inr m'" and m': "\<And>x. m' x = (if x \<in> footprint ?r then None else g_mem s x)"
    by (rule region_free_ok [OF live_region(1) [OF inv lv]]) blast
  have eq: "fc_region_destroy os s (Some (pid, rid)) = Inr (s\<lparr>g_mem := m', g_pool := (g_pool s)(pid := p2)\<rparr>)"
    using un free region_free_cong [OF st, of os "g_mem s"] by (simp add: fc_region_destroy_def)
  have "proc_inv os (s\<lparr>g_mem := m', g_pool := (g_pool s)(pid := p2), g_next_region := g_next_region s\<rparr>) (RL(pid := remove1 rid (RL pid)))"
  proof (rule proc_pool_update [OF inv pid _ dl])
    show "pool_ok os p2 m' (set (remove1 rid (RL pid))) hs' cs'" unfolding set' by (rule drop(1)) (use m' in simp)
    show "\<forall>k\<in>set (remove1 rid (RL pid)). k < g_next_region s" using inv pid unfolding set' by (simp add: proc_inv_def)
    have sub: "footprint ?r \<subseteq> pool_foot ?p (set (RL pid))" using rid unfolding pool_foot_footprint by blast
    show "g_mem s x = None" if "x \<in> pool_foot p2 (set (remove1 rid (RL pid)))" "x \<notin> pool_foot ?p (set (RL pid))" for x
      using that drop(2) unfolding set' by blast
    show "m' x = g_mem s x" if "x \<notin> pool_foot p2 (set (remove1 rid (RL pid)))" "x \<notin> pool_foot ?p (set (RL pid))" for x
      using that(2) sub m' by auto
  qed simp
  then show thesis using that [OF eq] m' by simp
qed

text \<open>Tearing down a pool frees its regions one after the other.\<close>

lemma pool_free_first:
  assumes dl: "dlist (p_regions p) (rid # rl)" and pm: "pool_mem os p m (set (rid # rl))"
  obtains m' where "region_free os (p_region p rid) m = Inr m'" "\<And>x. m' x = (if x \<in> footprint (p_region p rid) then None else m x)"
    "dlist (region_list_remove (p_regions p) rid) rl" "\<And>l. pool_mem os (p\<lparr>p_regions := l\<rparr>) m' (set rl)"
proof -
  have "region_inv os (p_region p rid) m" using pm by (simp add: pool_mem_def)
  then obtain m' where free: "region_free os (p_region p rid) m = Inr m'" and m': "\<And>x. m' x = (if x \<in> footprint (p_region p rid) then None else m x)"
    by (rule region_free_ok) blast
  have dl': "dlist (region_list_remove (p_regions p) rid) rl" using region_list.rep_del [OF dl, of rid] by simp
  have nin: "rid \<notin> set rl" using dlist_distinct [OF dl] by simp
  have "region_inv os (p_region p k) m'" if k: "k \<in> set rl" for k
  proof (rule region_inv_mem [of os _ m])
    show "region_inv os (p_region p k) m" using pm k by (simp add: pool_mem_def)
    have "k \<noteq> rid" using k nin by blast
    then have "footprint (p_region p k) \<inter> footprint (p_region p rid) = {}" using pm k by (simp add: pool_mem_def)
    then show "m' x = m x" if "x \<in> footprint (p_region p k)" for x using that m' by auto
  qed
  then have "pool_mem os (p\<lparr>p_regions := l\<rparr>) m' (set rl)" for l using pm by (simp add: pool_mem_def)
  then show thesis using that [OF free m' dl'] by blast
qed

lemma pool_free_loop_ok:
  assumes "dlist (p_regions p) rl" "pool_mem os p m (set rl)"
  obtains m' where "pool_free_loop os p m = Some (Inr m')" "\<And>x. m' x = (if x \<in> pool_foot p (set rl) then None else m x)"
  using assms
proof (induction rl arbitrary: p m thesis)
  case Nil
  have "pool_free_loop os p m = Some (Inr m)"
    using dlist_next_head [OF Nil.prems(2)] by (subst pool_free_loop.simps) simp
  then show ?case using Nil.prems(1) by (simp add: pool_range_def pool_staging_def)
next
  case (Cons rid rl)
  have hd: "l_next (p_regions p) Sentinel = Node rid" using dlist_next_head [OF Cons.prems(2)] by simp
  let ?p = "p\<lparr>p_regions := region_list_remove (p_regions p) rid\<rparr>"
  obtain m1 where free: "region_free os (p_region p rid) m = Inr m1" and m1: "\<And>x. m1 x = (if x \<in> footprint (p_region p rid) then None else m x)"
    and dl: "dlist (region_list_remove (p_regions p) rid) rl" and pm: "\<And>l. pool_mem os (p\<lparr>p_regions := l\<rparr>) m1 (set rl)"
    by (rule pool_free_first [OF Cons.prems(2,3)]) blast
  from Cons.IH [of ?p, OF _ _ pm] dl obtain m' where "pool_free_loop os ?p m1 = Some (Inr m')"
    and m': "\<And>x. m' x = (if x \<in> pool_foot ?p (set rl) then None else m1 x)" by auto
  then have "pool_free_loop os p m = Some (Inr m')" using hd free by (subst pool_free_loop.simps) simp
  moreover have "m' x = (if x \<in> pool_foot p (set (rid # rl)) then None else m x)" for x
    using m' m1 unfolding pool_foot_footprint by auto
  ultimately show ?case using Cons.prems(1) by blast
qed

lemma fc_pool_destroy_ok:
  assumes inv: "proc_inv os s RL" and pid: "pid \<in> set (g_pools s)"
  obtains s' where "fc_pool_destroy os s (Some pid) = Inr s'" "proc_inv os s' RL" "g_pools s' = remove1 pid (g_pools s)"
    "\<And>x. g_mem s' x = (if x \<in> pool_foot (g_pool s pid) (set (RL pid)) then None else g_mem s x)"
proof -
  obtain hs cs where ok: "pool_ok os (g_pool s pid) (g_mem s) (set (RL pid)) hs cs" and dl: "dlist (p_regions (g_pool s pid)) (RL pid)"
    using inv pid by (auto simp: proc_inv_def)
  have "pool_mem os (g_pool s pid) (g_mem s) (set (RL pid))" using ok by (simp add: pool_ok_def)
  then obtain m' where lp: "pool_free_loop os (g_pool s pid) (g_mem s) = Some (Inr m')"
    and m': "\<And>x. m' x = (if x \<in> pool_foot (g_pool s pid) (set (RL pid)) then None else g_mem s x)"
    by (rule pool_free_loop_ok [OF dl]) blast
  define s' where "s' = s\<lparr>g_pools := remove1 pid (g_pools s), g_mem := m'\<rparr>"
  have eq: "fc_pool_destroy os s (Some pid) = Inr s'" using lp by (simp add: fc_pool_destroy_def Let_def s'_def)
  have sub: "set (remove1 pid (g_pools s)) = set (g_pools s) - {pid}" using inv by (simp add: proc_inv_def set_remove1_eq)
  have keep: "\<exists>hs cs. pool_ok os (g_pool s q) m' (set (RL q)) hs cs" if q: "q \<in> set (g_pools s)" "q \<noteq> pid" for q
  proof -
    have "pool_foot (g_pool s q) (set (RL q)) \<inter> pool_foot (g_pool s pid) (set (RL pid)) = {}" using inv q pid by (simp add: proc_inv_def)
    then have "m' x = g_mem s x" if "x \<in> pool_foot (g_pool s q) (set (RL q))" for x using that m' by auto
    moreover obtain hs cs where "pool_ok os (g_pool s q) (g_mem s) (set (RL q)) hs cs" using inv q by (auto simp: proc_inv_def)
    ultimately show ?thesis using pool_ok_mem by blast
  qed
  have "proc_inv os s' RL"
    using inv keep unfolding proc_inv_def by (simp add: s'_def sub) blast
  then show thesis using that [OF eq] m' by (simp add: s'_def)
qed

end
