(* ===== verification/Debug.thy ===== *)
theory Debug
  imports Lifecycle
begin

text \<open>
  The introspection functions of \<open>debug.h\<close>: snapshots of a region's counters, the
  pool's queue from MRU to LRU, and the per-chunk history.  An output parameter is
  a flag that says whether the pointer is non-null; what is written through it is
  the result.
\<close>

section \<open>Definitions\<close>

record fc_region_debug_stats =
  ds_nchunks :: uint32_t
  ds_chunks_resolved :: uint32_t
  ds_faults_handled :: uint32_t

record fc_region_debug_lru_stats =
  dl_resident_bytes :: uint64_t
  dl_resident_chunks :: uint32_t
  dl_fault_events_total :: uint64_t

record fc_pool_debug_lru_entry =
  dq_region :: nat
  dq_chunk :: uint32_t
  dq_size :: uint64_t
  dq_faults_total :: uint64_t

record fc_region_debug_lru_entry =
  dh_chunk :: uint32_t
  dh_size :: uint64_t
  dh_faults_total :: uint64_t
  dh_resident :: nat
  dh_cold :: nat

definition fc_region_debug_stats :: "proc \<Rightarrow> (nat \<times> nat) option \<Rightarrow> bool \<Rightarrow> fc_region_debug_stats res" where
  "fc_region_debug_stats s region out =
     (case region of
        Some (pid, rid) \<Rightarrow>
          if \<not> out then Inl (Misuse ''fc_region_debug_stats: nullptr region or out'')
          else let r = region_of s pid rid in
            Inr \<lparr>ds_nchunks = r_nchunks r, ds_chunks_resolved = r_chunks_resolved r, ds_faults_handled = r_faults_handled r\<rparr>
      | None \<Rightarrow> Inl (Misuse ''fc_region_debug_stats: nullptr region or out''))"

definition fc_region_debug_lru_stats :: "proc \<Rightarrow> (nat \<times> nat) option \<Rightarrow> bool \<Rightarrow> fc_region_debug_lru_stats res" where
  "fc_region_debug_lru_stats s region out =
     (case region of
        Some (pid, rid) \<Rightarrow>
          if \<not> out then Inl (Misuse ''fc_region_debug_lru_stats: nullptr region or out'')
          else let r = region_of s pid rid in
            Inr \<lparr>dl_resident_bytes = r_resident_bytes r, dl_resident_chunks = r_resident_chunks r,
                  dl_fault_events_total = r_fault_events_total r\<rparr>
      | None \<Rightarrow> Inl (Misuse ''fc_region_debug_lru_stats: nullptr region or out''))"

definition lru_entry :: "fc_pool \<Rightarrow> node \<Rightarrow> fc_pool_debug_lru_entry" where
  "lru_entry p n = (case n of (rid, chunk) \<Rightarrow>
     \<lparr>dq_region = rid, dq_chunk = chunk,
      dq_size = r_chunk_start (p_region p rid) ! (chunk + 1) - r_chunk_start (p_region p rid) ! chunk,
      dq_faults_total = r_chunk_faults_total (p_region p rid) ! chunk\<rparr>)"

text \<open>The walk over the queue: the writes to \<open>out_entries\<close>, by index, and the final count.\<close>

partial_function (option) lru_queue_loop ::
    "fc_pool \<Rightarrow> uint32_t \<Rightarrow> node ptr \<Rightarrow> uint32_t \<Rightarrow> (uint32_t \<times> fc_pool_debug_lru_entry) list \<Rightarrow>
     ((uint32_t \<times> fc_pool_debug_lru_entry) list \<times> uint32_t) option" where
  "lru_queue_loop p max_entries node cnt writes =
     (case node of
        Sentinel \<Rightarrow> Some (writes, cnt)
      | Null \<Rightarrow> None
      | Node n \<Rightarrow>
          let cnt = u32_add cnt 1 in
          lru_queue_loop p max_entries (l_next (p_lru p) (Node n)) cnt
            (if cnt \<le> max_entries then writes @ [(u32_sub cnt 1, lru_entry p n)] else writes))"

definition fc_pool_debug_lru_queue ::
    "proc \<Rightarrow> nat option \<Rightarrow> bool \<Rightarrow> uint32_t \<Rightarrow> bool \<Rightarrow> ((uint32_t \<times> fc_pool_debug_lru_entry) list \<times> uint32_t) res" where
  "fc_pool_debug_lru_queue s pool out_entries max_entries out_count =
     (case pool of
        Some pid \<Rightarrow>
          if \<not> out_entries \<or> \<not> out_count then Inl (Misuse ''fc_pool_debug_lru_queue: nullptr input'')
          else let p = g_pool s pid in
            (case lru_queue_loop p max_entries (l_next (p_lru p) Sentinel) 0 [] of
               None \<Rightarrow> Inl (Diverged ''fc_pool_debug_lru_queue'')
             | Some r \<Rightarrow> Inr r)
      | None \<Rightarrow> Inl (Misuse ''fc_pool_debug_lru_queue: nullptr input''))"

definition fc_region_debug_lru_history :: "proc \<Rightarrow> (nat \<times> nat) option \<Rightarrow> bool \<Rightarrow> fc_region_debug_lru_entry list res" where
  "fc_region_debug_lru_history s region out_entries =
     (case region of
        Some (pid, rid) \<Rightarrow>
          if \<not> out_entries then Inl (Misuse ''fc_region_debug_lru_history: nullptr input'')
          else let r = region_of s pid rid in
            Inr (map (\<lambda>chunk. \<lparr>dh_chunk = chunk, dh_size = r_chunk_start r ! (chunk + 1) - r_chunk_start r ! chunk,
                   dh_faults_total = r_chunk_faults_total r ! chunk,
                   dh_resident = (if r_lru_resident r ! chunk then 1 else 0),
                   dh_cold = (if r_lru_cold r ! chunk then 1 else 0)\<rparr>) [0..<r_nchunks r])
      | None \<Rightarrow> Inl (Misuse ''fc_region_debug_lru_history: nullptr input''))"

section \<open>What the snapshots show\<close>

lemma lru_queue_walk:
  assumes "dseg (p_lru p) x ns Sentinel" "t + length ns < UINT32_RANGE"
  shows "lru_queue_loop p mx (l_next (p_lru p) x) t w =
    Some (w @ zip [t..<min mx (t + length ns)] (map (lru_entry p) ns), t + length ns)"
  using assms
proof (induction ns arbitrary: x t w)
  case Nil
  then show ?case by (subst lru_queue_loop.simps) simp
next
  case (Cons n ns)
  have IH: "lru_queue_loop p mx (l_next (p_lru p) (Node n)) (Suc t) w' =
    Some (w' @ zip [Suc t..<min mx (Suc t + length ns)] (map (lru_entry p) ns), Suc t + length ns)" for w'
    using Cons.prems by (intro Cons.IH) auto
  have nx: "l_next (p_lru p) x = Node n" using Cons.prems(1) by simp
  have cons: "zip [t..<min mx (t + length (n # ns))] (map (lru_entry p) (n # ns)) =
      (if Suc t \<le> mx then [(t, lru_entry p n)] else []) @ zip [Suc t..<min mx (Suc t + length ns)] (map (lru_entry p) ns)"
    by (cases "Suc t \<le> mx") (simp_all add: upt_conv_Cons)
  show ?case
    unfolding nx cons using IH Cons.prems(2) by (subst lru_queue_loop.simps) (simp add: Let_def)
qed

lemma debug_queue_ok:
  assumes inv: "proc_inv os s RL" and pid: "pid \<in> set (g_pools s)"
    and ok: "pool_ok os (g_pool s pid) (g_mem s) (set (RL pid)) hs cs" and n: "length (hs @ cs) < UINT32_RANGE"
  shows "fc_pool_debug_lru_queue s (Some pid) True mx True =
    Inr (zip [0..<min mx (length (hs @ cs))] (map (lru_entry (g_pool s pid)) (hs @ cs)), length (hs @ cs))"
proof -
  have "dlist (p_lru (g_pool s pid)) (hs @ cs)" using ok by (simp add: pool_ok_def pool_lru_def lru_rep_def)
  then have "dseg (p_lru (g_pool s pid)) Sentinel (hs @ cs) Sentinel" by (simp add: dlist_def)
  from lru_queue_walk [OF this, of 0 mx "[]"] n show ?thesis by (simp add: fc_pool_debug_lru_queue_def Let_def)
qed

end
