(* ===== verification/History.thy ===== *)
theory History
  imports Debug
begin

text \<open>
  Histories of a process: every sequence of calls of the public API, of faults at
  any address, and of memory and signal operations of the rest of the program that
  leave the library's memory alone.  The invariant of theory \<open>Process\<close> holds after
  each of them, so the facts about faults and loads hold at every point of every
  history.
\<close>

text \<open>
  \<open>RL\<close> is the ghost list of regions of each pool.  The side conditions are what the
  documentation asks of callers: live handles, chunk sizes that are \<open>size_t\<close>
  values, and a \<open>fill_chunk\<close> that fills what it was asked for.  A count of
  \<open>2^32 - 1\<close> chunks is left out (see \<open>create_region_count_wraps\<close>).
\<close>

inductive history :: "os \<Rightarrow> proc \<Rightarrow> (nat \<Rightarrow> nat list) \<Rightarrow> bool" for os where
  start: "g_pools s = [] \<Longrightarrow> \<not> g_resolving_fault s \<Longrightarrow> history os s RL"
| init: "history os s RL \<Longrightarrow> history os (fc_init s) RL"
| rearm: "history os s RL \<Longrightarrow> fc_rearm_handler s = Inr s' \<Longrightarrow> history os s' RL"
| pool_create: "history os s RL \<Longrightarrow> fc_pool_create malloc_ok s target = (Some pid, s') \<Longrightarrow> history os s' (RL(pid := []))"
| region_create: "history os s RL \<Longrightarrow> pid \<in> set (g_pools s) \<Longrightarrow> \<forall>x\<in>set sizes. x < SIZE_RANGE \<Longrightarrow>
    length sizes + 1 < UINT32_RANGE \<Longrightarrow> honours_sizes sizes fill \<Longrightarrow>
    fc_region_create os s (Some pid) (length sizes) (Some sizes) (Some fill) = Inr (Some (pid, rid), s') \<Longrightarrow>
    history os s' (RL(pid := rid # RL pid))"
| fault: "history os s RL \<Longrightarrow> fault_try_resolve os s a = Inr (ours, s') \<Longrightarrow> history os s' RL"
| region_destroy: "history os s RL \<Longrightarrow> live s RL pid rid \<Longrightarrow> fc_region_destroy os s (Some (pid, rid)) = Inr s' \<Longrightarrow>
    history os s' (RL(pid := remove1 rid (RL pid)))"
| pool_destroy: "history os s RL \<Longrightarrow> pid \<in> set (g_pools s) \<Longrightarrow> fc_pool_destroy os s (Some pid) = Inr s' \<Longrightarrow> history os s' RL"
| other_memory: "history os s RL \<Longrightarrow> (\<And>pid x. pid \<in> set (g_pools s) \<Longrightarrow> x \<in> pool_foot (g_pool s pid) (set (RL pid)) \<Longrightarrow> m' x = g_mem s x) \<Longrightarrow>
    history os (s\<lparr>g_mem := m'\<rparr>) RL"
| other_signal: "history os s RL \<Longrightarrow> history os (s\<lparr>g_sig := g\<rparr>) RL"

lemma proc_inv_sig: "proc_inv os s RL \<Longrightarrow> proc_inv os (s\<lparr>g_sig := g\<rparr>) RL"
  by (simp add: proc_inv_def)

lemma proc_inv_mem:
  assumes inv: "proc_inv os s RL"
    and mem: "\<And>pid x. pid \<in> set (g_pools s) \<Longrightarrow> x \<in> pool_foot (g_pool s pid) (set (RL pid)) \<Longrightarrow> m' x = g_mem s x"
  shows "proc_inv os (s\<lparr>g_mem := m'\<rparr>) RL"
proof -
  have "\<exists>hs cs. pool_ok os (g_pool s pid) m' (set (RL pid)) hs cs" if pid: "pid \<in> set (g_pools s)" for pid
  proof -
    obtain hs cs where "pool_ok os (g_pool s pid) (g_mem s) (set (RL pid)) hs cs" using inv pid by (auto simp: proc_inv_def)
    from pool_ok_mem [OF this mem [OF pid]] show ?thesis by blast
  qed
  then show ?thesis using inv by (simp add: proc_inv_def)
qed

text \<open>Every address is a missing page of a live region, a readable page of one, or outside all of them.\<close>

lemma fault_cases:
  assumes inv: "proc_inv os s RL"
  obtains (own) pid rid off where "live s RL pid rid" "off < r_mapped_size (region_of s pid rid)"
      "a = r_base (region_of s pid rid) + off" "\<not> page_readable (region_of s pid rid) off"
    | (other) "fault_try_resolve os s a = Inr (False, s)"
proof (cases "\<exists>pid rid. live s RL pid rid \<and> a \<in> region_range (region_of s pid rid)")
  case False
  then have "fault_try_pools os s (g_pools s) a = Inr (False, s)"
    using fault_try_pools_foreign [OF inv, of a "g_pools s"] by blast
  then show thesis using other inv by (simp add: fault_try_resolve_def proc_inv_def)
next
  case True
  then obtain pid rid where lv: "live s RL pid rid" and a: "a \<in> region_range (region_of s pid rid)" by blast
  define off where "off = a - r_base (region_of s pid rid)"
  have off: "off < r_mapped_size (region_of s pid rid)" "a = r_base (region_of s pid rid) + off"
    using a by (auto simp: region_range_def off_def)
  show thesis
  proof (cases "page_readable (region_of s pid rid) off")
    case True
    then have "fault_try_pools os s (g_pools s) a = Inr (False, s)"
      using fault_try_pools_readable [OF inv lv a] by (simp add: off_def)
    then show thesis using other inv by (simp add: fault_try_resolve_def proc_inv_def)
  next
    case False
    then show thesis using own lv off by blast
  qed
qed

lemma fault_inv:
  assumes inv: "proc_inv os s RL" and f: "fault_try_resolve os s a = Inr (ours, s')"
  shows "proc_inv os s' RL"
  using inv
proof (cases rule: fault_cases [where a = a])
  case (own pid rid off)
  show ?thesis using fault_resolved [OF inv own(1,2,4)] f own(3) by simp
next
  case other
  then show ?thesis using f inv by simp
qed

lemma region_create_valid:
  assumes "fc_region_create os s (Some pid) (length sizes) (Some sizes) (Some fill) = Inr (Some h, s')"
    "\<forall>x\<in>set sizes. x < SIZE_RANGE"
  shows "valid_sizes sizes" "fault_armed (g_sig s)"
proof -
  have "sum_chunk_sizes 0 sizes \<noteq> None" and ne: "sizes \<noteq> []" and "fault_armed (g_sig s)"
    using assms(1) by (auto simp: fc_region_create_def region_prepare_def res_bind_def split: if_splits option.splits sum.splits)
  then show "valid_sizes sizes" "fault_armed (g_sig s)"
    using sum_chunk_sizes_iff [OF assms(2)] by (auto simp: valid_sizes_def)
qed

lemma history_inv:
  assumes "history os s RL" "0 < os_page_size os" "os_page_size os \<le> SIZE_RANGE"
  shows "proc_inv os s RL"
  using assms
proof (induction rule: history.induct)
  case (start s RL)
  then show ?case by (simp add: proc_inv_def)
next
  case (init s RL)
  then show ?case by (simp add: fc_init_def proc_inv_sig)
next
  case (rearm s RL s')
  then show ?case by (auto simp: fc_rearm_handler_def proc_inv_sig split: if_splits)
next
  case (pool_create s RL malloc_ok target pid s')
  then have "fc_pool_create True s target = (Some pid, s')" by (cases malloc_ok) (simp_all add: fc_pool_create_def)
  then show ?case using fc_pool_create_ok(1) pool_create by blast
next
  case (region_create s RL pid sizes fill rid s')
  then have inv: "proc_inv os s RL" by simp
  note V = region_create_valid [OF region_create.hyps(6,3)]
  show ?case
    using fc_region_create_ok [OF inv region_create.hyps(2) V(2,1) region_create.hyps(5,3,4) region_create.prems(2)] region_create.hyps(6)
    by (simp add: create_post_def Let_def fun_upd_def)
next
  case (fault s RL a ours s')
  then show ?case using fault_inv by blast
next
  case (region_destroy s RL pid rid s')
  then have inv: "proc_inv os s RL" by simp
  show ?case by (rule fc_region_destroy_ok [OF inv region_destroy.hyps(2)]) (use region_destroy.hyps(3) in \<open>simp add: fun_upd_def\<close>)
next
  case (pool_destroy s RL pid s')
  then have inv: "proc_inv os s RL" by simp
  show ?case by (rule fc_pool_destroy_ok [OF inv pool_destroy.hyps(2)]) (use pool_destroy.hyps(3) in simp)
next
  case (other_memory s RL m')
  then show ?case using proc_inv_mem by blast
next
  case (other_signal s RL g)
  then show ?case by (simp add: proc_inv_sig)
qed

text \<open>A fault on a missing page of a live region leaves the derived byte to be loaded.\<close>

lemma fault_loads:
  assumes inv: "proc_inv os s RL" and lv: "live s RL pid rid" and off: "off < r_mapped_size (region_of s pid rid)"
    and nr: "\<not> page_readable (region_of s pid rid) off"
  shows "res_ok fill_error (\<lambda>(ours, s'). ours \<and> page_readable (region_of s' pid rid) off \<and>
      mem_load (g_mem s') (r_base (region_of s pid rid) + off) = Some (content (region_of s pid rid) off))
    (fault_try_resolve os s (r_base (region_of s pid rid) + off))"
proof (rule res_ok_mono2 [OF fault_resolved [OF assms]])
  fix ours s' assume "case (ours, s') of (ours, s') \<Rightarrow> ours \<and> proc_inv os s' RL \<and> g_pools s' = g_pools s \<and> same_static s s' \<and>
    page_readable (region_of s' pid rid) off"
  then have o: ours and inv: "proc_inv os s' RL" and gp: "g_pools s' = g_pools s" and st: "same_static s s'"
    and rd: "page_readable (region_of s' pid rid) off" by auto
  have "live s' RL pid rid" using lv gp by (simp add: live_def)
  from region_load [OF live_region(1) [OF inv this], of off] rd off o
  show "case (ours, s') of (ours, s') \<Rightarrow> ours \<and> page_readable (region_of s' pid rid) off \<and>
      mem_load (g_mem s') (r_base (region_of s pid rid) + off) = Some (content (region_of s pid rid) off)"
    by (simp add: static_congs [OF same_staticD [OF st]])
qed

end
