(* ===== verification/Sample.thy ===== *)
theory Sample
  imports History
begin

text \<open>
  A small process on which the theorems are exercised: pages of four bytes, one pool
  with a budget of fourteen bytes, and one region of three chunks of 2, 7 and 6 bytes, so
  that pages 0 and 8 are shared by two chunks and pages 4 and 12 belong to one.
\<close>

definition sample_os :: os where
  "sample_os = \<lparr>os_page_size = 4, os_pick = (\<lambda>m n. find (\<lambda>a. mem_free m a (n + 3)) [4, 8, 12, 16, 20, 24, 28, 32, 36, 40, 44, 48])\<rparr>"

definition sample_fill :: fc_fill_chunk_fn where
  "sample_fill c n = ([], map (\<lambda>i. word_of_nat (16 * c + i)) [0..<n])"

definition sample_start :: proc where
  "sample_start = fc_init \<lparr>g_mem = (\<lambda>_. None), g_pools = [],
     g_pool = (\<lambda>_. \<lparr>p_target_size = 0, p_resident_bytes = 0, p_lru = links_empty, p_midpoint = Sentinel,
               p_hot_bytes = 0, p_regions = links_empty, p_region = (\<lambda>_. zero_region)\<rparr>),
     g_next_pool = 0, g_next_region = 0, g_sig = sig_start Sig_dfl, g_resolving_fault = False\<rparr>"

definition sample_pool :: proc where
  "sample_pool = snd (fc_pool_create True sample_start 14)"

definition sample_sizes :: "size_t list" where
  "sample_sizes = [2, 7, 6]"

definition sample_result :: "((nat \<times> nat) option \<times> proc) res" where
  "sample_result = fc_region_create sample_os sample_pool (Some 0) 3 (Some sample_sizes) (Some sample_fill)"

definition sample :: proc where
  "sample = (case sample_result of Inr (_, s) \<Rightarrow> s | Inl _ \<Rightarrow> sample_pool)"

definition sample_regions :: "nat \<Rightarrow> nat list" where
  "sample_regions = (\<lambda>pid. if pid = 0 then [0] else [])"

lemma sample_sizes_ok:
  "valid_sizes sample_sizes" "honours_sizes sample_sizes sample_fill" "\<forall>x\<in>set sample_sizes. x < SIZE_RANGE"
  "length sample_sizes + 1 < UINT32_RANGE" "length sample_sizes = 3" "sum_list sample_sizes = 15"
  by (auto simp: valid_sizes_def honours_sizes_def sample_sizes_def sample_fill_def)

lemma sample_page_size: "0 < os_page_size sample_os" "os_page_size sample_os \<le> SIZE_RANGE" "os_page_size sample_os = 4"
  by (simp_all add: sample_os_def)

lemma sample_start_history: "history sample_os sample_start RL"
  unfolding sample_start_def by (rule history.init [OF history.start]) simp_all

lemma sample_pool_create: "fc_pool_create True sample_start 14 = (Some 0, sample_pool)"
  by (simp add: sample_pool_def sample_start_def fc_init_def fc_pool_create_def Let_def)

lemma sample_pool_facts: "g_mem sample_pool = (\<lambda>_. None)" "g_pools sample_pool = [0]" "g_next_region sample_pool = 0"
  "fault_armed (g_sig sample_pool)"
  by (simp_all add: sample_pool_def sample_start_def fc_init_def fc_pool_create_def Let_def fault_arm_def
      fault_armed_def install_handler_def sig_start_def)

lemma sample_pool_history: "history sample_os sample_pool (\<lambda>_. [])"
  using history.pool_create [OF sample_start_history sample_pool_create, of "\<lambda>_. []"] by (simp add: fun_upd_def)

text \<open>The reservation of the region: four pages at the first free address.\<close>

lemma sample_reserve: "vm_reserve sample_os (\<lambda>_. None) 16 = Inr (4, mem_set (\<lambda>_. None) 4 16 (Some (PROT_NONE, 0)))"
  by (simp add: vm_reserve_def os_mmap_def sample_os_def round_len_def mem_free_def)

text \<open>The struct and the state that \<open>fc_region_create\<close> leaves.\<close>

definition sample_page :: "size_t \<Rightarrow> uint32_t \<Rightarrow> shared_page" where
  "sample_page p c = \<lparr>sp_page_off = p, sp_first_chunk = c, sp_last_chunk = Suc c, sp_staged = 0, sp_staging = null_scratch, sp_mapped = False\<rparr>"

definition sample_struct :: fc_region where
  "sample_struct = \<lparr>r_base = 4, r_total_size = 15, r_mapped_size = 16, r_page_size = 4, r_nchunks = 3, r_chunk_start = [0, 2, 9, 15],
     r_initialized = [False, False, False], r_shared_pages = [sample_page 0 0, sample_page 8 1], r_nshared = 2,
     r_chunk_staged = [False, False, False], r_lru_resident = [False, False, False], r_lru_cold = [False, False, False],
     r_chunk_faults_total = [0, 0, 0], r_resident_bytes = 0, r_resident_chunks = 0, r_fault_events_total = 0,
     r_fill_chunk = sample_fill, r_chunks_resolved = 0, r_faults_handled = 0\<rparr>"

definition sample_mem :: mem where
  "sample_mem = mem_set (\<lambda>_. None) 4 16 (Some (PROT_NONE, 0))"

lemma sample_mem_apply: "sample_mem x = (if 4 \<le> x \<and> x < 20 then Some (PROT_NONE, 0) else None)"
  by (simp add: sample_mem_def mem_set_def)

lemma sample_shared: "shared_pages_init (new_region sample_os sample_sizes sample_fill\<lparr>r_base := 4\<rparr>) =
  Inr (new_region sample_os sample_sizes sample_fill\<lparr>r_base := 4, r_nshared := 2, r_shared_pages := [sample_page 0 0, sample_page 8 1]\<rparr>)"
  by (simp add: shared_pages_init_def sample_sizes_def sample_os_def vm_page_size_def zero_region_def page_ceil_def page_floor_def
      find_chunk_def find_chunk_loop.simps Let_def fc_assert_def upt_rec null_scratch_def sample_page_def)

lemma sample_created: "sample_result = Inr (Some (0, 0), sample)"
  and sample_eq: "sample = sample_pool\<lparr>g_mem := sample_mem, g_pool := (g_pool sample_pool)(0 :=
        (g_pool sample_pool 0)\<lparr>p_region := (\<lambda>_. zero_region)(0 := sample_struct),
          p_regions := region_list_insert links_empty 0\<rparr>), g_next_region := 1\<rparr>"
proof -
  let ?nr = "new_region sample_os sample_sizes sample_fill"
  have "vm_reserve sample_os (g_mem sample_pool) (r_mapped_size ?nr) = Inr (4, sample_mem)"
    using sample_reserve
    by (simp add: sample_mem_def sample_pool_facts sample_sizes_ok vm_page_size_def sample_page_size page_ceil_def page_floor_def)
  moreover have "lru_init (?nr\<lparr>r_base := 4, r_nshared := 2, r_shared_pages := [sample_page 0 0, sample_page 8 1]\<rparr>) = sample_struct"
    by (simp add: sample_struct_def lru_init_def sample_sizes_def vm_page_size_def sample_page_size page_ceil_def page_floor_def
        zero_region_def numeral_3_eq_3)
  moreover have "g_pool sample_pool 0 = \<lparr>p_target_size = 14, p_resident_bytes = 0, p_lru = links_empty, p_midpoint = Sentinel,
      p_hot_bytes = 0, p_regions = links_empty, p_region = (\<lambda>_. zero_region)\<rparr>"
    by (simp add: sample_pool_def sample_start_def fc_init_def fc_pool_create_def Let_def)
  moreover note fc_region_create_eq [OF sample_pool_facts(4) sample_sizes_ok(1,3,4), of sample_os 0 sample_fill] sample_shared
  ultimately show "sample_result = Inr (Some (0, 0), sample)" "sample = sample_pool\<lparr>g_mem := sample_mem,
      g_pool := (g_pool sample_pool)(0 := (g_pool sample_pool 0)\<lparr>p_region := (\<lambda>_. zero_region)(0 := sample_struct),
        p_regions := region_list_insert links_empty 0\<rparr>), g_next_region := 1\<rparr>"
    by (simp_all add: sample_def sample_result_def sample_sizes_ok sample_pool_facts)
qed

lemma sample_state: "g_mem sample = sample_mem" "g_pools sample = [0]" "\<not> g_resolving_fault sample" "region_of sample 0 0 = sample_struct"
  "g_pool sample 0 = \<lparr>p_target_size = 14, p_resident_bytes = 0, p_lru = links_empty, p_midpoint = Sentinel,
     p_hot_bytes = 0, p_regions = region_list_insert links_empty 0, p_region = (\<lambda>_. zero_region)(0 := sample_struct)\<rparr>"
  by (simp_all add: sample_eq sample_pool_def sample_start_def fc_init_def fc_pool_create_def Let_def)

lemma sample_handler: "handler_current sample"
  by (simp add: sample_eq sample_pool_def sample_start_def fc_init_def fc_pool_create_def Let_def fault_arm_def install_handler_def sig_start_def)

lemma sample_history: "history sample_os sample sample_regions"
proof -
  have "history sample_os sample ((\<lambda>_. [])(0 := 0 # []))"
    by (rule history.region_create [OF sample_pool_history _ sample_sizes_ok(3,4,2)])
      (use sample_created in \<open>simp_all add: sample_pool_facts sample_result_def sample_sizes_ok\<close>)
  then show ?thesis by (simp add: sample_regions_def fun_upd_def)
qed

lemma sample_inv: "proc_inv sample_os sample sample_regions"
  by (rule history_inv [OF sample_history sample_page_size(1,2)])

lemma sample_live: "live sample sample_regions 0 0"
  by (simp add: live_def sample_regions_def sample_state)

lemma sample_region_inv: "region_inv sample_os sample_struct sample_mem"
  using live_region(1) [OF sample_inv sample_live] by (simp add: sample_state)

lemma sample_struct_fields:
  "r_base sample_struct = 4" "r_mapped_size sample_struct = 16" "r_page_size sample_struct = 4" "r_nchunks sample_struct = 3"
  "r_chunk_start sample_struct = [0, 2, 9, 15]" "r_total_size sample_struct = 15" "region_layout sample_struct" "shared_static sample_struct"
  using sample_region_inv by (simp_all add: sample_struct_def region_inv_def region_wf_def)

lemma sample_chunks: "find_chunk sample_struct 1 = 0" "find_chunk sample_struct 3 = 1" "find_chunk sample_struct 12 = 2"
  by (simp_all add: find_chunk_def sample_struct_def find_chunk_loop.simps Let_def)

lemma sample_content: "content sample_struct 3 = 17" "content sample_struct 15 = 0" "content sample_struct 12 = 35"
  using sample_chunks by (simp_all add: content_def sample_struct_def fill_bytes_def sample_fill_def)

text \<open>No page is readable at first, so every load of the sample goes through a fault.\<close>

lemma sample_unreadable: "off < 16 \<Longrightarrow> \<not> page_readable sample_struct off"
  using region_load [OF sample_region_inv, of off]
  by (simp add: sample_struct_fields sample_mem_apply mem_load_def split: if_splits)

section \<open>Running the sample\<close>

text \<open>The definitions that evaluate a fault on a concrete process.\<close>

lemma mem_free_eval [fc_defs]: "mem_free m a n \<longleftrightarrow> list_all (\<lambda>x. m x = None) [a..<a + n]"
  by (auto simp: mem_free_def list_all_iff)

lemma mem_mapped_eval [fc_defs]: "mem_mapped m a n \<longleftrightarrow> list_all (\<lambda>x. m x \<noteq> None) [a..<a + n]"
  by (auto simp: mem_mapped_def list_all_iff)

lemma evict_idle [fc_defs]: "p_resident_bytes p \<le> p_target_size p \<Longrightarrow> evict_until_within_budget os p rid lo hi m = Inr (p, m)"
  by (simp add: evict_until_within_budget_def)

lemma rebalance_idle [fc_defs]: "p_midpoint p = l_next (p_lru p) Sentinel \<Longrightarrow> lru_rebalance os p m = Inr (p, m)"
  by (simp add: lru_rebalance_def)

lemmas [fc_defs] = Let_def page_floor_def page_ceil_def vm_scratch_create_def os_mmap_def round_len_def call_fill_chunk_def
  mem_store_def mem_writable_def stage_chunk_def find_shared_page_def find_shared_loop.simps null_scratch_def
  stage_into_shared_page_def mem_copy_def mem_bytes_def fc_assert_def publish_exclusive_def vm_scratch_seal_def
  vm_scratch_discard_def vm_scratch_publish_def chunk_exclusive_pages_def os_mprotect_def os_mremap_def os_munmap_def
  fill_chunk_region_def resolve_fault_locked_def fill_chunk_locked_def find_chunk_def find_chunk_loop.simps lru_insert_mru_def
  region_list_insert_def links_empty_def upd_region_def lru_node_size_def page_readable_def find_region_locked_def
  find_region_loop.simps fault_try_resolve_def

definition sample_hot :: proc where
  "sample_hot = (case fault_try_resolve sample_os sample 16 of Inr (_, s) \<Rightarrow> s | Inl _ \<Rightarrow> sample)"

definition sample_hot_mem :: mem where
  "sample_hot_mem = mem_set (mem_move (mem_protect (mem_put (mem_set (mem_put (mem_set sample_mem 20 8 (Some (PROT_RW, 0))) 21
     (map (\<lambda>i. 32 + word_of_nat i) [0..<6])) 28 4 (Some (PROT_RW, 0))) 29 [32, 33, 34]) 20 8 PROT_READ) 24 16 4) 20 4 None"

definition sample_hot_pool :: fc_pool where
  "sample_hot_pool = \<lparr>p_target_size = 14, p_resident_bytes = 6, p_lru = region_list_insert links_empty (0, Suc (Suc 0)),
     p_midpoint = Node (0, Suc (Suc 0)), p_hot_bytes = 6, p_regions = region_list_insert links_empty 0,
     p_region = (\<lambda>_. zero_region)(0 := sample_struct\<lparr>r_initialized := [False, False, True], r_chunk_staged := [False, False, True],
       r_shared_pages := [sample_page 0 0, (sample_page 8 1)\<lparr>sp_staged := 1,
         sp_staging := \<lparr>s_addr = 28, s_size = 4, s_section = 0, s_consumed = 0\<rparr>\<rparr>],
       r_lru_resident := [False, False, True], r_chunk_faults_total := [0, 0, 1], r_resident_bytes := 6, r_resident_chunks := 1,
       r_fault_events_total := 1, r_chunks_resolved := 1, r_faults_handled := 1\<rparr>)\<rparr>"

lemma sample_first_run: "\<exists>s'. fault_try_resolve sample_os sample 16 = Inr (True, s') \<and> g_pool s' 0 = sample_hot_pool \<and>
  g_mem s' = sample_hot_mem \<and> \<not> g_resolving_fault s'"
  by (simp add: sample_hot_pool_def sample_hot_mem_def sample_state sample_mem_apply sample_struct_def sample_page_def sample_os_def
      sample_fill_def fc_defs)

lemma sample_fault: "fault_try_resolve sample_os sample 16 = Inr (True, sample_hot)"
  using sample_first_run unfolding sample_hot_def by auto

lemma sample_hot_readable: "page_readable (region_of sample_hot 0 0) 12"
proof -
  have "g_pool sample_hot 0 = sample_hot_pool" using sample_first_run unfolding sample_hot_def by auto
  then show ?thesis by (simp add: sample_hot_pool_def sample_struct_def sample_page_def fc_defs)
qed

lemma sample_hot_history: "history sample_os sample_hot sample_regions"
  by (rule history.fault [OF sample_history sample_fault])

lemma sample_hot_inv: "proc_inv sample_os sample_hot sample_regions"
  by (rule history_inv [OF sample_hot_history sample_page_size(1,2)])

lemma sample_hot_state: "g_pools sample_hot = [0]" "live sample_hot sample_regions 0 0"
  "static (region_of sample_hot 0 0) = static sample_struct"
proof -
  have "res_ok fill_error (\<lambda>(ours, s'). ours \<and> proc_inv sample_os s' sample_regions \<and> g_pools s' = g_pools sample \<and>
      same_static sample s' \<and> page_readable (region_of s' 0 0) 12) (fault_try_resolve sample_os sample 16)"
    using fault_resolved [OF sample_inv sample_live, of 12] sample_unreadable [of 12]
    by (simp add: sample_state sample_struct_fields)
  then show "g_pools sample_hot = [0]" "static (region_of sample_hot 0 0) = static sample_struct"
    by (simp_all add: sample_fault sample_state same_static_def)
  then show "live sample_hot sample_regions 0 0" by (simp add: live_def sample_regions_def)
qed

lemmas sample_hot_fields = static_fields [OF sample_hot_state(3), unfolded sample_struct_fields]
  content_cong [OF sample_hot_state(3)]

text \<open>
  A second fault, on the page of chunk 1.  Both chunks fit the budget, the page they
  share is installed, and the older chunk is demoted.
\<close>

lemma mem_move_apply [fc_defs]:
  "mem_move m old new n x =
    (if new \<le> x \<and> x < new + n then m (old + (x - new)) else if old \<le> x \<and> x < old + n then None else m x)"
  by (simp add: mem_move_def)

lemmas loop_numerals [fc_defs] = lru_rebalance_loop.simps(2) [of "pred_numeral k" for k, folded numeral_eq_Suc]
  evict_loop.simps(2) [of "pred_numeral k" for k, folded numeral_eq_Suc]

lemmas [fc_defs] = install_shared_page_def lru_rebalance_def chunk_set_readable_def vm_set_readable_def

lemma sample_hot_eq: "g_pool sample_hot 0 = sample_hot_pool" "g_mem sample_hot = sample_hot_mem" "\<not> g_resolving_fault sample_hot"
  using sample_first_run unfolding sample_hot_def by auto

definition sample_cold :: proc where
  "sample_cold = (case fault_try_resolve sample_os sample_hot 8 of Inr (_, s) \<Rightarrow> s | Inl _ \<Rightarrow> sample)"

lemma sample_second_run: "\<exists>s'. fault_try_resolve sample_os sample_hot 8 = Inr (True, s') \<and>
  r_lru_resident (region_of s' 0 0) = [False, True, True] \<and> r_lru_cold (region_of s' 0 0) = [False, False, True] \<and>
  r_nchunks (region_of s' 0 0) = 3 \<and> r_chunk_start (region_of s' 0 0) = [0, 2, 9, 15] \<and>
  r_base (region_of s' 0 0) = 4 \<and> r_mapped_size (region_of s' 0 0) = 16 \<and> p_target_size (g_pool s' 0) = 14 \<and> g_pools s' = [0]"
  by (simp add: sample_hot_state sample_hot_eq sample_hot_mem_def sample_hot_pool_def sample_mem_apply
      sample_struct_def sample_page_def sample_os_def sample_fill_def fc_defs)

lemma sample_second_fault:
  "fault_try_resolve sample_os sample_hot 8 = Inr (True, sample_cold)"
  "r_lru_resident (region_of sample_cold 0 0) = [False, True, True]" "r_lru_cold (region_of sample_cold 0 0) = [False, False, True]"
  "r_nchunks (region_of sample_cold 0 0) = 3" "p_target_size (g_pool sample_cold 0) = 14" "g_pools sample_cold = [0]"
  and sample_cold_starts: "r_chunk_start (region_of sample_cold 0 0) = [0, 2, 9, 15]"
  and sample_cold_range: "r_base (region_of sample_cold 0 0) = 4" "r_mapped_size (region_of sample_cold 0 0) = 16"
  using sample_second_run unfolding sample_cold_def by auto

lemma two_halves:
  assumes "A \<union> B = {a, b}" "b \<notin> A" "a \<notin> B"
  shows "A = {a} \<and> B = {b}"
proof -
  have "x \<in> A \<longleftrightarrow> x = a" "x \<in> B \<longleftrightarrow> x = b" for x using assms(2,3) eqset_imp_iff [OF assms(1), of x] by auto
  then show ?thesis by auto
qed

lemma sample_cold_history: "history sample_os sample_cold sample_regions"
  by (rule history.fault [OF sample_hot_history sample_second_fault(1)])

text \<open>The queue of the sample after the two faults: chunk 1 is hot, chunk 2 cold.\<close>

lemma sample_cold_queue: "pool_ok sample_os (g_pool sample_cold 0) (g_mem sample_cold) {0} [(0, 1)] [(0, 2)]"
proof -
  have "proc_inv sample_os sample_cold sample_regions" by (rule history_inv [OF sample_cold_history sample_page_size(1,2)])
  moreover have "live sample_cold sample_regions 0 0" by (simp add: live_def sample_regions_def sample_second_fault)
  ultimately obtain hs cs where ok: "pool_ok sample_os (g_pool sample_cold 0) (g_mem sample_cold) {0} hs cs"
    using live_region(3) [of sample_os sample_cold sample_regions 0 0] by (auto simp: sample_regions_def)
  then have lru: "pool_lru sample_os (g_pool sample_cold 0) {0} hs cs" by (simp add: pool_ok_def)
  note L = pool_lruD [OF lru]
  have less3: "c < 3 \<longleftrightarrow> c = 0 \<or> c = 1 \<or> c = 2" for c :: nat by auto
  have "n \<in> nodes (g_pool sample_cold 0) {0} \<longleftrightarrow> fst n = 0 \<and> snd n < 3" for n
    by (cases n) (simp add: nodes_def sample_second_fault(4) cong: conj_cong)
  then have "n \<in> set hs \<union> set cs \<longleftrightarrow> n = (0, 1) \<or> n = (0, 2)" for n
    unfolding L(4) using less3 [of "snd n"] by (cases n) (auto simp: sample_second_fault(2))
  then have nodes: "set hs \<union> set cs = {(0, 1), (0, 2)}" by blast
  have hot: "\<not> [False, False, True] ! c" if "(0, c) \<in> set hs" for c using L(5) [OF that] by (simp add: sample_second_fault)
  have cold: "[False, False, True] ! c" if "(0, c) \<in> set cs" for c using L(6) [OF that] by (simp add: sample_second_fault)
  have n: "(0, 2) \<notin> set hs" "(0, 1) \<notin> set cs" using hot [of 2] cold [of 1] by auto
  have "set hs = {(0, 1)}" "set cs = {(0, 2)}" using two_halves [OF nodes n] by simp_all
  moreover have "distinct hs" "distinct cs" using L(7) by auto
  ultimately have "hs = [(0, 1)]" "cs = [(0, 2)]" by (auto simp: distinct_singleton_set)
  then show ?thesis using ok by simp
qed

lemma sample_cold_resident: "resident_nodes (g_pool sample_cold 0) {0} = {(0, 1), (0, 2)}"
  using resident_nodes_queue [of sample_os _ _ "[(0, 1)]" "[(0, 2)]"] sample_cold_queue by (auto simp: pool_ok_def)

end
