(* ===== verification/Locks.thy ===== *)
theory Locks
  imports FC_Prelude
begin

text \<open>
  Threads that run sections of code between operations on mutexes.  A program counter says which mutexes the
  thread holds and what its next step does to one of them; the step itself is a function of the counter and
  the shared state.  The locale states the discipline (counters and lock operations agree, and mutexes are
  acquired in the order of their rank) and derives mutual exclusion and the absence of deadlocks.
\<close>

datatype 'l lockact = Stop | Keep | Acquire 'l | Release 'l

record ('pc, 'l, 's) threads =
  t_shared :: 's
  t_own :: "'l \<Rightarrow> nat option"
  t_pc :: "nat \<Rightarrow> 'pc"

definition lock_after :: "nat \<Rightarrow> 'l lockact \<Rightarrow> ('l \<Rightarrow> nat option) \<Rightarrow> 'l \<Rightarrow> nat option" where
  "lock_after t a own = (case a of Acquire l \<Rightarrow> own(l := Some t) | Release l \<Rightarrow> own(l := None) | _ \<Rightarrow> own)"

definition lock_waits :: "'l lockact \<Rightarrow> ('l \<Rightarrow> nat option) \<Rightarrow> bool" where
  "lock_waits a own = (case a of Acquire l \<Rightarrow> own l \<noteq> None | _ \<Rightarrow> False)"

text \<open>
  One step of a thread: \<open>None\<close> when it has nothing to do or waits for a mutex, and \<open>Inl\<close> when
  it aborts the process.
\<close>

definition thread_step :: "('pc \<Rightarrow> 'l lockact) \<Rightarrow> ('pc \<Rightarrow> 's \<Rightarrow> ('pc \<times> 's) res) \<Rightarrow> nat \<Rightarrow> ('pc, 'l, 's) threads \<Rightarrow>
    ('pc, 'l, 's) threads res option" where
  "thread_step act exec t w =
     (let pc = t_pc w t; a = act pc in
      if a = Stop \<or> lock_waits a (t_own w) then None
      else Some (res_bind (exec pc (t_shared w)) (\<lambda>(pc', s).
        Inr \<lparr>t_shared = s, t_own = lock_after t a (t_own w), t_pc = (t_pc w)(t := pc')\<rparr>)))"

locale lock_order =
  fixes act :: "'pc \<Rightarrow> 'l lockact" and exec :: "'pc \<Rightarrow> 's \<Rightarrow> ('pc \<times> 's) res" and holds :: "'pc \<Rightarrow> 'l set"
    and rank :: "'l \<Rightarrow> nat" and top :: nat
  assumes stopped: "act pc = Stop \<Longrightarrow> holds pc = {}"
    and ordered: "act pc = Acquire l \<Longrightarrow> l' \<in> holds pc \<Longrightarrow> rank l' < rank l"
    and ranked: "rank l \<le> top"
    and released: "act pc = Release l \<Longrightarrow> l \<in> holds pc"
    and moves: "exec pc s = Inr (pc', s') \<Longrightarrow> act pc \<noteq> Stop \<Longrightarrow>
      holds pc' = (case act pc of Acquire l \<Rightarrow> insert l (holds pc) | Release l \<Rightarrow> holds pc - {l} | _ \<Rightarrow> holds pc)"
begin

text \<open>The owner of a mutex is the thread whose counter says so.\<close>

definition owned :: "('l \<Rightarrow> nat option) \<Rightarrow> (nat \<Rightarrow> 'pc) \<Rightarrow> bool" where
  "owned own pcs \<longleftrightarrow> (\<forall>l t. own l = Some t \<longleftrightarrow> l \<in> holds (pcs t))"

lemma exclusive: "owned own pcs \<Longrightarrow> l \<in> holds (pcs t) \<Longrightarrow> l \<in> holds (pcs t') \<Longrightarrow> t = t'"
  unfolding owned_def by (metis option.inject)

lemma owned_step:
  assumes "owned own pcs" "exec (pcs t) s = Inr (pc', s')" "act (pcs t) \<noteq> Stop" "\<not> lock_waits (act (pcs t)) own"
  shows "owned (lock_after t (act (pcs t)) own) (pcs(t := pc'))"
  unfolding owned_def
proof (intro allI)
  fix l u
  have old: "own l = Some u \<longleftrightarrow> l \<in> holds (pcs u)" using assms(1) by (simp add: owned_def)
  have other: "l \<notin> holds (pcs u)" if "own l = Some t" "u \<noteq> t" using assms(1) that by (metis owned_def option.inject)
  show "lock_after t (act (pcs t)) own l = Some u \<longleftrightarrow> l \<in> holds ((pcs(t := pc')) u)"
  proof (cases "act (pcs t)")
    case (Acquire k)
    then have "own k = None" using assms(4) by (simp add: lock_waits_def)
    then have "k \<notin> holds (pcs u)" using assms(1) by (metis owned_def option.distinct(1))
    then show ?thesis using Acquire old moves [OF assms(2,3)] by (auto simp: lock_after_def)
  next
    case (Release k)
    then have "own k = Some t" using released assms(1) by (simp add: owned_def)
    then show ?thesis using Release old other moves [OF assms(2,3)] by (auto simp: lock_after_def)
  qed (use assms(3) old moves [OF assms(2,3)] in \<open>auto simp: lock_after_def\<close>)
qed

text \<open>Follow the owners: each waits for a mutex of higher rank than the one it holds.\<close>

lemma owner_runs:
  assumes "owned own pcs" "own l = Some t"
  shows "\<exists>u. act (pcs u) \<noteq> Stop \<and> \<not> lock_waits (act (pcs u)) own"
  using assms(2)
proof (induction "top - rank l" arbitrary: l t rule: less_induct)
  case less
  have l: "l \<in> holds (pcs t)" using assms(1) less.prems by (simp add: owned_def)
  then have go: "act (pcs t) \<noteq> Stop" using stopped by blast
  show ?case
  proof (cases "lock_waits (act (pcs t)) own")
    case False
    then show ?thesis using go by blast
  next
    case True
    then obtain k u where k: "act (pcs t) = Acquire k" "own k = Some u" by (auto simp: lock_waits_def split: lockact.splits)
    have "top - rank k < top - rank l" using ordered [OF k(1) l] ranked [of k] by linarith
    then show ?thesis using less.hyps k(2) by blast
  qed
qed

lemma no_deadlock:
  assumes "owned own pcs" "act (pcs t) \<noteq> Stop"
  shows "\<exists>u. act (pcs u) \<noteq> Stop \<and> \<not> lock_waits (act (pcs u)) own"
proof (cases "lock_waits (act (pcs t)) own")
  case True
  then obtain k u where "act (pcs t) = Acquire k" "own k = Some u" by (auto simp: lock_waits_def split: lockact.splits)
  then show ?thesis using owner_runs [OF assms(1)] by blast
qed (use assms(2) in blast)

end

end
