(* ===== verification/Threads.thy ===== *)
theory Threads
  imports Locks History
begin

text \<open>
  The in-process backend with threads.  Every function of \<open>inproc.c\<close> that takes a mutex is cut at its lock
  and unlock calls into sections; a thread's program counter names the section it is about to run and
  carries its local variables.  The scan of \<open>fault_try_resolve\<close> lets go of a pool's mutex before it takes the
  next one, regions are built before and freed after the section that links or unlinks them, and a pool
  is torn down without any mutex: between any two sections any other thread may run.  \<open>fc_init\<close>,
  \<open>fc_rearm_handler\<close> and \<open>fc_region_base\<close> take no mutex and have no section.
\<close>

section \<open>Mutexes and sections\<close>

datatype mutex = G_pools_lock | Pool_lock nat

datatype ret = Ret_void | Ret_bool bool | Ret_pool "nat option" | Ret_region "(nat \<times> nat) option"

text \<open>
  \<open>Done\<close> is a thread outside the library.  A pool pointer of the scan is \<open>None\<close> at the end of the chain.
  The thread-local flag \<open>g_resolving_fault\<close> is set in \<open>Fault_resolve\<close> and nowhere else.
  \<open>Debug_read\<close> stands for the snapshot functions of \<open>debug.h\<close>, which change nothing under the pool's mutex.
\<close>

datatype pc =
    Done ret
  | Fault_call addr
  | Fault_pool addr "nat option"
  | Fault_region addr nat
  | Fault_resolve nat nat size_t
  | Fault_resolved nat
  | Fault_next addr nat
  | Fault_unlock bool
  | Pool_call bool size_t
  | Pool_link nat
  | Pool_linking nat
  | Pool_linked nat
  | Region_call nat "size_t list" fc_fill_chunk_fn
  | Region_lock nat nat fc_region
  | Region_insert nat nat fc_region
  | Region_inserted nat nat
  | Destroy_call nat nat
  | Destroy_forget nat nat
  | Destroy_unlock nat fc_region
  | Destroy_free fc_region
  | Pdestroy_call nat
  | Pdestroy_unlink nat
  | Pdestroy_unlock nat
  | Pdestroy_free nat
  | Debug_call nat
  | Debug_read nat
  | Debug_unlock nat

primrec pc_act :: "pc \<Rightarrow> mutex lockact" where
  "pc_act (Done r) = Stop"
| "pc_act (Fault_call a) = Acquire G_pools_lock"
| "pc_act (Fault_pool a p) = (case p of None \<Rightarrow> Keep | Some pid \<Rightarrow> Acquire (Pool_lock pid))"
| "pc_act (Fault_region x y) = Keep"
| "pc_act (Fault_resolve x y z) = Keep"
| "pc_act (Fault_resolved pid) = Release (Pool_lock pid)"
| "pc_act (Fault_next a pid) = Release (Pool_lock pid)"
| "pc_act (Fault_unlock b) = Release G_pools_lock"
| "pc_act (Pool_call x y) = Keep"
| "pc_act (Pool_link pid) = Acquire G_pools_lock"
| "pc_act (Pool_linking x) = Keep"
| "pc_act (Pool_linked pid) = Release G_pools_lock"
| "pc_act (Region_call x y z) = Keep"
| "pc_act (Region_lock pid rid r) = Acquire (Pool_lock pid)"
| "pc_act (Region_insert x y z) = Keep"
| "pc_act (Region_inserted pid rid) = Release (Pool_lock pid)"
| "pc_act (Destroy_call pid rid) = Acquire (Pool_lock pid)"
| "pc_act (Destroy_forget x y) = Keep"
| "pc_act (Destroy_unlock pid r) = Release (Pool_lock pid)"
| "pc_act (Destroy_free x) = Keep"
| "pc_act (Pdestroy_call pid) = Acquire G_pools_lock"
| "pc_act (Pdestroy_unlink x) = Keep"
| "pc_act (Pdestroy_unlock pid) = Release G_pools_lock"
| "pc_act (Pdestroy_free x) = Keep"
| "pc_act (Debug_call pid) = Acquire (Pool_lock pid)"
| "pc_act (Debug_read x) = Keep"
| "pc_act (Debug_unlock pid) = Release (Pool_lock pid)"

primrec pc_holds :: "pc \<Rightarrow> mutex set" where
  "pc_holds (Done x) = {}"
| "pc_holds (Fault_call x) = {}"
| "pc_holds (Fault_pool a p) = {G_pools_lock}"
| "pc_holds (Fault_region a pid) = {G_pools_lock, Pool_lock pid}"
| "pc_holds (Fault_resolve pid rid off) = {G_pools_lock, Pool_lock pid}"
| "pc_holds (Fault_resolved pid) = {G_pools_lock, Pool_lock pid}"
| "pc_holds (Fault_next a pid) = {G_pools_lock, Pool_lock pid}"
| "pc_holds (Fault_unlock b) = {G_pools_lock}"
| "pc_holds (Pool_call x y) = {}"
| "pc_holds (Pool_link x) = {}"
| "pc_holds (Pool_linking pid) = {G_pools_lock}"
| "pc_holds (Pool_linked pid) = {G_pools_lock}"
| "pc_holds (Region_call x y z) = {}"
| "pc_holds (Region_lock x y z) = {}"
| "pc_holds (Region_insert pid rid r) = {Pool_lock pid}"
| "pc_holds (Region_inserted pid rid) = {Pool_lock pid}"
| "pc_holds (Destroy_call x y) = {}"
| "pc_holds (Destroy_forget pid rid) = {Pool_lock pid}"
| "pc_holds (Destroy_unlock pid r) = {Pool_lock pid}"
| "pc_holds (Destroy_free x) = {}"
| "pc_holds (Pdestroy_call x) = {}"
| "pc_holds (Pdestroy_unlink pid) = {G_pools_lock}"
| "pc_holds (Pdestroy_unlock pid) = {G_pools_lock}"
| "pc_holds (Pdestroy_free x) = {}"
| "pc_holds (Debug_call x) = {}"
| "pc_holds (Debug_read pid) = {Pool_lock pid}"
| "pc_holds (Debug_unlock pid) = {Pool_lock pid}"

text \<open>The chain of \<open>next_pool\<close> pointers.\<close>

definition first_pool :: "nat list \<Rightarrow> nat option" where
  "first_pool pids = (case pids of [] \<Rightarrow> None | pid # _ \<Rightarrow> Some pid)"

fun next_pool :: "nat list \<Rightarrow> nat \<Rightarrow> nat option" where
  "next_pool [] pid = None"
| "next_pool (q # pids) pid = (if q = pid then first_pool pids else next_pool pids pid)"

text \<open>
  The shared state is the process and, as a ghost, the regions of each pool in list order.
  Handles are assigned when the memory of the struct is allocated.
\<close>

type_synonym shared = "proc \<times> (nat \<Rightarrow> nat list)"

definition new_pool :: "size_t \<Rightarrow> fc_pool" where
  "new_pool target = \<lparr>p_target_size = target, p_resident_bytes = 0, p_lru = links_empty, p_midpoint = Sentinel,
     p_hot_bytes = 0, p_regions = links_empty, p_region = (\<lambda>_. zero_region)\<rparr>"

definition set_pool :: "proc \<Rightarrow> nat \<Rightarrow> fc_pool \<Rightarrow> mem \<Rightarrow> proc" where
  "set_pool s pid p m = s\<lparr>g_pool := (g_pool s)(pid := p), g_mem := m\<rparr>"

fun pc_exec :: "os \<Rightarrow> pc \<Rightarrow> shared \<Rightarrow> (pc \<times> shared) res" where
  "pc_exec os (Done r) (s, RL) = Inr (Done r, s, RL)"
| "pc_exec os (Fault_call a) (s, RL) = Inr (Fault_pool a (first_pool (g_pools s)), s, RL)"
| "pc_exec os (Fault_pool a None) (s, RL) = Inr (Fault_unlock False, s, RL)"
| "pc_exec os (Fault_pool a (Some pid)) (s, RL) = Inr (Fault_region a pid, s, RL)"
| "pc_exec os (Fault_region a pid) (s, RL) =
     (case find_region_locked (g_pool s pid) a of
        None \<Rightarrow> Inl (Diverged ''find_region_locked'')
      | Some None \<Rightarrow> Inr (Fault_next a pid, s, RL)
      | Some (Some rid) \<Rightarrow>
          let r = region_of s pid rid; fault_off = a - r_base r
          in if \<not> page_readable r fault_off then Inr (Fault_resolve pid rid fault_off, s, RL) else Inr (Fault_next a pid, s, RL))"
| "pc_exec os (Fault_resolve pid rid off) (s, RL) =
     res_bind (resolve_fault_locked os (g_pool s pid) rid off (g_mem s)) (\<lambda>(p, m). Inr (Fault_resolved pid, set_pool s pid p m, RL))"
| "pc_exec os (Fault_resolved pid) (s, RL) = Inr (Fault_unlock True, s, RL)"
| "pc_exec os (Fault_next a pid) (s, RL) = Inr (Fault_pool a (next_pool (g_pools s) pid), s, RL)"
| "pc_exec os (Fault_unlock b) (s, RL) = Inr (Done (Ret_bool b), s, RL)"
| "pc_exec os (Pool_call malloc_ok target) (s, RL) =
     (if \<not> malloc_ok then Inr (Done (Ret_pool None), s, RL)
      else let pid = g_next_pool s
        in Inr (Pool_link pid, s\<lparr>g_pool := (g_pool s)(pid := new_pool target), g_next_pool := Suc pid\<rparr>, RL(pid := [])))"
| "pc_exec os (Pool_link pid) (s, RL) = Inr (Pool_linking pid, s, RL)"
| "pc_exec os (Pool_linking pid) (s, RL) = Inr (Pool_linked pid, s\<lparr>g_pools := pid # g_pools s\<rparr>, RL)"
| "pc_exec os (Pool_linked pid) (s, RL) = Inr (Done (Ret_pool (Some pid)), s, RL)"
| "pc_exec os (Region_call pid sizes fill) (s, RL) =
     res_bind (region_prepare os (g_sig s) (g_mem s) (Some pid) (length sizes) (Some sizes) (Some fill)) (\<lambda>(region, m).
     case region of
       None \<Rightarrow> Inr (Done (Ret_region None), s, RL)
     | Some r \<Rightarrow> Inr (Region_lock pid (g_next_region s) r, s\<lparr>g_mem := m, g_next_region := Suc (g_next_region s)\<rparr>, RL))"
| "pc_exec os (Region_lock pid rid r) (s, RL) = Inr (Region_insert pid rid r, s, RL)"
| "pc_exec os (Region_insert pid rid r) (s, RL) =
     Inr (Region_inserted pid rid, set_pool s pid (region_link (g_pool s pid) rid r) (g_mem s), RL(pid := rid # RL pid))"
| "pc_exec os (Region_inserted pid rid) (s, RL) = Inr (Done (Ret_region (Some (pid, rid))), s, RL)"
| "pc_exec os (Destroy_call pid rid) (s, RL) = Inr (Destroy_forget pid rid, s, RL)"
| "pc_exec os (Destroy_forget pid rid) (s, RL) =
     res_bind (region_unlink (g_pool s pid) rid) (\<lambda>p.
     Inr (Destroy_unlock pid (p_region p rid), set_pool s pid p (g_mem s), RL(pid := remove1 rid (RL pid))))"
| "pc_exec os (Destroy_unlock pid r) (s, RL) = Inr (Destroy_free r, s, RL)"
| "pc_exec os (Destroy_free r) (s, RL) = res_bind (region_free os r (g_mem s)) (\<lambda>m. Inr (Done Ret_void, s\<lparr>g_mem := m\<rparr>, RL))"
| "pc_exec os (Pdestroy_call pid) (s, RL) = Inr (Pdestroy_unlink pid, s, RL)"
| "pc_exec os (Pdestroy_unlink pid) (s, RL) = Inr (Pdestroy_unlock pid, s\<lparr>g_pools := remove1 pid (g_pools s)\<rparr>, RL)"
| "pc_exec os (Pdestroy_unlock pid) (s, RL) = Inr (Pdestroy_free pid, s, RL)"
| "pc_exec os (Pdestroy_free pid) (s, RL) =
     (case l_next (p_regions (g_pool s pid)) Sentinel of
        Sentinel \<Rightarrow> Inr (Done Ret_void, s, RL)
      | Null \<Rightarrow> Inl (Segv 0)
      | Node rid \<Rightarrow>
          let p = (g_pool s pid)\<lparr>p_regions := region_list_remove (p_regions (g_pool s pid)) rid\<rparr>
          in res_bind (region_free os (p_region p rid) (g_mem s)) (\<lambda>m.
             Inr (Pdestroy_free pid, set_pool s pid p m, RL(pid := remove1 rid (RL pid)))))"
| "pc_exec os (Debug_call pid) (s, RL) = Inr (Debug_read pid, s, RL)"
| "pc_exec os (Debug_read pid) (s, RL) = Inr (Debug_unlock pid, s, RL)"
| "pc_exec os (Debug_unlock pid) (s, RL) = Inr (Done Ret_void, s, RL)"

type_synonym system = "(pc, mutex, shared) threads"

abbreviation sys_proc :: "system \<Rightarrow> proc" where
  "sys_proc w \<equiv> fst (t_shared w)"

abbreviation sys_regions :: "system \<Rightarrow> nat \<Rightarrow> nat list" where
  "sys_regions w \<equiv> snd (t_shared w)"

definition inproc_step :: "os \<Rightarrow> nat \<Rightarrow> system \<Rightarrow> system res option" where
  "inproc_step os = thread_step pc_act (pc_exec os)"

text \<open>The global mutex comes before those of the pools.\<close>

fun mutex_rank :: "mutex \<Rightarrow> nat" where
  "mutex_rank G_pools_lock = 0"
| "mutex_rank (Pool_lock pid) = 1"

lemma pc_exec_holds:
  assumes "pc_exec os pc s = Inr (pc', s')" "pc_act pc \<noteq> Stop"
  shows "pc_holds pc' = (case pc_act pc of Acquire l \<Rightarrow> insert l (pc_holds pc) | Release l \<Rightarrow> pc_holds pc - {l} | _ \<Rightarrow> pc_holds pc)"
proof (cases s)
  case (Pair p RL)
  show ?thesis
  proof (cases pc)
    case (Fault_pool a q)
    then show ?thesis using assms Pair by (cases q) auto
  qed (use assms Pair in \<open>auto simp: Let_def res_bind_eq_Inr split: if_splits option.splits ptr.splits\<close>)
qed

interpretation inproc_locks: lock_order pc_act "pc_exec os" pc_holds mutex_rank 1
proof
  fix pc :: pc and l l' :: mutex and s pc' s'
  show "pc_act pc = Stop \<Longrightarrow> pc_holds pc = {}" by (cases pc) (auto split: option.splits)
  show "pc_act pc = Acquire l \<Longrightarrow> l' \<in> pc_holds pc \<Longrightarrow> mutex_rank l' < mutex_rank l" by (cases pc) (auto split: option.splits)
  show "mutex_rank l \<le> 1" by (cases l) auto
  show "pc_act pc = Release l \<Longrightarrow> l \<in> pc_holds pc" by (cases pc) (auto split: option.splits)
  show "pc_exec os pc s = Inr (pc', s') \<Longrightarrow> pc_act pc \<noteq> Stop \<Longrightarrow>
    pc_holds pc' = (case pc_act pc of Acquire l \<Rightarrow> insert l (pc_holds pc) | Release l \<Rightarrow> pc_holds pc - {l} | _ \<Rightarrow> pc_holds pc)"
    by (rule pc_exec_holds)
qed

end
