(* ===== verification/Threads_Inv.thy ===== *)
theory Threads_Inv
  imports Threads
begin

text \<open>
  The invariant of the threads.  Memory belongs to owners: a registered pool owns what its regions occupy, and a
  thread owns a region it has built and not yet linked, a region it has unlinked and not yet freed,
  and the pool it is tearing down.  Owners are disjoint, and a step changes the memory of its own owners only.
\<close>

section \<open>Owners of memory\<close>

definition fresh_region :: "fc_region \<Rightarrow> bool" where
  "fresh_region r \<longleftrightarrow> staging_ranges r = {} \<and> (\<forall>c<r_nchunks r. \<not> r_lru_resident r ! c \<and> \<not> r_initialized r ! c) \<and>
     r_resident_bytes r = 0 \<and> r_resident_chunks r = 0"

text \<open>After \<open>lru_forget_chunk\<close> the flags no longer describe the pages, but those are still to be freed.\<close>

definition freeable :: "os \<Rightarrow> fc_region \<Rightarrow> mem \<Rightarrow> bool" where
  "freeable os r m \<longleftrightarrow> (\<exists>r0. region_inv os r0 m \<and> static r = static r0 \<and> r_shared_pages r = r_shared_pages r0 \<and> r_nshared r = r_nshared r0)"

definition pc_foot :: "shared \<Rightarrow> pc \<Rightarrow> addr set" where
  "pc_foot S pc = (case pc of
       Region_lock pid rid r \<Rightarrow> footprint r
     | Region_insert pid rid r \<Rightarrow> footprint r
     | Destroy_unlock pid r \<Rightarrow> footprint r
     | Destroy_free r \<Rightarrow> footprint r
     | Pdestroy_unlock pid \<Rightarrow> pool_foot (g_pool (fst S) pid) (set (snd S pid))
     | Pdestroy_free pid \<Rightarrow> pool_foot (g_pool (fst S) pid) (set (snd S pid))
     | _ \<Rightarrow> {})"

definition pc_mem :: "os \<Rightarrow> shared \<Rightarrow> pc \<Rightarrow> mem \<Rightarrow> bool" where
  "pc_mem os S pc m = (case pc of
       Region_lock pid rid r \<Rightarrow> region_inv os r m
     | Region_insert pid rid r \<Rightarrow> region_inv os r m
     | Destroy_unlock pid r \<Rightarrow> freeable os r m
     | Destroy_free r \<Rightarrow> freeable os r m
     | Pdestroy_unlock pid \<Rightarrow> pool_mem os (g_pool (fst S) pid) m (set (snd S pid))
     | Pdestroy_free pid \<Rightarrow> pool_mem os (g_pool (fst S) pid) m (set (snd S pid))
     | _ \<Rightarrow> True)"

datatype owner = Pool_of nat | Thread_of nat

definition owner_foot :: "shared \<Rightarrow> (nat \<Rightarrow> pc) \<Rightarrow> owner \<Rightarrow> addr set" where
  "owner_foot S pcs i = (case i of
       Pool_of pid \<Rightarrow> if pid \<in> set (g_pools (fst S)) then pool_foot (g_pool (fst S) pid) (set (snd S pid)) else {}
     | Thread_of t \<Rightarrow> pc_foot S (pcs t))"

definition owner_mem :: "os \<Rightarrow> shared \<Rightarrow> (nat \<Rightarrow> pc) \<Rightarrow> owner \<Rightarrow> mem \<Rightarrow> bool" where
  "owner_mem os S pcs i m = (case i of
       Pool_of pid \<Rightarrow> pid \<in> set (g_pools (fst S)) \<longrightarrow> (\<exists>hs cs. pool_ok os (g_pool (fst S) pid) m (set (snd S pid)) hs cs)
     | Thread_of t \<Rightarrow> pc_mem os S (pcs t) m)"

definition owners_ok :: "os \<Rightarrow> shared \<Rightarrow> (nat \<Rightarrow> pc) \<Rightarrow> bool" where
  "owners_ok os S pcs \<longleftrightarrow> (\<forall>i. owner_mem os S pcs i (g_mem (fst S))) \<and>
     (\<forall>i j. i \<noteq> j \<longrightarrow> owner_foot S pcs i \<inter> owner_foot S pcs j = {})"

lemma freeable_foot:
  assumes "static r = static r0" "r_shared_pages r = r_shared_pages r0" "r_nshared r = r_nshared r0"
  shows "footprint r = footprint r0"
proof -
  have "r_page_size r = r_page_size r0" by (rule static_fields [OF assms(1)])
  then show ?thesis
    by (simp add: footprint_def region_range_def staging_ranges_def staging_range_def assms(2,3) static_fields [OF assms(1)] Let_def)
qed

lemma pool_mem_local:
  assumes "pool_mem os p m rids" "\<And>x. x \<in> pool_foot p rids \<Longrightarrow> m' x = m x"
  shows "pool_mem os p m' rids"
proof -
  have "region_inv os (p_region p rid) m'" if rid: "rid \<in> rids" for rid
    by (rule region_inv_mem [of os _ m]) (use assms rid in \<open>auto simp: pool_mem_def pool_foot_footprint\<close>)
  then show ?thesis using assms(1) by (simp add: pool_mem_def)
qed

lemma pool_mem_mapped: "pool_mem os p m rids \<Longrightarrow> x \<in> pool_foot p rids \<Longrightarrow> m x \<noteq> None"
  unfolding pool_foot_footprint pool_mem_def using region_footprint_mapped by blast

lemma freeable_local:
  assumes "freeable os r m" "\<And>x. x \<in> footprint r \<Longrightarrow> m' x = m x"
  shows "freeable os r m'"
proof -
  obtain r0 where r0: "region_inv os r0 m" "static r = static r0" "r_shared_pages r = r_shared_pages r0" "r_nshared r = r_nshared r0"
    using assms(1) by (auto simp: freeable_def)
  have "region_inv os r0 m'" by (rule region_inv_mem [OF r0(1)]) (use assms(2) freeable_foot [OF r0(2-4)] in simp)
  then show ?thesis using r0 by (auto simp: freeable_def)
qed

lemma freeable_mapped: "freeable os r m \<Longrightarrow> x \<in> footprint r \<Longrightarrow> m x \<noteq> None"
  unfolding freeable_def using freeable_foot region_footprint_mapped by blast

lemma freeable_free:
  assumes "freeable os r m"
  obtains m' where "region_free os r m = Inr m'" "\<And>x. m' x = (if x \<in> footprint r then None else m x)"
proof -
  obtain r0 where r0: "region_inv os r0 m" "static r = static r0" "r_shared_pages r = r_shared_pages r0" "r_nshared r = r_nshared r0"
    using assms by (auto simp: freeable_def)
  obtain m' where "region_free os r0 m = Inr m'" "\<And>x. m' x = (if x \<in> footprint r0 then None else m x)"
    by (rule region_free_ok [OF r0(1)]) blast
  then show thesis using that region_free_cong [OF r0(2-4)] freeable_foot [OF r0(2-4)] by simp
qed

lemma pc_mem_local:
  assumes "pc_mem os S pc m" "\<And>x. x \<in> pc_foot S pc \<Longrightarrow> m' x = m x"
  shows "pc_mem os S pc m'"
proof (cases pc)
  case (Region_lock pid rid r)
  then show ?thesis using assms region_inv_mem [of os r m m'] by (simp add: pc_mem_def pc_foot_def)
next
  case (Region_insert pid rid r)
  then show ?thesis using assms region_inv_mem [of os r m m'] by (simp add: pc_mem_def pc_foot_def)
next
  case (Destroy_unlock pid r)
  then show ?thesis using assms freeable_local [of os r m m'] by (simp add: pc_mem_def pc_foot_def)
next
  case (Destroy_free r)
  then show ?thesis using assms freeable_local [of os r m m'] by (simp add: pc_mem_def pc_foot_def)
next
  case (Pdestroy_unlock pid)
  then show ?thesis using assms pool_mem_local [of os "g_pool (fst S) pid" m "set (snd S pid)" m'] by (simp add: pc_mem_def pc_foot_def)
next
  case (Pdestroy_free pid)
  then show ?thesis using assms pool_mem_local [of os "g_pool (fst S) pid" m "set (snd S pid)" m'] by (simp add: pc_mem_def pc_foot_def)
qed (simp_all add: pc_mem_def)

lemma pc_mem_mapped: "pc_mem os S pc m \<Longrightarrow> x \<in> pc_foot S pc \<Longrightarrow> m x \<noteq> None"
  using region_footprint_mapped freeable_mapped pool_mem_mapped
  by (cases pc) (simp_all add: pc_mem_def pc_foot_def; blast)+

lemma owner_mem_local:
  assumes "owner_mem os S pcs i m" "\<And>x. x \<in> owner_foot S pcs i \<Longrightarrow> m' x = m x"
  shows "owner_mem os S pcs i m'"
proof (cases i)
  case (Pool_of pid)
  show ?thesis
  proof (cases "pid \<in> set (g_pools (fst S))")
    case True
    then obtain hs cs where "pool_ok os (g_pool (fst S) pid) m (set (snd S pid)) hs cs" using assms(1) Pool_of by (auto simp: owner_mem_def)
    from pool_ok_mem [OF this] have "pool_ok os (g_pool (fst S) pid) m' (set (snd S pid)) hs cs"
      using assms(2) True Pool_of by (simp add: owner_foot_def)
    then show ?thesis using Pool_of by (auto simp: owner_mem_def)
  qed (simp add: Pool_of owner_mem_def)
next
  case (Thread_of t)
  then show ?thesis using assms pc_mem_local by (simp add: owner_mem_def owner_foot_def)
qed

lemma owner_mem_mapped:
  assumes "owner_mem os S pcs i m" "x \<in> owner_foot S pcs i"
  shows "m x \<noteq> None"
proof (cases i)
  case (Pool_of pid)
  then have pid: "pid \<in> set (g_pools (fst S))" "x \<in> pool_foot (g_pool (fst S) pid) (set (snd S pid))"
    using assms(2) by (simp_all add: owner_foot_def split: if_splits)
  then obtain hs cs where "pool_ok os (g_pool (fst S) pid) m (set (snd S pid)) hs cs" using assms(1) Pool_of by (auto simp: owner_mem_def)
  from pool_foot_mapped [OF this pid(2)] show ?thesis .
next
  case (Thread_of t)
  then show ?thesis using assms pc_mem_mapped by (simp add: owner_mem_def owner_foot_def)
qed

text \<open>A step of the owners in \<open>I\<close>.\<close>

lemma owners_update:
  assumes ok: "owners_ok os S pcs"
    and other: "\<And>i. i \<notin> I \<Longrightarrow> owner_foot S' pcs' i = owner_foot S pcs i \<and> owner_mem os S' pcs' i = owner_mem os S pcs i"
    and new: "\<And>i. i \<in> I \<Longrightarrow> owner_mem os S' pcs' i (g_mem (fst S'))"
    and apart: "\<And>i j. i \<in> I \<Longrightarrow> j \<in> I \<Longrightarrow> i \<noteq> j \<Longrightarrow> owner_foot S' pcs' i \<inter> owner_foot S' pcs' j = {}"
    and gain: "\<And>i x. i \<in> I \<Longrightarrow> x \<in> owner_foot S' pcs' i \<Longrightarrow> (\<exists>j\<in>I. x \<in> owner_foot S pcs j) \<or> g_mem (fst S) x = None"
    and frame: "\<And>x. (\<And>i. i \<in> I \<Longrightarrow> x \<notin> owner_foot S pcs i \<and> x \<notin> owner_foot S' pcs' i) \<Longrightarrow> g_mem (fst S') x = g_mem (fst S) x"
  shows "owners_ok os S' pcs'"
proof -
  have mem: "owner_mem os S pcs i (g_mem (fst S))" and dis: "i \<noteq> j \<Longrightarrow> owner_foot S pcs i \<inter> owner_foot S pcs j = {}" for i j
    using ok by (auto simp: owners_ok_def)
  have out: "x \<notin> owner_foot S' pcs' j" if i: "i \<notin> I" "x \<in> owner_foot S pcs i" and j: "j \<in> I" for i j x
  proof
    assume "x \<in> owner_foot S' pcs' j"
    then obtain k where "k \<in> I" "x \<in> owner_foot S pcs k" using gain [OF j, of x] owner_mem_mapped [OF mem i(2)] by auto
    then show False using dis [of i k] i by blast
  qed
  have "owner_mem os S' pcs' i (g_mem (fst S'))" for i
  proof (cases "i \<in> I")
    case False
    have "g_mem (fst S') x = g_mem (fst S) x" if x: "x \<in> owner_foot S pcs i" for x
    proof (rule frame)
      fix j assume "j \<in> I"
      then show "x \<notin> owner_foot S pcs j \<and> x \<notin> owner_foot S' pcs' j" using out [OF False x] dis [of i j] x False by blast
    qed
    then show ?thesis using owner_mem_local [OF mem] other [OF False] by simp
  qed (rule new)
  moreover have "owner_foot S' pcs' i \<inter> owner_foot S' pcs' j = {}" if "i \<noteq> j" for i j
    using that apart [of i j] out [of i _ j] out [of j _ i] other [of i] other [of j] dis [OF that]
    by (cases "i \<in> I"; cases "j \<in> I") auto
  ultimately show ?thesis by (simp add: owners_ok_def)
qed


section \<open>What a counter relies on\<close>

text \<open>
  The pool a counter is about.  It is registered, except while its thread has it for itself: before it is
  linked and after it has been unlinked.
\<close>

definition pc_pool :: "pc \<Rightarrow> nat option" where
  "pc_pool pc = (case pc of
       Fault_pool a p \<Rightarrow> p | Fault_region a pid \<Rightarrow> Some pid | Fault_resolve pid rid off \<Rightarrow> Some pid
     | Fault_resolved pid \<Rightarrow> Some pid | Fault_next a pid \<Rightarrow> Some pid
     | Pool_link pid \<Rightarrow> Some pid | Pool_linking pid \<Rightarrow> Some pid
     | Region_call pid sizes fill \<Rightarrow> Some pid | Region_lock pid rid r \<Rightarrow> Some pid | Region_insert pid rid r \<Rightarrow> Some pid
     | Region_inserted pid rid \<Rightarrow> Some pid
     | Destroy_call pid rid \<Rightarrow> Some pid | Destroy_forget pid rid \<Rightarrow> Some pid | Destroy_unlock pid r \<Rightarrow> Some pid
     | Pdestroy_call pid \<Rightarrow> Some pid | Pdestroy_unlink pid \<Rightarrow> Some pid | Pdestroy_unlock pid \<Rightarrow> Some pid | Pdestroy_free pid \<Rightarrow> Some pid
     | Debug_call pid \<Rightarrow> Some pid | Debug_read pid \<Rightarrow> Some pid | Debug_unlock pid \<Rightarrow> Some pid
     | _ \<Rightarrow> None)"

definition pc_private :: "pc \<Rightarrow> bool" where
  "pc_private pc = (case pc of
       Pool_link pid \<Rightarrow> True | Pool_linking pid \<Rightarrow> True | Pdestroy_unlock pid \<Rightarrow> True | Pdestroy_free pid \<Rightarrow> True | _ \<Rightarrow> False)"

text \<open>What no two threads may be busy with: a pool coming or going, a region that is not linked yet, a region on its way out.\<close>

definition pc_kill :: "pc \<Rightarrow> nat option" where
  "pc_kill pc = (case pc of
       Pool_link pid \<Rightarrow> Some pid | Pool_linking pid \<Rightarrow> Some pid
     | Pdestroy_call pid \<Rightarrow> Some pid | Pdestroy_unlink pid \<Rightarrow> Some pid | Pdestroy_unlock pid \<Rightarrow> Some pid | Pdestroy_free pid \<Rightarrow> Some pid
     | _ \<Rightarrow> None)"

definition pc_use :: "pc \<Rightarrow> nat option" where
  "pc_use pc = (case pc of
       Region_call pid sizes fill \<Rightarrow> Some pid | Region_lock pid rid r \<Rightarrow> Some pid | Region_insert pid rid r \<Rightarrow> Some pid
     | Region_inserted pid rid \<Rightarrow> Some pid
     | Destroy_call pid rid \<Rightarrow> Some pid | Destroy_forget pid rid \<Rightarrow> Some pid | Destroy_unlock pid r \<Rightarrow> Some pid
     | Debug_call pid \<Rightarrow> Some pid | Debug_read pid \<Rightarrow> Some pid | Debug_unlock pid \<Rightarrow> Some pid
     | _ \<Rightarrow> None)"

definition pc_pending :: "pc \<Rightarrow> nat option" where
  "pc_pending pc = (case pc of Region_lock pid rid r \<Rightarrow> Some rid | Region_insert pid rid r \<Rightarrow> Some rid | _ \<Rightarrow> None)"

definition pc_victim :: "pc \<Rightarrow> (nat \<times> nat) option" where
  "pc_victim pc = (case pc of Destroy_call pid rid \<Rightarrow> Some (pid, rid) | Destroy_forget pid rid \<Rightarrow> Some (pid, rid) | _ \<Rightarrow> None)"

definition compatible :: "pc \<Rightarrow> pc \<Rightarrow> bool" where
  "compatible pc pc' \<longleftrightarrow> (\<forall>pid. pc_kill pc = Some pid \<longrightarrow> pc_use pc' \<noteq> Some pid \<and> pc_kill pc' \<noteq> Some pid) \<and>
     (\<forall>rid. pc_pending pc = Some rid \<longrightarrow> pc_pending pc' \<noteq> Some rid) \<and> (\<forall>v. pc_victim pc = Some v \<longrightarrow> pc_victim pc' \<noteq> Some v)"

text \<open>The rest: what the local variables of a counter say of the shared state.\<close>

definition pc_local :: "shared \<Rightarrow> pc \<Rightarrow> bool" where
  "pc_local S pc = (case S of (s, RL) \<Rightarrow> (case pc of
       Fault_resolve pid rid off \<Rightarrow> rid \<in> set (RL pid) \<and> off < r_mapped_size (region_of s pid rid) \<and> \<not> page_readable (region_of s pid rid) off
     | Pool_link pid \<Rightarrow> (\<exists>target. g_pool s pid = new_pool target) \<and> RL pid = []
     | Pool_linking pid \<Rightarrow> (\<exists>target. g_pool s pid = new_pool target) \<and> RL pid = []
     | Region_call pid sizes fill \<Rightarrow> fault_armed (g_sig s) \<and> sizes \<noteq> [] \<and> (\<forall>x\<in>set sizes. x < SIZE_RANGE) \<and> length sizes + 1 < UINT32_RANGE \<and> honours_sizes sizes fill
     | Region_lock pid rid r \<Rightarrow> rid < g_next_region s \<and> (\<forall>q. rid \<notin> set (RL q)) \<and> fresh_region r
     | Region_insert pid rid r \<Rightarrow> rid < g_next_region s \<and> (\<forall>q. rid \<notin> set (RL q)) \<and> fresh_region r
     | Destroy_call pid rid \<Rightarrow> rid \<in> set (RL pid)
     | Destroy_forget pid rid \<Rightarrow> rid \<in> set (RL pid)
     | Pdestroy_unlock pid \<Rightarrow> dlist (p_regions (g_pool s pid)) (RL pid)
     | Pdestroy_free pid \<Rightarrow> dlist (p_regions (g_pool s pid)) (RL pid)
     | _ \<Rightarrow> True))"

definition pc_ok :: "shared \<Rightarrow> pc \<Rightarrow> bool" where
  "pc_ok S pc \<longleftrightarrow> pc_local S pc \<and>
     (\<forall>pid. pc_pool pc = Some pid \<longrightarrow> pid < g_next_pool (fst S) \<and> (pid \<in> set (g_pools (fst S)) \<longleftrightarrow> \<not> pc_private pc))"

definition pools_ok :: "shared \<Rightarrow> bool" where
  "pools_ok S = (case S of (s, RL) \<Rightarrow> distinct (g_pools s) \<and> \<not> g_resolving_fault s \<and>
     (\<forall>pid\<in>set (g_pools s). pid < g_next_pool s \<and> dlist (p_regions (g_pool s pid)) (RL pid)) \<and>
     (\<forall>q. \<forall>rid\<in>set (RL q). rid < g_next_region s))"

definition sys_inv :: "os \<Rightarrow> system \<Rightarrow> bool" where
  "sys_inv os w \<longleftrightarrow> 0 < os_page_size os \<and> os_page_size os \<le> SIZE_RANGE \<and> pools_ok (t_shared w) \<and> inproc_locks.owned (t_own w) (t_pc w) \<and>
     (\<forall>t. pc_ok (t_shared w) (t_pc w t)) \<and> (\<forall>t u. t \<noteq> u \<longrightarrow> compatible (t_pc w t) (t_pc w u)) \<and>
     owners_ok os (t_shared w) (t_pc w)"

lemmas pc_claims = pc_kill_def pc_use_def pc_pending_def pc_victim_def

lemma sys_invD:
  assumes "sys_inv os w"
  shows "0 < os_page_size os" "pools_ok (t_shared w)" "inproc_locks.owned (t_own w) (t_pc w)" "pc_ok (t_shared w) (t_pc w t)"
    "t \<noteq> u \<Longrightarrow> compatible (t_pc w t) (t_pc w u)" "owners_ok os (t_shared w) (t_pc w)"
    "t \<noteq> u \<Longrightarrow> l \<in> pc_holds (t_pc w t) \<Longrightarrow> l \<notin> pc_holds (t_pc w u)" "os_page_size os \<le> SIZE_RANGE"
  using assms inproc_locks.exclusive unfolding sys_inv_def by blast+

text \<open>The invariant contains that of the sequential process.\<close>

lemma sys_inv_proc:
  assumes "sys_inv os w"
  shows "proc_inv os (sys_proc w) (sys_regions w)"
proof -
  note D = sys_invD [OF assms]
  obtain s RL where S: "t_shared w = (s, RL)" by (cases "t_shared w")
  have "\<exists>hs cs. pool_ok os (g_pool s pid) (g_mem s) (set (RL pid)) hs cs" if "pid \<in> set (g_pools s)" for pid
  proof -
    have "owner_mem os (t_shared w) (t_pc w) (Pool_of pid) (g_mem s)" using D(6) S by (simp add: owners_ok_def)
    then show ?thesis using that S by (simp add: owner_mem_def)
  qed
  moreover have "pool_foot (g_pool s pid) (set (RL pid)) \<inter> pool_foot (g_pool s q) (set (RL q)) = {}"
    if "pid \<in> set (g_pools s)" "q \<in> set (g_pools s)" "pid \<noteq> q" for pid q
  proof -
    have "owner_foot (t_shared w) (t_pc w) (Pool_of pid) \<inter> owner_foot (t_shared w) (t_pc w) (Pool_of q) = {}"
      using D(6) that(3) unfolding owners_ok_def by blast
    then show ?thesis using that S by (simp add: owner_foot_def)
  qed
  ultimately show ?thesis using D(1,2) S unfolding proc_inv_def pools_ok_def by simp
qed

section \<open>Steps\<close>

text \<open>What a step has to leave alone for the counter of another thread to stay right.\<close>

definition stable :: "shared \<Rightarrow> shared \<Rightarrow> pc \<Rightarrow> bool" where
  "stable S S' pc = (case (S, S') of ((s, RL), (s', RL')) \<Rightarrow>
     g_next_pool s \<le> g_next_pool s' \<and> g_next_region s \<le> g_next_region s' \<and> (fault_armed (g_sig s) \<longrightarrow> fault_armed (g_sig s')) \<and>
     (\<forall>pid. pc_pool pc = Some pid \<longrightarrow> (pid \<in> set (g_pools s') \<longleftrightarrow> pid \<in> set (g_pools s)) \<and>
       (pc_private pc \<or> {G_pools_lock, Pool_lock pid} \<subseteq> pc_holds pc \<longrightarrow> g_pool s' pid = g_pool s pid \<and> RL' pid = RL pid)) \<and>
     (\<forall>pid rid. pc_victim pc = Some (pid, rid) \<longrightarrow> rid \<in> set (RL pid) \<longrightarrow> rid \<in> set (RL' pid)) \<and>
     (\<forall>rid. pc_pending pc = Some rid \<longrightarrow> (\<forall>q. rid \<notin> set (RL q)) \<longrightarrow> (\<forall>q. rid \<notin> set (RL' q))))"

lemma pc_ok_stable: "pc_ok S pc \<Longrightarrow> stable S S' pc \<Longrightarrow> pc_ok S' pc"
  unfolding pc_ok_def stable_def
  by (cases S; cases S'; cases pc) (auto simp: pc_local_def pc_pool_def pc_private_def pc_claims)

lemma stable_refl [simp]: "stable S S pc"
  by (simp add: stable_def split: prod.split)

definition claims_within :: "pc \<Rightarrow> pc \<Rightarrow> bool" where
  "claims_within pc' pc \<longleftrightarrow> (\<forall>x. pc_kill pc' = Some x \<longrightarrow> pc_kill pc = Some x) \<and> (\<forall>x. pc_use pc' = Some x \<longrightarrow> pc_use pc = Some x) \<and>
     (\<forall>x. pc_pending pc' = Some x \<longrightarrow> pc_pending pc = Some x) \<and> (\<forall>x. pc_victim pc' = Some x \<longrightarrow> pc_victim pc = Some x)"

lemma claims_compatible:
  "claims_within pc' pc \<Longrightarrow> compatible pc q \<Longrightarrow> compatible pc' q" "claims_within pc' pc \<Longrightarrow> compatible q pc \<Longrightarrow> compatible q pc'"
  unfolding claims_within_def compatible_def by blast+

lemma sys_inv_step:
  assumes inv: "sys_inv os w" and exec: "pc_exec os (t_pc w t) (t_shared w) = Inr (pc', S')"
    and go: "pc_act (t_pc w t) \<noteq> Stop" "\<not> lock_waits (pc_act (t_pc w t)) (t_own w)"
    and new: "pools_ok S'" "pc_ok S' pc'" "owners_ok os S' ((t_pc w)(t := pc'))"
    and other: "\<And>u. u \<noteq> t \<Longrightarrow> stable (t_shared w) S' (t_pc w u)"
    and compat: "\<And>u. u \<noteq> t \<Longrightarrow> compatible pc' (t_pc w u) \<and> compatible (t_pc w u) pc'"
  shows "sys_inv os \<lparr>t_shared = S', t_own = lock_after t (pc_act (t_pc w t)) (t_own w), t_pc = (t_pc w)(t := pc')\<rparr>"
proof -
  note D = sys_invD [OF inv]
  have "pc_ok S' (((t_pc w)(t := pc')) u)" for u using pc_ok_stable [OF D(4) other, of u] new(2) by simp
  moreover have "compatible (((t_pc w)(t := pc')) u) (((t_pc w)(t := pc')) v)" if "u \<noteq> v" for u v
    using that D(5) [of u v] compat [of u] compat [of v] by (cases "u = t"; cases "v = t") auto
  ultimately show ?thesis
    using D(1,8) new(1,3) inproc_locks.owned_step [OF D(3) exec go] by (simp add: sys_inv_def)
qed

text \<open>Steps that only move the counter.\<close>

lemma sys_inv_quiet:
  assumes inv: "sys_inv os w" and exec: "pc_exec os (t_pc w t) (t_shared w) = Inr (pc', t_shared w)"
    and go: "pc_act (t_pc w t) \<noteq> Stop" "\<not> lock_waits (pc_act (t_pc w t)) (t_own w)"
    and new: "pc_ok (t_shared w) pc'" "claims_within pc' (t_pc w t)"
    and same: "pc_foot (t_shared w) pc' = pc_foot (t_shared w) (t_pc w t)" "pc_mem os (t_shared w) pc' = pc_mem os (t_shared w) (t_pc w t)"
  shows "sys_inv os \<lparr>t_shared = t_shared w, t_own = lock_after t (pc_act (t_pc w t)) (t_own w), t_pc = (t_pc w)(t := pc')\<rparr>"
proof (rule sys_inv_step [OF inv exec go])
  note D = sys_invD [OF inv]
  have "owner_foot (t_shared w) ((t_pc w)(t := pc')) = owner_foot (t_shared w) (t_pc w)"
    "owner_mem os (t_shared w) ((t_pc w)(t := pc')) = owner_mem os (t_shared w) (t_pc w)"
    using same by (auto simp: fun_eq_iff owner_foot_def owner_mem_def split: owner.split)
  then show "owners_ok os (t_shared w) ((t_pc w)(t := pc'))" using D(6) by (simp add: owners_ok_def)
  show "compatible pc' (t_pc w u) \<and> compatible (t_pc w u) pc'" if "u \<noteq> t" for u
    using D(5) [of t u] D(5) [of u t] that claims_compatible [OF new(2)] by blast
qed (use sys_invD(2) [OF inv] new(1) in simp_all)

end
