(* ===== verification/Threads_Step.thy ===== *)
theory Threads_Step
  imports Threads_Inv
begin

text \<open>Every section keeps the invariant, whatever sections of other threads run before and after it.\<close>

section \<open>Other threads and other pools\<close>

lemma private_kill: "pc_private pc \<Longrightarrow> pc_pool pc = Some pid \<Longrightarrow> pc_kill pc = Some pid"
  by (cases pc) (auto simp: pc_private_def pc_pool_def pc_kill_def)

lemma pool_reason: "pc_pool pc = Some pid \<Longrightarrow> G_pools_lock \<in> pc_holds pc \<or> pc_use pc = Some pid \<or> pc_kill pc = Some pid"
  by (cases pc) (auto simp: pc_pool_def pc_kill_def pc_use_def)

lemma pc_foot_private: "\<not> pc_private pc \<Longrightarrow> pc_foot S' pc = pc_foot S pc \<and> pc_mem os S' pc = pc_mem os S pc"
  by (cases pc) (auto simp: pc_private_def pc_foot_def pc_mem_def fun_eq_iff)

lemma stable_foot:
  assumes "stable S S' pc"
  shows "pc_foot S' pc = pc_foot S pc" "pc_mem os S' pc = pc_mem os S pc"
proof -
  have "pc_foot S' pc = pc_foot S pc \<and> pc_mem os S' pc = pc_mem os S pc"
  proof (cases "pc_private pc")
    case True
    then show ?thesis using assms
      by (cases S; cases S'; cases pc) (auto simp: pc_private_def pc_foot_def pc_mem_def stable_def pc_pool_def fun_eq_iff)
  qed (rule pc_foot_private)
  then show "pc_foot S' pc = pc_foot S pc" "pc_mem os S' pc = pc_mem os S pc" by auto
qed

text \<open>A step on the memory of one thread, and one on that of a thread and a pool.\<close>

lemma owners_thread_step:
  assumes ok: "owners_ok os (s, RL) pcs" and other: "\<And>u. u \<noteq> t \<Longrightarrow> stable (s, RL) (s', RL') (pcs u)"
    and pools: "set (g_pools s') = set (g_pools s)" "\<And>q. q \<in> set (g_pools s) \<Longrightarrow> g_pool s' q = g_pool s q \<and> RL' q = RL q"
    and mem: "pc_mem os (s', RL') pc' (g_mem s')"
    and gain: "\<And>x. x \<in> pc_foot (s', RL') pc' \<Longrightarrow> x \<in> pc_foot (s, RL) (pcs t) \<or> g_mem s x = None"
    and frame: "\<And>x. x \<notin> pc_foot (s, RL) (pcs t) \<Longrightarrow> x \<notin> pc_foot (s', RL') pc' \<Longrightarrow> g_mem s' x = g_mem s x"
  shows "owners_ok os (s', RL') (pcs(t := pc'))"
proof (rule owners_update [OF ok, where I = "{Thread_of t}"])
  fix i assume "i \<notin> {Thread_of t}"
  then show "owner_foot (s', RL') (pcs(t := pc')) i = owner_foot (s, RL) pcs i \<and>
      owner_mem os (s', RL') (pcs(t := pc')) i = owner_mem os (s, RL) pcs i"
    using pools stable_foot [OF other] by (cases i) (auto simp: owner_foot_def owner_mem_def fun_eq_iff)
qed (use mem gain frame in \<open>auto simp: owner_foot_def owner_mem_def\<close>)

lemma owners_pool_step:
  fixes pc' :: pc
  assumes ok: "owners_ok os (s, RL) pcs" and other: "\<And>u. u \<noteq> t \<Longrightarrow> stable (s, RL) (s', RL') (pcs u)"
    and pools: "\<And>q. q \<noteq> pid \<Longrightarrow> (q \<in> set (g_pools s') \<longleftrightarrow> q \<in> set (g_pools s)) \<and> g_pool s' q = g_pool s q \<and> RL' q = RL q"
  defines "P \<equiv> owner_foot (s, RL) pcs (Pool_of pid)" and "P' \<equiv> owner_foot (s', RL') (pcs(t := pc')) (Pool_of pid)"
    and "T \<equiv> pc_foot (s, RL) (pcs t)" and "T' \<equiv> pc_foot (s', RL') pc'"
  assumes mem: "owner_mem os (s', RL') (pcs(t := pc')) (Pool_of pid) (g_mem s')" "pc_mem os (s', RL') pc' (g_mem s')"
    and apart: "P' \<inter> T' = {}" and gain: "\<And>x. x \<in> P' \<union> T' \<Longrightarrow> x \<in> P \<union> T \<or> g_mem s x = None"
    and frame: "\<And>x. x \<notin> P \<union> T \<union> P' \<union> T' \<Longrightarrow> g_mem s' x = g_mem s x"
  shows "owners_ok os (s', RL') (pcs(t := pc'))"
proof (rule owners_update [OF ok, where I = "{Pool_of pid, Thread_of t}"])
  have t: "owner_foot (s, RL) pcs (Thread_of t) = T" "owner_foot (s', RL') (pcs(t := pc')) (Thread_of t) = T'"
    by (simp_all add: owner_foot_def T_def T'_def)
  fix i
  show "owner_foot (s', RL') (pcs(t := pc')) i = owner_foot (s, RL) pcs i \<and>
      owner_mem os (s', RL') (pcs(t := pc')) i = owner_mem os (s, RL) pcs i" if "i \<notin> {Pool_of pid, Thread_of t}"
    using that pools stable_foot [OF other] by (cases i) (auto simp: owner_foot_def owner_mem_def fun_eq_iff)
  show "owner_mem os (s', RL') (pcs(t := pc')) i (g_mem (fst (s', RL')))" if "i \<in> {Pool_of pid, Thread_of t}"
  proof -
    have "owner_mem os (s', RL') (pcs(t := pc')) (Thread_of t) (g_mem s')" using mem(2) by (simp add: owner_mem_def)
    then show ?thesis using that mem(1) by auto
  qed
  show "owner_foot (s', RL') (pcs(t := pc')) i \<inter> owner_foot (s', RL') (pcs(t := pc')) j = {}"
    if "i \<in> {Pool_of pid, Thread_of t}" "j \<in> {Pool_of pid, Thread_of t}" "i \<noteq> j" for j
    using that apart t unfolding P'_def by auto
  show "(\<exists>j\<in>{Pool_of pid, Thread_of t}. x \<in> owner_foot (s, RL) pcs j) \<or> g_mem (fst (s, RL)) x = None"
    if "i \<in> {Pool_of pid, Thread_of t}" "x \<in> owner_foot (s', RL') (pcs(t := pc')) i" for x
  proof -
    have "x \<in> P' \<union> T'" using that t unfolding P'_def by auto
    from gain [OF this] show ?thesis using t by (auto simp: P_def)
  qed
  show "g_mem (fst (s', RL')) x = g_mem (fst (s, RL)) x"
    if "\<And>i. i \<in> {Pool_of pid, Thread_of t} \<Longrightarrow> x \<notin> owner_foot (s, RL) pcs i \<and> x \<notin> owner_foot (s', RL') (pcs(t := pc')) i" for x
    using frame [of x] that [of "Pool_of pid"] that [of "Thread_of t"] t by (simp add: P_def P'_def)
qed

text \<open>A section under a pool's mutex changes that pool only.\<close>

lemma stable_pool:
  assumes inv: "sys_inv os w" and S: "t_shared w = (s, RL)" and u: "u \<noteq> t" and lock: "Pool_lock pid \<in> pc_holds (t_pc w t)"
    and pid: "pid \<in> set (g_pools s)" and RL: "\<And>q. q \<noteq> pid \<Longrightarrow> RL' q = RL q"
    and victim: "\<And>rid. pc_victim (t_pc w u) = Some (pid, rid) \<Longrightarrow> rid \<in> set (RL pid) \<Longrightarrow> rid \<in> set (RL' pid)"
    and pending: "\<And>rid. pc_pending (t_pc w u) = Some rid \<Longrightarrow> rid \<notin> set (RL pid) \<Longrightarrow> rid \<notin> set (RL' pid)"
  shows "stable (t_shared w) (set_pool s pid p m, RL') (t_pc w u)"
proof -
  have no_lock: "Pool_lock pid \<notin> pc_holds (t_pc w u)" using sys_invD(7) [OF inv u [symmetric] lock] .
  have "pc_pool (t_pc w u) = Some pid \<Longrightarrow> \<not> pc_private (t_pc w u)" using sys_invD(4) [OF inv, of u] pid S by (simp add: pc_ok_def)
  moreover have "rid \<in> set (RL' q)" if "pc_victim (t_pc w u) = Some (q, rid)" "rid \<in> set (RL q)" for q rid
    using that victim RL by (cases "q = pid") auto
  moreover have "rid \<notin> set (RL' q)" if "pc_pending (t_pc w u) = Some rid" "\<And>q. rid \<notin> set (RL q)" for q rid
    using that pending RL by (cases "q = pid") auto
  ultimately show ?thesis using no_lock RL by (auto simp: stable_def S set_pool_def)
qed


abbreviation after :: "system \<Rightarrow> nat \<Rightarrow> pc \<Rightarrow> shared \<Rightarrow> system" where
  "after w t pc' S' \<equiv> \<lparr>t_shared = S', t_own = lock_after t (pc_act (t_pc w t)) (t_own w), t_pc = (t_pc w)(t := pc')\<rparr>"

lemma pool_owner:
  assumes "owners_ok os (s, RL) pcs" "pid \<in> set (g_pools s)"
  obtains hs cs where "pool_ok os (g_pool s pid) (g_mem s) (set (RL pid)) hs cs"
proof -
  have "owner_mem os (s, RL) pcs (Pool_of pid) (g_mem s)" using assms(1) by (simp add: owners_ok_def)
  then show thesis using that assms(2) by (auto simp: owner_mem_def)
qed

lemma thread_owner: "owners_ok os (s, RL) pcs \<Longrightarrow> pc_mem os (s, RL) (pcs t) (g_mem s)"
  unfolding owners_ok_def owner_mem_def by (auto dest: spec [of _ "Thread_of t"])

section \<open>Sections of the fault handler\<close>

lemma first_pool_in: "first_pool ps = Some pid \<Longrightarrow> pid \<in> set ps"
  by (cases ps) (auto simp: first_pool_def)

lemma next_pool_in: "next_pool ps q = Some pid \<Longrightarrow> pid \<in> set ps"
  by (induction ps) (auto simp: first_pool_in split: if_splits)

lemma next_pool_suffix: "q \<notin> set pre \<Longrightarrow> next_pool (pre @ q # ps) q = first_pool ps"
  by (induction pre) auto

lemma step_resolve:
  assumes inv: "sys_inv os w" and pc: "t_pc w t = Fault_resolve pid rid off"
    and exec: "pc_exec os (t_pc w t) (t_shared w) = Inr (pc', S')"
  shows "sys_inv os (after w t pc' S')"
proof -
  note D = sys_invD [OF inv]
  obtain s RL where S: "t_shared w = (s, RL)" by (cases "t_shared w")
  have pid: "pid \<in> set (g_pools s)" and rid: "rid \<in> set (RL pid)" and nr: "\<not> page_readable (region_of s pid rid) off"
    using D(4) [of t] S pc by (simp_all add: pc_ok_def pc_local_def pc_pool_def pc_private_def)
  obtain hs cs where ok: "pool_ok os (g_pool s pid) (g_mem s) (set (RL pid)) hs cs" using pool_owner [OF D(6) [unfolded S] pid] .
  obtain p m where run: "resolve_fault_locked os (g_pool s pid) rid off (g_mem s) = Inr (p, m)"
    and pc': "pc' = Fault_resolved pid" and S': "S' = (set_pool s pid p m, RL)"
    using exec pc S by (auto simp: res_bind_eq_Inr)
  obtain hs' cs' where ok': "pool_ok os p m (set (RL pid)) hs' cs'" and step: "pool_step (set (RL pid)) (g_pool s pid) (g_mem s) p m"
    using resolve_fault_locked_ok [OF ok rid nr] run by (auto simp: resolve_post_def split: prod.splits)
  have fr: "vm_frame (pool_range (g_pool s pid) (set (RL pid))) (g_mem s) (pool_staging (g_pool s pid) (set (RL pid))) m (pool_staging p (set (RL pid)))"
    and st: "pool_static (g_pool s pid) p" and same: "same_pool (g_pool s pid) p" using step by (auto simp: pool_step_def)
  have other: "stable (t_shared w) S' (t_pc w u)" if "u \<noteq> t" for u
    unfolding S' by (rule stable_pool [OF inv S that _ pid]) (simp_all add: pc)
  have foot: "owner_foot (s, RL) pcs (Pool_of pid) = pool_foot (g_pool s pid) (set (RL pid))"
    "owner_foot S' pcs (Pool_of pid) = pool_foot p (set (RL pid))" for pcs
    using pid by (simp_all add: owner_foot_def S' set_pool_def)
  show ?thesis
  proof (rule sys_inv_step [OF inv exec _ _ _ _ _ other])
    show "pools_ok S'" using D(2) same pid by (auto simp: S S' pools_ok_def set_pool_def)
    show "pc_ok S' pc'" using D(4) [of t] S pc by (simp add: pc_ok_def pc_local_def pc_pool_def pc_private_def pc' S' set_pool_def)
    show "compatible pc' (t_pc w u) \<and> compatible (t_pc w u) pc'" for u by (simp add: compatible_def pc_claims pc')
    show "owners_ok os S' ((t_pc w)(t := pc'))" unfolding S'
    proof (rule owners_pool_step [OF D(6) [unfolded S] other [unfolded S S'], where pid = pid])
      show "owner_mem os (set_pool s pid p m, RL) ((t_pc w)(t := pc')) (Pool_of pid) (g_mem (set_pool s pid p m))"
        using ok' by (auto simp: owner_mem_def set_pool_def)
      show "x \<in> owner_foot (s, RL) (t_pc w) (Pool_of pid) \<union> pc_foot (s, RL) (t_pc w t) \<or> g_mem s x = None"
        if "x \<in> owner_foot (set_pool s pid p m, RL) ((t_pc w)(t := pc')) (Pool_of pid) \<union> pc_foot (set_pool s pid p m, RL) pc'" for x
        using that fr foot [unfolded S'] pool_range_cong [OF st] by (auto simp: vm_frame_def pc' pc_foot_def)
      show "g_mem (set_pool s pid p m) x = g_mem s x"
        if "x \<notin> owner_foot (s, RL) (t_pc w) (Pool_of pid) \<union> pc_foot (s, RL) (t_pc w t) \<union>
          owner_foot (set_pool s pid p m, RL) ((t_pc w)(t := pc')) (Pool_of pid) \<union> pc_foot (set_pool s pid p m, RL) pc'" for x
        using that fr foot [unfolded S'] by (simp add: vm_frame_def set_pool_def)
    qed (simp_all add: pc' pc_foot_def pc_mem_def set_pool_def)
  qed (simp_all add: pc lock_waits_def)
qed


section \<open>Sections that create\<close>

lemma new_pool_ok: "pool_ok os (new_pool target) m {} [] []" "pool_foot (new_pool target) {} = {}" "dlist (p_regions (new_pool target)) []"
  by (simp_all add: pool_ok_def pool_lru_def pool_mem_def regions_apart_def lru_rep_def nodes_def new_pool_def pool_range_def pool_staging_def)

lemma step_pool_call:
  assumes inv: "sys_inv os w" and pc: "t_pc w t = Pool_call True target"
    and exec: "pc_exec os (t_pc w t) (t_shared w) = Inr (pc', S')"
  shows "sys_inv os (after w t pc' S')"
proof -
  note D = sys_invD [OF inv]
  obtain s RL where S: "t_shared w = (s, RL)" by (cases "t_shared w")
  let ?pid = "g_next_pool s"
  define s' where "s' = s\<lparr>g_pool := (g_pool s)(?pid := new_pool target), g_next_pool := Suc ?pid\<rparr>"
  have pc': "pc' = Pool_link ?pid" and S': "S' = (s', RL(?pid := []))" using exec pc S by (simp_all add: Let_def s'_def)
  have reg: "q < ?pid" if "q \<in> set (g_pools s)" for q using D(2) that S by (simp add: pools_ok_def)
  have known: "q < ?pid" if "pc_pool (t_pc w u) = Some q" for u q using D(4) [of u] that S by (simp add: pc_ok_def)
  have use: "pc_use pc = Some q \<Longrightarrow> pc_pool pc = Some q" "pc_kill pc = Some q \<Longrightarrow> pc_pool pc = Some q" "pc_victim pc = Some (q, rid) \<Longrightarrow> pc_pool pc = Some q"
    for pc q rid by (cases pc; simp add: pc_claims pc_pool_def)+
  have other: "stable (t_shared w) S' (t_pc w u)" if "u \<noteq> t" for u
    unfolding S S' using known [of u] use(3) [of "t_pc w u"] by (auto simp: stable_def s'_def)
  show ?thesis
  proof (rule sys_inv_step [OF inv exec _ _ _ _ _ other])
    show "pools_ok S'" using D(2) S reg by (auto simp: pools_ok_def S' s'_def less_Suc_eq) 
    show "pc_ok S' pc'" using reg by (auto simp: pc_ok_def pc_local_def pc_pool_def pc_private_def pc' S' s'_def)
    show "compatible pc' (t_pc w u) \<and> compatible (t_pc w u) pc'" for u
      using known [of u] use(1,2) [of "t_pc w u" ?pid] by (auto simp: compatible_def pc_claims pc' dest: known split: pc.splits)
    show "owners_ok os S' ((t_pc w)(t := pc'))" unfolding S'
      by (rule owners_thread_step [OF D(6) [unfolded S] other [unfolded S S']])
        (use reg in \<open>auto simp: pc' pc pc_foot_def pc_mem_def s'_def\<close>)
  qed (simp_all add: pc lock_waits_def)
qed

lemma step_pool_linking:
  assumes inv: "sys_inv os w" and pc: "t_pc w t = Pool_linking pid"
    and exec: "pc_exec os (t_pc w t) (t_shared w) = Inr (pc', S')"
  shows "sys_inv os (after w t pc' S')"
proof -
  note D = sys_invD [OF inv]
  obtain s RL where S: "t_shared w = (s, RL)" by (cases "t_shared w")
  define s' where "s' = s\<lparr>g_pools := pid # g_pools s\<rparr>"
  have pc': "pc' = Pool_linked pid" and S': "S' = (s', RL)" using exec pc S by (simp_all add: s'_def)
  obtain target where pid: "pid \<notin> set (g_pools s)" "pid < g_next_pool s" and p: "g_pool s pid = new_pool target" "RL pid = []"
    using D(4) [of t] S pc by (auto simp: pc_ok_def pc_local_def pc_pool_def pc_private_def)
  have other: "stable (t_shared w) S' (t_pc w u)" if u: "u \<noteq> t" for u
  proof -
    have "pc_pool (t_pc w u) \<noteq> Some pid"
    proof
      assume pool: "pc_pool (t_pc w u) = Some pid"
      then have "pc_kill (t_pc w u) = Some pid" using D(4) [of u] S pid(1) private_kill by (auto simp: pc_ok_def)
      then show False using D(5) [of t u] u pc by (simp add: compatible_def pc_claims)
    qed
    then show ?thesis by (auto simp: stable_def S S' s'_def)
  qed
  show ?thesis
  proof (rule sys_inv_step [OF inv exec _ _ _ _ _ other])
    show "pools_ok S'" using D(2) S pid p new_pool_ok(3) [of target] by (simp add: pools_ok_def S' s'_def)
    show "owners_ok os S' ((t_pc w)(t := pc'))" unfolding S'
    proof (rule owners_pool_step [OF D(6) [unfolded S] other [unfolded S S'], where pid = pid])
      show "owner_mem os (s', RL) ((t_pc w)(t := pc')) (Pool_of pid) (g_mem s')"
        using new_pool_ok(1) [of os target] p unfolding owner_mem_def s'_def by auto
    qed (use new_pool_ok(2) [of target] p in \<open>simp_all add: pc' pc_foot_def pc_mem_def s'_def owner_foot_def\<close>)
  qed (simp_all add: pc pc' lock_waits_def pc_ok_def pc_local_def pc_pool_def compatible_def pc_claims split: prod.split)
qed


lemma reserve_fits:
  assumes vs: "valid_sizes sizes" and ps: "0 < os_page_size os" "os_page_size os \<le> SIZE_RANGE"
    and res: "vm_reserve os m (r_mapped_size (new_region os sizes fill)) = Inr (base, m')"
  shows "sum_list sizes + os_page_size os \<le> SIZE_RANGE"
proof (rule ccontr)
  assume "\<not> ?thesis"
  then have "r_mapped_size (new_region os sizes fill) = 0"
    using page_ceil_wraps [of "os_page_size os" "sum_list sizes"] ps vs by (simp add: valid_sizes_def vm_page_size_def)
  then show False using res by (simp add: vm_reserve_zero)
qed

lemma region_prepare_ok:
  assumes prep: "region_prepare os g m (Some pid) (length sizes) (Some sizes) (Some fill) = Inr (Some r, m')"
    and sizes: "\<forall>x\<in>set sizes. x < SIZE_RANGE" "length sizes + 1 < UINT32_RANGE" "honours_sizes sizes fill"
    and ps: "0 < os_page_size os" "os_page_size os \<le> SIZE_RANGE"
  shows "region_inv os r m'" "fresh_region r" "\<And>x. x \<in> footprint r \<Longrightarrow> m x = None" "\<And>x. x \<notin> footprint r \<Longrightarrow> m' x = m x"
proof -
  have "sum_chunk_sizes 0 sizes \<noteq> None" and "sizes \<noteq> []"
    using prep by (auto simp: region_prepare_def split: if_splits option.splits)
  then have vs: "valid_sizes sizes" and total: "sum_chunk_sizes 0 sizes = Some (sum_list sizes)"
    using sum_chunk_sizes_iff [OF sizes(1)] by (auto simp: valid_sizes_def)
  obtain base r1 where res: "vm_reserve os m (r_mapped_size (new_region os sizes fill)) = Inr (base, m')"
    and init: "shared_pages_init (new_region os sizes fill\<lparr>r_base := base\<rparr>) = Inr r1" and r: "r = lru_init r1"
    using prep total sizes(2) by (auto simp: region_prepare_def fill_chunk_start_def Let_def res_bind_eq_Inr split: if_splits)
  have fits: "sum_list sizes + os_page_size os \<le> SIZE_RANGE" by (rule reserve_fits [OF vs ps res])
  have n: "length sizes < UINT32_RANGE" using sizes(2) by simp
  obtain r2 where r2: "shared_pages_init (new_region os sizes fill\<lparr>r_base := base\<rparr>) = Inr r2"
    and ri: "region_inv os (lru_init r2) m'" "staging_ranges (lru_init r2) = {}"
    and mem: "\<And>x. x \<in> region_range (lru_init r2) \<Longrightarrow> m x = None" "\<And>x. x \<notin> region_range (lru_init r2) \<Longrightarrow> m' x = m x"
    and fl: "\<And>c. c < r_nchunks (lru_init r2) \<Longrightarrow> \<not> r_lru_resident (lru_init r2) ! c \<and> \<not> r_initialized (lru_init r2) ! c"
      "r_resident_bytes (lru_init r2) = 0" "r_resident_chunks (lru_init r2) = 0"
    by (rule create_region_struct [OF vs sizes(3) ps(1) fits n res]) blast
  have eq: "r = lru_init r2" using init r2 r by simp
  show "region_inv os r m'" "fresh_region r" "\<And>x. x \<in> footprint r \<Longrightarrow> m x = None" "\<And>x. x \<notin> footprint r \<Longrightarrow> m' x = m x"
    using ri mem fl by (simp_all add: eq fresh_region_def footprint_def)
qed

lemma step_region_call:
  assumes inv: "sys_inv os w" and pc: "t_pc w t = Region_call pid sizes fill"
    and prep: "region_prepare os (g_sig s) (g_mem s) (Some pid) (length sizes) (Some sizes) (Some fill) = Inr (Some r, m)"
    and S: "t_shared w = (s, RL)" and exec: "pc_exec os (t_pc w t) (t_shared w) = Inr (pc', S')"
  shows "sys_inv os (after w t pc' S')"
proof -
  note D = sys_invD [OF inv]
  let ?rid = "g_next_region s"
  define s' where "s' = s\<lparr>g_mem := m, g_next_region := Suc ?rid\<rparr>"
  have pc': "pc' = Region_lock pid ?rid r" and S': "S' = (s', RL)" using exec pc S prep by (simp_all add: s'_def)
  have pid: "pid \<in> set (g_pools s)" and args: "\<forall>x\<in>set sizes. x < SIZE_RANGE" "length sizes + 1 < UINT32_RANGE" "honours_sizes sizes fill"
    using D(4) [of t] S pc by (auto simp: pc_ok_def pc_local_def pc_pool_def pc_private_def)
  note R = region_prepare_ok [OF prep args D(1,8)]
  have lt: "rid < ?rid" if "rid \<in> set (RL q)" for q rid using D(2) that S by (auto simp: pools_ok_def)
  have pend: "pc_pending (t_pc w u) \<noteq> Some ?rid" for u
    using D(4) [of u] S by (cases "t_pc w u") (auto simp: pc_ok_def pc_local_def pc_pending_def)
  have other: "stable (t_shared w) S' (t_pc w u)" for u by (simp add: stable_def S S' s'_def)
  show ?thesis
  proof (rule sys_inv_step [OF inv exec _ _ _ _ _ other])
    show "pools_ok S'" using D(2) S by (auto simp: pools_ok_def S' s'_def less_Suc_eq)
    show "pc_ok S' pc'" using D(4) [of t] pc S R(2) lt
      by (auto simp: pc_ok_def pc_local_def pc_pool_def pc_private_def pc' S' s'_def)
    show "compatible pc' (t_pc w u) \<and> compatible (t_pc w u) pc'" if "u \<noteq> t" for u
    proof -
      have "compatible (t_pc w t) (t_pc w u)" "compatible (t_pc w u) (t_pc w t)" using D(5) that by auto
      then show ?thesis using pend [of u] by (auto simp: compatible_def pc_claims pc' pc)
    qed
    show "owners_ok os S' ((t_pc w)(t := pc'))" unfolding S'
      by (rule owners_thread_step [OF D(6) [unfolded S] other [unfolded S S']])
        (use R in \<open>auto simp: pc' pc pc_foot_def pc_mem_def s'_def\<close>)
  qed (simp_all add: pc lock_waits_def)
qed

lemma step_region_insert:
  assumes inv: "sys_inv os w" and pc: "t_pc w t = Region_insert pid rid r"
    and exec: "pc_exec os (t_pc w t) (t_shared w) = Inr (pc', S')"
  shows "sys_inv os (after w t pc' S')"
proof -
  note D = sys_invD [OF inv]
  obtain s RL where S: "t_shared w = (s, RL)" by (cases "t_shared w")
  define p' where "p' = region_link (g_pool s pid) rid r"
  define RL' where "RL' = RL(pid := rid # RL pid)"
  have pc': "pc' = Region_inserted pid rid" and S': "S' = (set_pool s pid p' (g_mem s), RL')"
    using exec pc S by (simp_all add: p'_def RL'_def)
  have pid: "pid \<in> set (g_pools s)" and rid: "rid < g_next_region s" "rid \<notin> set (RL pid)" and fresh: "fresh_region r"
    using D(4) [of t] S pc by (auto simp: pc_ok_def pc_local_def pc_pool_def pc_private_def)
  obtain hs cs where ok: "pool_ok os (g_pool s pid) (g_mem s) (set (RL pid)) hs cs" using pool_owner [OF D(6) [unfolded S] pid] .
  have ri: "region_inv os r (g_mem s)" using thread_owner [OF D(6) [unfolded S], of t] pc by (simp add: pc_mem_def)
  have foot: "footprint r = region_range r" using fresh by (simp add: fresh_region_def footprint_def)
  have "owner_foot (s, RL) (t_pc w) (Pool_of pid) \<inter> owner_foot (s, RL) (t_pc w) (Thread_of t) = {}"
    using D(6) S unfolding owners_ok_def by (metis owner.distinct(1))
  then have disj: "pool_foot (g_pool s pid) (set (RL pid)) \<inter> region_range r = {}"
    using pid pc foot by (simp add: owner_foot_def pc_foot_def)
  have pm: "pool_mem os (g_pool s pid) (g_mem s) (set (RL pid))" and lru: "pool_lru os (g_pool s pid) (set (RL pid)) hs cs"
    using ok by (simp_all add: pool_ok_def)
  have stg: "staging_ranges r = {}" and fl: "\<And>c. c < r_nchunks r \<Longrightarrow> \<not> r_lru_resident r ! c \<and> \<not> r_initialized r ! c" "r_resident_bytes r = 0" "r_resident_chunks r = 0"
    using fresh by (auto simp: fresh_region_def)
  note add = pool_add_mem [OF pm rid(2) ri stg disj p'_def [unfolded region_link_def]]
  have "regions_apart os p' (insert rid (set (RL pid)))"
    using add(1) unfolding pool_mem_def regions_apart_def region_inv_def footprint_def by blast
  from pool_add_lru [OF lru rid(2) fl p'_def [unfolded region_link_def] this]
  have ok': "pool_ok os p' (g_mem s) (insert rid (set (RL pid))) hs cs" using add(1) by (simp add: pool_ok_def)
  have other: "stable (t_shared w) S' (t_pc w u)" if u: "u \<noteq> t" for u
    unfolding S'
  proof (rule stable_pool [OF inv S u _ pid])
    show "k \<notin> set (RL' pid)" if "pc_pending (t_pc w u) = Some k" "k \<notin> set (RL pid)" for k
      using that D(5) [of t u] u by (auto simp: RL'_def compatible_def pc_claims pc)
  qed (simp_all add: pc RL'_def)
  show ?thesis
  proof (rule sys_inv_step [OF inv exec _ _ _ _ _ other])
    have "dlist (p_regions p') (rid # RL pid)"
      using region_list.rep_ins [of "p_regions (g_pool s pid)" "RL pid" rid] D(2) S pid rid(2) by (simp add: pools_ok_def p'_def region_link_def)
    then show "pools_ok S'" using D(2) S rid(1) by (auto simp: pools_ok_def S' set_pool_def RL'_def)
    show "pc_ok S' pc'" using D(4) [of t] pc S by (simp add: pc_ok_def pc_local_def pc_pool_def pc_private_def pc' S' set_pool_def)
    show "compatible pc' (t_pc w u) \<and> compatible (t_pc w u) pc'" if "u \<noteq> t" for u
      using D(5) [of t u] D(5) [of u t] that claims_compatible [of pc' "t_pc w t"] by (auto simp: claims_within_def pc_claims pc pc')
    show "owners_ok os S' ((t_pc w)(t := pc'))" unfolding S'
    proof (rule owners_pool_step [OF D(6) [unfolded S] other [unfolded S S'], where pid = pid])
      show "owner_mem os (set_pool s pid p' (g_mem s), RL') ((t_pc w)(t := pc')) (Pool_of pid) (g_mem (set_pool s pid p' (g_mem s)))"
        using ok' by (auto simp: owner_mem_def set_pool_def RL'_def)
    qed (use add(2) pid foot in \<open>auto simp: pc pc' pc_foot_def pc_mem_def set_pool_def owner_foot_def RL'_def\<close>)
  qed (simp_all add: pc lock_waits_def)
qed

end
