(* ===== verification/Threads_Free.thy ===== *)
theory Threads_Free
  imports Threads_Step
begin

text \<open>The sections that destroy regions and pools keep the invariant too, and with them every section does.\<close>

section \<open>Sections that destroy\<close>

lemma step_destroy_forget:
  assumes inv: "sys_inv os w" and pc: "t_pc w t = Destroy_forget pid rid"
    and exec: "pc_exec os (t_pc w t) (t_shared w) = Inr (pc', S')"
  shows "sys_inv os (after w t pc' S')"
proof -
  note D = sys_invD [OF inv]
  obtain s RL where S: "t_shared w = (s, RL)" by (cases "t_shared w")
  let ?p = "g_pool s pid"
  have pid: "pid \<in> set (g_pools s)" and rid: "rid \<in> set (RL pid)"
    using D(4) [of t] S pc by (auto simp: pc_ok_def pc_local_def pc_pool_def pc_private_def)
  obtain hs cs where ok: "pool_ok os ?p (g_mem s) (set (RL pid)) hs cs" using pool_owner [OF D(6) [unfolded S] pid] .
  have dl: "dlist (p_regions ?p) (RL pid)" using D(2) S pid by (simp add: pools_ok_def)
  obtain p hs' cs' where un: "region_unlink ?p rid = Inr p" and dl': "dlist (p_regions p) (remove1 rid (RL pid))"
    and set': "set (remove1 rid (RL pid)) = set (RL pid) - {rid}"
    and ok': "\<And>m'. (\<And>x. x \<notin> footprint (p_region ?p rid) \<Longrightarrow> m' x = g_mem s x) \<Longrightarrow> pool_ok os p m' (set (RL pid) - {rid}) hs' cs'"
    and foot: "pool_foot p (set (RL pid) - {rid}) = pool_foot ?p (set (RL pid)) - footprint (p_region ?p rid)"
    and st: "static (p_region p rid) = static (p_region ?p rid)" "r_shared_pages (p_region p rid) = r_shared_pages (p_region ?p rid)"
      "r_nshared (p_region p rid) = r_nshared (p_region ?p rid)"
    by (rule region_unlink_ok [OF ok dl rid]) blast
  define RL' where "RL' = RL(pid := remove1 rid (RL pid))"
  have pc': "pc' = Destroy_unlock pid (p_region p rid)" and S': "S' = (set_pool s pid p (g_mem s), RL')"
    using exec pc S un by (simp_all add: RL'_def)
  have RL': "set (RL' pid) = set (RL pid) - {rid}" by (simp add: RL'_def set')
  have free: "freeable os (p_region p rid) (g_mem s)"
    using ok rid st by (auto simp: freeable_def pool_ok_def pool_mem_def)
  have fp: "footprint (p_region p rid) = footprint (p_region ?p rid)" by (rule freeable_foot [OF st])
  have sub: "footprint (p_region ?p rid) \<subseteq> pool_foot ?p (set (RL pid))" using rid unfolding pool_foot_footprint by blast
  have other: "stable (t_shared w) S' (t_pc w u)" if u: "u \<noteq> t" for u
    unfolding S'
  proof (rule stable_pool [OF inv S u _ pid])
    show "k \<in> set (RL' pid)" if "pc_victim (t_pc w u) = Some (pid, k)" "k \<in> set (RL pid)" for k
      using that D(5) [of t u] u unfolding RL' by (auto simp: compatible_def pc_claims pc)
    show "k \<notin> set (RL' pid)" if "k \<notin> set (RL pid)" for k using that unfolding RL' by simp
  qed (simp_all add: pc RL'_def)
  show ?thesis
  proof (rule sys_inv_step [OF inv exec _ _ _ _ _ other])
    show "pools_ok S'" using D(2) S dl' set' by (auto simp: pools_ok_def S' set_pool_def RL'_def)
    show "pc_ok S' pc'" using D(4) [of t] pc S by (simp add: pc_ok_def pc_local_def pc_pool_def pc_private_def pc' S' set_pool_def)
    show "compatible pc' (t_pc w u) \<and> compatible (t_pc w u) pc'" if "u \<noteq> t" for u
      using D(5) [of t u] D(5) [of u t] that claims_compatible [of pc' "t_pc w t"] by (auto simp: claims_within_def pc_claims pc pc')
    show "owners_ok os S' ((t_pc w)(t := pc'))" unfolding S'
    proof (rule owners_pool_step [OF D(6) [unfolded S] other [unfolded S S'], where pid = pid])
      show "owner_mem os (set_pool s pid p (g_mem s), RL') ((t_pc w)(t := pc')) (Pool_of pid) (g_mem (set_pool s pid p (g_mem s)))"
        using ok' [of "g_mem s"] unfolding owner_mem_def RL' by (auto simp: set_pool_def RL')
      show "pc_mem os (set_pool s pid p (g_mem s), RL') pc' (g_mem (set_pool s pid p (g_mem s)))"
        using free by (simp add: pc' pc_mem_def set_pool_def)
    qed (use pid foot fp sub in \<open>auto simp: pc pc' pc_foot_def set_pool_def owner_foot_def RL' RL'_def set'\<close>)
  qed (simp_all add: pc lock_waits_def)
qed

lemma step_destroy_free:
  assumes inv: "sys_inv os w" and pc: "t_pc w t = Destroy_free r"
    and exec: "pc_exec os (t_pc w t) (t_shared w) = Inr (pc', S')"
  shows "sys_inv os (after w t pc' S')"
proof -
  note D = sys_invD [OF inv]
  obtain s RL where S: "t_shared w = (s, RL)" by (cases "t_shared w")
  have "freeable os r (g_mem s)" using thread_owner [OF D(6) [unfolded S], of t] pc by (simp add: pc_mem_def)
  then obtain m where free: "region_free os r (g_mem s) = Inr m" and m: "\<And>x. m x = (if x \<in> footprint r then None else g_mem s x)"
    by (rule freeable_free) blast
  have pc': "pc' = Done Ret_void" and S': "S' = (s\<lparr>g_mem := m\<rparr>, RL)" using exec pc S free by simp_all
  have other: "stable (t_shared w) S' (t_pc w u)" for u by (simp add: stable_def S S')
  show ?thesis
  proof (rule sys_inv_step [OF inv exec _ _ _ _ _ other])
    show "pools_ok S'" using D(2) S by (auto simp: pools_ok_def S')
    show "owners_ok os S' ((t_pc w)(t := pc'))" unfolding S'
      by (rule owners_thread_step [OF D(6) [unfolded S] other [unfolded S S']])
        (use m in \<open>auto simp: pc' pc pc_foot_def pc_mem_def\<close>)
  qed (simp_all add: pc pc' lock_waits_def pc_ok_def pc_local_def pc_pool_def compatible_def pc_claims split: prod.split)
qed

lemma step_pdestroy_unlink:
  assumes inv: "sys_inv os w" and pc: "t_pc w t = Pdestroy_unlink pid"
    and exec: "pc_exec os (t_pc w t) (t_shared w) = Inr (pc', S')"
  shows "sys_inv os (after w t pc' S')"
proof -
  note D = sys_invD [OF inv]
  obtain s RL where S: "t_shared w = (s, RL)" by (cases "t_shared w")
  define s' where "s' = s\<lparr>g_pools := remove1 pid (g_pools s)\<rparr>"
  have pc': "pc' = Pdestroy_unlock pid" and S': "S' = (s', RL)" using exec pc S by (simp_all add: s'_def)
  have pid: "pid \<in> set (g_pools s)" "pid < g_next_pool s"
    using D(4) [of t] S pc by (auto simp: pc_ok_def pc_local_def pc_pool_def pc_private_def)
  have set': "set (g_pools s') = set (g_pools s) - {pid}" using D(2) S by (simp add: pools_ok_def s'_def set_remove1_eq)
  obtain hs cs where ok: "pool_ok os (g_pool s pid) (g_mem s) (set (RL pid)) hs cs" using pool_owner [OF D(6) [unfolded S] pid(1)] .
  have other: "stable (t_shared w) S' (t_pc w u)" if u: "u \<noteq> t" for u
  proof -
    have "pc_pool (t_pc w u) \<noteq> Some pid"
      using pool_reason [of "t_pc w u" pid] D(5) [of t u] D(7) [of t u G_pools_lock] u pc by (auto simp: compatible_def pc_kill_def)
    then show ?thesis using set' by (auto simp: stable_def S S' s'_def)
  qed
  show ?thesis
  proof (rule sys_inv_step [OF inv exec _ _ _ _ _ other])
    show "pools_ok S'" using D(2) S set' by (auto simp: pools_ok_def S' s'_def)
    show "pc_ok S' pc'" using D(2) S pid set' by (auto simp: pc_ok_def pc_local_def pc_pool_def pc_private_def pc' S' s'_def pools_ok_def)
    show "compatible pc' (t_pc w u) \<and> compatible (t_pc w u) pc'" if "u \<noteq> t" for u
      using D(5) [of t u] D(5) [of u t] that claims_compatible [of pc' "t_pc w t"] by (auto simp: claims_within_def pc_claims pc pc')
    show "owners_ok os S' ((t_pc w)(t := pc'))" unfolding S'
    proof (rule owners_pool_step [OF D(6) [unfolded S] other [unfolded S S'], where pid = pid])
      show "pc_mem os (s', RL) pc' (g_mem s')" using ok by (simp add: pc' pc_mem_def s'_def pool_ok_def)
    qed (use set' pid in \<open>auto simp: pc pc' pc_foot_def owner_foot_def owner_mem_def s'_def\<close>)
  qed (simp_all add: pc lock_waits_def)
qed

lemma step_pdestroy_free:
  assumes inv: "sys_inv os w" and pc: "t_pc w t = Pdestroy_free pid"
    and S: "t_shared w = (s, RL)" and hd: "RL pid = rid # rl"
    and exec: "pc_exec os (t_pc w t) (t_shared w) = Inr (pc', S')"
  shows "sys_inv os (after w t pc' S')"
proof -
  note D = sys_invD [OF inv]
  let ?p = "g_pool s pid"
  have pid: "pid \<notin> set (g_pools s)" "pid < g_next_pool s" and dl: "dlist (p_regions ?p) (rid # rl)"
    using D(4) [of t] S pc hd by (auto simp: pc_ok_def pc_local_def pc_pool_def pc_private_def)
  have pm: "pool_mem os ?p (g_mem s) (set (rid # rl))" using thread_owner [OF D(6) [unfolded S], of t] pc hd by (simp add: pc_mem_def)
  obtain m where free: "region_free os (p_region ?p rid) (g_mem s) = Inr m"
    and m: "\<And>x. m x = (if x \<in> footprint (p_region ?p rid) then None else g_mem s x)"
    and dl': "dlist (region_list_remove (p_regions ?p) rid) rl" and pm': "\<And>l. pool_mem os (?p\<lparr>p_regions := l\<rparr>) m (set rl)"
    by (rule pool_free_first [OF dl pm]) blast
  define p where "p = ?p\<lparr>p_regions := region_list_remove (p_regions ?p) rid\<rparr>"
  define RL' where "RL' = RL(pid := rl)"
  have "l_next (p_regions ?p) Sentinel = Node rid" using dlist_next_head [OF dl] by simp
  then have pc': "pc' = Pdestroy_free pid" and S': "S' = (set_pool s pid p m, RL')"
    using exec pc S free hd by (simp_all add: p_def RL'_def Let_def)
  have foot: "pool_foot p (set rl) = pool_foot ?p (set rl)" "pool_foot ?p (set (rid # rl)) = footprint (p_region ?p rid) \<union> pool_foot ?p (set rl)"
    unfolding pool_foot_footprint by (auto simp: p_def)
  have other: "stable (t_shared w) S' (t_pc w u)" if u: "u \<noteq> t" for u
  proof -
    have "pc_pool (t_pc w u) \<noteq> Some pid"
      using D(4) [of u] S pid(1) private_kill [of "t_pc w u" pid] D(5) [of t u] u pc by (auto simp: pc_ok_def compatible_def pc_kill_def)
    moreover have "pc_victim (t_pc w u) \<noteq> Some (pid, k)" for k
      using calculation by (cases "t_pc w u") (auto simp: pc_pool_def pc_victim_def)
    ultimately show ?thesis using hd by (auto simp: stable_def S S' set_pool_def RL'_def dest: spec [of _ pid])
  qed
  show ?thesis
  proof (rule sys_inv_step [OF inv exec _ _ _ _ _ other])
    show "pools_ok S'" using D(2) S pid hd by (auto simp: pools_ok_def S' set_pool_def RL'_def dest: spec [of _ pid])
    show "pc_ok S' pc'" using pid dl' by (simp add: pc_ok_def pc_local_def pc_pool_def pc_private_def pc' S' set_pool_def RL'_def p_def)
    show "compatible pc' (t_pc w u) \<and> compatible (t_pc w u) pc'" if "u \<noteq> t" for u
      using D(5) [of t u] D(5) [of u t] that by (simp add: pc pc')
    show "owners_ok os S' ((t_pc w)(t := pc'))" unfolding S'
      by (rule owners_thread_step [OF D(6) [unfolded S] other [unfolded S S']])
        (use pid pm' [of "region_list_remove (p_regions ?p) rid", folded p_def] foot m hd in \<open>auto simp: pc pc' pc_foot_def pc_mem_def set_pool_def RL'_def\<close>)
  qed (simp_all add: pc lock_waits_def)
qed

section \<open>All sections\<close>

text \<open>The scan finds a region that is in the pool's list, and an offset within it.\<close>

lemma find_region_found:
  assumes "dlist (p_regions p) rl" "find_region_locked p a = Some (Some rid)"
  shows "rid \<in> set rl" "a - r_base (p_region p rid) < r_mapped_size (p_region p rid)" "r_base (p_region p rid) \<le> a"
  using assms(2) find_region_locked_ends [OF assms(1), of a] by (auto simp: region_range_def)

lemma step_fault_region:
  assumes inv: "sys_inv os w" and pc: "t_pc w t = Fault_region a pid"
    and exec: "pc_exec os (t_pc w t) (t_shared w) = Inr (pc', S')"
  shows "sys_inv os (after w t pc' S')"
proof -
  note D = sys_invD [OF inv]
  obtain s RL where S: "t_shared w = (s, RL)" by (cases "t_shared w")
  have S': "S' = t_shared w" using exec pc S by (auto simp: Let_def split: option.splits if_splits)
  have pid: "pid \<in> set (g_pools s)" using D(4) [of t] S pc by (auto simp: pc_ok_def pc_pool_def pc_private_def)
  have dl: "dlist (p_regions (g_pool s pid)) (RL pid)" using D(2) S pid by (simp add: pools_ok_def)
  have "pc_ok (s, RL) pc'"
    using exec pc S D(4) [of t] find_region_found [OF dl]
    by (auto simp: Let_def pc_ok_def pc_local_def pc_pool_def pc_private_def split: option.splits if_splits)
  moreover have "claims_within pc' (t_pc w t)" "pc_foot (t_shared w) pc' = pc_foot (t_shared w) (t_pc w t)"
    "pc_mem os (t_shared w) pc' = pc_mem os (t_shared w) (t_pc w t)"
    using exec pc S by (auto simp: Let_def claims_within_def pc_claims pc_foot_def pc_mem_def split: option.splits if_splits)
  ultimately show ?thesis
    unfolding S' using sys_inv_quiet [OF inv exec [unfolded S']] by (simp add: pc lock_waits_def S)
qed

lemmas pc_view = pc_ok_def pc_local_def pc_pool_def pc_private_def claims_within_def pc_claims pc_foot_def pc_mem_def

text \<open>Sections that only move the counter need no more than that.\<close>

lemma step_quiet:
  assumes inv: "sys_inv os w" and exec: "pc_exec os (t_pc w t) (t_shared w) = Inr (pc', S')"
    and go: "pc_act (t_pc w t) \<noteq> Stop" "\<not> lock_waits (pc_act (t_pc w t)) (t_own w)"
    and S: "t_shared w = (s, RL)"
    and view: "S' = (s, RL) \<and> (pc_ok (s, RL) (t_pc w t) \<longrightarrow> pc_ok (s, RL) pc') \<and> claims_within pc' (t_pc w t) \<and>
      pc_foot (s, RL) pc' = pc_foot (s, RL) (t_pc w t) \<and> pc_mem os (s, RL) pc' = pc_mem os (s, RL) (t_pc w t)"
  shows "sys_inv os (after w t pc' S')"
  using sys_inv_quiet [OF inv _ go, of pc'] exec view sys_invD(4) [OF inv, of t] by (simp add: S)

lemma step_inv:
  assumes inv: "sys_inv os w" and step: "inproc_step os t w = Some (Inr w')"
  shows "sys_inv os w'"
proof -
  note D = sys_invD [OF inv]
  obtain s RL where S: "t_shared w = (s, RL)" by (cases "t_shared w")
  obtain pc' S' where go: "pc_act (t_pc w t) \<noteq> Stop" "\<not> lock_waits (pc_act (t_pc w t)) (t_own w)"
    and exec: "pc_exec os (t_pc w t) (t_shared w) = Inr (pc', S')" and w': "w' = after w t pc' S'"
    using step by (auto simp: inproc_step_def thread_step_def Let_def res_bind_eq_Inr split: if_splits)
  note quiet = step_quiet [OF inv exec go S]
  have known: "pid < g_next_pool s" if "pid \<in> set (g_pools s)" for pid using D(2) S that by (simp add: pools_ok_def)
  have E: "pc_exec os (t_pc w t) (s, RL) = Inr (pc', S')" using exec S by simp
  have "sys_inv os (after w t pc' S')"
  proof (cases "t_pc w t")
    case (Done r)
    then show ?thesis using go by simp
  next
    case (Fault_call a)
    show ?thesis by (rule quiet)
      (use E Fault_call in \<open>auto simp: pc_view intro!: known intro: first_pool_in\<close>)
  next
    case (Fault_pool a p)
    show ?thesis by (rule quiet) (use E Fault_pool in \<open>cases p; auto simp: pc_view\<close>)
  next
    case (Fault_region a pid)
    show ?thesis by (rule step_fault_region [OF inv Fault_region exec])
  next
    case (Fault_resolve pid rid off)
    show ?thesis by (rule step_resolve [OF inv Fault_resolve exec])
  next
    case (Fault_next a pid)
    show ?thesis by (rule quiet)
      (use E Fault_next in \<open>auto simp: pc_view intro!: known intro: next_pool_in\<close>)
  next
    case (Pool_call ok target)
    show ?thesis
    proof (cases ok)
      case True
      then show ?thesis using step_pool_call [OF inv _ exec] Pool_call by simp
    next
      case False
      show ?thesis by (rule quiet) (use E Pool_call False in \<open>auto simp: pc_view\<close>)
    qed
  next
    case (Pool_linking pid)
    show ?thesis by (rule step_pool_linking [OF inv Pool_linking exec])
  next
    case (Region_call pid sizes fill)
    obtain region m where prep: "region_prepare os (g_sig s) (g_mem s) (Some pid) (length sizes) (Some sizes) (Some fill) = Inr (region, m)"
      using exec Region_call S by (auto simp: res_bind_eq_Inr)
    show ?thesis
    proof (cases region)
      case None
      show ?thesis by (rule quiet) (use E Region_call prep None in \<open>auto simp: pc_view\<close>)
    next
      case (Some r)
      then show ?thesis using step_region_call [OF inv Region_call _ S exec] prep by simp
    qed
  next
    case (Region_insert pid rid r)
    show ?thesis by (rule step_region_insert [OF inv Region_insert exec])
  next
    case (Destroy_forget pid rid)
    show ?thesis by (rule step_destroy_forget [OF inv Destroy_forget exec])
  next
    case (Destroy_free r)
    show ?thesis by (rule step_destroy_free [OF inv Destroy_free exec])
  next
    case (Pdestroy_unlink pid)
    show ?thesis by (rule step_pdestroy_unlink [OF inv Pdestroy_unlink exec])
  next
    case (Pdestroy_free pid)
    show ?thesis
    proof (cases "RL pid")
      case Nil
      have "dlist (p_regions (g_pool s pid)) []" using D(4) [of t] S Pdestroy_free Nil by (simp add: pc_ok_def pc_local_def)
      then have "l_next (p_regions (g_pool s pid)) Sentinel = Sentinel" using dlist_next_head by fastforce
      then have "pc' = Done Ret_void" "S' = (s, RL)" using exec Pdestroy_free S by simp_all
      then show ?thesis using Pdestroy_free Nil by (intro quiet) (auto simp: pc_view pool_mem_def pool_foot_footprint fun_eq_iff)
    next
      case (Cons rid rl)
      show ?thesis by (rule step_pdestroy_free [OF inv Pdestroy_free S Cons exec])
    qed
  qed (rule quiet, use E in \<open>force simp: pc_view\<close>)+
  then show ?thesis by (simp add: w')
qed

end
