(* ===== verification/Threads_Run.thy ===== *)
theory Threads_Run
  imports Threads_Free
begin

text \<open>
  Executions of the in-process backend by any number of threads: calls and faults at any moment, sections in any order
  the mutexes allow, and foreign activity in between.
\<close>

section \<open>Aborts\<close>

lemma region_prepare_abort:
  assumes prep: "region_prepare os g m (Some pid) (length sizes) (Some sizes) (Some fill) = Inl e"
    and args: "fault_armed g" "sizes \<noteq> []" "\<forall>x\<in>set sizes. x < SIZE_RANGE" "length sizes + 1 < UINT32_RANGE" "honours_sizes sizes fill"
    and ps: "0 < os_page_size os" "os_page_size os \<le> SIZE_RANGE"
  shows "e = Map_failed ''vm_reserve''"
proof -
  let ?r = "new_region os sizes fill"
  have "sum_chunk_sizes 0 sizes \<noteq> None" using prep args by (cases "sum_chunk_sizes 0 sizes") (auto simp: region_prepare_def)
  then have vs: "valid_sizes sizes" and total: "sum_chunk_sizes 0 sizes = Some (sum_list sizes)"
    using args(2) sum_chunk_sizes_iff [OF args(3)] by (auto simp: valid_sizes_def)
  have n: "length sizes < UINT32_RANGE" using args(4) by simp
  show ?thesis
  proof (cases "vm_reserve os m (r_mapped_size ?r)")
    case (Inl e')
    then show ?thesis using prep args(1,2,4) total
      by (auto simp: region_prepare_def fill_chunk_start_def Let_def vm_reserve_def split: option.splits)
  next
    case (Inr x)
    then obtain base m' where res: "vm_reserve os m (r_mapped_size ?r) = Inr (base, m')" by (cases x) auto
    obtain r2 where "shared_pages_init (?r\<lparr>r_base := base\<rparr>) = Inr r2"
      by (rule create_region_struct [OF vs args(5) ps(1) reserve_fits [OF vs ps res] n res]) blast
    then show ?thesis using prep args(1,2,4) res total by (auto simp: region_prepare_def fill_chunk_start_def Let_def)
  qed
qed

lemma step_abort:
  assumes inv: "sys_inv os w" and step: "inproc_step os t w = Some (Inl e)"
  shows "fill_error e"
proof -
  note D = sys_invD [OF inv]
  obtain s RL where S: "t_shared w = (s, RL)" by (cases "t_shared w")
  have E: "pc_exec os (t_pc w t) (s, RL) = Inl e"
    using step S by (auto simp: inproc_step_def thread_step_def Let_def res_bind_def split: if_splits sum.splits)
  note T = thread_owner [OF D(6) [unfolded S], of t] and P = D(4) [of t, unfolded S]
  show ?thesis
  proof (cases "t_pc w t")
    case (Fault_region a pid)
    have "dlist (p_regions (g_pool s pid)) (RL pid)" using P D(2) S Fault_region by (simp add: pools_ok_def pc_view)
    then show ?thesis using E Fault_region find_region_locked_ends [of _ _ a] by (fastforce simp: Let_def split: option.splits if_splits)
  next
    case (Fault_resolve pid rid off)
    have pid: "pid \<in> set (g_pools s)" and rid: "rid \<in> set (RL pid)" and nr: "\<not> page_readable (region_of s pid rid) off"
      using P Fault_resolve by (simp_all add: pc_view)
    obtain hs cs where ok: "pool_ok os (g_pool s pid) (g_mem s) (set (RL pid)) hs cs" using pool_owner [OF D(6) [unfolded S] pid] .
    show ?thesis using resolve_fault_locked_ok [OF ok rid nr] E Fault_resolve by (auto simp: res_bind_def split: sum.splits)
  next
    case (Pool_call b target)
    then show ?thesis using E by (auto simp: Let_def split: if_splits)
  next
    case (Fault_pool a p)
    then show ?thesis using E by (cases p) auto
  next
    case (Region_call pid sizes fill)
    then have "region_prepare os (g_sig s) (g_mem s) (Some pid) (length sizes) (Some sizes) (Some fill) = Inl e"
      using E by (auto simp: res_bind_def split: sum.splits option.splits)
    from region_prepare_abort [OF this _ _ _ _ _ D(1,8)] show ?thesis using P Region_call by (simp add: pc_view fill_error_def)
  next
    case (Destroy_forget pid rid)
    have pid: "pid \<in> set (g_pools s)" and rid: "rid \<in> set (RL pid)" using P Destroy_forget by (simp_all add: pc_view)
    obtain hs cs where ok: "pool_ok os (g_pool s pid) (g_mem s) (set (RL pid)) hs cs" using pool_owner [OF D(6) [unfolded S] pid] .
    have dl: "dlist (p_regions (g_pool s pid)) (RL pid)" using D(2) S pid by (simp add: pools_ok_def)
    obtain p where "region_unlink (g_pool s pid) rid = Inr p" by (rule region_unlink_ok [OF ok dl rid]) blast
    then show ?thesis using E Destroy_forget by simp
  next
    case (Destroy_free r)
    have "freeable os r (g_mem s)" using T Destroy_free by (simp add: pc_mem_def)
    then obtain m where "region_free os r (g_mem s) = Inr m" by (rule freeable_free)
    then show ?thesis using E Destroy_free by simp
  next
    case (Pdestroy_free pid)
    have dl: "dlist (p_regions (g_pool s pid)) (RL pid)" and pm: "pool_mem os (g_pool s pid) (g_mem s) (set (RL pid))"
      using P T Pdestroy_free by (simp_all add: pc_view)
    show ?thesis
    proof (cases "RL pid")
      case (Cons rid rl)
      have "region_inv os (region_of s pid rid) (g_mem s)" using pm Cons by (simp add: pool_mem_def)
      then obtain m where "region_free os (region_of s pid rid) (g_mem s) = Inr m" by (rule region_free_ok)
      then show ?thesis using E Pdestroy_free dlist_next_head [OF dl] Cons by (simp add: Let_def)
    qed (use E Pdestroy_free dlist_next_head [OF dl] in simp)
  qed (use E in simp_all)
qed

section \<open>Executions\<close>

definition is_call :: "pc \<Rightarrow> bool" where
  "is_call pc = (case pc of Fault_call a \<Rightarrow> True | Pool_call b n \<Rightarrow> True | Region_call pid sizes fill \<Rightarrow> True
     | Destroy_call pid rid \<Rightarrow> True | Pdestroy_call pid \<Rightarrow> True | Debug_call pid \<Rightarrow> True | _ \<Rightarrow> False)"

text \<open>
  What happens next.  A call needs a registered pool, a live region and arguments as documented (\<open>pc_ok\<close>), and
  no other thread that is destroying the same thing (\<open>compatible\<close>).  Faults need nothing: they may
  come at any moment, on any address, whatever is being created or destroyed.
\<close>

inductive sys_next :: "os \<Rightarrow> system \<Rightarrow> system \<Rightarrow> bool" for os where
  section_run: "inproc_step os t w = Some (Inr w') \<Longrightarrow> sys_next os w w'"
| call: "t_pc w t = Done r \<Longrightarrow> is_call pc \<Longrightarrow> pc_ok (t_shared w) pc \<Longrightarrow>
    (\<And>u. u \<noteq> t \<Longrightarrow> compatible pc (t_pc w u) \<and> compatible (t_pc w u) pc) \<Longrightarrow> sys_next os w (w\<lparr>t_pc := (t_pc w)(t := pc)\<rparr>)"
| other_memory: "(\<And>i x. x \<in> owner_foot (t_shared w) (t_pc w) i \<Longrightarrow> m x = g_mem (sys_proc w) x) \<Longrightarrow>
    sys_next os w (w\<lparr>t_shared := ((sys_proc w)\<lparr>g_mem := m\<rparr>, sys_regions w)\<rparr>)"
| other_signal: "(fault_armed (g_sig (sys_proc w)) \<Longrightarrow> fault_armed g) \<Longrightarrow>
    sys_next os w (w\<lparr>t_shared := ((sys_proc w)\<lparr>g_sig := g\<rparr>, sys_regions w)\<rparr>)"

definition sys_start :: "system \<Rightarrow> bool" where
  "sys_start w \<longleftrightarrow> g_pools (sys_proc w) = [] \<and> \<not> g_resolving_fault (sys_proc w) \<and> sys_regions w = (\<lambda>_. []) \<and>
     t_own w = (\<lambda>_. None) \<and> (\<forall>t. \<exists>r. t_pc w t = Done r)"

inductive interleaved :: "os \<Rightarrow> system \<Rightarrow> bool" for os where
  start: "sys_start w \<Longrightarrow> interleaved os w"
| further: "interleaved os w \<Longrightarrow> sys_next os w w' \<Longrightarrow> interleaved os w'"

lemma sys_start_inv:
  assumes "sys_start w" "0 < os_page_size os" "os_page_size os \<le> SIZE_RANGE"
  shows "sys_inv os w"
proof -
  obtain s RL where S: "t_shared w = (s, RL)" by (cases "t_shared w")
  have w: "g_pools s = []" "\<not> g_resolving_fault s" "RL = (\<lambda>_. [])" "t_own w = (\<lambda>_. None)" and idle: "\<And>t. \<exists>r. t_pc w t = Done r"
    using assms(1) S by (auto simp: sys_start_def)
  have "pc_holds (t_pc w t) = {}" "pc_ok (s, RL) (t_pc w t)" "compatible (t_pc w t) (t_pc w u)" "pc_mem os (s, RL) (t_pc w t) m" "pc_foot (s, RL) (t_pc w t) = {}" for t u m
    using idle [of t] by (auto simp: pc_view compatible_def)
  then show ?thesis using assms(2,3) w S
    by (auto simp: sys_inv_def pools_ok_def inproc_locks.owned_def owners_ok_def owner_mem_def owner_foot_def split: owner.splits)
qed

lemma stable_same:
  "stable (s, RL) (s\<lparr>g_mem := m\<rparr>, RL) pc" "(fault_armed (g_sig s) \<Longrightarrow> fault_armed g) \<Longrightarrow> stable (s, RL) (s\<lparr>g_sig := g\<rparr>, RL) pc"
  by (auto simp: stable_def)

lemma sys_next_inv:
  assumes "sys_next os w w'" "sys_inv os w"
  shows "sys_inv os w'"
  using assms
proof (induction rule: sys_next.induct)
  case (section_run t w w')
  then show ?case using step_inv by blast
next
  case (call w t r pc)
  note D = sys_invD [OF call.prems]
  have none: "pc_holds pc = {}" "pc_foot S pc = {}" "pc_mem os S pc m" for S m
    using call.hyps(2) by (auto simp: is_call_def pc_foot_def pc_mem_def split: pc.splits)
  have "inproc_locks.owned (t_own w) ((t_pc w)(t := pc))" using D(3) call.hyps(1) none unfolding inproc_locks.owned_def by auto
  moreover have "owner_foot (t_shared w) ((t_pc w)(t := pc)) = owner_foot (t_shared w) (t_pc w)"
    "owner_mem os (t_shared w) ((t_pc w)(t := pc)) = owner_mem os (t_shared w) (t_pc w)"
    using call.hyps(1) none by (auto simp: fun_eq_iff owner_foot_def owner_mem_def pc_foot_def pc_mem_def split: owner.split)
  moreover have "compatible (((t_pc w)(t := pc)) u) (((t_pc w)(t := pc)) v)" if "u \<noteq> v" for u v
    using that D(5) [of u v] call.hyps(4) by auto
  ultimately show ?case using D call.hyps(3) by (simp add: sys_inv_def owners_ok_def)
next
  case (other_memory w m)
  note D = sys_invD [OF other_memory.prems]
  obtain s RL where S: "t_shared w = (s, RL)" by (cases "t_shared w")
  have eq: "owner_foot (s\<lparr>g_mem := m\<rparr>, RL) (t_pc w) = owner_foot (s, RL) (t_pc w)" "owner_mem os (s\<lparr>g_mem := m\<rparr>, RL) (t_pc w) = owner_mem os (s, RL) (t_pc w)"
    using stable_foot [OF stable_same(1)] by (auto simp: fun_eq_iff owner_foot_def owner_mem_def split: owner.split)
  have "owner_mem os (s, RL) (t_pc w) i m" for i
    by (rule owner_mem_local [where m = "g_mem s"]) (use D(6) S other_memory.hyps in \<open>auto simp: owners_ok_def\<close>)
  then have "owners_ok os (s\<lparr>g_mem := m\<rparr>, RL) (t_pc w)" using D(6) S by (simp add: owners_ok_def eq)
  moreover have "pc_ok (s\<lparr>g_mem := m\<rparr>, RL) (t_pc w t)" for t using pc_ok_stable [OF D(4) [unfolded S] stable_same(1)] .
  ultimately show ?case using D S by (simp add: sys_inv_def pools_ok_def)
next
  case (other_signal w g)
  note D = sys_invD [OF other_signal.prems]
  obtain s RL where S: "t_shared w = (s, RL)" by (cases "t_shared w")
  have arm: "fault_armed (g_sig s) \<Longrightarrow> fault_armed g" using other_signal.hyps S by simp
  have "owner_foot (s\<lparr>g_sig := g\<rparr>, RL) (t_pc w) = owner_foot (s, RL) (t_pc w)" "owner_mem os (s\<lparr>g_sig := g\<rparr>, RL) (t_pc w) = owner_mem os (s, RL) (t_pc w)"
    using stable_foot [OF stable_same(2) [OF arm]] by (auto simp: fun_eq_iff owner_foot_def owner_mem_def split: owner.split)
  then have "owners_ok os (s\<lparr>g_sig := g\<rparr>, RL) (t_pc w)" using D(6) S by (simp add: owners_ok_def)
  moreover have "pc_ok (s\<lparr>g_sig := g\<rparr>, RL) (t_pc w t)" for t using pc_ok_stable [OF D(4) [unfolded S] stable_same(2) [OF arm]] .
  ultimately show ?case using D S by (simp add: sys_inv_def pools_ok_def)
qed

lemma interleaved_inv: "interleaved os w \<Longrightarrow> 0 < os_page_size os \<Longrightarrow> os_page_size os \<le> SIZE_RANGE \<Longrightarrow> sys_inv os w"
  by (induction rule: interleaved.induct) (auto intro: sys_start_inv sys_next_inv)

end
