(* ===== verification/Threads_Solo.thy ===== *)
theory Threads_Solo
  imports Threads_Run
begin

text \<open>
  A thread that runs undisturbed, with no mutex held at the start: its sections together are the operation of the sequential model.
  The fuel counts sections.
\<close>

section \<open>Running one thread\<close>

fun run_thread :: "nat \<Rightarrow> os \<Rightarrow> nat \<Rightarrow> system \<Rightarrow> system res option" where
  "run_thread 0 os t w = None"
| "run_thread (Suc n) os t w =
     (if pc_act (t_pc w t) = Stop then Some (Inr w)
      else case inproc_step os t w of
        None \<Rightarrow> None
      | Some (Inl e) \<Rightarrow> Some (Inl e)
      | Some (Inr w') \<Rightarrow> run_thread n os t w')"

lemma run_section [simp]:
  assumes "pc_act pc \<noteq> Stop" "\<not> lock_waits (pc_act pc) own"
  shows "run_thread (Suc n) os t \<lparr>t_shared = S, t_own = own, t_pc = pcs(t := pc)\<rparr> =
    (case pc_exec os pc S of
       Inl e \<Rightarrow> Some (Inl e)
     | Inr (pc', S') \<Rightarrow> run_thread n os t \<lparr>t_shared = S', t_own = lock_after t (pc_act pc) own, t_pc = pcs(t := pc')\<rparr>)"
  using assms by (auto simp: inproc_step_def thread_step_def Let_def split: sum.splits)

lemma run_done [simp]:
  "run_thread (Suc n) os t \<lparr>t_shared = S, t_own = own, t_pc = pcs(t := Done r)\<rparr> = Some (Inr \<lparr>t_shared = S, t_own = own, t_pc = pcs(t := Done r)\<rparr>)"
  by simp

declare run_thread.simps(2) [simp del]

abbreviation no_locks :: "mutex \<Rightarrow> nat option" where
  "no_locks \<equiv> \<lambda>_. None"

lemma lock_simps [simp]:
  "\<not> lock_waits Keep own" "\<not> lock_waits (Release l) own" "lock_waits (Acquire l) own \<longleftrightarrow> own l \<noteq> None"
  "lock_after t Keep own = own" "lock_after t (Acquire l) own = own(l := Some t)" "lock_after t (Release l) own = own(l := None)"
  "no_locks(l := None) = no_locks" "no_locks(l := Some t, l' := None) = (if l = l' then no_locks else no_locks(l := Some t))"
  "(no_locks(G_pools_lock := x)) (Pool_lock pid) = None"
  by (auto simp: lock_waits_def lock_after_def fun_eq_iff)

text \<open>The outcome of an operation that replaces the process and returns a value.\<close>

definition returns :: "system \<Rightarrow> nat \<Rightarrow> (ret \<times> shared) res \<Rightarrow> system res" where
  "returns w t r = res_bind r (\<lambda>(v, S). Inr \<lparr>t_shared = S, t_own = t_own w, t_pc = (t_pc w)(t := Done v)\<rparr>)"

definition alone :: "os \<Rightarrow> nat \<Rightarrow> system \<Rightarrow> (ret \<times> shared) res \<Rightarrow> bool" where
  "alone os t w r \<longleftrightarrow> (\<exists>n. run_thread n os t w = Some (returns w t r))"

lemma aloneI:
  assumes "t_own w = no_locks" "t_pc w t = pc" "t_shared w = (s, RL)"
    "run_thread n os t \<lparr>t_shared = (s, RL), t_own = no_locks, t_pc = (t_pc w)(t := pc)\<rparr> =
      Some (res_bind r (\<lambda>(v, S). Inr \<lparr>t_shared = S, t_own = no_locks, t_pc = (t_pc w)(t := Done v)\<rparr>))"
  shows "alone os t w r"
proof -
  have "w = \<lparr>t_shared = (s, RL), t_own = no_locks, t_pc = (t_pc w)(t := pc)\<rparr>" using assms(1-3) by (cases w) auto
  then show ?thesis using assms(1,4) unfolding alone_def returns_def by metis
qed

section \<open>The fault handler\<close>

lemma run_scan:
  assumes "g_pools s = pre @ pids" "distinct (g_pools s)" "\<not> g_resolving_fault s"
  shows "\<exists>n. run_thread n os t \<lparr>t_shared = (s, RL), t_own = no_locks(G_pools_lock := Some t), t_pc = pcs(t := Fault_pool a (first_pool pids))\<rparr> =
    Some (res_bind (fault_try_pools os s pids a) (\<lambda>(b, s'). Inr \<lparr>t_shared = (s', RL), t_own = no_locks, t_pc = pcs(t := Done (Ret_bool b))\<rparr>))"
  using assms(1)
proof (induction pids arbitrary: pre)
  case Nil
  show ?case by (rule exI [of _ "Suc (Suc (Suc 0))"]) (simp del: fun_upd_apply add: first_pool_def)
next
  case (Cons q pids)
  have nx: "next_pool (g_pools s) q = first_pool pids" using Cons.prems assms(2) by (simp add: next_pool_suffix)
  obtain n where n: "run_thread n os t \<lparr>t_shared = (s, RL), t_own = no_locks(G_pools_lock := Some t), t_pc = pcs(t := Fault_pool a (first_pool pids))\<rparr> =
    Some (res_bind (fault_try_pools os s pids a) (\<lambda>(b, s'). Inr \<lparr>t_shared = (s', RL), t_own = no_locks, t_pc = pcs(t := Done (Ret_bool b))\<rparr>))"
    using Cons.IH [of "pre @ [q]"] Cons.prems by (auto simp del: fun_upd_apply)
  have own: "no_locks(G_pools_lock := Some t, Pool_lock q := None) = no_locks(G_pools_lock := Some t)" by simp
  show ?case
  proof (cases "find_region_locked (g_pool s q) a")
    case None
    then show ?thesis by (intro exI [of _ "Suc (Suc 0)"]) (simp del: fun_upd_apply add: first_pool_def)
  next
    case (Some f)
    show ?thesis
    proof (cases f)
      case None
      then show ?thesis using Some n nx by (intro exI [of _ "Suc (Suc (Suc n))"]) (simp del: fun_upd_apply add: first_pool_def)
    next
      case (Some rid)
      note found = \<open>find_region_locked (g_pool s q) a = Some f\<close> [unfolded Some]
      let ?off = "a - r_base (region_of s q rid)"
      show ?thesis
      proof (cases "page_readable (region_of s q rid) ?off")
        case True
        then show ?thesis using found n nx by (intro exI [of _ "Suc (Suc (Suc n))"]) (simp del: fun_upd_apply add: first_pool_def Let_def)
      next
        case False
        have same: "s\<lparr>g_pool := (g_pool s)(q := p), g_mem := m, g_resolving_fault := False\<rparr> = set_pool s q p m" for p m
          using assms(3) by (cases s) (simp add: set_pool_def)
        show ?thesis
        proof (cases "resolve_fault_locked os (g_pool s q) rid ?off (g_mem s)")
          case (Inl e)
          then show ?thesis using found False
            by (intro exI [of _ "Suc (Suc (Suc 0))"]) (simp del: fun_upd_apply add: first_pool_def Let_def)
        next
          case (Inr x)
          obtain p m where x: "x = (p, m)" by (cases x)
          show ?thesis using found False Inr
            by (intro exI [of _ "Suc (Suc (Suc (Suc (Suc (Suc 0)))))"]) (simp del: fun_upd_apply add: first_pool_def Let_def x same)
        qed
      qed
    qed
  qed
qed

lemma alone_fault:
  assumes "sys_inv os w" "t_own w = no_locks" "t_pc w t = Fault_call a"
  shows "alone os t w (res_bind (fault_try_resolve os (sys_proc w) a) (\<lambda>(b, s'). Inr (Ret_bool b, s', sys_regions w)))"
proof -
  obtain s RL where S: "t_shared w = (s, RL)" by (cases "t_shared w")
  have ps: "distinct (g_pools s)" "\<not> g_resolving_fault s" using sys_invD(2) [OF assms(1)] S by (simp_all add: pools_ok_def)
  obtain n where n: "run_thread n os t \<lparr>t_shared = (s, RL), t_own = no_locks(G_pools_lock := Some t), t_pc = (t_pc w)(t := Fault_pool a (first_pool (g_pools s)))\<rparr> =
    Some (res_bind (fault_try_pools os s (g_pools s) a) (\<lambda>(b, s'). Inr \<lparr>t_shared = (s', RL), t_own = no_locks, t_pc = (t_pc w)(t := Done (Ret_bool b))\<rparr>))"
    using run_scan [of s "[]" "g_pools s" os t RL "t_pc w" a] ps by auto
  show ?thesis
    by (rule aloneI [OF assms(2,3) S, where n = "Suc n"])
      (use n S ps in \<open>auto simp: fault_try_resolve_def res_bind_def split: sum.splits\<close>)
qed

section \<open>Creating and destroying\<close>

lemma alone_pool_create:
  assumes "t_own w = no_locks" "t_pc w t = Pool_call malloc_ok target"
  shows "alone os t w (case fc_pool_create malloc_ok (sys_proc w) target of
    (pool, s') \<Rightarrow> Inr (Ret_pool pool, s', (case pool of None \<Rightarrow> sys_regions w | Some pid \<Rightarrow> (sys_regions w)(pid := []))))"
proof -
  obtain s RL where S: "t_shared w = (s, RL)" by (cases "t_shared w")
  show ?thesis
    by (rule aloneI [OF assms S, where n = "Suc (Suc (Suc (Suc (Suc 0))))"])
      (simp add: S fc_pool_create_def new_pool_def Let_def)
qed

lemma alone_region_create:
  assumes "t_own w = no_locks" "t_pc w t = Region_call pid sizes fill"
  shows "alone os t w (res_bind (fc_region_create os (sys_proc w) (Some pid) (length sizes) (Some sizes) (Some fill)) (\<lambda>(region, s').
    Inr (Ret_region region, s', (case region of None \<Rightarrow> sys_regions w | Some (q, rid) \<Rightarrow> (sys_regions w)(q := rid # sys_regions w q)))))"
proof -
  obtain s RL where S: "t_shared w = (s, RL)" by (cases "t_shared w")
  show ?thesis
    by (rule aloneI [OF assms S, where n = "Suc (Suc (Suc (Suc (Suc 0))))"],
        cases "region_prepare os (g_sig s) (g_mem s) (Some pid) (length sizes) (Some sizes) (Some fill)")
      (auto simp: S fc_region_create_def set_pool_def Let_def split: option.splits)
qed

lemma alone_region_destroy:
  assumes "t_own w = no_locks" "t_pc w t = Destroy_call pid rid"
  shows "alone os t w (res_bind (fc_region_destroy os (sys_proc w) (Some (pid, rid))) (\<lambda>s'.
    Inr (Ret_void, s', (sys_regions w)(pid := remove1 rid (sys_regions w pid)))))"
proof -
  obtain s RL where S: "t_shared w = (s, RL)" by (cases "t_shared w")
  show ?thesis
  proof (cases "region_unlink (g_pool s pid) rid")
    case (Inl e)
    then show ?thesis
      by (intro aloneI [OF assms S, where n = "Suc (Suc 0)"]) (simp add: S fc_region_destroy_def)
  next
    case (Inr p)
    then show ?thesis
      by (intro aloneI [OF assms S, where n = "Suc (Suc (Suc (Suc (Suc 0))))"], cases "region_free os (p_region p rid) (g_mem s)")
        (simp_all add: S fc_region_destroy_def set_pool_def)
  qed
qed

text \<open>The struct of the destroyed pool is freed memory: what is left in it does not matter.\<close>

lemma run_pool_free:
  assumes "dlist (p_regions (g_pool s pid)) (RL pid)" "pool_mem os (g_pool s pid) (g_mem s) (set (RL pid))"
  shows "\<exists>n p m. pool_free_loop os (g_pool s pid) (g_mem s) = Some (Inr m) \<and>
    run_thread n os t \<lparr>t_shared = (s, RL), t_own = no_locks, t_pc = pcs(t := Pdestroy_free pid)\<rparr> =
      Some (Inr \<lparr>t_shared = (set_pool s pid p m, RL(pid := [])), t_own = no_locks, t_pc = pcs(t := Done Ret_void)\<rparr>)"
  using assms
proof (induction "RL pid" arbitrary: s RL)
  case Nil
  have hd: "l_next (p_regions (g_pool s pid)) Sentinel = Sentinel" using dlist_next_head [OF Nil.prems(1)] Nil.hyps [symmetric] by simp
  have "run_thread (Suc (Suc 0)) os t \<lparr>t_shared = (s, RL), t_own = no_locks, t_pc = pcs(t := Pdestroy_free pid)\<rparr> =
      Some (Inr \<lparr>t_shared = (set_pool s pid (g_pool s pid) (g_mem s), RL(pid := [])), t_own = no_locks, t_pc = pcs(t := Done Ret_void)\<rparr>)"
    using hd Nil.hyps by (simp add: set_pool_def fun_upd_idem)
  moreover have "pool_free_loop os (g_pool s pid) (g_mem s) = Some (Inr (g_mem s))" using hd by (subst pool_free_loop.simps) simp
  ultimately show ?case by blast
next
  case (Cons rid rl)
  let ?p = "g_pool s pid"
  let ?p1 = "?p\<lparr>p_regions := region_list_remove (p_regions ?p) rid\<rparr>"
  have dl: "dlist (p_regions ?p) (rid # rl)" and pm: "pool_mem os ?p (g_mem s) (set (rid # rl))" using Cons by simp_all
  obtain m1 where free: "region_free os (p_region ?p rid) (g_mem s) = Inr m1"
    and dl1: "dlist (region_list_remove (p_regions ?p) rid) rl" and pm1: "\<And>l. pool_mem os (?p\<lparr>p_regions := l\<rparr>) m1 (set rl)"
    by (rule pool_free_first [OF dl pm]) blast
  have hd: "l_next (p_regions ?p) Sentinel = Node rid" using dlist_next_head [OF dl] by simp
  let ?s1 = "set_pool s pid ?p1 m1" and ?RL1 = "RL(pid := rl)"
  have g1: "g_pool ?s1 pid = ?p1" "g_mem ?s1 = m1" by (simp_all add: set_pool_def)
  have "\<exists>n p m. pool_free_loop os (g_pool ?s1 pid) (g_mem ?s1) = Some (Inr m) \<and>
    run_thread n os t \<lparr>t_shared = (?s1, ?RL1), t_own = no_locks, t_pc = pcs(t := Pdestroy_free pid)\<rparr> =
      Some (Inr \<lparr>t_shared = (set_pool ?s1 pid p m, ?RL1(pid := [])), t_own = no_locks, t_pc = pcs(t := Done Ret_void)\<rparr>)"
    by (rule Cons.hyps(1)) (use dl1 pm1 in \<open>simp_all add: g1\<close>)
  then obtain n p m where loop: "pool_free_loop os ?p1 m1 = Some (Inr m)"
    and run: "run_thread n os t \<lparr>t_shared = (?s1, ?RL1), t_own = no_locks, t_pc = pcs(t := Pdestroy_free pid)\<rparr> =
      Some (Inr \<lparr>t_shared = (set_pool ?s1 pid p m, ?RL1(pid := [])), t_own = no_locks, t_pc = pcs(t := Done Ret_void)\<rparr>)"
    unfolding g1 by blast
  have rl: "remove1 rid (RL pid) = rl" by (simp add: Cons.hyps(2) [symmetric])
  have over: "set_pool ?s1 pid p m = set_pool s pid p m" "?RL1(pid := []) = RL(pid := [])" by (simp_all add: set_pool_def)
  have "run_thread (Suc n) os t \<lparr>t_shared = (s, RL), t_own = no_locks, t_pc = pcs(t := Pdestroy_free pid)\<rparr> =
      Some (Inr \<lparr>t_shared = (set_pool s pid p m, RL(pid := [])), t_own = no_locks, t_pc = pcs(t := Done Ret_void)\<rparr>)"
    using hd free run unfolding over by (simp add: Let_def rl)
  moreover have "pool_free_loop os ?p (g_mem s) = Some (Inr m)" using hd free loop by (subst pool_free_loop.simps) simp
  ultimately show ?case by blast
qed

lemma alone_pool_destroy:
  assumes inv: "sys_inv os w" and own: "t_own w = no_locks" and pc: "t_pc w t = Pdestroy_call pid"
  shows "\<exists>p. alone os t w (res_bind (fc_pool_destroy os (sys_proc w) (Some pid)) (\<lambda>s'.
    Inr (Ret_void, s'\<lparr>g_pool := (g_pool s')(pid := p)\<rparr>, (sys_regions w)(pid := []))))"
proof -
  note D = sys_invD [OF inv]
  obtain s RL where S: "t_shared w = (s, RL)" by (cases "t_shared w")
  define s1 where "s1 = s\<lparr>g_pools := remove1 pid (g_pools s)\<rparr>"
  have g1: "g_pool s1 = g_pool s" "g_mem s1 = g_mem s" by (simp_all add: s1_def)
  have pid: "pid \<in> set (g_pools s)" using D(4) [of t] pc S by (simp add: pc_view)
  obtain hs cs where "pool_ok os (g_pool s pid) (g_mem s) (set (RL pid)) hs cs" using pool_owner [OF D(6) [unfolded S] pid] .
  then have "pool_mem os (g_pool s1 pid) (g_mem s1) (set (RL pid))" "dlist (p_regions (g_pool s1 pid)) (RL pid)"
    using D(2) S pid by (simp_all add: pool_ok_def pools_ok_def g1)
  then obtain n p m where loop: "pool_free_loop os (g_pool s pid) (g_mem s) = Some (Inr m)"
    and run: "run_thread n os t \<lparr>t_shared = (s1, RL), t_own = no_locks, t_pc = (t_pc w)(t := Pdestroy_free pid)\<rparr> =
      Some (Inr \<lparr>t_shared = (set_pool s1 pid p m, RL(pid := [])), t_own = no_locks, t_pc = (t_pc w)(t := Done Ret_void)\<rparr>)"
    using run_pool_free [of s1 pid RL os t "t_pc w"] unfolding g1 by blast
  have "alone os t w (res_bind (fc_pool_destroy os (sys_proc w) (Some pid)) (\<lambda>s'.
    Inr (Ret_void, s'\<lparr>g_pool := (g_pool s')(pid := p)\<rparr>, (sys_regions w)(pid := []))))"
    by (rule aloneI [OF own pc S, where n = "Suc (Suc (Suc n))"])
      (use run loop in \<open>simp del: fun_upd_apply add: S fc_pool_destroy_def s1_def set_pool_def\<close>)
  then show ?thesis by blast
qed

end
