(* ===== verification/Threads_Scan.thy ===== *)
theory Threads_Scan
  imports Threads_Run
begin

text \<open>
  The scan of the fault handler among other threads.  It lets go of each pool before it looks at the next one, and yet
  it cannot miss a region that is there all the time.
\<close>

section \<open>What other threads leave alone\<close>

lemma exec_keeps_chain:
  "pc_exec os pc (s, RL) = Inr (pc', s', RL') \<Longrightarrow> G_pools_lock \<notin> pc_holds pc \<Longrightarrow> g_pools s' = g_pools s"
  by (cases pc) (auto simp: Let_def set_pool_def res_bind_eq_Inr split: if_splits option.splits ptr.splits)

lemma exec_keeps_pool:
  assumes "pc_exec os pc (s, RL) = Inr (pc', s', RL')" "Pool_lock pid \<notin> pc_holds pc" "pc_ok (s, RL) pc" "pid \<in> set (g_pools s)"
    "pid < g_next_pool s"
  shows "g_pool s' pid = g_pool s pid"
proof (cases pc)
  case (Fault_pool a q)
  then show ?thesis using assms(1) by (cases q) auto
next
  case (Fault_region a q)
  then show ?thesis using assms(1) by (auto simp: Let_def split: option.splits if_splits)
next
  case (Region_call q sizes fill)
  then show ?thesis using assms(1) by (auto simp: res_bind_eq_Inr split: option.splits)
next
  case (Pdestroy_free q)
  then have "q \<noteq> pid" using assms(3,4) by (auto simp: pc_view)
  then show ?thesis using assms(1) Pdestroy_free by (auto simp: Let_def set_pool_def res_bind_eq_Inr split: ptr.splits)
qed (use assms in \<open>auto simp: Let_def set_pool_def res_bind_eq_Inr split: if_splits\<close>)

lemma others_leave:
  assumes inv: "sys_inv os w" and nx: "sys_next os w w'" and busy: "pc_act (t_pc w t) \<noteq> Stop"
  shows "inproc_step os t w = Some (Inr w') \<or>
    (t_pc w' t = t_pc w t \<and> (G_pools_lock \<in> pc_holds (t_pc w t) \<longrightarrow> g_pools (sys_proc w') = g_pools (sys_proc w)) \<and>
     (\<forall>pid\<in>set (g_pools (sys_proc w)). Pool_lock pid \<in> pc_holds (t_pc w t) \<longrightarrow> g_pool (sys_proc w') pid = g_pool (sys_proc w) pid))"
  using nx
proof (cases rule: sys_next.cases)
  case (section_run u)
  note D = sys_invD [OF inv]
  show ?thesis
  proof (cases "u = t")
    case True
    then show ?thesis using section_run by simp
  next
    case False
    obtain s RL where S: "t_shared w = (s, RL)" by (cases "t_shared w")
    obtain pc' s' RL' where exec: "pc_exec os (t_pc w u) (s, RL) = Inr (pc', s', RL')" and w': "w' = after w u pc' (s', RL')"
      using section_run S by (auto simp: inproc_step_def thread_step_def Let_def res_bind_eq_Inr split: if_splits)
    have lt: "pid < g_next_pool s" if "pid \<in> set (g_pools s)" for pid using D(2) S that by (simp add: pools_ok_def)
    have "G_pools_lock \<in> pc_holds (t_pc w t) \<Longrightarrow> g_pools s' = g_pools s"
      using exec_keeps_chain [OF exec] D(7) [of t u G_pools_lock] False by simp
    moreover have "g_pool s' pid = g_pool s pid" if "pid \<in> set (g_pools s)" "Pool_lock pid \<in> pc_holds (t_pc w t)" for pid
      using exec_keeps_pool [OF exec _ _ that(1) lt [OF that(1)]] D(4) [of u] D(7) [of t u, OF _ that(2)] False S by auto
    ultimately show ?thesis using False S by (simp add: w')
  qed
qed (use busy in auto)

section \<open>The scan\<close>

text \<open>The handler is still on its way to the pool \<open>pid\<close>, or has found the region \<open>rid\<close> there.\<close>

definition seeking :: "nat list \<Rightarrow> addr \<Rightarrow> nat \<Rightarrow> nat \<Rightarrow> size_t \<Rightarrow> pc \<Rightarrow> bool" where
  "seeking ps a pid rid off pc \<longleftrightarrow> pc = Fault_call a \<or> pc = Fault_resolve pid rid off \<or>
     (\<exists>pre q post. ps = pre @ q # post \<and>
       (pid \<in> set (q # post) \<and> (pc = Fault_pool a (Some q) \<or> pc = Fault_region a q) \<or> pid \<in> set post \<and> pc = Fault_next a q))"

lemma seeking_first: "pid \<in> set ps \<Longrightarrow> seeking ps a pid rid off (Fault_pool a (first_pool ps))"
  by (cases ps) (auto simp: seeking_def first_pool_def)

lemma seeking_next:
  assumes "distinct (pre @ q # post)" "pid \<in> set post"
  shows "seeking (pre @ q # post) a pid rid off (Fault_pool a (next_pool (pre @ q # post) q))"
proof -
  obtain r rest where post: "post = r # rest" using assms(2) by (cases post) auto
  have "next_pool (pre @ q # post) q = Some r" using assms(1) post next_pool_suffix [of q pre post] by (simp add: first_pool_def)
  then show ?thesis unfolding seeking_def using assms(2) post by (intro disjI2 exI [of _ "pre @ [q]"] exI [of _ r] exI [of _ rest]) simp
qed

lemma seeking_busy: "seeking ps a pid rid off pc \<Longrightarrow> pc_act pc \<noteq> Stop \<and> (pc = Fault_call a \<or> G_pools_lock \<in> pc_holds pc)"
  by (auto simp: seeking_def)

lemma scan_section:
  assumes inv: "sys_inv os w" and step: "inproc_step os t w = Some (Inr w')" and S: "t_shared w = (s, RL)" and S': "t_shared w' = (s', RL')"
    and lv: "live s RL pid rid" and a: "a \<in> region_range (region_of s pid rid)" and off: "off = a - r_base (region_of s pid rid)"
    and nr: "\<not> page_readable (region_of s pid rid) off" and seek: "seeking (g_pools s) a pid rid off (t_pc w t)"
  shows "seeking (g_pools s') a pid rid off (t_pc w' t) \<and> region_of s' pid rid = region_of s pid rid \<or>
    page_readable (region_of s' pid rid) off \<and> r_base (region_of s' pid rid) = r_base (region_of s pid rid)"
proof -
  note D = sys_invD [OF inv]
  have pinv: "proc_inv os s RL" using sys_inv_proc [OF inv] S by simp
  have pid: "pid \<in> set (g_pools s)" and rid: "rid \<in> set (RL pid)" using lv by (simp_all add: live_def)
  have ps: "distinct (g_pools s)" using pinv by (simp add: proc_inv_def)
  obtain hs cs where ok: "pool_ok os (g_pool s pid) (g_mem s) (set (RL pid)) hs cs" using live_region(3) [OF pinv lv] by blast
  have own: "find_region_locked (g_pool s pid) a = Some (Some rid)" using find_region_own [OF ok live_region(2) [OF pinv lv] rid a] .
  have exec: "pc_exec os (t_pc w t) (s, RL) = Inr (t_pc w' t, s', RL')"
    using step S S' by (auto simp: inproc_step_def thread_step_def Let_def res_bind_eq_Inr split: if_splits)
  from seek consider "t_pc w t = Fault_call a" | "t_pc w t = Fault_resolve pid rid off"
    | pre q post where "g_pools s = pre @ q # post" "pid \<in> set (q # post)" "t_pc w t = Fault_pool a (Some q)"
    | pre q post where "g_pools s = pre @ q # post" "pid \<in> set (q # post)" "t_pc w t = Fault_region a q"
    | pre q post where "g_pools s = pre @ q # post" "pid \<in> set post" "t_pc w t = Fault_next a q"
    unfolding seeking_def by blast
  then show ?thesis
  proof cases
    case 1
    then have "t_pc w' t = Fault_pool a (first_pool (g_pools s))" "s' = s" using exec by auto
    then show ?thesis using seeking_first [OF pid] by simp
  next
    case 2
    then obtain p m where run: "resolve_fault_locked os (g_pool s pid) rid off (g_mem s) = Inr (p, m)" and s': "s' = set_pool s pid p m"
      using exec by (auto simp: res_bind_eq_Inr)
    have rd: "page_readable (p_region p rid) (page_floor off (r_page_size (region_of s pid rid)))"
      and st: "static (p_region p rid) = static (region_of s pid rid)"
      using resolve_fault_locked_ok [OF ok rid nr] run by (auto simp: resolve_post_def pool_step_def pool_static_def rid split: prod.splits)
    note F = static_fields [OF st]
    have "0 < r_page_size (region_of s pid rid)"
      using region_wfD(5) [of os "region_of s pid rid"] live_region(1) [OF pinv lv] sys_invD(1) [OF inv] by (simp add: region_inv_def)
    then have "page_readable (p_region p rid) off" using rd page_readable_page [of "p_region p rid" off] by (simp add: F)
    then show ?thesis by (simp add: s' set_pool_def F)
  next
    case 3
    then have "t_pc w' t = Fault_region a q" "s' = s" using exec by auto
    then show ?thesis using 3(1,2) unfolding seeking_def by blast
  next
    case 4
    show ?thesis
    proof (cases "q = pid")
      case True
      then show ?thesis using exec 4 own nr by (auto simp: Let_def seeking_def off)
    next
      case False
      have "find_region_locked (g_pool s q) a = Some None" using other_pool_none [OF pinv lv a _ False] 4(1) by simp
      then have "t_pc w' t = Fault_next a q" "s' = s" using exec 4 by auto
      moreover have "pid \<in> set post" using 4(2) False by auto
      ultimately show ?thesis using 4(1) unfolding seeking_def by blast
    qed
  next
    case 5
    then have "t_pc w' t = Fault_pool a (next_pool (g_pools s) q)" "s' = s" using exec by auto
    then show ?thesis using seeking_next 5(1,2) ps by auto
  qed
qed

section \<open>Whole runs\<close>

text \<open>
  While the region stays, either its page was readable at some moment or the handler is still to come to it.
\<close>

lemma scan_run:
  assumes runs: "\<And>i. i < n \<Longrightarrow> sys_next os (ws i) (ws (Suc i))" and inv: "sys_inv os (ws 0)"
    and call: "t_pc (ws 0) t = Fault_call a"
    and there: "\<And>i. i \<le> n \<Longrightarrow> live (sys_proc (ws i)) (sys_regions (ws i)) pid rid \<and> a \<in> region_range (region_of (sys_proc (ws i)) pid rid)"
    and never: "\<And>i. i \<le> n \<Longrightarrow> \<not> page_readable (region_of (sys_proc (ws i)) pid rid) (a - r_base (region_of (sys_proc (ws i)) pid rid))"
  shows "i \<le> n \<Longrightarrow> sys_inv os (ws i) \<and>
    seeking (g_pools (sys_proc (ws i))) a pid rid (a - r_base (region_of (sys_proc (ws i)) pid rid)) (t_pc (ws i) t)"
proof (induction i)
  case 0
  then show ?case using inv call by (simp add: seeking_def)
next
  case (Suc i)
  let ?w = "ws i" and ?w' = "ws (Suc i)"
  let ?off = "a - r_base (region_of (sys_proc ?w) pid rid)"
  have wi: "sys_inv os ?w" and seek: "seeking (g_pools (sys_proc ?w)) a pid rid ?off (t_pc ?w t)" and nx: "sys_next os ?w ?w'"
    using Suc runs by auto
  obtain s RL s' RL' where S: "t_shared ?w = (s, RL)" "t_shared ?w' = (s', RL')" by (cases "t_shared ?w"; cases "t_shared ?w'")
  have lv: "live s RL pid rid" "a \<in> region_range (region_of s pid rid)" and nr: "\<not> page_readable (region_of s pid rid) ?off"
    using there [of i] never [of i] Suc.prems S by auto
  have nr': "\<not> page_readable (region_of s' pid rid) (a - r_base (region_of s' pid rid))" using never [of "Suc i"] Suc.prems S by auto
  note B = seeking_busy [OF seek]
  have "seeking (g_pools s') a pid rid (a - r_base (region_of s' pid rid)) (t_pc ?w' t)"
  proof (cases "inproc_step os t ?w = Some (Inr ?w')")
    case True
    then show ?thesis using scan_section [OF wi True S lv _ nr] seek nr' S by auto
  next
    case False
    then have pc: "t_pc ?w' t = t_pc ?w t" and chain: "G_pools_lock \<in> pc_holds (t_pc ?w t) \<longrightarrow> g_pools s' = g_pools s"
      and pool: "Pool_lock pid \<in> pc_holds (t_pc ?w t) \<longrightarrow> g_pool s' pid = g_pool s pid"
      using others_leave [OF wi nx, of t] B lv S by (auto simp: live_def)
    show ?thesis
    proof (cases "t_pc ?w t = Fault_call a")
      case True
      then show ?thesis using pc by (simp add: seeking_def)
    next
      case False
      then show ?thesis using seek pc chain pool B S by (auto simp: seeking_def)
    qed
  qed
  then show ?case using sys_next_inv [OF nx wi] S by simp
qed

end
