(* ===== verification/Threads_Sample.thy ===== *)
theory Threads_Sample
  imports Threads_Solo Threads_Scan Sample
begin

text \<open>
  Two threads on the process of \<open>Sample\<close>: one has created the pool and the region, and now both have
  faulted on the same page.
\<close>

lemma run_interleaved:
  "run_thread n os t w = Some (Inr w') \<Longrightarrow> interleaved os w \<Longrightarrow> interleaved os w'"
proof (induction n arbitrary: w)
  case (Suc n)
  show ?case
  proof (cases "pc_act (t_pc w t) = Stop")
    case False
    then obtain w1 where w1: "inproc_step os t w = Some (Inr w1)" "run_thread n os t w1 = Some (Inr w')"
      using Suc.prems(1) by (auto simp: run_thread.simps(2) split: option.splits sum.splits)
    then show ?thesis using Suc.IH interleaved.further [OF Suc.prems(2) sys_next.section_run] by blast
  qed (use Suc.prems in \<open>simp add: run_thread.simps(2)\<close>)
qed simp

lemma alone_interleaved:
  assumes "alone os t w (Inr (v, S))" "interleaved os w"
  shows "interleaved os \<lparr>t_shared = S, t_own = t_own w, t_pc = (t_pc w)(t := Done v)\<rparr>"
  using assms run_interleaved by (auto simp: alone_def returns_def)

definition threads_with :: "proc \<Rightarrow> (nat \<Rightarrow> nat list) \<Rightarrow> pc \<Rightarrow> pc \<Rightarrow> system" where
  "threads_with s RL pc0 pc1 = \<lparr>t_shared = (s, RL), t_own = no_locks, t_pc = (\<lambda>t. if t = 0 then pc0 else if t = 1 then pc1 else Done Ret_void)\<rparr>"

lemma threads_with_sel [simp]:
  "t_shared (threads_with s RL pc0 pc1) = (s, RL)" "t_own (threads_with s RL pc0 pc1) = no_locks"
  "t_pc (threads_with s RL pc0 pc1) 0 = pc0" "t_pc (threads_with s RL pc0 pc1) (Suc 0) = pc1"
  "\<lparr>t_shared = (s', RL'), t_own = no_locks, t_pc = (t_pc (threads_with s RL pc0 pc1))(0 := pc)\<rparr> = threads_with s' RL' pc pc1"
  "(threads_with s RL pc0 pc1)\<lparr>t_pc := (t_pc (threads_with s RL pc0 pc1))(0 := pc)\<rparr> = threads_with s RL pc pc1"
  "(threads_with s RL pc0 pc1)\<lparr>t_pc := (t_pc (threads_with s RL pc0 pc1))(Suc 0 := pc)\<rparr> = threads_with s RL pc0 pc"
  by (auto simp: threads_with_def fun_eq_iff)

lemma threads_call:
  assumes "interleaved os (threads_with s RL (Done r) pc1)" "is_call pc" "pc_ok (s, RL) pc" "compatible pc pc1" "compatible pc1 pc"
  shows "interleaved os (threads_with s RL pc pc1)"
proof -
  have "compatible pc (Done Ret_void)" "compatible (Done Ret_void) pc" by (simp_all add: compatible_def pc_claims)
  then have "compatible pc (t_pc (threads_with s RL (Done r) pc1) u) \<and> compatible (t_pc (threads_with s RL (Done r) pc1) u) pc" if "u \<noteq> 0" for u
    using assms(4,5) that by (simp add: threads_with_def)
  then have "sys_next os (threads_with s RL (Done r) pc1) ((threads_with s RL (Done r) pc1)\<lparr>t_pc := (t_pc (threads_with s RL (Done r) pc1))(0 := pc)\<rparr>)"
    using sys_next.call [of "threads_with s RL (Done r) pc1" 0 r pc os] assms(2,3) by simp
  then show ?thesis using interleaved.further [OF assms(1)] by simp
qed

lemma sample_threads_pool: "interleaved os (threads_with sample_pool (\<lambda>_. []) (Done (Ret_pool (Some 0))) (Done Ret_void))"
proof -
  have "sys_start (threads_with sample_start (\<lambda>_. []) (Done Ret_void) (Done Ret_void))"
    by (simp add: sys_start_def sample_start_def fc_init_def threads_with_def)
  from threads_call [OF interleaved.start [OF this], of "Pool_call True 14"]
  have "interleaved os (threads_with sample_start (\<lambda>_. []) (Pool_call True 14) (Done Ret_void))"
    by (simp add: is_call_def pc_view compatible_def)
  moreover have "alone os 0 (threads_with sample_start (\<lambda>_. []) (Pool_call True 14) (Done Ret_void)) (Inr (Ret_pool (Some 0), sample_pool, \<lambda>_. []))"
    using alone_pool_create [of "threads_with sample_start (\<lambda>_. []) (Pool_call True 14) (Done Ret_void)" 0 True 14 os]
    by (simp add: sample_pool_create fun_upd_def)
  ultimately show ?thesis using alone_interleaved by fastforce
qed

text \<open>A thread about to create the region, on any system.\<close>

definition sample_creating :: system where
  "sample_creating = threads_with sample_pool (\<lambda>_. []) (Region_call 0 sample_sizes sample_fill) (Done Ret_void)"

lemma sample_creating_interleaved: "interleaved os sample_creating"
proof -
  have "g_next_pool sample_pool = 1" by (simp add: sample_pool_def sample_start_def fc_pool_create_def fc_init_def Let_def)
  moreover have "sample_sizes \<noteq> []" by (simp add: sample_sizes_def)
  ultimately have "pc_ok (sample_pool, \<lambda>_. []) (Region_call 0 sample_sizes sample_fill)"
    using sample_sizes_ok sample_pool_facts by (simp add: pc_view)
  from threads_call [OF sample_threads_pool _ this] show ?thesis
    by (simp add: sample_creating_def is_call_def compatible_def pc_claims)
qed

definition sample_threads :: system where
  "sample_threads = threads_with sample sample_regions (Fault_call 16) (Fault_call 16)"

lemma sample_threads_interleaved: "interleaved sample_os sample_threads"
proof -
  let ?w = "threads_with sample sample_regions (Done (Ret_region (Some (0, 0)))) (Done Ret_void)"
  have RL: "(\<lambda>_. [])(0 := [0]) = sample_regions" by (simp add: sample_regions_def fun_eq_iff)
  have "alone sample_os 0 sample_creating (Inr (Ret_region (Some (0, 0)), sample, sample_regions))"
    using alone_region_create [of sample_creating 0 0 sample_sizes sample_fill sample_os] sample_created sample_sizes_ok(5) RL
    by (simp add: sample_creating_def sample_result_def)
  from alone_interleaved [OF this sample_creating_interleaved] have "interleaved sample_os ?w" by (simp add: sample_creating_def)
  from threads_call [OF this, of "Fault_call 16"]
  have w: "interleaved sample_os (threads_with sample sample_regions (Fault_call 16) (Done Ret_void))"
    by (simp add: is_call_def pc_view compatible_def)
  have "sys_next sample_os (threads_with sample sample_regions (Fault_call 16) (Done Ret_void))
    ((threads_with sample sample_regions (Fault_call 16) (Done Ret_void))\<lparr>t_pc :=
      (t_pc (threads_with sample sample_regions (Fault_call 16) (Done Ret_void)))(Suc 0 := Fault_call 16)\<rparr>)"
    by (rule sys_next.call) (simp_all add: is_call_def pc_view compatible_def)
  from interleaved.further [OF w this] show ?thesis by (simp add: sample_threads_def)
qed

section \<open>One handler's way through its sections\<close>

definition sample_trace :: "nat \<Rightarrow> system" where
  "sample_trace i = \<lparr>t_shared = (if i < 4 then sample else sample_hot, sample_regions),
     t_own = [no_locks, no_locks(G_pools_lock := Some 0), no_locks(G_pools_lock := Some 0, Pool_lock 0 := Some 0),
       no_locks(G_pools_lock := Some 0, Pool_lock 0 := Some 0), no_locks(G_pools_lock := Some 0, Pool_lock 0 := Some 0),
       no_locks(G_pools_lock := Some 0), no_locks] ! i,
     t_pc = (t_pc sample_threads)(0 := [Fault_call 16, Fault_pool 16 (Some 0), Fault_region 16 0, Fault_resolve 0 0 12,
       Fault_resolved 0, Fault_unlock True, Done (Ret_bool True)] ! i)\<rparr>"

lemma sample_resolve_section: "pc_exec sample_os (Fault_resolve 0 0 12) (sample, sample_regions) = Inr (Fault_resolved 0, sample_hot, sample_regions)"
proof -
  have same: "sample\<lparr>g_pool := x, g_mem := m, g_resolving_fault := False\<rparr> = sample\<lparr>g_pool := x, g_mem := m\<rparr>" for x m
    using sample_state(3) by (cases sample) simp
  have "fault_try_pools sample_os sample [0] 16 = res_bind (resolve_fault_locked sample_os (g_pool sample 0) 0 12 (g_mem sample)) (\<lambda>(p, m).
      Inr (True, sample\<lparr>g_pool := (g_pool sample)(0 := p), g_mem := m\<rparr>))"
    using fault_try_pools_own [OF sample_inv sample_live, of 16 "[0]"] sample_unreadable [of 12]
    unfolding sample_state(2,4) same by (simp add: region_range_def sample_struct_fields del: fault_try_pools.simps)
  then have "Inr (True, sample_hot) = res_bind (resolve_fault_locked sample_os (g_pool sample 0) 0 12 (g_mem sample)) (\<lambda>(p, m).
      Inr (True, sample\<lparr>g_pool := (g_pool sample)(0 := p), g_mem := m\<rparr>))"
    using sample_fault by (simp add: fault_try_resolve_def sample_state del: fault_try_pools.simps)
  then show ?thesis by (cases "resolve_fault_locked sample_os (g_pool sample 0) 0 12 (g_mem sample)") (auto simp: set_pool_def)
qed

lemma sample_trace_step: "i < 6 \<Longrightarrow> inproc_step sample_os 0 (sample_trace i) = Some (Inr (sample_trace (Suc i)))"
proof -
  assume "i < 6"
  then consider "i = 0" | "i = 1" | "i = 2" | "i = 3" | "i = 4" | "i = 5" by linarith
  moreover have "find_region_locked (g_pool sample 0) 16 = Some (Some 0)"
  proof -
    obtain hs cs where "pool_ok sample_os (g_pool sample 0) (g_mem sample) (set (sample_regions 0)) hs cs" using live_region(3) [OF sample_inv sample_live] by blast
    from find_region_own [OF this live_region(2) [OF sample_inv sample_live], of 0 16] show ?thesis
      by (simp add: sample_regions_def region_range_def sample_state sample_struct_fields)
  qed
  ultimately show ?thesis
    using sample_unreadable [of 12] sample_resolve_section
    by cases (simp_all add: sample_trace_def inproc_step_def thread_step_def Let_def first_pool_def sample_state sample_struct_fields
        numeral_2_eq_2 numeral_3_eq_3 nth_Cons' del: pc_exec.simps(6))
qed

lemma sample_trace_start: "sample_trace 0 = sample_threads"
  by (simp add: sample_trace_def sample_threads_def threads_with_def fun_eq_iff)

end
