(* ===== verification/Wire.thy ===== *)
theory Wire
  imports FC_Prelude
begin

text \<open>
  The wire format of \<open>wire.h\<close>, shared by \<open>client.c\<close> and \<open>server.c\<close>.  Both
  sides copy C structs into messages with \<open>memcpy\<close>, so a message is the little-endian
  image of the struct's fields followed by the trailing bytes.  A message travels over a
  SOCK_SEQPACKET socket: it arrives whole, but a receive buffer that is too short cuts it
  off (\<open>recv_msg\<close>).  The interface \<open>wire_header\<close> is what the two sides rely on.
\<close>

section \<open>Fields\<close>

text \<open>The \<open>n\<close> bytes of an unsigned field, least significant first.\<close>

definition put_uint :: "nat \<Rightarrow> nat \<Rightarrow> byte list" where
  "put_uint n x = map (\<lambda>i. word_of_nat (x div 256 ^ i)) [0..<n]"

fun get_uint :: "byte list \<Rightarrow> nat" where
  "get_uint [] = 0"
| "get_uint (b # bs) = unat b + 256 * get_uint bs"

text \<open>An \<open>int32_t\<close> in two's complement.\<close>

definition put_int32 :: "int \<Rightarrow> byte list" where
  "put_int32 x = put_uint 4 (nat (x mod 4294967296))"

definition get_int32 :: "byte list \<Rightarrow> int" where
  "get_int32 bs = (let x = int (get_uint bs) in if x < 2147483648 then x else x - 4294967296)"

definition field :: "nat \<Rightarrow> nat \<Rightarrow> byte list \<Rightarrow> byte list" where
  "field off len buf = take len (drop off buf)"

definition FC_WIRE_MSG_MAX :: size_t where
  "FC_WIRE_MSG_MAX = 2 ^ 20"

section \<open>Headers\<close>

record fc_resolve_req_hdr =
  rq_descriptor_size :: uint32_t
  rq_reserved :: uint32_t

definition put_resolve_req :: "fc_resolve_req_hdr \<Rightarrow> byte list" where
  "put_resolve_req h = put_uint 4 (rq_descriptor_size h) @ put_uint 4 (rq_reserved h)"

definition get_resolve_req :: "byte list \<Rightarrow> fc_resolve_req_hdr" where
  "get_resolve_req buf = \<lparr>rq_descriptor_size = get_uint (field 0 4 buf), rq_reserved = get_uint (field 4 4 buf)\<rparr>"

record fc_resolve_resp_hdr =
  rs_status :: int
  rs_nchunks :: uint32_t
  rs_error_len :: uint32_t

definition put_resolve_resp :: "fc_resolve_resp_hdr \<Rightarrow> byte list" where
  "put_resolve_resp h = put_int32 (rs_status h) @ put_uint 4 (rs_nchunks h) @ put_uint 4 (rs_error_len h)"

definition get_resolve_resp :: "byte list \<Rightarrow> fc_resolve_resp_hdr" where
  "get_resolve_resp buf = \<lparr>rs_status = get_int32 (field 0 4 buf), rs_nchunks = get_uint (field 4 4 buf),
     rs_error_len = get_uint (field 8 4 buf)\<rparr>"

record fc_attach_req_hdr =
  at_base :: uint64_t
  at_descriptor_size :: uint32_t
  at_reserved :: uint32_t

definition put_attach_req :: "fc_attach_req_hdr \<Rightarrow> byte list" where
  "put_attach_req h = put_uint 8 (at_base h) @ put_uint 4 (at_descriptor_size h) @ put_uint 4 (at_reserved h)"

definition get_attach_req :: "byte list \<Rightarrow> fc_attach_req_hdr" where
  "get_attach_req buf = \<lparr>at_base = get_uint (field 0 8 buf), at_descriptor_size = get_uint (field 8 4 buf),
     at_reserved = get_uint (field 12 4 buf)\<rparr>"

text \<open>An array of \<open>uint64_t\<close>, and the loop that copies its entries out one by one.\<close>

definition put_sizes :: "nat list \<Rightarrow> byte list" where
  "put_sizes xs = concat (map (put_uint 8) xs)"

definition get_sizes :: "nat \<Rightarrow> byte list \<Rightarrow> nat list" where
  "get_sizes n buf = map (\<lambda>i. get_uint (field (i * 8) 8 buf)) [0..<n]"

definition recv_msg :: "byte list \<Rightarrow> byte list" where
  "recv_msg msg = take FC_WIRE_MSG_MAX msg"

section \<open>Round trips\<close>

lemma length_put_uint [simp]: "length (put_uint n x) = n"
  by (simp add: put_uint_def)

lemma put_uint_Suc: "put_uint (Suc n) x = word_of_nat x # put_uint n (x div 256)"
  by (simp add: put_uint_def upt_conv_Cons map_Suc_upt [symmetric] del: upt_Suc) (simp add: div_mult2_eq)

lemma get_put_uint: "get_uint (put_uint n x) = x mod 256 ^ n"
proof (induction n arbitrary: x)
  case 0
  then show ?case by (simp add: put_uint_def)
next
  case (Suc n)
  have "unat (word_of_nat x :: byte) = x mod 256" by (simp add: unat_of_nat)
  then have "get_uint (put_uint (Suc n) x) = x mod 256 + 256 * (x div 256 mod 256 ^ n)"
    using Suc.IH [of "x div 256"] by (simp add: put_uint_Suc)
  also have "\<dots> = x mod 256 ^ Suc n" by (simp add: mod_mult2_eq)
  finally show ?case .
qed

lemma get_put_uint_id: "x < 256 ^ n \<Longrightarrow> get_uint (put_uint n x) = x"
  by (simp add: get_put_uint)

lemma get_uint_bound: "get_uint bs < 256 ^ length bs"
proof (induction bs)
  case (Cons b bs)
  have "unat b < 256" using unsigned_less [of b] by simp
  then show ?case using Cons by simp
qed simp

lemma get_put_int32:
  assumes "- 2147483648 \<le> x" "x < 2147483648"
  shows "get_int32 (put_int32 x) = x"
proof -
  have "nat (x mod 4294967296) < 256 ^ 4" by (simp add: nat_less_iff)
  then have "int (get_uint (put_int32 x)) = x mod 4294967296"
    by (simp add: put_int32_def get_put_uint_id)
  moreover have "x mod 4294967296 = (if 0 \<le> x then x else x + 4294967296)"
  proof (cases "0 \<le> x")
    case False
    have "x mod 4294967296 = (x + 4294967296) mod 4294967296" by simp
    also have "\<dots> = x + 4294967296" using assms False by (intro mod_pos_pos_trivial) auto
    finally show ?thesis using False by simp
  qed (use assms in simp)
  ultimately show ?thesis using assms by (simp add: get_int32_def Let_def)
qed

text \<open>
  What the two sides rely on: a header has a fixed size and survives being followed by
  other bytes.  The client lemmas are about the whole message, also when the receiver's
  buffer cuts it off.
\<close>

locale wire_header =
  fixes put :: "'h \<Rightarrow> byte list"
    and get :: "byte list \<Rightarrow> 'h"
    and size_of :: nat
    and fits :: "'h \<Rightarrow> bool"
  assumes put_length: "length (put h) = size_of"
    and get_put: "fits h \<Longrightarrow> get (put h @ rest) = h"
    and small: "size_of \<le> 16"
begin

lemma payload: "drop size_of (put h @ d) = d"
  by (simp add: put_length)

lemma message_length: "length (put h @ d) = size_of + length d"
  by (simp add: put_length)

lemma recv_whole:
  assumes "fits h" "size_of + length d \<le> FC_WIRE_MSG_MAX"
  shows "recv_msg (put h @ d) = put h @ d" "get (recv_msg (put h @ d)) = h"
  using assms get_put by (simp_all add: recv_msg_def put_length)

lemma recv_cut:
  assumes "fits h" "FC_WIRE_MSG_MAX < size_of + length d"
  shows "length (recv_msg (put h @ d)) = FC_WIRE_MSG_MAX" "get (recv_msg (put h @ d)) = h"
proof -
  have sz: "size_of \<le> FC_WIRE_MSG_MAX" using small by (simp add: FC_WIRE_MSG_MAX_def)
  then have "recv_msg (put h @ d) = put h @ take (FC_WIRE_MSG_MAX - size_of) d"
    by (simp add: recv_msg_def put_length)
  then show "length (recv_msg (put h @ d)) = FC_WIRE_MSG_MAX" "get (recv_msg (put h @ d)) = h"
    using assms sz get_put by (simp_all add: put_length)
qed

end

lemma field_skip: "length a = n \<Longrightarrow> n \<le> off \<Longrightarrow> field off len (a @ b) = field (off - n) len b"
  by (simp add: field_def)

lemma field_head: "length a = n \<Longrightarrow> field 0 n (a @ b) = a"
  by (simp add: field_def)

lemmas fields = field_skip [OF length_put_uint] field_head [OF length_put_uint]

definition resp_fits :: "fc_resolve_resp_hdr \<Rightarrow> bool" where
  "resp_fits h \<longleftrightarrow> - 2147483648 \<le> rs_status h \<and> rs_status h < 2147483648 \<and> rs_nchunks h < UINT32_RANGE \<and> rs_error_len h < UINT32_RANGE"

lemma length_put_resp: "length (put_resolve_resp h) = 12"
  by (simp add: put_resolve_resp_def put_int32_def)

lemma get_put_resp: "resp_fits h \<Longrightarrow> get_resolve_resp (put_resolve_resp h @ rest) = h"
  using get_put_int32 [of "rs_status h"]
  by (simp add: resp_fits_def get_resolve_resp_def put_resolve_resp_def put_int32_def fields get_put_uint_id)

interpretation resolve_req: wire_header put_resolve_req get_resolve_req 8
  "\<lambda>h. rq_descriptor_size h < UINT32_RANGE \<and> rq_reserved h < UINT32_RANGE"
  by unfold_locales (auto simp: put_resolve_req_def get_resolve_req_def fields get_put_uint_id)

interpretation resolve_resp: wire_header put_resolve_resp get_resolve_resp 12 resp_fits
  by unfold_locales (simp_all add: length_put_resp get_put_resp)

interpretation attach_req: wire_header put_attach_req get_attach_req 16
  "\<lambda>h. at_base h < SIZE_RANGE \<and> at_descriptor_size h < UINT32_RANGE \<and> at_reserved h < UINT32_RANGE"
  by unfold_locales (auto simp: put_attach_req_def get_attach_req_def fields get_put_uint_id)

text \<open>The array of sizes.\<close>

lemma length_put_sizes [simp]: "length (put_sizes xs) = 8 * length xs"
  by (induction xs) (simp_all add: put_sizes_def)

lemma put_sizes_Cons: "put_sizes (x # xs) = put_uint 8 x @ put_sizes xs"
  by (simp add: put_sizes_def)

lemma get_sizes_Suc: "get_sizes (Suc n) buf = get_uint (field 0 8 buf) # get_sizes n (drop 8 buf)"
  by (simp add: get_sizes_def upt_conv_Cons map_Suc_upt [symmetric] field_def add.commute del: upt_Suc)

lemma get_put_sizes: "\<forall>x\<in>set xs. x < SIZE_RANGE \<Longrightarrow> get_sizes (length xs) (put_sizes xs @ rest) = xs"
proof (induction xs)
  case Nil
  then show ?case by (simp add: get_sizes_def)
next
  case (Cons x xs)
  then show ?case by (simp add: get_sizes_Suc put_sizes_Cons fields get_put_uint_id)
qed

end
