(* ===== verification/Server.thy ===== *)
theory Server
  imports Wire Chunk_Layout
begin

text \<open>
  The server half, \<open>server.c\<close>: regions shared by descriptor, the content cache, the two
  message handlers, the event loop, and the resolution of a client's page fault through
  userfaultfd.  The factory and the fill callbacks are the user's code and therefore
  parameters.  What \<open>malloc\<close>, \<open>recv\<close> and \<open>send\<close> answer is an argument of the
  handlers.  Calls of user code and the closing of descriptors are recorded in a log, in the order in
  which they happen.  The lists of regions and mappings are only ever extended at the front and
  walked, so they are HOL lists.
\<close>

section \<open>Data\<close>

record fc_server_mapping =
  m_uffd :: int
  m_base_addr :: addr

text \<open>A fill callback with its \<open>user_data\<close>: the bytes it writes from \<open>start\<close> on.\<close>

type_synonym server_fill = "uint32_t \<Rightarrow> size_t \<Rightarrow> byte list"

record fc_server_region =
  sr_descriptor :: "byte list"
  sr_page_size :: size_t
  sr_nchunks :: uint32_t
  sr_chunk_start :: "size_t list"
  sr_resolved :: "bool list"
  sr_content :: "byte list"
  sr_fill_chunk :: server_fill
  sr_user_data :: nat
  sr_destroy_user_data :: bool
  sr_mappings :: "fc_server_mapping list"

datatype call = Factory "byte list" | Fill "byte list" uint32_t | Destroy_user_data nat | Close int

record fc_server =
  sv_regions :: "fc_server_region list"
  sv_stop_fd :: int
  sv_stop_count :: nat
  sv_log :: "call list"

definition log_call :: "call \<Rightarrow> fc_server \<Rightarrow> fc_server" where
  "log_call c s = s\<lparr>sv_log := sv_log s @ [c]\<rparr>"

text \<open>The recipe a factory fills in; null pointers are \<open>None\<close>.\<close>

record fc_region_recipe =
  rc_nchunks :: uint32_t
  rc_chunk_sizes :: "size_t list option"
  rc_fill_chunk :: "server_fill option"
  rc_user_data :: nat
  rc_destroy_user_data :: bool

type_synonym factory = "byte list \<Rightarrow> byte list + fc_region_recipe"

section \<open>Resolving a fault\<close>

definition find_chunk_s :: "fc_server_region \<Rightarrow> size_t \<Rightarrow> uint32_t" where
  "find_chunk_s r off = find_chunk_loop (sr_chunk_start r) off 0 (sr_nchunks r - 1)"

text \<open>The two loops that grow the range of chunks to whole pages.\<close>

fun extend_lo :: "size_t list \<Rightarrow> size_t \<Rightarrow> uint32_t \<Rightarrow> size_t \<Rightarrow> uint32_t \<times> size_t" where
  "extend_lo st ps 0 page_lo = (0, page_lo)"
| "extend_lo st ps (Suc lo) page_lo =
     (if st ! Suc lo > page_lo then extend_lo st ps lo (page_floor (st ! lo) ps) else (Suc lo, page_lo))"

function extend_hi :: "size_t list \<Rightarrow> size_t \<Rightarrow> uint32_t \<Rightarrow> uint32_t \<Rightarrow> size_t \<Rightarrow> uint32_t \<times> size_t" where
  "extend_hi st ps n hi page_hi =
     (if hi + 1 < n \<and> st ! (hi + 1) < page_hi
      then extend_hi st ps n (hi + 1) (page_ceil (st ! (hi + 1 + 1)) ps) else (hi, page_hi))"
  by pat_completeness auto
termination
  by (relation "measure (\<lambda>(st, ps, n, hi, page_hi). n - hi)") auto

declare extend_hi.simps [simp del]

definition fault_group :: "fc_server_region \<Rightarrow> size_t \<Rightarrow> (uint32_t \<times> size_t) \<times> (uint32_t \<times> size_t)" where
  "fault_group r fault_off =
     (let c0 = find_chunk_s r fault_off;
          page_lo = page_floor (sr_chunk_start r ! c0) (sr_page_size r);
          page_hi = page_ceil (sr_chunk_start r ! (c0 + 1)) (sr_page_size r)
      in (extend_lo (sr_chunk_start r) (sr_page_size r) c0 page_lo,
          extend_hi (sr_chunk_start r) (sr_page_size r) (sr_nchunks r) c0 page_hi))"

text \<open>Writing the callback's bytes into the content buffer; past its end the heap is corrupted.\<close>

definition put_content :: "byte list \<Rightarrow> size_t \<Rightarrow> byte list \<Rightarrow> byte list res" where
  "put_content content off bs =
     (if off + length bs \<le> length content then Inr (take off content @ bs @ drop (off + length bs) content)
      else Inl (Out_of_bounds ''content''))"

fun fill_range :: "fc_server_region \<Rightarrow> uint32_t list \<Rightarrow> (fc_server_region \<times> call list) res" where
  "fill_range r [] = Inr (r, [])"
| "fill_range r (i # is) =
     (if sr_resolved r ! i then fill_range r is
      else
        let start = sr_chunk_start r ! i;
            chunk_size = sr_chunk_start r ! (i + 1) - start
        in res_bind (put_content (sr_content r) start (sr_fill_chunk r i chunk_size)) (\<lambda>content.
           res_bind (fill_range (r\<lparr>sr_content := content, sr_resolved := (sr_resolved r)[i := True]\<rparr>) is) (\<lambda>(r, calls).
           Inr (r, Fill (sr_descriptor r) i # calls))))"

text \<open>
  \<open>UFFDIO_COPY\<close>: a destination or length that is not made of whole pages of the address space is
  rejected.  Otherwise it goes page after page: a missing page is filled and made present, a page that is
  already there ends the request with EEXIST, and the kernel may give up for other reasons
  (no memory, a range that is not registered, a client that is gone) after any number of pages:
  \<open>fails = Some k\<close> is the page at which it does.  What was copied before stays.  A client's memory maps
  addresses to bytes, \<open>None\<close> on missing pages.
\<close>

type_synonym mm = "addr \<Rightarrow> byte option"

datatype copy_result = Copied | Exists | Failed

fun uffd_copy :: "nat option \<Rightarrow> size_t \<Rightarrow> nat \<Rightarrow> addr \<Rightarrow> byte list \<Rightarrow> mm \<Rightarrow> copy_result \<times> mm" where
  "uffd_copy fails ps 0 dst src mm = (Copied, mm)"
| "uffd_copy fails ps (Suc n) dst src mm =
     (if fails = Some 0 then (Failed, mm)
      else if mm dst \<noteq> None then (Exists, mm)
      else uffd_copy (map_option (\<lambda>k. k - 1) fails) ps n (dst + ps) (drop ps src)
             (\<lambda>x. if dst \<le> x \<and> x < dst + ps then Some (src ! (x - dst)) else mm x))"

definition UFFDIO_COPY :: "nat option \<Rightarrow> size_t \<Rightarrow> addr \<Rightarrow> size_t \<Rightarrow> byte list \<Rightarrow> mm \<Rightarrow> copy_result \<times> mm" where
  "UFFDIO_COPY fails ps dst len src mm =
     (if len = 0 \<or> \<not> ps dvd len \<or> \<not> ps dvd dst \<or> SIZE_RANGE < dst + len then (Failed, mm)
      else uffd_copy fails ps (len div ps) dst src mm)"

text \<open>Whatever the outcome of the copy, nothing is done about it.\<close>

definition resolve_fault ::
    "fc_server_region \<Rightarrow> fc_server_mapping \<Rightarrow> nat option \<Rightarrow> mm \<Rightarrow> size_t \<Rightarrow> (fc_server_region \<times> mm \<times> call list) res" where
  "resolve_fault r m fails mm fault_off =
     (case fault_group r fault_off of ((lo, page_lo), (hi, page_hi)) \<Rightarrow>
        res_bind (fill_range r [lo..<Suc hi]) (\<lambda>(r, calls).
        let len = page_hi - page_lo in
        if length (sr_content r) < page_lo + len then Inl (Out_of_bounds ''content'')
        else case UFFDIO_COPY fails (sr_page_size r) (size_add (m_base_addr m) page_lo) len
                    (take len (drop page_lo (sr_content r))) mm of
               (Copied, mm) \<Rightarrow> Inr (r, mm, calls)
             | (Exists, mm) \<Rightarrow> Inr (r, mm, calls)
             | (Failed, mm) \<Rightarrow> Inr (r, mm, calls)))"

section \<open>Regions\<close>

definition find_region :: "fc_server \<Rightarrow> byte list \<Rightarrow> fc_server_region option" where
  "find_region s descriptor = find (\<lambda>r. sr_descriptor r = descriptor) (sv_regions s)"

text \<open>Which allocations of a request succeed.\<close>

record allocs =
  al_buf :: bool
  al_strdup :: bool
  al_tables :: bool
  al_content :: bool
  al_sizes :: bool
  al_reply :: bool

definition invalid_layout :: "byte list" where
  "invalid_layout = map (word_of_nat \<circ> of_char) ''factory returned an invalid chunk layout''"

text \<open>The result is the region or null, the error message or null, and the calls made.\<close>

definition create_region ::
    "size_t \<Rightarrow> factory \<Rightarrow> byte list \<Rightarrow> allocs \<Rightarrow> (fc_server_region option \<times> byte list option \<times> call list) res" where
  "create_region page_size factory descriptor al =
     (case factory descriptor of
        Inl err \<Rightarrow> Inr (None, Some err, [Factory descriptor])
      | Inr recipe \<Rightarrow>
          let cleanup = (if rc_destroy_user_data recipe then [Destroy_user_data (rc_user_data recipe)] else []);
              invalid = Inr (None, if al_strdup al then Some invalid_layout else None, Factory descriptor # cleanup)
          in (case (rc_chunk_sizes recipe, rc_fill_chunk recipe) of
                (Some sizes, Some fill) \<Rightarrow>
                  if rc_nchunks recipe = 0 then invalid
                  else if length sizes < rc_nchunks recipe then Inl (Out_of_bounds ''chunk_sizes'')
                  else (case sum_chunk_sizes 0 (take (rc_nchunks recipe) sizes) of
                          None \<Rightarrow> invalid
                        | Some acc \<Rightarrow>
                            if \<not> al_tables al then Inr (None, None, Factory descriptor # cleanup)
                            else res_bind (fill_chunk_start (take (rc_nchunks recipe) sizes)) (\<lambda>chunk_start.
                              if \<not> al_content al then Inr (None, None, Factory descriptor # cleanup)
                              else Inr (Some \<lparr>sr_descriptor = descriptor, sr_page_size = page_size,
                                     sr_nchunks = rc_nchunks recipe, sr_chunk_start = chunk_start,
                                     sr_resolved = replicate (rc_nchunks recipe) False,
                                     sr_content = replicate (page_ceil acc page_size) 0, sr_fill_chunk = fill,
                                     sr_user_data = rc_user_data recipe,
                                     sr_destroy_user_data = rc_destroy_user_data recipe, sr_mappings = []\<rparr>,
                                   None, [Factory descriptor])))
              | _ \<Rightarrow> invalid))"

definition region_free_s :: "fc_server_region \<Rightarrow> call list" where
  "region_free_s r = map (Close \<circ> m_uffd) (sr_mappings r) @
     (if sr_destroy_user_data r then [Destroy_user_data (sr_user_data r)] else [])"

definition fc_server_destroy :: "fc_server option \<Rightarrow> call list" where
  "fc_server_destroy server = (case server of None \<Rightarrow> [] | Some s \<Rightarrow> concat (map region_free_s (sv_regions s)) @ [Close (sv_stop_fd s)])"

text \<open>The mapping with a given userfaultfd, in the first region that has one.\<close>

fun find_mapping :: "fc_server_region list \<Rightarrow> int \<Rightarrow> (fc_server_region \<times> fc_server_mapping) option" where
  "find_mapping [] fd = None"
| "find_mapping (r # rs) fd =
     (case find (\<lambda>m. m_uffd m = fd) (sr_mappings r) of Some m \<Rightarrow> Some (r, m) | None \<Rightarrow> find_mapping rs fd)"

text \<open>The struct behind a region pointer is replaced; descriptors identify regions.\<close>

fun update_region :: "fc_server_region \<Rightarrow> fc_server_region list \<Rightarrow> fc_server_region list" where
  "update_region r' [] = []"
| "update_region r' (r # rs) = (if sr_descriptor r = sr_descriptor r' then r' # rs else r # update_region r' rs)"

section \<open>Messages\<close>

text \<open>
  A receive operation: an error, or a message with the descriptor that came along as
  SCM_RIGHTS; the empty message is what a closed connection yields.
\<close>

datatype rx = Rx_error | Rx "byte list" "int option"

text \<open>\<open>strlen\<close> of a message.\<close>

definition strlen :: "byte list \<Rightarrow> size_t" where
  "strlen e = length (takeWhile (\<lambda>b. b \<noteq> 0) e)"

definition region_sizes :: "fc_server_region \<Rightarrow> size_t list" where
  "region_sizes r = map (\<lambda>i. sr_chunk_start r ! (i + 1) - sr_chunk_start r ! i) [0..<sr_nchunks r]"

text \<open>The part of \<open>handle_resolve\<close> under the lock: the new server, the header and the trailer.\<close>

definition resolve_locked ::
    "size_t \<Rightarrow> factory \<Rightarrow> fc_server \<Rightarrow> byte list \<Rightarrow> allocs \<Rightarrow> (fc_server \<times> fc_resolve_resp_hdr \<times> byte list) res" where
  "resolve_locked page_size factory s descriptor al =
     res_bind (case find_region s descriptor of
                 Some r \<Rightarrow> Inr (s, Some r, None)
               | None \<Rightarrow>
                   res_bind (create_region page_size factory descriptor al) (\<lambda>(r, err, calls).
                   let s = s\<lparr>sv_log := sv_log s @ calls\<rparr> in
                   Inr (case r of Some r \<Rightarrow> s\<lparr>sv_regions := r # sv_regions s\<rparr> | None \<Rightarrow> s, r, err)))
       (\<lambda>(s, r, err).
        Inr (case r of
               Some r \<Rightarrow>
                 if al_sizes al then (s, \<lparr>rs_status = 0, rs_nchunks = sr_nchunks r, rs_error_len = 0\<rparr>, put_sizes (region_sizes r))
                 else (s, \<lparr>rs_status = -1, rs_nchunks = 0, rs_error_len = 0\<rparr>, [])
             | None \<Rightarrow>
                 (case err of
                    Some e \<Rightarrow> let error_len = strlen e mod UINT32_RANGE in
                      (s, \<lparr>rs_status = -1, rs_nchunks = 0, rs_error_len = error_len\<rparr>, take error_len e)
                  | None \<Rightarrow> (s, \<lparr>rs_status = -1, rs_nchunks = 0, rs_error_len = 0\<rparr>, []))))"

text \<open>The return code, the server, and the reply handed to \<open>send\<close>.\<close>

definition handle_resolve ::
    "size_t \<Rightarrow> factory \<Rightarrow> fc_server \<Rightarrow> rx \<Rightarrow> allocs \<Rightarrow> bool \<Rightarrow> (int \<times> fc_server \<times> byte list option) res" where
  "handle_resolve page_size factory s rx al send_ok =
     (if \<not> al_buf al then Inr (-1, s, None)
      else case rx of
        Rx_error \<Rightarrow> Inr (-1, s, None)
      | Rx msg fd \<Rightarrow>
          let buf = recv_msg msg in
          if buf = [] then Inr (2, s, None)
          else
            let req = get_resolve_req buf;
                ok = (length buf \<ge> 8 \<and> length buf = 8 + rq_descriptor_size req)
            in res_bind (if ok then resolve_locked page_size factory s (drop 8 buf) al
                         else Inr (s, \<lparr>rs_status = -1, rs_nchunks = 0, rs_error_len = 0\<rparr>, []))
                 (\<lambda>(s, resp, trailer).
                  if \<not> al_reply al then Inr (-1, s, None)
                  else if \<not> send_ok then Inr (-1, s, Some (put_resolve_resp resp @ trailer))
                  else Inr (if rs_status resp = 0 then 1 else 0, s, Some (put_resolve_resp resp @ trailer))))"

definition handle_attach :: "fc_server \<Rightarrow> rx \<Rightarrow> bool \<Rightarrow> bool \<Rightarrow> bool \<Rightarrow> int \<times> fc_server \<times> byte list option" where
  "handle_attach s rx buf_ok mapping_ok send_ok =
     (if \<not> buf_ok then (-1, s, None)
      else case rx of
        Rx_error \<Rightarrow> (-1, s, None)
      | Rx msg fd \<Rightarrow>
          let buf = recv_msg msg in
          if buf = [] then (2, s, None)
          else
            let uffd = (case fd of Some fd \<Rightarrow> fd | None \<Rightarrow> -1);
                hdr = get_attach_req buf;
                ok = (length buf \<ge> 16 \<and> uffd \<ge> 0 \<and> length buf = 16 + at_descriptor_size hdr);
                r = (if ok \<and> mapping_ok then find_region s (drop 16 buf) else None);
                s = (case r of
                       Some r \<Rightarrow> s\<lparr>sv_regions := update_region (r\<lparr>sr_mappings :=
                                   \<lparr>m_uffd = uffd, m_base_addr = at_base hdr\<rparr> # sr_mappings r\<rparr>) (sv_regions s)\<rparr>
                     | None \<Rightarrow> s);
                ok = (r \<noteq> None);
                reply = [if ok then 0 else 1]
            in if \<not> ok \<or> \<not> send_ok then
                 (if send_ok then 0 else -1,
                  if r = None \<and> uffd \<ge> 0 then log_call (Close uffd) s else s, Some reply)
               else (1, s, Some reply))"

section \<open>The server object and its event loop\<close>

text \<open>\<open>eventfd\<close> answers a descriptor, or a negative number.\<close>

definition fc_server_create :: "factory option \<Rightarrow> size_t \<Rightarrow> bool \<Rightarrow> int \<Rightarrow> fc_server option res" where
  "fc_server_create factory target alloc_ok stop_fd =
     (case factory of
        None \<Rightarrow> Inl (Misuse ''fc_server_create: nullptr factory'')
      | Some _ \<Rightarrow>
          if target \<noteq> 0 then Inr None
          else if \<not> alloc_ok then Inr None
          else if stop_fd < 0 then Inr None
          else Inr (Some \<lparr>sv_regions = [], sv_stop_fd = stop_fd, sv_stop_count = 0, sv_log = []\<rparr>))"

text \<open>The write to the eventfd adds one to its counter, or fails when that would overflow.\<close>

definition fc_server_stop :: "fc_server option \<Rightarrow> fc_server res" where
  "fc_server_stop server =
     (case server of
        None \<Rightarrow> Inl (Misuse ''fc_server_stop: nullptr server'')
      | Some s \<Rightarrow> Inr (if sv_stop_count s + 1 < SIZE_MAX then s\<lparr>sv_stop_count := sv_stop_count s + 1\<rparr> else s))"

datatype conn_state = CONN_WAIT_RESOLVE | CONN_WAIT_ATTACH

text \<open>A message of a userfaultfd: a page fault, or anything else that \<open>read\<close> may return.\<close>

datatype uffd_msg = Pagefault addr | Other_msg

text \<open>
  One entry of \<open>events\<close>: the descriptor that is ready, and what the system calls that
  its handler may make on it will answer.
\<close>

record event =
  ev_fd :: int
  ev_rx :: rx
  ev_allocs :: allocs
  ev_mapping_ok :: bool
  ev_send_ok :: bool
  ev_msg :: uffd_msg
  ev_copy_fails :: "nat option"

text \<open>\<open>epoll_wait\<close>: an error, EINTR or another one, or a batch of events.\<close>

datatype wait = Wait_error bool | Wait "event list"

text \<open>
  The locals of one call of \<open>fc_server_run\<close> with the server it works on, the memory of the
  clients behind the userfaultfds, and the replies sent.
\<close>

record run =
  rn_server :: fc_server
  rn_conn_fd :: int
  rn_state :: conn_state
  rn_ret :: int
  rn_stop :: bool
  rn_disconnected :: bool
  rn_mm :: "int \<Rightarrow> mm"
  rn_sent :: "byte list list"

definition conn_result :: "run \<Rightarrow> int \<times> fc_server \<times> byte list option \<Rightarrow> run" where
  "conn_result rn res = (case res of (rc, s, reply) \<Rightarrow>
     let rn = rn\<lparr>rn_server := s, rn_sent := rn_sent rn @ (case reply of Some b \<Rightarrow> [b] | None \<Rightarrow> [])\<rparr> in
     if rc = 2 \<or> rc < 0 then
       let rn = rn\<lparr>rn_disconnected := True\<rparr> in if rc < 0 then rn\<lparr>rn_ret := -1\<rparr> else rn
     else if rn_state rn = CONN_WAIT_RESOLVE then
       rn\<lparr>rn_state := (if rc = 1 then CONN_WAIT_ATTACH else CONN_WAIT_RESOLVE)\<rparr>
     else rn\<lparr>rn_state := CONN_WAIT_RESOLVE\<rparr>)"

definition conn_event :: "size_t \<Rightarrow> factory \<Rightarrow> run \<Rightarrow> event \<Rightarrow> run res" where
  "conn_event page_size factory rn e =
     (if rn_state rn = CONN_WAIT_RESOLVE
      then res_bind (handle_resolve page_size factory (rn_server rn) (ev_rx e) (ev_allocs e) (ev_send_ok e))
             (\<lambda>res. Inr (conn_result rn res))
      else Inr (conn_result rn (handle_attach (rn_server rn) (ev_rx e) (al_buf (ev_allocs e)) (ev_mapping_ok e) (ev_send_ok e))))"

definition fault_event :: "run \<Rightarrow> event \<Rightarrow> run res" where
  "fault_event rn e =
     (case find_mapping (sv_regions (rn_server rn)) (ev_fd e) of
        None \<Rightarrow> Inr rn
      | Some (r, m) \<Rightarrow>
          (case ev_msg e of
             Other_msg \<Rightarrow> Inr rn
           | Pagefault fault_addr \<Rightarrow>
               res_bind (resolve_fault r m (ev_copy_fails e) (rn_mm rn (ev_fd e)) (size_sub fault_addr (m_base_addr m))) (\<lambda>(r, mm, calls).
               let s = rn_server rn in
               Inr (rn\<lparr>rn_server := s\<lparr>sv_regions := update_region r (sv_regions s), sv_log := sv_log s @ calls\<rparr>,
                      rn_mm := (rn_mm rn)(ev_fd e := mm)\<rparr>))))"

definition run_event :: "size_t \<Rightarrow> factory \<Rightarrow> run \<Rightarrow> event \<Rightarrow> run res" where
  "run_event page_size factory rn e =
     (if ev_fd e = sv_stop_fd (rn_server rn) then Inr (rn\<lparr>rn_stop := True\<rparr>)
      else if ev_fd e = rn_conn_fd rn then conn_event page_size factory rn e
      else fault_event rn e)"

fun run_batch :: "size_t \<Rightarrow> factory \<Rightarrow> run \<Rightarrow> event list \<Rightarrow> run res" where
  "run_batch page_size factory rn [] = Inr rn"
| "run_batch page_size factory rn (e # es) =
     res_bind (run_event page_size factory rn e) (\<lambda>rn. run_batch page_size factory rn es)"

text \<open>\<open>None\<close>: the loop is still waiting after the given answers of \<open>epoll_wait\<close>.\<close>

fun server_loop :: "size_t \<Rightarrow> factory \<Rightarrow> run \<Rightarrow> wait list \<Rightarrow> (int \<times> run) option res" where
  "server_loop page_size factory rn [] = Inr None"
| "server_loop page_size factory rn (Wait_error eintr # ws) =
     (if eintr then server_loop page_size factory rn ws
      else let rn = rn\<lparr>rn_ret := -1\<rparr> in Inr (Some (rn_ret rn, rn)))"
| "server_loop page_size factory rn (Wait es # ws) =
     res_bind (run_batch page_size factory (rn\<lparr>rn_stop := False, rn_disconnected := False\<rparr>) es) (\<lambda>rn.
     if rn_stop rn \<or> rn_disconnected rn then Inr (Some (rn_ret rn, rn)) else server_loop page_size factory rn ws)"

text \<open>\<open>epoll_ok\<close>: the epoll instance and the two initial registrations succeed.\<close>

definition fc_server_run ::
    "size_t \<Rightarrow> factory \<Rightarrow> fc_server option \<Rightarrow> int \<Rightarrow> bool \<Rightarrow> (int \<Rightarrow> mm) \<Rightarrow> wait list \<Rightarrow> (int \<times> run) option res" where
  "fc_server_run page_size factory server conn_fd epoll_ok mm ws =
     (case server of
        None \<Rightarrow> Inl (Misuse ''fc_server_run: nullptr server'')
      | Some s \<Rightarrow>
          let rn = \<lparr>rn_server = s, rn_conn_fd = conn_fd, rn_state = CONN_WAIT_RESOLVE, rn_ret = 0, rn_stop = False,
                    rn_disconnected = False, rn_mm = mm, rn_sent = []\<rparr>
          in if \<not> epoll_ok then Inr (Some (-1, rn)) else server_loop page_size factory rn ws)"

end
