(* ===== verification/Server_Fault.thy ===== *)
theory Server_Fault
  imports Server
begin

text \<open>
  Correctness of the server's fault resolution.  The chunks are partitioned into groups
  that begin and end on page boundaries (\<open>group_of\<close>), and \<open>fault_group\<close> finds the
  group of a fault; a client's memory is present or missing group by group
  (\<open>served\<close>), which is why a copy never stops half way at a page that is already
  there.  \<open>region_ok\<close> is the invariant of a region's content cache.
\<close>

section \<open>Groups\<close>

definition server_layout :: "fc_server_region \<Rightarrow> bool" where
  "server_layout r \<longleftrightarrow> layout (sr_nchunks r) (sr_chunk_start r) (sr_page_size r)"

interpretation server_chunk: chunk_index sr_nchunks sr_chunk_start sr_page_size server_layout find_chunk_s
  using find_chunk_loop_layout
  by unfold_locales (auto simp: server_layout_def find_chunk_s_def holds_off_def)

definition group_of :: "fc_server_region \<Rightarrow> uint32_t \<Rightarrow> uint32_t \<Rightarrow> uint32_t \<Rightarrow> bool" where
  "group_of r c lo hi \<longleftrightarrow> lo \<le> c \<and> c \<le> hi \<and> hi < sr_nchunks r \<and> sr_page_size r dvd sr_chunk_start r ! lo \<and>
     (Suc hi < sr_nchunks r \<longrightarrow> sr_page_size r dvd sr_chunk_start r ! Suc hi) \<and>
     (\<forall>i\<in>{lo<..hi}. \<not> sr_page_size r dvd sr_chunk_start r ! i)"

definition group_end :: "fc_server_region \<Rightarrow> uint32_t \<Rightarrow> size_t" where
  "group_end r hi = page_ceil (sr_chunk_start r ! Suc hi) (sr_page_size r)"

lemma page_floor_less: "page_floor x ps < x \<longleftrightarrow> \<not> ps dvd x"
  using page_floor_le [of x ps] page_floor_aligned [of x ps] by (simp add: order_less_le)

lemma extend_lo_spec:
  assumes "st ! 0 = 0" "page_lo = page_floor (st ! lo) ps"
  obtains lo' where "extend_lo st ps lo page_lo = (lo', st ! lo')" "lo' \<le> lo" "ps dvd st ! lo'"
    "\<forall>i\<in>{lo'<..lo}. \<not> ps dvd st ! i"
  using assms
proof (induction lo arbitrary: page_lo thesis)
  case 0
  then show ?case by (simp add: page_floor_def)
next
  case (Suc lo)
  show ?case
  proof (cases "ps dvd st ! Suc lo")
    case True
    then show ?thesis using Suc.prems by (intro Suc.prems(1) [of "Suc lo"]) auto
  next
    case False
    then have step: "extend_lo st ps (Suc lo) page_lo = extend_lo st ps lo (page_floor (st ! lo) ps)"
      using Suc.prems by (simp add: page_floor_less)
    obtain lo' where "extend_lo st ps lo (page_floor (st ! lo) ps) = (lo', st ! lo')" "lo' \<le> lo" "ps dvd st ! lo'"
      "\<forall>i\<in>{lo'<..lo}. \<not> ps dvd st ! i"
      using Suc.IH [OF _ Suc.prems(2) refl] by blast
    then show ?thesis using False step by (intro Suc.prems(1) [of lo']) (auto simp: le_Suc_eq)
  qed
qed

lemma extend_hi_spec:
  assumes "layout n st ps" "hi < n" "page_hi = page_ceil (st ! Suc hi) ps"
  obtains hi' where "extend_hi st ps n hi page_hi = (hi', page_ceil (st ! Suc hi') ps)" "hi \<le> hi'" "hi' < n"
    "Suc hi' < n \<longrightarrow> ps dvd st ! Suc hi'" "\<forall>i\<in>{hi<..hi'}. \<not> ps dvd st ! i"
  using assms(2,3)
proof (induction "n - hi" arbitrary: hi page_hi thesis rule: less_induct)
  case less
  have ceil: "st ! Suc hi < page_ceil (st ! Suc hi) ps \<longleftrightarrow> \<not> ps dvd st ! Suc hi" if "Suc hi < n"
  proof -
    have b: "st ! Suc hi + ps \<le> SIZE_RANGE" "0 < ps" using layout_bound [OF assms(1), of "Suc hi"] that assms(1)
      by (auto simp: layout_def)
    then show ?thesis using page_ceil_ge [of ps "st ! Suc hi"] page_ceil_id [of ps "st ! Suc hi"] page_ceil_dvd [of ps "st ! Suc hi"]
      by (metis order_less_le)
  qed
  show ?case
  proof (cases "Suc hi < n \<and> \<not> ps dvd st ! Suc hi")
    case True
    then have step: "extend_hi st ps n hi page_hi = extend_hi st ps n (Suc hi) (page_ceil (st ! Suc (Suc hi)) ps)"
      using less.prems ceil by (subst extend_hi.simps) simp
    obtain hi' where "extend_hi st ps n (Suc hi) (page_ceil (st ! Suc (Suc hi)) ps) = (hi', page_ceil (st ! Suc hi') ps)"
      "Suc hi \<le> hi'" "hi' < n" "Suc hi' < n \<longrightarrow> ps dvd st ! Suc hi'" "\<forall>i\<in>{Suc hi<..hi'}. \<not> ps dvd st ! i"
      using less.hyps [of "Suc hi"] True by (metis diff_less_mono2 lessI less.prems(2))
    moreover have "{hi<..hi'} \<subseteq> insert (Suc hi) {Suc hi<..hi'}" by auto
    then have "\<forall>i\<in>{hi<..hi'}. \<not> ps dvd st ! i" using True calculation(5) by blast
    ultimately show ?thesis using True step by (intro less.prems(1) [of hi']) auto
  next
    case False
    then have "extend_hi st ps n hi page_hi = (hi, page_hi)"
      using less.prems ceil by (subst extend_hi.simps) auto
    then show ?thesis using False less.prems by (intro less.prems(1) [of hi]) auto
  qed
qed

lemma fault_group_spec:
  assumes "server_layout r"
  obtains lo hi where "fault_group r off = ((lo, sr_chunk_start r ! lo), (hi, group_end r hi))"
    "group_of r (find_chunk_s r off) lo hi"
proof -
  let ?c = "find_chunk_s r off"
  note lay = assms [unfolded server_layout_def]
  have c: "?c < sr_nchunks r" using server_chunk.find_less [OF assms] .
  have z: "sr_chunk_start r ! 0 = 0" using lay by (simp add: layout_def)
  obtain lo where lo: "extend_lo (sr_chunk_start r) (sr_page_size r) ?c (page_floor (sr_chunk_start r ! ?c) (sr_page_size r)) = (lo, sr_chunk_start r ! lo)"
      "lo \<le> ?c" "sr_page_size r dvd sr_chunk_start r ! lo" "\<forall>i\<in>{lo<..?c}. \<not> sr_page_size r dvd sr_chunk_start r ! i"
    using extend_lo_spec [OF z refl] .
  obtain hi where hi: "extend_hi (sr_chunk_start r) (sr_page_size r) (sr_nchunks r) ?c (page_ceil (sr_chunk_start r ! Suc ?c) (sr_page_size r)) = (hi, group_end r hi)"
      "?c \<le> hi" "hi < sr_nchunks r" "Suc hi < sr_nchunks r \<longrightarrow> sr_page_size r dvd sr_chunk_start r ! Suc hi"
      "\<forall>i\<in>{?c<..hi}. \<not> sr_page_size r dvd sr_chunk_start r ! i"
    using extend_hi_spec [OF lay c refl] unfolding group_end_def .
  have "i \<in> {lo<..?c} \<or> i \<in> {?c<..hi}" if "i \<in> {lo<..hi}" for i using that by auto
  then have "group_of r ?c lo hi" using lo hi unfolding group_of_def by blast
  then show thesis using that [of lo hi] lo(1) hi(1) by (simp add: fault_group_def Let_def)
qed

lemma group_unique:
  assumes g: "group_of r c lo hi" and g': "group_of r c' lo' hi'" and c: "lo' \<le> c" "c \<le> hi'"
  shows "lo' = lo \<and> hi' = hi"
proof -
  have b: "lo \<le> c" "c \<le> hi" "hi < sr_nchunks r" "hi' < sr_nchunks r" using g g' by (auto simp: group_of_def)
  have a: "sr_page_size r dvd sr_chunk_start r ! lo" "sr_page_size r dvd sr_chunk_start r ! lo'"
    using g g' by (auto simp: group_of_def)
  have n: "\<not> sr_page_size r dvd sr_chunk_start r ! i" if "i \<in> {lo<..hi} \<or> i \<in> {lo'<..hi'}" for i
    using that g g' by (auto simp: group_of_def)
  have "\<not> lo < lo'" using n [of lo'] a b c by auto
  moreover have "\<not> lo' < lo" using n [of lo] a b c by auto
  moreover have "\<not> hi < hi'"
    using g n [of "Suc hi"] b c by (auto simp: group_of_def)
  moreover have "\<not> hi' < hi"
    using g' n [of "Suc hi'"] b c by (auto simp: group_of_def)
  ultimately show ?thesis by simp
qed

lemma group_exists:
  assumes "server_layout r" "c < sr_nchunks r"
  obtains lo hi where "group_of r c lo hi"
  using fault_group_spec [OF assms(1), of "sr_chunk_start r ! c"] unfolding server_chunk.find_at_start [OF assms] by blast

lemma group_member: "group_of r c lo hi \<Longrightarrow> i \<in> {lo..hi} \<Longrightarrow> group_of r i lo hi"
  by (auto simp: group_of_def)

text \<open>The pages of a group.\<close>

lemma group_facts:
  assumes lay: "server_layout r" and g: "group_of r c lo hi"
  shows "0 < sr_page_size r" and "sr_page_size r dvd group_end r hi"
    and "sr_chunk_start r ! Suc hi \<le> group_end r hi" and "sr_chunk_start r ! lo < sr_chunk_start r ! Suc hi"
    and "group_end r hi \<le> page_ceil (sr_chunk_start r ! sr_nchunks r) (sr_page_size r)"
    and "Suc hi < sr_nchunks r \<Longrightarrow> group_end r hi = sr_chunk_start r ! Suc hi"
proof -
  note L = lay [unfolded server_layout_def]
  have b: "lo \<le> hi" "Suc hi \<le> sr_nchunks r" using g by (auto simp: group_of_def)
  have bd: "sr_chunk_start r ! i + sr_page_size r \<le> SIZE_RANGE" if "i \<le> sr_nchunks r" for i
    using layout_bound [OF L that] .
  show ps: "0 < sr_page_size r" using L by (simp add: layout_def)
  show "sr_page_size r dvd group_end r hi" by (simp add: group_end_def)
  show "sr_chunk_start r ! Suc hi \<le> group_end r hi" using page_ceil_ge [OF ps bd [OF b(2)]] by (simp add: group_end_def)
  show "sr_chunk_start r ! lo < sr_chunk_start r ! Suc hi" using layout_mono [OF L] b by simp
  have "sr_chunk_start r ! Suc hi \<le> page_ceil (sr_chunk_start r ! sr_nchunks r) (sr_page_size r)"
    using layout_mono_le [OF L b(2)] page_ceil_ge [OF ps bd, of "sr_nchunks r"] by simp
  then show "group_end r hi \<le> page_ceil (sr_chunk_start r ! sr_nchunks r) (sr_page_size r)"
    unfolding group_end_def using page_ceil_least [OF ps bd [OF b(2)]] by simp
  show "group_end r hi = sr_chunk_start r ! Suc hi" if "Suc hi < sr_nchunks r"
    using that g page_ceil_id [OF ps bd [OF b(2)]] by (simp add: group_end_def group_of_def)
qed

lemma group_off_chunk:
  assumes lay: "server_layout r" and g: "group_of r c lo hi"
    and x: "sr_chunk_start r ! lo \<le> x" "x < group_end r hi"
  shows "find_chunk_s r x \<in> {lo..hi}"
proof -
  note L = lay [unfolded server_layout_def]
  have b: "lo \<le> hi" "hi < sr_nchunks r" using g by (auto simp: group_of_def)
  let ?c = "find_chunk_s r x"
  have lo: "lo \<le> ?c" using server_chunk.find_mono [OF lay x(1)] server_chunk.find_at_start [OF lay, of lo] b by simp
  have "?c \<le> hi"
  proof (rule ccontr)
    assume "\<not> ?c \<le> hi"
    then have c: "Suc hi \<le> ?c" "Suc hi < sr_nchunks r" using server_chunk.find_less [OF lay, of x] by auto
    have "sr_chunk_start r ! Suc hi \<le> sr_chunk_start r ! ?c"
      using layout_mono_le [OF L c(1)] server_chunk.find_less [OF lay, of x] by simp
    also have "\<dots> \<le> x" using server_chunk.find_start [OF lay] .
    finally show False using x(2) group_facts(6) [OF lay g c(2)] by simp
  qed
  with lo show ?thesis by simp
qed

lemma group_covers:
  assumes lay: "server_layout r" and g: "group_of r (find_chunk_s r x) lo hi"
    and x: "x < page_ceil (sr_chunk_start r ! sr_nchunks r) (sr_page_size r)"
  shows "sr_chunk_start r ! lo \<le> x" and "x < group_end r hi"
proof -
  note L = lay [unfolded server_layout_def]
  let ?c = "find_chunk_s r x"
  have b: "lo \<le> ?c" "?c \<le> hi" "hi < sr_nchunks r" using g by (auto simp: group_of_def)
  have "sr_chunk_start r ! lo \<le> sr_chunk_start r ! ?c" using layout_mono_le [OF L] b by simp
  then show "sr_chunk_start r ! lo \<le> x" using server_chunk.find_start [OF lay, of x] by simp
  show "x < group_end r hi"
  proof (cases "Suc hi < sr_nchunks r")
    case True
    then have "x < sr_chunk_start r ! Suc ?c" using server_chunk.find_end [OF lay] b by simp
    also have "\<dots> \<le> sr_chunk_start r ! Suc hi" using layout_mono_le [OF L] b True by simp
    finally show ?thesis using group_facts(6) [OF lay g True] by simp
  next
    case False
    then have "Suc hi = sr_nchunks r" using b by simp
    then show ?thesis using x by (simp add: group_end_def)
  qed
qed

section \<open>The content cache\<close>

text \<open>The byte a client is to see at an offset: its chunk's derived byte, zero in the padding.\<close>

definition fill_s :: "fc_server_region \<Rightarrow> uint32_t \<Rightarrow> byte list" where
  "fill_s r i = sr_fill_chunk r i (sr_chunk_start r ! Suc i - sr_chunk_start r ! i)"

definition content_s :: "fc_server_region \<Rightarrow> size_t \<Rightarrow> byte" where
  "content_s r x =
     (if x < sr_chunk_start r ! sr_nchunks r
      then fill_s r (find_chunk_s r x) ! (x - sr_chunk_start r ! find_chunk_s r x) else 0)"

definition mapped_s :: "fc_server_region \<Rightarrow> size_t" where
  "mapped_s r = page_ceil (sr_chunk_start r ! sr_nchunks r) (sr_page_size r)"

definition region_ok :: "fc_server_region \<Rightarrow> bool" where
  "region_ok r \<longleftrightarrow> server_layout r \<and> length (sr_resolved r) = sr_nchunks r \<and> length (sr_content r) = mapped_s r \<and>
     (\<forall>i < sr_nchunks r. length (fill_s r i) = sr_chunk_start r ! Suc i - sr_chunk_start r ! i) \<and>
     (\<forall>x<mapped_s r. sr_content r ! x = (if sr_resolved r ! find_chunk_s r x then content_s r x else 0))"

lemma region_okD:
  assumes "region_ok r"
  shows "server_layout r" "length (sr_resolved r) = sr_nchunks r" "length (sr_content r) = mapped_s r"
    "i < sr_nchunks r \<Longrightarrow> length (fill_s r i) = sr_chunk_start r ! Suc i - sr_chunk_start r ! i"
    "x < mapped_s r \<Longrightarrow> sr_content r ! x = (if sr_resolved r ! find_chunk_s r x then content_s r x else 0)"
  using assms by (auto simp: region_ok_def)

text \<open>Only the two cache fields change.\<close>

lemma cache_cong [simp]:
  "find_chunk_s (r\<lparr>sr_content := b, sr_resolved := f\<rparr>) = find_chunk_s r"
  "fill_s (r\<lparr>sr_content := b, sr_resolved := f\<rparr>) = fill_s r"
  "content_s (r\<lparr>sr_content := b, sr_resolved := f\<rparr>) = content_s r"
  "mapped_s (r\<lparr>sr_content := b, sr_resolved := f\<rparr>) = mapped_s r"
  "server_layout (r\<lparr>sr_content := b, sr_resolved := f\<rparr>) = server_layout r"
  "group_of (r\<lparr>sr_content := b, sr_resolved := f\<rparr>) = group_of r"
  "group_end (r\<lparr>sr_content := b, sr_resolved := f\<rparr>) = group_end r"
  by (simp_all add: fun_eq_iff find_chunk_s_def fill_s_def content_s_def mapped_s_def server_layout_def group_of_def group_end_def)

lemma total_le_mapped: "server_layout r \<Longrightarrow> sr_chunk_start r ! sr_nchunks r \<le> mapped_s r"
  unfolding mapped_s_def server_layout_def layout_def by (intro page_ceil_ge) auto

lemma fill_one:
  assumes ok: "region_ok r" and i: "i < sr_nchunks r"
  obtains c where "put_content (sr_content r) (sr_chunk_start r ! i) (fill_s r i) = Inr c"
    and "region_ok (r\<lparr>sr_content := c, sr_resolved := (sr_resolved r)[i := True]\<rparr>)"
proof -
  note O = region_okD [OF ok]
  note L = O(1) [unfolded server_layout_def]
  let ?s = "sr_chunk_start r ! i" and ?e = "sr_chunk_start r ! Suc i"
  have se: "?s < ?e" "?e \<le> sr_chunk_start r ! sr_nchunks r"
    using layout_mono [OF L] layout_mono_le [OF L] i by auto
  have len: "length (fill_s r i) = ?e - ?s" using O(4) [OF i] .
  have fit: "?e \<le> length (sr_content r)" using se total_le_mapped [OF O(1)] O(3) by simp
  define c where "c = take ?s (sr_content r) @ fill_s r i @ drop ?e (sr_content r)"
  have put: "put_content (sr_content r) ?s (fill_s r i) = Inr c"
    using fit se by (simp add: put_content_def len c_def)
  have lc: "length c = mapped_s r" using fit se O(3) by (simp add: c_def len)
  have "c ! x = (if (sr_resolved r)[i := True] ! find_chunk_s r x then content_s r x else 0)" if x: "x < mapped_s r" for x
  proof (cases "?s \<le> x \<and> x < ?e")
    case True
    then have f: "find_chunk_s r x = i" using server_chunk.find_eq [OF O(1) i] by simp
    have "x - ?s < ?e - ?s" using True by auto
    then have "c ! x = fill_s r i ! (x - ?s)" using True fit se by (simp add: c_def nth_append len)
    then show ?thesis using f True se i O(2) by (simp add: content_s_def)
  next
    case False
    then have "c ! x = sr_content r ! x" using fit se x O(3) by (auto simp: c_def nth_append len)
    moreover have "sr_resolved r ! i = (sr_resolved r)[i := True] ! i \<or> content_s r x = 0" if "find_chunk_s r x = i"
    proof -
      have "\<not> x < sr_chunk_start r ! sr_nchunks r"
        using server_chunk.find_in_range [OF O(1), of x] False that by auto
      then show ?thesis by (simp add: content_s_def)
    qed
    ultimately show ?thesis using O(5) [OF x] by (cases "find_chunk_s r x = i") auto
  qed
  then have "region_ok (r\<lparr>sr_content := c, sr_resolved := (sr_resolved r)[i := True]\<rparr>)"
    using O lc by (simp add: region_ok_def)
  then show thesis using that put by blast
qed

lemma fill_range_ok:
  assumes "region_ok r" "set is \<subseteq> {..<sr_nchunks r}" "distinct is"
  shows "\<exists>c f. fill_range r is = Inr (r\<lparr>sr_content := c, sr_resolved := f\<rparr>, map (Fill (sr_descriptor r)) (filter (\<lambda>i. \<not> sr_resolved r ! i) is)) \<and>
    region_ok (r\<lparr>sr_content := c, sr_resolved := f\<rparr>) \<and>
    (\<forall>i < sr_nchunks r. f ! i = (sr_resolved r ! i \<or> i \<in> set is))"
  using assms
proof (induction "is" arbitrary: r)
  case Nil
  then show ?case by (intro exI [of _ "sr_content r"] exI [of _ "sr_resolved r"]) simp
next
  case (Cons i "is")
  show ?case
  proof (cases "sr_resolved r ! i")
    case True
    then show ?thesis using Cons.IH [of r] Cons.prems by auto
  next
    case False
    obtain c where put: "put_content (sr_content r) (sr_chunk_start r ! i) (fill_s r i) = Inr c"
      and ok: "region_ok (r\<lparr>sr_content := c, sr_resolved := (sr_resolved r)[i := True]\<rparr>)"
      using fill_one [OF Cons.prems(1)] Cons.prems(2) by auto
    let ?r = "r\<lparr>sr_content := c, sr_resolved := (sr_resolved r)[i := True]\<rparr>"
    have flt: "filter (\<lambda>j. \<not> (sr_resolved r)[i := True] ! j) is = filter (\<lambda>j. \<not> sr_resolved r ! j) is"
      by (rule filter_cong [OF refl]) (use Cons.prems(3) in \<open>metis distinct.simps(2) nth_list_update_neq\<close>)
    obtain c' f where rec: "fill_range ?r is = Inr (?r\<lparr>sr_content := c', sr_resolved := f\<rparr>,
        map (Fill (sr_descriptor r)) (filter (\<lambda>j. \<not> sr_resolved r ! j) is))"
      "region_ok (?r\<lparr>sr_content := c', sr_resolved := f\<rparr>)"
      "\<forall>j < sr_nchunks r. f ! j = ((sr_resolved r)[i := True] ! j \<or> j \<in> set is)"
      using Cons.IH [OF ok] Cons.prems flt by auto
    have "fill_range r (i # is) = Inr (r\<lparr>sr_content := c', sr_resolved := f\<rparr>,
        map (Fill (sr_descriptor r)) (filter (\<lambda>j. \<not> sr_resolved r ! j) (i # is)))"
      using False put rec(1) by (simp add: fill_s_def Let_def)
    moreover have "\<forall>j < sr_nchunks r. f ! j = (sr_resolved r ! j \<or> j \<in> set (i # is))"
      using rec(3) Cons.prems(1,2) region_okD(2) by (auto simp: nth_list_update)
    ultimately show ?thesis using rec(2) by (intro exI [of _ c'] exI [of _ f]) simp
  qed
qed

section \<open>Copying to a client\<close>

lemma uffd_copy_missing:
  assumes "\<forall>x\<in>{dst..<dst + n * ps}. mm x = None" "0 < ps" "n * ps \<le> length src"
  shows "uffd_copy None ps n dst src mm = (Copied, \<lambda>x. if dst \<le> x \<and> x < dst + n * ps then Some (src ! (x - dst)) else mm x)"
  using assms
proof (induction n arbitrary: dst src mm)
  case 0
  then show ?case by (auto simp: fun_eq_iff)
next
  case (Suc n)
  let ?mm = "\<lambda>x. if dst \<le> x \<and> x < dst + ps then Some (src ! (x - dst)) else mm x"
  have "mm dst = None" using Suc.prems by simp
  then have "uffd_copy None ps (Suc n) dst src mm = uffd_copy None ps n (dst + ps) (drop ps src) ?mm" by simp
  also have "\<dots> = (Copied, \<lambda>x. if dst + ps \<le> x \<and> x < dst + ps + n * ps then Some (drop ps src ! (x - (dst + ps))) else ?mm x)"
    using Suc.prems by (intro Suc.IH) auto
  also have "(\<lambda>x. if dst + ps \<le> x \<and> x < dst + ps + n * ps then Some (drop ps src ! (x - (dst + ps))) else ?mm x) =
      (\<lambda>x. if dst \<le> x \<and> x < dst + Suc n * ps then Some (src ! (x - dst)) else mm x)"
    using Suc.prems(3) by (auto simp: fun_eq_iff)
  finally show ?case .
qed

lemma uffd_copy_present: "mm dst \<noteq> None \<Longrightarrow> snd (uffd_copy fails ps n dst src mm) = mm"
  by (cases n) auto

text \<open>Whatever happens, a copy has written a prefix of the source.\<close>

lemma uffd_copy_writes:
  "n * ps \<le> length src \<Longrightarrow> a \<notin> {dst..<dst + n * ps} \<Longrightarrow> snd (uffd_copy fails ps n dst src mm) a = mm a"
  "n * ps \<le> length src \<Longrightarrow> snd (uffd_copy fails ps n dst src mm) a \<in> {mm a, Some (src ! (a - dst))}"
proof (induction n arbitrary: fails dst src mm)
  case (Suc n)
  case 1
  then show ?case using Suc.IH(1) [where src = "drop ps src" and dst = "dst + ps"] by auto
next
  case (Suc n)
  case 2
  define mm1 where "mm1 = (\<lambda>x. if dst \<le> x \<and> x < dst + ps then Some (src ! (x - dst)) else mm x)"
  define r where "r = snd (uffd_copy (map_option (\<lambda>k. k - 1) fails) ps n (dst + ps) (drop ps src) mm1) a"
  have len: "n * ps \<le> length (drop ps src)" using 2 by simp
  have "r \<in> {mm1 a, Some (drop ps src ! (a - (dst + ps)))}" unfolding r_def by (rule Suc.IH(2) [OF len])
  moreover have "r = mm1 a" if "a < dst + ps" unfolding r_def by (rule Suc.IH(1) [OF len]) (use that in simp)
  moreover have "drop ps src ! (a - (dst + ps)) = src ! (a - dst)" if "dst + ps \<le> a" using 2 that by simp
  moreover have "mm1 a \<in> {mm a, Some (src ! (a - dst))}" by (simp add: mm1_def)
  ultimately have "r \<in> {mm a, Some (src ! (a - dst))}" by (cases "a < dst + ps") auto
  then show ?case unfolding r_def mm1_def by simp
qed auto

text \<open>
  Each byte of a mapping is missing or right; and, when no copy has been cut short, a client's memory holds each group
  entirely or not at all.
\<close>

definition group_present :: "fc_server_region \<Rightarrow> addr \<Rightarrow> mm \<Rightarrow> uint32_t \<Rightarrow> uint32_t \<Rightarrow> bool" where
  "group_present r base mm lo hi \<longleftrightarrow> (\<forall>x\<in>{sr_chunk_start r ! lo..<group_end r hi}. mm (base + x) = Some (content_s r x))"

definition served :: "fc_server_region \<Rightarrow> addr \<Rightarrow> mm \<Rightarrow> bool" where
  "served r base mm \<longleftrightarrow> (\<forall>x<mapped_s r. mm (base + x) \<in> {None, Some (content_s r x)})"

definition whole :: "fc_server_region \<Rightarrow> addr \<Rightarrow> mm \<Rightarrow> bool" where
  "whole r base mm \<longleftrightarrow> (\<forall>c lo hi. group_of r c lo hi \<longrightarrow>
     (\<forall>x\<in>{sr_chunk_start r ! lo..<group_end r hi}. mm (base + x) = None) \<or> group_present r base mm lo hi)"

lemma served_cong [simp]:
  "served (r\<lparr>sr_content := b, sr_resolved := f\<rparr>) = served r" "whole (r\<lparr>sr_content := b, sr_resolved := f\<rparr>) = whole r"
  by (simp_all add: fun_eq_iff served_def whole_def group_present_def)

lemma whole_missing: "(\<And>a. mm a = None) \<Longrightarrow> whole r base mm"
  by (simp add: whole_def)

lemma group_other:
  assumes lay: "server_layout r" and g: "group_of r c lo hi" and g': "group_of r c' lo' hi'"
    and x: "x \<in> {sr_chunk_start r ! lo..<group_end r hi}" "x \<in> {sr_chunk_start r ! lo'..<group_end r hi'}"
  shows "lo' = lo \<and> hi' = hi"
proof -
  let ?c = "find_chunk_s r x"
  have c: "?c \<in> {lo..hi}" "?c \<in> {lo'..hi'}" using group_off_chunk [OF lay] g g' x by auto
  have "group_of r ?c lo hi" using group_member [OF g c(1)] .
  then show ?thesis using group_unique [OF _ g', of ?c lo hi] c by simp
qed

lemma whole_group:
  assumes lay: "server_layout r" and wh: "whole r base mm" and g: "group_of r c lo hi" and pr: "group_present r base mm' lo hi"
    and out: "\<And>a. a \<notin> {base + sr_chunk_start r ! lo..<base + group_end r hi} \<Longrightarrow> mm' a = mm a"
  shows "whole r base mm'"
  unfolding whole_def
proof (intro allI impI)
  fix c' lo' hi' assume g': "group_of r c' lo' hi'"
  show "(\<forall>x\<in>{sr_chunk_start r ! lo'..<group_end r hi'}. mm' (base + x) = None) \<or> group_present r base mm' lo' hi'"
  proof (cases "lo' = lo \<and> hi' = hi")
    case True
    then show ?thesis using pr by simp
  next
    case False
    have same: "mm' (base + x) = mm (base + x)" if "x \<in> {sr_chunk_start r ! lo'..<group_end r hi'}" for x
    proof -
      have "x \<notin> {sr_chunk_start r ! lo..<group_end r hi}" using group_other [OF lay g g' _ that] False by blast
      then show ?thesis using out by auto
    qed
    show ?thesis using wh [unfolded whole_def, rule_format, OF g'] same by (auto simp: group_present_def)
  qed
qed

text \<open>The copy of one group.\<close>

definition copy_effect :: "fc_server_region \<Rightarrow> addr \<Rightarrow> nat option \<Rightarrow> mm \<Rightarrow> uint32_t \<Rightarrow> uint32_t \<Rightarrow> mm \<Rightarrow> bool" where
  "copy_effect r base fails mm lo hi mm' \<longleftrightarrow> (served r base mm \<longrightarrow> served r base mm') \<and>
     (whole r base mm \<longrightarrow> fails = None \<longrightarrow> sr_page_size r dvd base \<longrightarrow> base + mapped_s r \<le> SIZE_RANGE \<longrightarrow>
        group_present r base mm' lo hi \<and> whole r base mm')"

lemma mapped_bound: "server_layout r \<Longrightarrow> mapped_s r < SIZE_RANGE"
  unfolding server_layout_def layout_def mapped_s_def
  using page_ceil_lt [of "sr_page_size r" "sr_chunk_start r ! sr_nchunks r"] by auto

lemma copy_group:
  assumes lay: "server_layout r" and g: "group_of r c lo hi" and len: "len = group_end r hi - sr_chunk_start r ! lo"
    and src: "length src = len" "\<And>x. x \<in> {sr_chunk_start r ! lo..<group_end r hi} \<Longrightarrow> src ! (x - sr_chunk_start r ! lo) = content_s r x"
  shows "copy_effect r base fails mm lo hi (snd (UFFDIO_COPY fails (sr_page_size r) (size_add base (sr_chunk_start r ! lo)) len src mm))"
    (is "copy_effect r base fails mm lo hi ?mm")
proof -
  let ?ps = "sr_page_size r" and ?s = "sr_chunk_start r ! lo" and ?e = "group_end r hi"
  note G = group_facts [OF lay g]
  have al: "0 < ?ps" "?ps dvd ?s" "?ps dvd ?e" "?s < ?e" "?e \<le> mapped_s r" using G g by (auto simp: group_of_def mapped_s_def)
  have n: "len div ?ps * ?ps = len" "0 < len" "?ps dvd len" using al len by (simp_all add: dvd_diff_nat)
  have bnd: "mapped_s r < SIZE_RANGE" by (rule mapped_bound [OF lay])
  have wr: "?mm a = mm a \<or> ?mm a = Some (src ! (a - size_add base ?s)) \<and> a \<in> {size_add base ?s..<size_add base ?s + len}" for a
    using uffd_copy_writes [where n = "len div ?ps" and ps = ?ps and src = src and a = a and dst = "size_add base ?s" and fails = fails and mm = mm] n(1) src(1) by (auto simp: UFFDIO_COPY_def)
  have "served r base ?mm" if sv: "served r base mm"
    unfolding served_def
  proof (intro allI impI)
    fix x assume x: "x < mapped_s r"
    have old: "mm (base + x) \<in> {None, Some (content_s r x)}" using sv x by (simp add: served_def)
    show "?mm (base + x) \<in> {None, Some (content_s r x)}"
    proof (cases "base + ?s < SIZE_RANGE")
      case True
      then have dst: "size_add base ?s = base + ?s" by simp
      then have "?mm (base + x) = Some (content_s r x)" if "?mm (base + x) \<noteq> mm (base + x)"
        using wr [of "base + x"] that src(2) [of x] al(4) len by auto
      then show ?thesis using old by fastforce
    next
      case False
      have "size_add base ?s + SIZE_RANGE \<le> base + ?s"
      proof -
        have "size_add base ?s = (base + ?s - SIZE_RANGE) mod SIZE_RANGE" using False by (simp add: size_add_def le_mod_geq)
        then have "size_add base ?s \<le> base + ?s - SIZE_RANGE" by simp
        then show ?thesis using False by linarith
      qed
      then have "size_add base ?s + len \<le> base" using al(4,5) bnd len by linarith
      then show ?thesis using wr [of "base + x"] old by auto
    qed
  qed
  moreover have "group_present r base ?mm lo hi \<and> whole r base ?mm"
    if wh: "whole r base mm" and nf: "fails = None" and bp: "?ps dvd base" and rng: "base + mapped_s r \<le> SIZE_RANGE"
  proof -
    have dst: "size_add base ?s = base + ?s" "base + ?s + len = base + ?e" using rng al(4,5) len by simp_all
    have copy: "?mm = snd (uffd_copy None ?ps (len div ?ps) (base + ?s) src mm)"
      using n al rng bp len by (simp add: UFFDIO_COPY_def dst(1) nf)
    consider (missing) "\<forall>x\<in>{?s..<?e}. mm (base + x) = None" | (present) "group_present r base mm lo hi" using wh g by (auto simp: whole_def)
    then have "group_present r base ?mm lo hi \<and> (\<forall>a. a \<notin> {base + ?s..<base + ?e} \<longrightarrow> ?mm a = mm a)"
    proof cases
      case missing
      have "mm a = None" if "a \<in> {base + ?s..<base + ?s + len}" for a
      proof -
        have "a - base \<in> {?s..<?e}" using that dst(2) by auto
        then show ?thesis using missing that by fastforce
      qed
      then have "?mm = (\<lambda>a. if base + ?s \<le> a \<and> a < base + ?s + len then Some (src ! (a - (base + ?s))) else mm a)"
        unfolding copy using uffd_copy_missing [of "base + ?s" "len div ?ps" ?ps mm src] n al(1) src(1) by simp
      then show ?thesis using src(2) dst(2) by (auto simp: group_present_def)
    next
      case present
      then have "mm (base + ?s) \<noteq> None" using al(4) by (auto simp: group_present_def)
      then have "?mm = mm" unfolding copy by (rule uffd_copy_present)
      then show ?thesis using present by simp
    qed
    then show ?thesis using whole_group [OF lay wh g] by blast
  qed
  ultimately show ?thesis by (simp add: copy_effect_def)
qed

text \<open>The effect of resolving one fault, at any offset and whatever becomes of the copy.\<close>

definition fault_effect ::
    "fc_server_region \<Rightarrow> addr \<Rightarrow> nat option \<Rightarrow> mm \<Rightarrow> size_t \<Rightarrow> fc_server_region \<times> mm \<times> call list \<Rightarrow> bool" where
  "fault_effect r base fails mm off = (\<lambda>(r', mm', calls). \<exists>lo hi c f.
     group_of r (find_chunk_s r off) lo hi \<and> r' = r\<lparr>sr_content := c, sr_resolved := f\<rparr> \<and> region_ok r' \<and>
     (\<forall>i < sr_nchunks r. f ! i = (sr_resolved r ! i \<or> i \<in> {lo..hi})) \<and>
     calls = map (Fill (sr_descriptor r)) (filter (\<lambda>i. \<not> sr_resolved r ! i) [lo..<Suc hi]) \<and>
     copy_effect r base fails mm lo hi mm')"

lemma fault_effect_served:
  assumes "served r base mm" "fault_effect r base fails mm off (r', mm', calls)"
  shows "served r' base mm'"
  using assms by (auto simp: fault_effect_def copy_effect_def)

lemma resolve_fault_ok:
  assumes ok: "region_ok r"
  shows "\<exists>res. resolve_fault r m fails mm off = Inr res \<and> fault_effect r (m_base_addr m) fails mm off res"
proof -
  note O = region_okD [OF ok]
  let ?base = "m_base_addr m" and ?ps = "sr_page_size r"
  obtain lo hi where fg: "fault_group r off = ((lo, sr_chunk_start r ! lo), (hi, group_end r hi))"
      and g: "group_of r (find_chunk_s r off) lo hi" using fault_group_spec [OF O(1)] .
  note G = group_facts [OF O(1) g]
  have b: "hi < sr_nchunks r" using g by (auto simp: group_of_def)
  have rng: "set [lo..<Suc hi] \<subseteq> {..<sr_nchunks r}" using b by auto
  obtain c f where fill: "fill_range r [lo..<Suc hi] = Inr (r\<lparr>sr_content := c, sr_resolved := f\<rparr>,
        map (Fill (sr_descriptor r)) (filter (\<lambda>i. \<not> sr_resolved r ! i) [lo..<Suc hi]))"
      and ok': "region_ok (r\<lparr>sr_content := c, sr_resolved := f\<rparr>)"
      and f: "\<forall>i < sr_nchunks r. f ! i = (sr_resolved r ! i \<or> i \<in> set [lo..<Suc hi])"
    using fill_range_ok [OF ok _ distinct_upt, of lo "Suc hi"] rng by blast
  note O' = region_okD [OF ok', simplified]
  define len where "len = group_end r hi - sr_chunk_start r ! lo"
  have len: "sr_chunk_start r ! lo + len = group_end r hi" using G by (auto simp: len_def)
  have fit: "group_end r hi \<le> length c" using G(5) O' by (simp add: mapped_s_def)
  let ?src = "take len (drop (sr_chunk_start r ! lo) c)"
  have src: "?src ! (x - sr_chunk_start r ! lo) = content_s r x" if x: "x \<in> {sr_chunk_start r ! lo..<group_end r hi}" for x
  proof -
    have "find_chunk_s r x \<in> {lo..hi}" using group_off_chunk [OF O(1) g] x by simp
    then have "f ! find_chunk_s r x" using f b by (auto simp del: upt_Suc)
    moreover have "x < mapped_s r" using x G(5) by (simp add: mapped_s_def)
    ultimately have "c ! x = content_s r x" using O'(5) by simp
    then show ?thesis using x len fit by auto
  qed
  define mm' where "mm' = snd (UFFDIO_COPY fails ?ps (size_add ?base (sr_chunk_start r ! lo)) len ?src mm)"
  have "length ?src = len" using fit len by simp
  from copy_group [OF O(1) g len_def this src, of ?base fails mm]
  have "copy_effect r ?base fails mm lo hi mm'" by (simp add: mm'_def)
  moreover have "resolve_fault r m fails mm off = Inr (r\<lparr>sr_content := c, sr_resolved := f\<rparr>, mm',
      map (Fill (sr_descriptor r)) (filter (\<lambda>i. \<not> sr_resolved r ! i) [lo..<Suc hi]))"
    using fit len
    by (simp add: resolve_fault_def fg fill Let_def len_def [symmetric] mm'_def split: prod.split copy_result.split del: upt_Suc)
  moreover have "\<forall>i < sr_nchunks r. f ! i = (sr_resolved r ! i \<or> i \<in> {lo..hi})" using f by (simp add: less_Suc_eq_le del: upt_Suc)
  ultimately show ?thesis
    unfolding fault_effect_def using g ok' by blast
qed

text \<open>
  A copy that was cut short is never completed: once the first page of a group is there, a later fault on a page
  of the group that is still missing copies nothing.
\<close>

lemma cut_short_stays_missing:
  assumes "region_ok r" "group_of r (find_chunk_s r off) lo hi" "m_base_addr m + sr_chunk_start r ! lo < SIZE_RANGE"
    and "mm (m_base_addr m + sr_chunk_start r ! lo) \<noteq> None" "resolve_fault r m fails mm off = Inr (r', mm', calls)"
  shows "mm' = mm"
proof -
  have fg: "fault_group r off = ((lo, sr_chunk_start r ! lo), (hi, group_end r hi))"
    using fault_group_spec [OF region_okD(1) [OF assms(1)], of off] group_unique [OF _ assms(2)] group_member [OF assms(2)]
    by (metis assms(2) atLeastAtMost_iff group_of_def)
  have same: "snd (UFFDIO_COPY fails ps (m_base_addr m + sr_chunk_start r ! lo) len src mm) = mm" for ps len src
    using uffd_copy_present [of mm, OF assms(4)] by (simp add: UFFDIO_COPY_def)
  obtain c cs where fr: "fill_range r [lo..<Suc hi] = Inr (c, cs)"
    using assms(5) by (auto simp: resolve_fault_def fg res_bind_def split: sum.splits simp del: upt_Suc)
  define u where "u = UFFDIO_COPY fails (sr_page_size c) (m_base_addr m + sr_chunk_start r ! lo) (group_end r hi - sr_chunk_start r ! lo)
    (take (group_end r hi - sr_chunk_start r ! lo) (drop (sr_chunk_start r ! lo) (sr_content c))) mm"
  have "mm' = snd u"
    using assms(3,5) by (cases u; cases "fst u") (auto simp: resolve_fault_def fg fr Let_def u_def [symmetric] split: if_splits simp del: upt_Suc)
  then show ?thesis using same by (simp add: u_def)
qed

end
