(* ===== verification/Server_Inv.thy ===== *)
theory Server_Inv
  imports Server_Fault
begin

text \<open>
  The server as a whole.  \<open>reached\<close> is the set of states that any events of any number of connections
  can lead to, \<open>serving\<close> those where the descriptors that clients hand over are as documented.
  \<open>cache_inv\<close> holds in the former: one region per descriptor, built from the factory's recipe for it; the
  content cache of each region; and the log of fill callbacks, which holds each derived chunk once.
  \<open>server_inv\<close> adds what holds in the latter, the memory of each attached client.  Events are atomic here: the cache is changed only under the server's
  lock, and what is copied outside it are chunks already derived, which never change again.
\<close>

section \<open>Invariant\<close>

definition uffds :: "fc_server_region list \<Rightarrow> int list" where
  "uffds rs = concat (map (\<lambda>r. map m_uffd (sr_mappings r)) rs)"

fun fills :: "byte list \<Rightarrow> call list \<Rightarrow> uint32_t list" where
  "fills d [] = []"
| "fills d (Fill d' i # log) = (if d' = d then i # fills d log else fills d log)"
| "fills d (_ # log) = fills d log"

text \<open>The factory's contract, within the bounds the size computations of the server can hold.\<close>

definition recipe_ok :: "size_t \<Rightarrow> fc_region_recipe \<Rightarrow> bool" where
  "recipe_ok ps rc \<longleftrightarrow> (case (rc_chunk_sizes rc, rc_fill_chunk rc) of
     (Some sizes, Some fill) \<Rightarrow> rc_nchunks rc \<le> length sizes \<and> rc_nchunks rc + 1 < UINT32_RANGE \<and>
       (\<forall>s\<in>set sizes. s < SIZE_RANGE) \<and> sum_list (take (rc_nchunks rc) sizes) + ps \<le> SIZE_RANGE \<and>
       (\<forall>i<rc_nchunks rc. length (fill i (sizes ! i)) = sizes ! i)
   | _ \<Rightarrow> True)"

definition factory_ok :: "size_t \<Rightarrow> factory \<Rightarrow> bool" where
  "factory_ok ps factory \<longleftrightarrow> 0 < ps \<and> (\<forall>d rc. factory d = Inr rc \<longrightarrow> recipe_ok ps rc)"

definition recipe_of :: "factory \<Rightarrow> fc_server_region \<Rightarrow> bool" where
  "recipe_of factory r \<longleftrightarrow> (\<exists>rc sizes. factory (sr_descriptor r) = Inr rc \<and> rc_chunk_sizes rc = Some sizes \<and>
     rc_fill_chunk rc = Some (sr_fill_chunk r) \<and> rc_nchunks rc = sr_nchunks r \<and>
     sr_chunk_start r = chunk_starts 0 (take (sr_nchunks r) sizes) \<and> sr_nchunks r \<le> length sizes)"

definition region_inv_s :: "size_t \<Rightarrow> factory \<Rightarrow> (int \<Rightarrow> mm) \<Rightarrow> call list \<Rightarrow> fc_server_region \<Rightarrow> bool" where
  "region_inv_s ps factory mm log r \<longleftrightarrow> region_ok r \<and> sr_page_size r = ps \<and> recipe_of factory r \<and>
     (\<forall>m\<in>set (sr_mappings r). served r (m_base_addr m) (mm (m_uffd m))) \<and>
     distinct (fills (sr_descriptor r) log) \<and>
     set (fills (sr_descriptor r) log) = {i. i < sr_nchunks r \<and> sr_resolved r ! i}"

definition server_inv :: "size_t \<Rightarrow> factory \<Rightarrow> fc_server \<Rightarrow> (int \<Rightarrow> mm) \<Rightarrow> bool" where
  "server_inv ps factory s mm \<longleftrightarrow> distinct (map sr_descriptor (sv_regions s)) \<and> distinct (uffds (sv_regions s)) \<and>
     (\<forall>r\<in>set (sv_regions s). region_inv_s ps factory mm (sv_log s) r) \<and>
     (\<forall>d. d \<notin> sr_descriptor ` set (sv_regions s) \<longrightarrow> fills d (sv_log s) = [])"

text \<open>The part that does not depend on the clients, and the part that does.\<close>

definition region_cache :: "size_t \<Rightarrow> factory \<Rightarrow> call list \<Rightarrow> fc_server_region \<Rightarrow> bool" where
  "region_cache ps factory log r \<longleftrightarrow> region_ok r \<and> sr_page_size r = ps \<and> recipe_of factory r \<and>
     distinct (fills (sr_descriptor r) log) \<and>
     set (fills (sr_descriptor r) log) = {i. i < sr_nchunks r \<and> sr_resolved r ! i}"

definition cache_inv :: "size_t \<Rightarrow> factory \<Rightarrow> fc_server \<Rightarrow> bool" where
  "cache_inv ps factory s \<longleftrightarrow> distinct (map sr_descriptor (sv_regions s)) \<and>
     (\<forall>r\<in>set (sv_regions s). region_cache ps factory (sv_log s) r) \<and>
     (\<forall>d. d \<notin> sr_descriptor ` set (sv_regions s) \<longrightarrow> fills d (sv_log s) = [])"

definition clients_inv :: "fc_server_region list \<Rightarrow> (int \<Rightarrow> mm) \<Rightarrow> bool" where
  "clients_inv rs mm \<longleftrightarrow> distinct (uffds rs) \<and>
     (\<forall>r\<in>set rs. \<forall>m\<in>set (sr_mappings r). served r (m_base_addr m) (mm (m_uffd m)))"

lemma server_inv_split: "server_inv ps factory s mm \<longleftrightarrow> cache_inv ps factory s \<and> clients_inv (sv_regions s) mm"
  by (auto simp: server_inv_def cache_inv_def clients_inv_def region_inv_s_def region_cache_def)

lemma cache_invD:
  assumes "cache_inv ps factory s"
  shows "distinct (map sr_descriptor (sv_regions s))" "r \<in> set (sv_regions s) \<Longrightarrow> region_cache ps factory (sv_log s) r"
    "d \<notin> sr_descriptor ` set (sv_regions s) \<Longrightarrow> fills d (sv_log s) = []"
  using assms by (auto simp: cache_inv_def)

lemma server_invD:
  assumes "server_inv ps factory s mm"
  shows "distinct (map sr_descriptor (sv_regions s))" "distinct (uffds (sv_regions s))"
    "r \<in> set (sv_regions s) \<Longrightarrow> region_inv_s ps factory mm (sv_log s) r"
    "d \<notin> sr_descriptor ` set (sv_regions s) \<Longrightarrow> fills d (sv_log s) = []"
  using assms by (auto simp: server_inv_def)

section \<open>Lists of regions\<close>

lemma uffds_simps [simp]:
  "uffds [] = []" "uffds (r # rs) = map m_uffd (sr_mappings r) @ uffds rs" "uffds (rs @ rs') = uffds rs @ uffds rs'"
  by (simp_all add: uffds_def)

lemma set_uffds: "fd \<in> set (uffds rs) \<longleftrightarrow> (\<exists>r\<in>set rs. \<exists>m\<in>set (sr_mappings r). m_uffd m = fd)"
  by (auto simp: uffds_def)

lemma update_split:
  assumes "distinct (map sr_descriptor rs)" "r \<in> set rs" "sr_descriptor r' = sr_descriptor r"
  obtains as bs where "rs = as @ r # bs" "update_region r' rs = as @ r' # bs"
  using assms
proof (induction rs arbitrary: thesis)
  case (Cons x rs)
  show ?case
  proof (cases "x = r")
    case True
    then show ?thesis using Cons.prems by (intro Cons.prems(1) [of "[]" rs]) auto
  next
    case False
    then have r: "r \<in> set rs" and ne: "sr_descriptor x \<noteq> sr_descriptor r'" using Cons.prems by auto
    obtain as bs where "rs = as @ r # bs" "update_region r' rs = as @ r' # bs"
      using Cons.IH Cons.prems r by auto
    then show ?thesis using ne by (intro Cons.prems(1) [of "x # as" bs]) auto
  qed
qed simp

lemma find_region_Some: "find_region s d = Some r \<Longrightarrow> r \<in> set (sv_regions s) \<and> sr_descriptor r = d"
  by (auto simp: find_region_def find_Some_iff)

lemma find_region_None: "find_region s d = None \<longleftrightarrow> d \<notin> sr_descriptor ` set (sv_regions s)"
  by (auto simp: find_region_def find_None_iff)

lemma find_region_member:
  assumes "distinct (map sr_descriptor (sv_regions s))" "r \<in> set (sv_regions s)"
  shows "find_region s (sr_descriptor r) = Some r"
proof -
  obtain r' where r': "find_region s (sr_descriptor r) = Some r'"
    using find_region_None [of s "sr_descriptor r"] assms(2) by (cases "find_region s (sr_descriptor r)") auto
  then have "r' \<in> set (sv_regions s)" "sr_descriptor r' = sr_descriptor r" using find_region_Some by auto
  then have "r' = r" using assms by (meson distinct_map inj_on_def)
  with r' show ?thesis by simp
qed

lemma find_mapping_Some:
  "find_mapping rs fd = Some (r, m) \<Longrightarrow> r \<in> set rs \<and> m \<in> set (sr_mappings r) \<and> m_uffd m = fd"
  by (induction rs) (auto simp: find_Some_iff split: option.splits)

lemma find_mapping_member:
  assumes "distinct (uffds rs)" "r \<in> set rs" "m \<in> set (sr_mappings r)"
  shows "find_mapping rs (m_uffd m) = Some (r, m)"
  using assms
proof (induction rs)
  case (Cons x rs)
  show ?case
  proof (cases "find (\<lambda>m'. m_uffd m' = m_uffd m) (sr_mappings x)")
    case None
    then have "m \<notin> set (sr_mappings x)" by (auto simp: find_None_iff)
    then show ?thesis using Cons None by auto
  next
    case (Some m')
    then have m': "m' \<in> set (sr_mappings x)" "m_uffd m' = m_uffd m" by (auto simp: find_Some_iff)
    then have "m_uffd m \<in> set (map m_uffd (sr_mappings x))" by (metis imageI set_map)
    then have "m_uffd m \<notin> set (uffds rs)" using Cons.prems(1) by auto
    then have "r = x" using Cons.prems(2,3) by (auto simp: set_uffds)
    moreover have "m' = m" using m' Cons.prems \<open>r = x\<close> by (auto simp: distinct_map inj_on_def)
    ultimately show ?thesis using Some by simp
  qed
qed simp

lemma fills_append [simp]: "fills d (log @ log') = fills d log @ fills d log'"
  by (induction d log rule: fills.induct) auto

lemma fills_Fill [simp]: "fills d (map (Fill d') is) = (if d' = d then is else [])"
  by (induction "is") auto

section \<open>Steps\<close>

text \<open>Replacing one region.\<close>

lemma cache_inv_update:
  assumes inv: "cache_inv ps factory s" and r: "r \<in> set (sv_regions s)" and d: "sr_descriptor r' = sr_descriptor r"
    and new: "region_cache ps factory log' r'"
    and log: "\<And>d. d \<noteq> sr_descriptor r \<Longrightarrow> fills d log' = fills d (sv_log s)"
  shows "cache_inv ps factory (s\<lparr>sv_regions := update_region r' (sv_regions s), sv_log := log'\<rparr>)"
proof -
  note I = cache_invD [OF inv]
  obtain as bs where sp: "sv_regions s = as @ r # bs" "update_region r' (sv_regions s) = as @ r' # bs"
    using update_split [OF I(1) r d] .
  have other: "region_cache ps factory log' x" if x: "x \<in> set as \<union> set bs" for x
  proof -
    have "sr_descriptor r \<notin> sr_descriptor ` (set as \<union> set bs)" using I(1) by (simp add: sp(1) image_Un)
    then have "sr_descriptor x \<noteq> sr_descriptor r" using x by (metis imageI)
    then have "fills (sr_descriptor x) log' = fills (sr_descriptor x) (sv_log s)" by (rule log)
    then show ?thesis using I(2) [of x] x sp(1) by (simp add: region_cache_def)
  qed
  have "distinct (map sr_descriptor (as @ r' # bs))" using I(1) sp(1) d by simp
  moreover have "\<forall>x\<in>set (as @ r' # bs). region_cache ps factory log' x" using other new by auto
  moreover have "fills d' log' = []" if "d' \<notin> sr_descriptor ` set (as @ r' # bs)" for d'
  proof -
    have "d' \<noteq> sr_descriptor r" "d' \<notin> sr_descriptor ` set (sv_regions s)" using that d sp(1) by auto
    then show ?thesis using log I(3) by simp
  qed
  ultimately show ?thesis by (simp add: cache_inv_def sp(2))
qed

lemma clients_inv_update:
  assumes cl: "clients_inv rs mm" and dd: "distinct (map sr_descriptor rs)" and r: "r \<in> set rs" and d: "sr_descriptor r' = sr_descriptor r"
    and new: "\<forall>m\<in>set (sr_mappings r'). served r' (m_base_addr m) (mm' (m_uffd m))"
    and fds: "map m_uffd (sr_mappings r') = fds @ map m_uffd (sr_mappings r)" "distinct fds" "set fds \<inter> set (uffds rs) = {}"
    and mm: "\<And>fd. fd \<notin> set (map m_uffd (sr_mappings r')) \<Longrightarrow> mm' fd = mm fd"
  shows "clients_inv (update_region r' rs) mm'"
proof -
  have du: "distinct (uffds rs)" and sv: "\<And>x m. x \<in> set rs \<Longrightarrow> m \<in> set (sr_mappings x) \<Longrightarrow> served x (m_base_addr m) (mm (m_uffd m))"
    using cl by (auto simp: clients_inv_def)
  obtain as bs where sp: "rs = as @ r # bs" "update_region r' rs = as @ r' # bs"
    using update_split [OF dd r d] .
  have other: "served x (m_base_addr m) (mm' (m_uffd m))" if x: "x \<in> set as \<union> set bs" and m: "m \<in> set (sr_mappings x)" for x m
  proof -
    have u: "m_uffd m \<in> set (uffds as) \<union> set (uffds bs)" using x m by (auto simp: set_uffds)
    then have "m_uffd m \<notin> set (map m_uffd (sr_mappings r))" using du sp(1) by auto
    moreover have "m_uffd m \<notin> set fds" using u fds(3) sp(1) by auto
    ultimately have "mm' (m_uffd m) = mm (m_uffd m)" using mm fds(1) by simp
    then show ?thesis using sv [of x m] x m sp(1) by auto
  qed
  have "distinct (uffds (as @ r' # bs))"
  proof -
    define u where "u = map m_uffd (sr_mappings r)"
    have "distinct (uffds as @ u @ uffds bs)" "set fds \<inter> set (uffds as @ u @ uffds bs) = {}"
      using du fds(3) by (simp_all add: sp(1) u_def)
    then have "distinct (uffds as @ (fds @ u) @ uffds bs)" using fds(2) by (simp add: Int_Un_distrib) blast
    then show ?thesis by (simp add: fds(1) [folded u_def])
  qed
  then show ?thesis using other new by (auto simp: clients_inv_def sp(2))
qed

text \<open>Calls other than fills do not matter.\<close>

lemma cache_inv_log:
  assumes "cache_inv ps factory s" "\<forall>d. fills d calls = []"
  shows "cache_inv ps factory (s\<lparr>sv_log := sv_log s @ calls\<rparr>)"
  using assms by (simp add: cache_inv_def region_cache_def)

section \<open>Creating a region\<close>

lemma chunk_starts_diff:
  assumes "sum_list sizes < SIZE_RANGE" "i < length sizes"
  shows "chunk_starts 0 sizes ! Suc i - chunk_starts 0 sizes ! i = sizes ! i"
  using assms by (simp add: chunk_starts_nth take_Suc_conv_app_nth)

text \<open>A region as \<open>create_region\<close> initialises it.\<close>

definition fresh_region :: "factory \<Rightarrow> size_t \<Rightarrow> byte list \<Rightarrow> fc_server_region \<Rightarrow> bool" where
  "fresh_region factory ps d r \<longleftrightarrow> region_ok r \<and> recipe_of factory r \<and> sr_descriptor r = d \<and> sr_page_size r = ps \<and>
     sr_mappings r = [] \<and> (\<forall>i < sr_nchunks r. \<not> sr_resolved r ! i)"

lemma fresh_region_ok:
  assumes rc: "factory d = Inr rc" "rc_chunk_sizes rc = Some sizes" "rc_fill_chunk rc = Some fill"
    and ok: "recipe_ok ps rc" "0 < ps" and n: "rc_nchunks rc \<noteq> 0"
    and acc: "sum_chunk_sizes 0 (take (rc_nchunks rc) sizes) = Some acc"
  shows "fresh_region factory ps d \<lparr>sr_descriptor = d, sr_page_size = ps, sr_nchunks = rc_nchunks rc,
     sr_chunk_start = chunk_starts 0 (take (rc_nchunks rc) sizes), sr_resolved = replicate (rc_nchunks rc) False,
     sr_content = replicate (page_ceil acc ps) 0, sr_fill_chunk = fill, sr_user_data = u,
     sr_destroy_user_data = du, sr_mappings = []\<rparr>" (is "fresh_region factory ps d ?r")
proof -
  let ?sz = "take (rc_nchunks rc) sizes" and ?n = "rc_nchunks rc"
  have R: "?n \<le> length sizes" "\<forall>s\<in>set sizes. s < SIZE_RANGE" "sum_list ?sz + ps \<le> SIZE_RANGE"
      "\<And>i. i < ?n \<Longrightarrow> length (fill i (sizes ! i)) = sizes ! i"
    using ok(1) rc by (auto simp: recipe_ok_def)
  have lt: "sum_list ?sz < SIZE_RANGE" using R(3) ok(2) by linarith
  have pos: "(\<forall>s\<in>set ?sz. 0 < s)" and acc': "acc = sum_list ?sz"
    using acc sum_chunk_sizes_iff [of ?sz acc] R(2) by (auto dest: in_set_takeD)
  have len: "length ?sz = ?n" using R(1) by simp
  have "layout (length ?sz) (chunk_starts 0 ?sz) ps"
    using layout_chunk_starts [OF _ pos ok(2) R(3)] n R(1) by force
  then have lay: "server_layout ?r" unfolding len by (simp add: server_layout_def)
  have tot: "chunk_starts 0 ?sz ! ?n = acc" using chunk_starts_nth [of 0 ?sz ?n] lt len by (simp add: acc')
  have diff: "chunk_starts 0 ?sz ! Suc i - chunk_starts 0 ?sz ! i = sizes ! i" if "i < ?n" for i
    using chunk_starts_diff [OF lt, of i] that len by simp
  have "length (fill_s ?r i) = sr_chunk_start ?r ! Suc i - sr_chunk_start ?r ! i" if "i < ?n" for i
    using R(4) [OF that] diff [OF that] by (simp add: fill_s_def)
  moreover have "mapped_s ?r = page_ceil acc ps" using tot by (simp add: mapped_s_def)
  moreover have "find_chunk_s ?r x < ?n" for x using server_chunk.find_less [OF lay] by simp
  ultimately have "region_ok ?r" using lay by (simp add: region_ok_def)
  moreover have "recipe_of factory ?r" using rc R(1) by (simp add: recipe_of_def)
  ultimately show ?thesis by (simp add: fresh_region_def)
qed

lemma create_region_ok:
  assumes f: "factory_ok ps factory"
  shows "\<exists>ro err calls. create_region ps factory d al = Inr (ro, err, calls) \<and> (\<forall>d'. fills d' calls = []) \<and>
    (\<forall>r. ro = Some r \<longrightarrow> fresh_region factory ps d r \<and> err = None)"
proof (cases "factory d")
  case (Inl e)
  then show ?thesis by (simp add: create_region_def)
next
  case (Inr rc)
  have ok: "recipe_ok ps rc" "0 < ps" using f Inr by (auto simp: factory_ok_def)
  note defs = create_region_def Inr Let_def
  show ?thesis
  proof (cases "rc_chunk_sizes rc")
    case (Some sizes)
    note sz = Some
    show ?thesis
    proof (cases "rc_fill_chunk rc")
      case (Some fill)
      have R: "rc_nchunks rc \<le> length sizes" "rc_nchunks rc + 1 < UINT32_RANGE"
        using ok(1) sz Some by (auto simp: recipe_ok_def)
      then have tab: "fill_chunk_start (take (rc_nchunks rc) sizes) = Inr (chunk_starts 0 (take (rc_nchunks rc) sizes))"
        by (simp add: fill_chunk_start_def)
      show ?thesis
      proof (cases "rc_nchunks rc = 0 \<or> sum_chunk_sizes 0 (take (rc_nchunks rc) sizes) = None \<or> \<not> al_tables al \<or> \<not> al_content al")
        case True
        then show ?thesis using R(1) tab sz Some by (auto simp: defs split: option.splits)
      next
        case False
        then obtain acc where "sum_chunk_sizes 0 (take (rc_nchunks rc) sizes) = Some acc" by auto
        then show ?thesis using False R(1) tab sz Some fresh_region_ok [of factory d, OF Inr sz Some ok] by (simp add: defs)
      qed
    qed (use sz in \<open>simp add: defs\<close>)
  qed (simp add: defs)
qed

section \<open>The handlers\<close>

lemma cache_inv_new:
  assumes inv: "cache_inv ps factory s" and r: "fresh_region factory ps d r" and d: "find_region s d = None"
    and calls: "\<forall>d'. fills d' calls = []"
  shows "cache_inv ps factory (s\<lparr>sv_log := sv_log s @ calls, sv_regions := r # sv_regions s\<rparr>)"
proof -
  note I = cache_invD [OF inv]
  have nin: "d \<notin> sr_descriptor ` set (sv_regions s)" using d by (simp add: find_region_None)
  then have "fills d (sv_log s) = []" by (rule I(3))
  then have "region_cache ps factory (sv_log s @ calls) r" using r calls by (simp add: region_cache_def fresh_region_def)
  moreover have "\<forall>x\<in>set (sv_regions s). region_cache ps factory (sv_log s @ calls) x"
    using I(2) calls by (simp add: region_cache_def)
  ultimately show ?thesis using I(1,3) nin r calls by (simp add: cache_inv_def fresh_region_def)
qed

text \<open>Resolving a descriptor adds at most a region without mappings.\<close>

definition same_clients :: "fc_server_region list \<Rightarrow> fc_server_region list \<Rightarrow> bool" where
  "same_clients rs rs' \<longleftrightarrow> rs' = rs \<or> (\<exists>r. rs' = r # rs \<and> sr_mappings r = [])"

lemma same_clientsD:
  assumes "same_clients rs rs'"
  shows "uffds rs' = uffds rs" "clients_inv rs' mm = clients_inv rs mm"
  using assms by (auto simp: same_clients_def clients_inv_def)

lemma resolve_locked_ok:
  assumes inv: "cache_inv ps factory s" and f: "factory_ok ps factory"
  shows "\<exists>s' resp tr. resolve_locked ps factory s d al = Inr (s', resp, tr) \<and> cache_inv ps factory s' \<and>
    same_clients (sv_regions s) (sv_regions s') \<and>
    (rs_status resp = 0 \<longrightarrow> (\<exists>r. find_region s' d = Some r \<and> rs_nchunks resp = sr_nchunks r \<and> tr = put_sizes (region_sizes r)))"
proof (cases "find_region s d")
  case (Some r)
  then show ?thesis using inv by (simp add: resolve_locked_def same_clients_def)
next
  case None
  obtain ro err calls where cr: "create_region ps factory d al = Inr (ro, err, calls)" "\<forall>d'. fills d' calls = []"
      "\<And>r. ro = Some r \<Longrightarrow> fresh_region factory ps d r \<and> err = None"
    using create_region_ok [OF f] by blast
  show ?thesis
  proof (cases ro)
    case (Some r)
    have fr: "fresh_region factory ps d r" using cr(3) Some by simp
    have "cache_inv ps factory (s\<lparr>sv_log := sv_log s @ calls, sv_regions := r # sv_regions s\<rparr>)"
      by (rule cache_inv_new [OF inv fr None cr(2)])
    moreover have "find_region (s\<lparr>sv_log := sv_log s @ calls, sv_regions := r # sv_regions s\<rparr>) d = Some r"
      using fr by (simp add: find_region_def fresh_region_def)
    ultimately show ?thesis using None cr(1) Some fr by (simp add: resolve_locked_def Let_def fresh_region_def same_clients_def)
  next
    case ro: None
    have "cache_inv ps factory (s\<lparr>sv_log := sv_log s @ calls\<rparr>)" by (rule cache_inv_log [OF inv cr(2)])
    then show ?thesis using None cr(1) ro by (cases err) (simp_all add: resolve_locked_def Let_def same_clients_def)
  qed
qed

lemma handle_resolve_ok:
  assumes inv: "cache_inv ps factory s" and f: "factory_ok ps factory"
  shows "\<exists>rc s' reply. handle_resolve ps factory s rx al send_ok = Inr (rc, s', reply) \<and> cache_inv ps factory s' \<and>
    same_clients (sv_regions s) (sv_regions s')"
proof (cases rx)
  case (Rx msg fd)
  let ?d = "drop 8 (recv_msg msg)"
  obtain s' resp tr where "resolve_locked ps factory s ?d al = Inr (s', resp, tr)" "cache_inv ps factory s'"
      "same_clients (sv_regions s) (sv_regions s')"
    using resolve_locked_ok [OF inv f] by blast
  then show ?thesis using Rx inv by (simp add: handle_resolve_def Let_def same_clients_def)
qed (use inv in \<open>simp add: handle_resolve_def same_clients_def\<close>)

text \<open>Attaching a mapping changes nothing in the cache of the region.\<close>

lemma mappings_cong [simp]:
  "region_cache ps factory log (r\<lparr>sr_mappings := ms\<rparr>) = region_cache ps factory log r" "served (r\<lparr>sr_mappings := ms\<rparr>) = served r"
proof -
  let ?r = "r\<lparr>sr_mappings := ms\<rparr>"
  have cong: "find_chunk_s ?r = find_chunk_s r" "fill_s ?r = fill_s r" "content_s ?r = content_s r" "mapped_s ?r = mapped_s r"
      "server_layout ?r = server_layout r"
    by (simp_all add: fun_eq_iff find_chunk_s_def fill_s_def content_s_def mapped_s_def server_layout_def)
  show "region_cache ps factory log ?r = region_cache ps factory log r" "served ?r = served r"
    by (simp_all add: region_cache_def region_ok_def served_def recipe_of_def cong fun_eq_iff)
qed

text \<open>
  Whatever was received, attaching keeps the cache; the clients' memory too, when the descriptor is a new one with
  everything behind it missing.
\<close>

definition attach_ok :: "fc_server_region list \<Rightarrow> (int \<Rightarrow> mm) \<Rightarrow> rx \<Rightarrow> bool" where
  "attach_ok rs mm rx \<longleftrightarrow> (\<forall>msg fd. rx = Rx msg (Some fd) \<longrightarrow> fd \<notin> set (uffds rs) \<and> (\<forall>a. mm fd a = None))"

lemma handle_attach_ok:
  assumes inv: "cache_inv ps factory s"
  shows "\<exists>rc s' reply. handle_attach s rx buf_ok mapping_ok send_ok = (rc, s', reply) \<and> cache_inv ps factory s' \<and>
    (clients_inv (sv_regions s) mm \<and> attach_ok (sv_regions s) mm rx \<longrightarrow> clients_inv (sv_regions s') mm)"
proof -
  have log: "cache_inv ps factory (log_call (Close x) s)" "sv_regions (log_call (Close x) s) = sv_regions s" for x
    using cache_inv_log [OF inv, of "[Close x]"] by (simp_all add: log_call_def)
  show ?thesis
  proof (cases rx)
    case (Rx msg ufd)
    let ?d = "drop 16 (recv_msg msg)"
    show ?thesis
    proof (cases "ufd = None \<or> find_region s ?d = None")
      case True
      then show ?thesis using inv log Rx by (auto simp: handle_attach_def Let_def split: option.splits)
    next
      case False
      then obtain fd r where fr: "ufd = Some fd" "find_region s ?d = Some r" by auto
      have r: "r \<in> set (sv_regions s)" using find_region_Some [OF fr(2)] by simp
      let ?r = "\<lambda>b. r\<lparr>sr_mappings := \<lparr>m_uffd = fd, m_base_addr = b\<rparr> # sr_mappings r\<rparr>"
      have "cache_inv ps factory (s\<lparr>sv_regions := update_region (?r b) (sv_regions s), sv_log := sv_log s\<rparr>)" for b
        using cache_invD(2) [OF inv r] by (intro cache_inv_update [OF inv r]) simp_all
      then have cache: "cache_inv ps factory (s\<lparr>sv_regions := update_region (?r b) (sv_regions s)\<rparr>)" for b by simp
      have clients: "clients_inv (update_region (?r b) (sv_regions s)) mm"
        if "clients_inv (sv_regions s) mm" "attach_ok (sv_regions s) mm rx" for b
      proof (rule clients_inv_update [OF that(1) cache_invD(1) [OF inv] r, where fds = "[fd]"])
        have fd: "fd \<notin> set (uffds (sv_regions s))" "\<And>a. mm fd a = None" using that(2) Rx fr(1) by (auto simp: attach_ok_def)
        then show "\<forall>m\<in>set (sr_mappings (?r b)). served (?r b) (m_base_addr m) (mm (m_uffd m))"
          using that(1) r by (auto simp: clients_inv_def served_def)
        show "set [fd] \<inter> set (uffds (sv_regions s)) = {}" using fd(1) by simp
      qed simp_all
      show ?thesis using inv log cache clients Rx fr by (auto simp: handle_attach_def Let_def)
    qed
  qed (use inv in \<open>simp add: handle_attach_def\<close>)
qed

section \<open>Events\<close>

text \<open>
  What a client and the kernel guarantee of an event: a descriptor received over the socket is a new
  number, and the memory behind it is still missing throughout.  Nothing is assumed of the base address that
  the client claims, nor of the addresses at which faults are reported.
\<close>

definition event_ok :: "run \<Rightarrow> event \<Rightarrow> bool" where
  "event_ok rn e \<longleftrightarrow> attach_ok (sv_regions (rn_server rn)) (rn_mm rn) (ev_rx e)"

definition run_inv :: "size_t \<Rightarrow> factory \<Rightarrow> run \<Rightarrow> bool" where
  "run_inv ps factory rn \<longleftrightarrow> server_inv ps factory (rn_server rn) (rn_mm rn)"

abbreviation run_clients :: "run \<Rightarrow> bool" where
  "run_clients rn \<equiv> clients_inv (sv_regions (rn_server rn)) (rn_mm rn)"

lemma conn_result_fields:
  "rn_server (conn_result rn (rc, s, reply)) = s" "rn_mm (conn_result rn res) = rn_mm rn" "rn_conn_fd (conn_result rn res) = rn_conn_fd rn"
  by (simp_all add: conn_result_def Let_def split: prod.splits)

lemma conn_event_ok:
  assumes inv: "cache_inv ps factory (rn_server rn)" and f: "factory_ok ps factory"
  shows "\<exists>rn'. conn_event ps factory rn e = Inr rn' \<and> cache_inv ps factory (rn_server rn') \<and> (run_clients rn \<and> event_ok rn e \<longrightarrow> run_clients rn')"
proof (cases "rn_state rn = CONN_WAIT_RESOLVE")
  case True
  obtain rc s' reply where "handle_resolve ps factory (rn_server rn) (ev_rx e) (ev_allocs e) (ev_send_ok e) = Inr (rc, s', reply)"
      "cache_inv ps factory s'" "same_clients (sv_regions (rn_server rn)) (sv_regions s')"
    using handle_resolve_ok [OF inv f] by blast
  then show ?thesis using True same_clientsD(2) by (simp add: conn_event_def conn_result_fields)
next
  case False
  obtain rc s' reply where "handle_attach (rn_server rn) (ev_rx e) (al_buf (ev_allocs e)) (ev_mapping_ok e) (ev_send_ok e) = (rc, s', reply)"
      "cache_inv ps factory s'" "run_clients rn \<and> event_ok rn e \<longrightarrow> clients_inv (sv_regions s') (rn_mm rn)"
    using handle_attach_ok [OF inv, of "ev_rx e" "al_buf (ev_allocs e)" "ev_mapping_ok e" "ev_send_ok e" "rn_mm rn"]
    unfolding event_ok_def by fastforce
  then show ?thesis using False by (simp add: conn_event_def conn_result_fields)
qed

lemma fault_effect_cache:
  assumes inv: "cache_inv ps factory s" and r: "r \<in> set (sv_regions s)" and eff: "fault_effect r base fails mm off (r', mm', calls)"
  shows "cache_inv ps factory (s\<lparr>sv_regions := update_region r' (sv_regions s), sv_log := sv_log s @ calls\<rparr>)"
proof -
  note R = cache_invD(2) [OF inv r, unfolded region_cache_def]
  obtain lo hi c f where e: "group_of r (find_chunk_s r off) lo hi" "r' = r\<lparr>sr_content := c, sr_resolved := f\<rparr>" "region_ok r'"
      "\<forall>i < sr_nchunks r. f ! i = (sr_resolved r ! i \<or> i \<in> {lo..hi})"
      "calls = map (Fill (sr_descriptor r)) (filter (\<lambda>i. \<not> sr_resolved r ! i) [lo..<Suc hi])"
    using eff unfolding fault_effect_def by blast
  have hi: "hi < sr_nchunks r" using e(1) by (simp add: group_of_def)
  have new: "fills (sr_descriptor r) (sv_log s @ calls) = fills (sr_descriptor r) (sv_log s) @ filter (\<lambda>i. \<not> sr_resolved r ! i) [lo..<Suc hi]"
    by (simp add: e(5) del: upt_Suc)
  have set_new: "set (filter (\<lambda>i. \<not> sr_resolved r ! i) [lo..<Suc hi]) = {i \<in> {lo..hi}. \<not> sr_resolved r ! i}"
    by (auto simp del: upt_Suc)
  have once: "distinct (fills (sr_descriptor r) (sv_log s @ calls))"
    unfolding new using R set_new by (auto simp del: upt_Suc)
  have all: "set (fills (sr_descriptor r) (sv_log s @ calls)) = {i. i < sr_nchunks r \<and> f ! i}"
    unfolding new set_append set_new using R e(4) hi by auto
  have rec: "recipe_of factory r'" using R e(2) by (simp add: recipe_of_def)
  have "region_cache ps factory (sv_log s @ calls) r'"
    using R e(2,3) once all rec by (simp add: region_cache_def)
  then show ?thesis
    by (intro cache_inv_update [OF inv r]) (use e(2,5) in \<open>auto simp del: upt_Suc\<close>)
qed

lemma fault_effect_clients:
  assumes cl: "clients_inv rs mm" and dd: "distinct (map sr_descriptor rs)" and r: "r \<in> set rs" and m: "m \<in> set (sr_mappings r)"
    and eff: "fault_effect r (m_base_addr m) fails (mm (m_uffd m)) off (r', mm', calls)"
  shows "clients_inv (update_region r' rs) (mm(m_uffd m := mm'))"
proof -
  obtain c f where e: "r' = r\<lparr>sr_content := c, sr_resolved := f\<rparr>" using eff unfolding fault_effect_def by blast
  have sv: "served r (m_base_addr m') (mm (m_uffd m'))" if "m' \<in> set (sr_mappings r)" for m' using cl r that by (auto simp: clients_inv_def)
  have uf: "distinct (map m_uffd (sr_mappings r))"
  proof -
    obtain as bs where "rs = as @ r # bs" using r by (metis split_list)
    then show ?thesis using cl by (simp add: clients_inv_def)
  qed
  have "served r' (m_base_addr m') ((mm(m_uffd m := mm')) (m_uffd m'))" if m': "m' \<in> set (sr_mappings r)" for m'
  proof (cases "m_uffd m' = m_uffd m")
    case True
    then have "m' = m" using uf m m' by (auto simp: distinct_map inj_on_def)
    then show ?thesis using fault_effect_served [OF sv [OF m] eff] by simp
  next
    case False
    then show ?thesis using sv [OF m'] e by simp
  qed
  then show ?thesis
    by (intro clients_inv_update [OF cl dd r, where fds = "[]"]) (use e m in auto)
qed

lemma same_page_range:
  assumes "0 < ps" "ps dvd lo" "ps dvd hi" "lo \<le> off" "off < hi" "page_floor x ps = page_floor off ps"
  shows "lo \<le> x" "x < hi"
proof -
  have "lo \<le> page_floor off ps" using assms by (simp add: page_floor_greatest)
  then show "lo \<le> x" using assms(6) page_floor_le [of x ps] by linarith
  show "x < hi"
  proof (rule ccontr)
    assume "\<not> x < hi"
    then have "hi \<le> page_floor x ps" using page_floor_greatest [OF assms(1,3), of x] by simp
    then show False using assms(5,6) page_floor_le [of off ps] by linarith
  qed
qed

text \<open>
  A page fault is answered, and with the bytes of the group it lies in when the copy is not cut short, so with
  those of its whole page.
\<close>

lemma fault_event_Some:
  assumes inv: "cache_inv ps factory (rn_server rn)" and m: "find_mapping (sv_regions (rn_server rn)) (ev_fd e) = Some (r, m)"
    and a: "ev_msg e = Pagefault a"
  shows "\<exists>r' mm' calls. fault_effect r (m_base_addr m) (ev_copy_fails e) (rn_mm rn (ev_fd e)) (size_sub a (m_base_addr m)) (r', mm', calls) \<and>
    fault_event rn e = Inr (rn\<lparr>rn_server := (rn_server rn)\<lparr>sv_regions := update_region r' (sv_regions (rn_server rn)), sv_log := sv_log (rn_server rn) @ calls\<rparr>,
      rn_mm := (rn_mm rn)(ev_fd e := mm')\<rparr>)"
proof -
  have r: "r \<in> set (sv_regions (rn_server rn))" using find_mapping_Some [OF m] by simp
  have "region_ok r" using cache_invD(2) [OF inv r] by (simp add: region_cache_def)
  from resolve_fault_ok [OF this] obtain r' mm' calls where
    "resolve_fault r m (ev_copy_fails e) (rn_mm rn (ev_fd e)) (size_sub a (m_base_addr m)) = Inr (r', mm', calls)"
    "fault_effect r (m_base_addr m) (ev_copy_fails e) (rn_mm rn (ev_fd e)) (size_sub a (m_base_addr m)) (r', mm', calls)"
    by (metis prod_cases3)
  then show ?thesis by (auto simp: fault_event_def m a Let_def)
qed

lemma fault_event_ok:
  assumes inv: "cache_inv ps factory (rn_server rn)"
  shows "\<exists>rn'. fault_event rn e = Inr rn' \<and> cache_inv ps factory (rn_server rn') \<and> (run_clients rn \<longrightarrow> run_clients rn')"
proof (cases "find_mapping (sv_regions (rn_server rn)) (ev_fd e)")
  case None
  then show ?thesis using inv by (simp add: fault_event_def)
next
  case (Some rm)
  obtain r m where rm: "find_mapping (sv_regions (rn_server rn)) (ev_fd e) = Some (r, m)" using Some by (cases rm) auto
  have mem: "r \<in> set (sv_regions (rn_server rn))" "m \<in> set (sr_mappings r)" "m_uffd m = ev_fd e" using find_mapping_Some [OF rm] by auto
  show ?thesis
  proof (cases "ev_msg e")
    case (Pagefault a)
    obtain r' mm' calls where eff: "fault_effect r (m_base_addr m) (ev_copy_fails e) (rn_mm rn (ev_fd e)) (size_sub a (m_base_addr m)) (r', mm', calls)"
      and ev: "fault_event rn e = Inr (rn\<lparr>rn_server := (rn_server rn)\<lparr>sv_regions := update_region r' (sv_regions (rn_server rn)),
        sv_log := sv_log (rn_server rn) @ calls\<rparr>, rn_mm := (rn_mm rn)(ev_fd e := mm')\<rparr>)"
      using fault_event_Some [OF inv rm Pagefault] by blast
    show ?thesis
      using ev fault_effect_cache [OF inv mem(1) eff] fault_effect_clients [OF _ cache_invD(1) [OF inv] mem(1,2), of "rn_mm rn"] eff mem(3) by simp
  qed (use rm inv in \<open>simp add: fault_event_def\<close>)
qed

lemma fault_event_reads:
  assumes inv: "cache_inv ps factory (rn_server rn)" and m: "find_mapping (sv_regions (rn_server rn)) (ev_fd e) = Some (r, m)"
    and a: "ev_msg e = Pagefault (m_base_addr m + off)" and off: "off < mapped_s r"
    and base: "ps dvd m_base_addr m" "m_base_addr m + mapped_s r \<le> SIZE_RANGE"
    and wh: "whole r (m_base_addr m) (rn_mm rn (ev_fd e))" and nf: "ev_copy_fails e = None"
    and rn': "fault_event rn e = Inr rn'" and x: "page_floor x ps = page_floor off ps"
  shows "rn_mm rn' (ev_fd e) (m_base_addr m + x) = Some (content_s r x)" "whole r (m_base_addr m) (rn_mm rn' (ev_fd e))"
proof -
  have r: "r \<in> set (sv_regions (rn_server rn))" using find_mapping_Some [OF m] by simp
  note R = cache_invD(2) [OF inv r, unfolded region_cache_def]
  have lay: "server_layout r" and ps: "sr_page_size r = ps" using R region_okD(1) by auto
  have so: "size_sub (m_base_addr m + off) (m_base_addr m) = off" using off base(2) by simp
  obtain r' mm' calls where eff: "fault_effect r (m_base_addr m) None (rn_mm rn (ev_fd e)) off (r', mm', calls)"
    and mm': "rn_mm rn' (ev_fd e) = mm'"
    using fault_event_Some [OF inv m a] rn' so nf by auto
  then obtain lo hi where g: "group_of r (find_chunk_s r off) lo hi" "group_present r (m_base_addr m) mm' lo hi" "whole r (m_base_addr m) mm'"
    using wh base ps by (auto simp: fault_effect_def copy_effect_def)
  have al: "0 < ps" "ps dvd sr_chunk_start r ! lo" "ps dvd group_end r hi"
    using group_facts(1,2) [OF lay g(1)] g(1) ps by (auto simp: group_of_def)
  have cov: "sr_chunk_start r ! lo \<le> off" "off < group_end r hi" using group_covers [OF lay g(1)] off by (auto simp: mapped_s_def)
  show "rn_mm rn' (ev_fd e) (m_base_addr m + x) = Some (content_s r x)"
    using g(2) same_page_range [OF al cov x] by (simp add: group_present_def mm')
  show "whole r (m_base_addr m) (rn_mm rn' (ev_fd e))" using g(3) by (simp add: mm')
qed

lemma run_event_ok:
  assumes inv: "cache_inv ps factory (rn_server rn)" and f: "factory_ok ps factory"
  shows "\<exists>rn'. run_event ps factory rn e = Inr rn' \<and> cache_inv ps factory (rn_server rn') \<and> (run_clients rn \<and> event_ok rn e \<longrightarrow> run_clients rn')"
  using inv conn_event_ok [OF inv f, of e] fault_event_ok [OF inv, of e] by (auto simp: run_event_def)

section \<open>Reachable states\<close>

text \<open>
  \<open>other\<close> hands over to another connection or to \<open>fc_server_stop\<close>: the locals of the run may
  be any, the regions, the log and the memory behind attached descriptors are shared.
\<close>

inductive serving :: "size_t \<Rightarrow> factory \<Rightarrow> run \<Rightarrow> bool" for ps factory where
  start: "fc_server_create (Some factory) 0 True fd = Inr (Some (rn_server rn)) \<Longrightarrow> serving ps factory rn"
| event: "serving ps factory rn \<Longrightarrow> event_ok rn e \<Longrightarrow> run_event ps factory rn e = Inr rn' \<Longrightarrow> serving ps factory rn'"
| other: "serving ps factory rn \<Longrightarrow> sv_regions (rn_server rn') = sv_regions (rn_server rn) \<Longrightarrow>
    sv_log (rn_server rn') = sv_log (rn_server rn) \<Longrightarrow>
    \<forall>fd\<in>set (uffds (sv_regions (rn_server rn))). rn_mm rn' fd = rn_mm rn fd \<Longrightarrow> serving ps factory rn'"

lemma created_server: "fc_server_create (Some factory) 0 True fd = Inr (Some s) \<Longrightarrow> sv_regions s = [] \<and> sv_log s = []"
  by (auto simp: fc_server_create_def split: if_splits)

lemma serving_inv: "serving ps factory rn \<Longrightarrow> factory_ok ps factory \<Longrightarrow> run_inv ps factory rn"
proof (induction rule: serving.induct)
  case (start fd rn)
  then show ?case using created_server by (simp add: run_inv_def server_inv_def)
next
  case (event rn e rn')
  then show ?case using run_event_ok [of ps factory rn e] by (auto simp: run_inv_def server_inv_split)
next
  case (other rn rn')
  have "rn_mm rn' (m_uffd m) = rn_mm rn (m_uffd m)" if "r \<in> set (sv_regions (rn_server rn))" "m \<in> set (sr_mappings r)" for r m
    using other.hyps(4) that by (metis set_uffds)
  then have "clients_inv (sv_regions (rn_server rn)) (rn_mm rn')" if "run_clients rn"
    using that by (auto simp: clients_inv_def)
  then show ?case using other by (simp add: run_inv_def server_inv_split cache_inv_def)
qed

text \<open>Any events at all: any message with any descriptor, any address of a fault, any outcome of a copy, any memory.\<close>

inductive reached :: "size_t \<Rightarrow> factory \<Rightarrow> run \<Rightarrow> bool" for ps factory where
  start: "fc_server_create (Some factory) 0 True fd = Inr (Some (rn_server rn)) \<Longrightarrow> reached ps factory rn"
| event: "reached ps factory rn \<Longrightarrow> run_event ps factory rn e = Inr rn' \<Longrightarrow> reached ps factory rn'"
| other: "reached ps factory rn \<Longrightarrow> sv_regions (rn_server rn') = sv_regions (rn_server rn) \<Longrightarrow>
    sv_log (rn_server rn') = sv_log (rn_server rn) \<Longrightarrow> reached ps factory rn'"

lemma reached_inv: "reached ps factory rn \<Longrightarrow> factory_ok ps factory \<Longrightarrow> cache_inv ps factory (rn_server rn)"
proof (induction rule: reached.induct)
  case (start fd rn)
  then show ?case using created_server by (simp add: cache_inv_def)
next
  case (event rn e rn')
  then show ?case using run_event_ok [of ps factory rn e] by auto
next
  case (other rn rn')
  then show ?case by (simp add: cache_inv_def)
qed

lemma reached_locals:
  "reached ps factory rn \<Longrightarrow> reached ps factory (rn\<lparr>rn_stop := a, rn_disconnected := b\<rparr>)"
  "reached ps factory rn \<Longrightarrow> reached ps factory (rn\<lparr>rn_ret := c\<rparr>)"
  by (auto elim: reached.other)

lemma run_batch_ok:
  assumes "factory_ok ps factory"
  shows "reached ps factory rn \<Longrightarrow> \<exists>rn'. run_batch ps factory rn es = Inr rn' \<and> reached ps factory rn'"
proof (induction es arbitrary: rn)
  case (Cons e es)
  obtain rn1 where rn1: "run_event ps factory rn e = Inr rn1"
    using run_event_ok [OF reached_inv [OF Cons.prems assms] assms] by blast
  then have "reached ps factory rn1" using reached.event [OF Cons.prems rn1] by simp
  then show ?case using Cons.IH [of rn1] rn1 by simp
qed simp

text \<open>The return code is 0 unless a system call failed.\<close>

lemma conn_result_ret: "rn_ret rn \<in> {0, -1} \<Longrightarrow> rn_ret (conn_result rn res) \<in> {0, -1}"
  by (auto simp: conn_result_def Let_def split: prod.splits)

lemma run_event_ret:
  assumes "run_event ps factory rn e = Inr rn'" "rn_ret rn \<in> {0, -1}"
  shows "rn_ret rn' \<in> {0, -1}"
proof -
  have "rn' \<in> range (conn_result rn)" if "conn_event ps factory rn e = Inr rn'"
    using that by (cases "rn_state rn = CONN_WAIT_RESOLVE") (auto simp: conn_event_def res_bind_eq_Inr)
  moreover have "rn_ret rn' = rn_ret rn" if "fault_event rn e = Inr rn'"
    using that by (auto simp: fault_event_def res_bind_eq_Inr Let_def split: option.splits uffd_msg.splits)
  ultimately show ?thesis
    using assms conn_result_ret [OF assms(2)] by (auto simp: run_event_def image_iff simp del: insert_iff split: if_splits)
qed

lemma run_batch_ret: "run_batch ps factory rn es = Inr rn' \<Longrightarrow> rn_ret rn \<in> {0, -1} \<Longrightarrow> rn_ret rn' \<in> {0, -1}"
  by (induction es arbitrary: rn) (auto simp: res_bind_eq_Inr dest: run_event_ret)

lemma server_loop_ret:
  "server_loop ps factory rn ws = Inr (Some (ret, rn')) \<Longrightarrow> rn_ret rn \<in> {0, -1} \<Longrightarrow> ret \<in> {0, -1}"
proof (induction ps factory rn ws rule: server_loop.induct)
  case (3 ps factory rn es ws)
  then show ?case using run_batch_ret [of ps factory "rn\<lparr>rn_stop := False, rn_disconnected := False\<rparr>" es]
    by (auto simp: res_bind_eq_Inr split: if_splits)
qed (auto simp: Let_def split: if_splits)

lemma server_loop_ok:
  assumes f: "factory_ok ps factory"
  shows "reached ps factory rn \<Longrightarrow>
    \<exists>res. server_loop ps factory rn ws = Inr res \<and> (\<forall>ret rn'. res = Some (ret, rn') \<longrightarrow> reached ps factory rn')"
proof (induction ws arbitrary: rn)
  case (Cons w ws)
  show ?case
  proof (cases w)
    case (Wait_error eintr)
    then show ?thesis using Cons reached_locals(2) by (simp add: Let_def)
  next
    case (Wait es)
    let ?rn = "rn\<lparr>rn_stop := False, rn_disconnected := False\<rparr>"
    obtain rn1 where rn1: "run_batch ps factory ?rn es = Inr rn1" "reached ps factory rn1"
      using run_batch_ok [OF f reached_locals(1) [OF Cons.prems]] by blast
    then show ?thesis using Cons.IH [of rn1] Wait by (simp add: Let_def)
  qed
qed simp

end
