(* ===== verification/Client.thy ===== *)
theory Client
  imports Wire Vm_Posix Linked_List
begin

text \<open>
  The client half, \<open>client.c\<close>: the two blocking exchanges with the server, the creation
  and destruction of regions backed by a memfd and a userfaultfd, and the pool that tracks
  them.  The server at the other end of the socket is a parameter, a \<open>peer\<close>; what the
  kernel answers to the system calls is an argument.  The client's state holds what
  must be given back: mappings, open descriptors and userfaultfd registrations.
\<close>

section \<open>Data\<close>

record fc_client_region =
  cr_pool :: nat
  cr_base :: addr
  cr_total_size :: size_t
  cr_mapped_size :: size_t
  cr_page_size :: size_t
  cr_nchunks :: uint32_t
  cr_chunk_start :: "size_t list"
  cr_initialized :: "bool list"
  cr_memfd :: int
  cr_uffd :: int

text \<open>Pools and regions are numbered; the region list of a pool has its sentinel in the pool.\<close>

record client =
  cl_mem :: mem
  cl_fds :: "int set"
  cl_registered :: "(int \<times> addr \<times> size_t) set"
  cl_pools :: "nat list"
  cl_regions :: "nat \<Rightarrow> nat links"
  cl_region :: "nat \<Rightarrow> fc_client_region option"
  cl_next_pool :: nat
  cl_next_region :: nat

datatype errno = ECONNREFUSED | EMSGSIZE | EINVAL

text \<open>
  A peer answers a message with the descriptor sent along: \<open>None\<close> when sending fails,
  otherwise its new state and what the next receive operation finds, \<open>None\<close> for an error.
\<close>

type_synonym 'p peer = "'p \<Rightarrow> byte list \<Rightarrow> int option \<Rightarrow> ('p \<times> byte list option) option"

record kernel =
  kn_memfd :: int
  kn_ftruncate_ok :: bool
  kn_uffd :: int
  kn_api_ok :: bool
  kn_register_ok :: bool

section \<open>The pool\<close>

definition client_region_list_insert :: "'a links \<Rightarrow> 'a \<Rightarrow> 'a links" where
  "client_region_list_insert l r =
     (let l = l\<lparr>l_next := (l_next l)(Node r := l_next l Sentinel)\<rparr>;
          l = l\<lparr>l_prev := (l_prev l)(Node r := Sentinel)\<rparr>;
          l = l\<lparr>l_prev := (l_prev l)(l_next l Sentinel := Node r)\<rparr>
      in l\<lparr>l_next := (l_next l)(Sentinel := Node r)\<rparr>)"

definition client_region_list_remove :: "'a links \<Rightarrow> 'a \<Rightarrow> 'a links" where
  "client_region_list_remove l r =
     (let l = l\<lparr>l_prev := (l_prev l)(l_next l (Node r) := l_prev l (Node r))\<rparr>
      in l\<lparr>l_next := (l_next l)(l_prev l (Node r) := l_next l (Node r))\<rparr>)"

text \<open>\<open>pool_impl_init\<close> makes the sentinel point at itself.\<close>

definition fc_client_pool_create :: "client \<Rightarrow> size_t \<Rightarrow> client \<times> (errno + nat)" where
  "fc_client_pool_create c target =
     (if target \<noteq> 0 then (c, Inl EINVAL)
      else let pid = cl_next_pool c in
        (c\<lparr>cl_pools := pid # cl_pools c, cl_regions := (cl_regions c)(pid := links_empty), cl_next_pool := Suc pid\<rparr>, Inr pid))"

definition close_fd :: "int \<Rightarrow> client \<Rightarrow> client" where
  "close_fd fd c = c\<lparr>cl_fds := cl_fds c - {fd}, cl_registered := {x \<in> cl_registered c. fst x \<noteq> fd}\<rparr>"

definition unmap :: "os \<Rightarrow> addr \<Rightarrow> size_t \<Rightarrow> client \<Rightarrow> client" where
  "unmap os base len c = c\<lparr>cl_mem := (case os_munmap os (cl_mem c) base len of None \<Rightarrow> cl_mem c | Some m \<Rightarrow> m)\<rparr>"

definition region_teardown :: "os \<Rightarrow> client \<Rightarrow> nat \<Rightarrow> client res" where
  "region_teardown os c rid =
     (case cl_region c rid of
        None \<Rightarrow> Inl (Out_of_bounds ''region'')
      | Some r \<Rightarrow>
          let c = close_fd (cr_uffd r) c;
              c = unmap os (cr_base r) (cr_mapped_size r) c;
              c = close_fd (cr_memfd r) c
          in Inr (c\<lparr>cl_region := (cl_region c)(rid := None)\<rparr>))"

partial_function (option) pool_impl_teardown :: "os \<Rightarrow> client \<Rightarrow> nat \<Rightarrow> client res option" where
  "pool_impl_teardown os c pid =
     (case l_next (cl_regions c pid) Sentinel of
        Sentinel \<Rightarrow> Some (Inr c)
      | Null \<Rightarrow> Some (Inl (Segv 0))
      | Node rid \<Rightarrow>
          let c = c\<lparr>cl_regions := (cl_regions c)(pid := client_region_list_remove (cl_regions c pid) rid)\<rparr> in
          case region_teardown os c rid of
            Inl e \<Rightarrow> Some (Inl e)
          | Inr c \<Rightarrow> pool_impl_teardown os c pid)"

definition fc_client_pool_destroy :: "os \<Rightarrow> client \<Rightarrow> nat option \<Rightarrow> client res" where
  "fc_client_pool_destroy os c pool =
     (case pool of
        None \<Rightarrow> Inr c
      | Some pid \<Rightarrow>
          (case pool_impl_teardown os c pid of
             None \<Rightarrow> Inl (Diverged ''fc_client_pool_destroy'')
           | Some res \<Rightarrow> res_bind res (\<lambda>c. Inr (c\<lparr>cl_pools := remove1 pid (cl_pools c)\<rparr>))))"

definition pool_add :: "client \<Rightarrow> nat \<Rightarrow> nat \<Rightarrow> fc_client_region \<Rightarrow> client" where
  "pool_add c pid rid r =
     c\<lparr>cl_region := (cl_region c)(rid := Some (r\<lparr>cr_pool := pid\<rparr>)),
       cl_regions := (cl_regions c)(pid := client_region_list_insert (cl_regions c pid) rid)\<rparr>"

definition pool_remove :: "client \<Rightarrow> nat \<Rightarrow> client res" where
  "pool_remove c rid =
     (case cl_region c rid of
        None \<Rightarrow> Inl (Out_of_bounds ''region'')
      | Some r \<Rightarrow> Inr (c\<lparr>cl_regions := (cl_regions c)(cr_pool r := client_region_list_remove (cl_regions c (cr_pool r)) rid)\<rparr>))"

section \<open>Talking to the server\<close>

text \<open>
  The result is an errno with the error message, if any was asked for and sent, or the chunk sizes.
  \<open>msg_ok\<close>: there is memory for that message.
\<close>

definition resolve_descriptor ::
    "'p peer \<Rightarrow> 'p \<Rightarrow> byte list \<Rightarrow> bool \<Rightarrow> bool \<Rightarrow> ('p \<times> (errno \<times> byte list option + size_t list)) res" where
  "resolve_descriptor peer p descriptor out_error msg_ok =
     (let total = size_add 8 (length descriptor) in
      if total > FC_WIRE_MSG_MAX then Inr (p, Inl (EMSGSIZE, None))
      else if total < 8 + length descriptor then Inl (Out_of_bounds ''msg'')
      else
        let req = \<lparr>rq_descriptor_size = length descriptor mod UINT32_RANGE, rq_reserved = 0\<rparr> in
        case peer p (put_resolve_req req @ descriptor) None of
          None \<Rightarrow> Inl (Assert_failed ''sent >= 0'')
        | Some (p, None) \<Rightarrow> Inl (Assert_failed ''rd >= 0'')
        | Some (p, Some reply) \<Rightarrow>
            let reply_buf = recv_msg reply;
                rd = length reply_buf;
                resp = get_resolve_resp reply_buf;
                ok = (rd \<ge> 12 \<and>
                      (if rs_status resp = 0 then rs_nchunks resp > 0 \<and> rd = 12 + rs_nchunks resp * 8
                       else rd = 12 + rs_error_len resp))
            in if \<not> ok then Inr (p, Inl (ECONNREFUSED, None))
               else if rs_status resp \<noteq> 0 then
                 Inr (p, Inl (ECONNREFUSED,
                   if out_error \<and> rs_error_len resp \<noteq> 0 \<and> msg_ok
                   then Some (field 12 (rs_error_len resp) reply_buf @ [0]) else None))
               else Inr (p, Inr (get_sizes (rs_nchunks resp) (drop 12 reply_buf))))"

definition send_attach :: "'p peer \<Rightarrow> 'p \<Rightarrow> int \<Rightarrow> addr \<Rightarrow> byte list \<Rightarrow> ('p \<times> (errno + unit)) res" where
  "send_attach peer p uffd base descriptor =
     (let total = size_add 16 (length descriptor) in
      fc_assert ''total <= FC_WIRE_MSG_MAX'' (total \<le> FC_WIRE_MSG_MAX)
        (if total < 16 + length descriptor then Inl (Out_of_bounds ''msg'')
         else
           let hdr = \<lparr>at_base = base, at_descriptor_size = length descriptor mod UINT32_RANGE, at_reserved = 0\<rparr> in
           case peer p (put_attach_req hdr @ descriptor) (Some uffd) of
             None \<Rightarrow> Inl (Assert_failed ''sent >= 0'')
           | Some (p, reply) \<Rightarrow>
               Inr (p, case reply of Some (ack # _) \<Rightarrow> if ack \<noteq> 0 then Inl ECONNREFUSED else Inr ()
                                   | _ \<Rightarrow> Inl ECONNREFUSED)))"

section \<open>Regions\<close>

text \<open>
  The local set-up between the two exchanges: the struct, the memfd and its mapping, the
  userfaultfd and its registration.  Every failure here aborts.
\<close>

definition region_setup :: "os \<Rightarrow> kernel \<Rightarrow> client \<Rightarrow> size_t list \<Rightarrow> size_t \<Rightarrow> (client \<times> fc_client_region) res" where
  "region_setup os kn c chunk_sizes total_size =
     res_bind (fill_chunk_start chunk_sizes) (\<lambda>chunk_start.
     let page_size = os_page_size os;
         mapped_size = page_ceil total_size page_size
     in fc_assert ''memfd >= 0'' (kn_memfd kn \<ge> 0)
       (let c = c\<lparr>cl_fds := insert (kn_memfd kn) (cl_fds c)\<rparr> in
        fc_assert ''ftruncate'' (kn_ftruncate_ok kn)
          (case os_mmap os (cl_mem c) mapped_size PROT_READ of
             None \<Rightarrow> Inl (Map_failed ''fc_client_region_create'')
           | Some (base, m) \<Rightarrow>
               let c = c\<lparr>cl_mem := m\<rparr> in
               fc_assert ''uffd >= 0'' (kn_uffd kn \<ge> 0)
                 (let c = c\<lparr>cl_fds := insert (kn_uffd kn) (cl_fds c)\<rparr> in
                  fc_assert ''UFFDIO_API'' (kn_api_ok kn)
                    (fc_assert ''UFFDIO_REGISTER'' (kn_register_ok kn)
                      (let c = c\<lparr>cl_registered := insert (kn_uffd kn, base, mapped_size) (cl_registered c)\<rparr> in
                       Inr (c, \<lparr>cr_pool = 0, cr_base = base, cr_total_size = total_size, cr_mapped_size = mapped_size,
                         cr_page_size = page_size, cr_nchunks = length chunk_sizes, cr_chunk_start = chunk_start,
                         cr_initialized = replicate (length chunk_sizes) False, cr_memfd = kn_memfd kn,
                         cr_uffd = kn_uffd kn\<rparr>)))))))"

text \<open>The label \<open>fail_uffd\<close>, after the range has been unregistered.\<close>

definition fail_uffd :: "os \<Rightarrow> client \<Rightarrow> fc_client_region \<Rightarrow> client" where
  "fail_uffd os c r =
     (let c = c\<lparr>cl_registered := cl_registered c - {(cr_uffd r, cr_base r, cr_mapped_size r)}\<rparr>;
          c = close_fd (cr_uffd r) c;
          c = unmap os (cr_base r) (cr_mapped_size r) c
      in close_fd (cr_memfd r) c)"

text \<open>The second exchange and what follows it.\<close>

definition attach_region ::
    "os \<Rightarrow> 'p peer \<Rightarrow> client \<Rightarrow> 'p \<Rightarrow> nat \<Rightarrow> byte list \<Rightarrow> fc_client_region \<Rightarrow> (client \<times> 'p \<times> (errno \<times> byte list option + nat)) res" where
  "attach_region os peer c p pid d r =
     res_bind (send_attach peer p (cr_uffd r) (cr_base r) d) (\<lambda>(p, attached).
     case attached of
       Inl err \<Rightarrow> Inr (fail_uffd os c r, p, Inl (err, None))
     | Inr _ \<Rightarrow>
         let rid = cl_next_region c in
         Inr (pool_add (c\<lparr>cl_next_region := Suc rid\<rparr>) pid rid r, p, Inr rid))"

definition fc_client_region_create ::
    "os \<Rightarrow> kernel \<Rightarrow> 'p peer \<Rightarrow> client \<Rightarrow> 'p \<Rightarrow> nat option \<Rightarrow> size_t \<Rightarrow> byte list option \<Rightarrow> bool \<Rightarrow> bool \<Rightarrow>
     (client \<times> 'p \<times> (errno \<times> byte list option + nat)) res" where
  "fc_client_region_create os kn peer c p pool descriptor_size descriptor out_error msg_ok =
     (case pool of
        None \<Rightarrow> Inl (Misuse ''fc_client_region_create: nullptr pool'')
      | Some pid \<Rightarrow>
          if descriptor = None \<and> descriptor_size > 0
          then Inl (Misuse ''fc_client_region_create: descriptor_size > 0 but descriptor is nullptr'')
          else
            let bytes = (case descriptor of None \<Rightarrow> [] | Some b \<Rightarrow> b) in
            if length bytes < descriptor_size then Inl (Out_of_bounds ''descriptor'')
            else
              let d = take descriptor_size bytes in
              res_bind (resolve_descriptor peer p d out_error msg_ok) (\<lambda>(p, resolved).
              case resolved of
                Inl err \<Rightarrow> Inr (c, p, Inl err)
              | Inr chunk_sizes \<Rightarrow>
                  (case sum_chunk_sizes 0 chunk_sizes of
                     None \<Rightarrow> Inr (c, p, Inl (EINVAL, None))
                   | Some total_size \<Rightarrow>
                       res_bind (region_setup os kn c chunk_sizes total_size) (\<lambda>(c, r).
                       attach_region os peer c p pid d r))))"

definition fc_client_region_destroy :: "os \<Rightarrow> client \<Rightarrow> nat option \<Rightarrow> client res" where
  "fc_client_region_destroy os c region =
     (case region of
        None \<Rightarrow> Inl (Misuse ''fc_client_region_destroy: nullptr region'')
      | Some rid \<Rightarrow> res_bind (pool_remove c rid) (\<lambda>c. region_teardown os c rid))"

definition fc_client_region_base :: "client \<Rightarrow> nat option \<Rightarrow> addr res" where
  "fc_client_region_base c region =
     (case region of
        None \<Rightarrow> Inl (Misuse ''fc_client_region_base: nullptr region'')
      | Some rid \<Rightarrow> (case cl_region c rid of None \<Rightarrow> Inl (Out_of_bounds ''region'') | Some r \<Rightarrow> Inr (cr_base r)))"

definition fc_client_region_size :: "client \<Rightarrow> nat option \<Rightarrow> size_t res" where
  "fc_client_region_size c region =
     (case region of
        None \<Rightarrow> Inl (Misuse ''fc_client_region_size: nullptr region'')
      | Some rid \<Rightarrow> (case cl_region c rid of None \<Rightarrow> Inl (Out_of_bounds ''region'') | Some r \<Rightarrow> Inr (cr_total_size r)))"

end
