(* ===== verification/Client_Inv.thy ===== *)
theory Client_Inv
  imports Client
begin

text \<open>
  What the client holds and gives back.  \<open>client_inv\<close> says that every live region is in
  its pool's list and owns its mapping, its two descriptors and its registration, apart
  from those of every other region; creation and destruction keep it, a failed creation changes nothing,
  and destroying a pool ends and releases all its regions.
\<close>

section \<open>Links\<close>

lemma client_list_eq: "client_region_list_insert = region_list_insert" "client_region_list_remove = region_list_remove"
  by (simp_all add: fun_eq_iff client_region_list_insert_def region_list_insert_def client_region_list_remove_def region_list_remove_def)

interpretation client_list: linked_queue dlist links_empty client_region_list_insert client_region_list_remove
  unfolding client_list_eq by unfold_locales
    (auto intro: region_list.rep_empty region_list.rep_unique region_list.rep_distinct region_list.rep_ins region_list.rep_del)

section \<open>Invariant\<close>

definition client_range :: "fc_client_region \<Rightarrow> addr set" where
  "client_range r = {cr_base r..<cr_base r + cr_mapped_size r}"

definition region_held :: "os \<Rightarrow> client \<Rightarrow> fc_client_region \<Rightarrow> bool" where
  "region_held os c r \<longleftrightarrow> os_page_size os dvd cr_base r \<and> os_page_size os dvd cr_mapped_size r \<and> 0 < cr_mapped_size r \<and>
     (\<forall>x\<in>client_range r. cl_mem c x \<noteq> None) \<and> cr_memfd r \<in> cl_fds c \<and> cr_uffd r \<in> cl_fds c \<and> cr_memfd r \<noteq> cr_uffd r \<and>
     (cr_uffd r, cr_base r, cr_mapped_size r) \<in> cl_registered c"

definition apart :: "fc_client_region \<Rightarrow> fc_client_region \<Rightarrow> bool" where
  "apart r r' \<longleftrightarrow> client_range r \<inter> client_range r' = {} \<and> {cr_memfd r, cr_uffd r} \<inter> {cr_memfd r', cr_uffd r'} = {}"

definition client_inv :: "os \<Rightarrow> client \<Rightarrow> (nat \<Rightarrow> nat list) \<Rightarrow> bool" where
  "client_inv os c RL \<longleftrightarrow> 0 < os_page_size os \<and> distinct (cl_pools c) \<and>
     (\<forall>p\<in>set (cl_pools c). p < cl_next_pool c \<and> dlist (cl_regions c p) (RL p)) \<and>
     (\<forall>rid r. cl_region c rid = Some r \<longrightarrow> rid < cl_next_region c \<and> cr_pool r \<in> set (cl_pools c) \<and>
        rid \<in> set (RL (cr_pool r)) \<and> region_held os c r) \<and>
     (\<forall>p\<in>set (cl_pools c). \<forall>rid\<in>set (RL p). \<exists>r. cl_region c rid = Some r \<and> cr_pool r = p) \<and>
     (\<forall>rid rid' r r'. cl_region c rid = Some r \<longrightarrow> cl_region c rid' = Some r' \<longrightarrow> rid \<noteq> rid' \<longrightarrow> apart r r') \<and>
     (\<forall>x\<in>cl_registered c. fst x \<in> cl_fds c)"

lemma client_invD:
  assumes "client_inv os c RL"
  shows "0 < os_page_size os" "distinct (cl_pools c)"
    "p \<in> set (cl_pools c) \<Longrightarrow> p < cl_next_pool c" "p \<in> set (cl_pools c) \<Longrightarrow> dlist (cl_regions c p) (RL p)"
    "cl_region c rid = Some r \<Longrightarrow> rid < cl_next_region c" "cl_region c rid = Some r \<Longrightarrow> cr_pool r \<in> set (cl_pools c)"
    "cl_region c rid = Some r \<Longrightarrow> rid \<in> set (RL (cr_pool r))" "cl_region c rid = Some r \<Longrightarrow> region_held os c r"
    "p \<in> set (cl_pools c) \<Longrightarrow> rid \<in> set (RL p) \<Longrightarrow> \<exists>r. cl_region c rid = Some r \<and> cr_pool r = p"
    "cl_region c rid = Some r \<Longrightarrow> cl_region c rid' = Some r' \<Longrightarrow> rid \<noteq> rid' \<Longrightarrow> apart r r'"
    "x \<in> cl_registered c \<Longrightarrow> fst x \<in> cl_fds c"
  using assms unfolding client_inv_def by blast+

lemma client_invI:
  assumes "0 < os_page_size os" "distinct (cl_pools c)"
    and "\<And>p. p \<in> set (cl_pools c) \<Longrightarrow> p < cl_next_pool c"
    and "\<And>p. p \<in> set (cl_pools c) \<Longrightarrow> dlist (cl_regions c p) (RL p)"
    and "\<And>rid r. cl_region c rid = Some r \<Longrightarrow>
      rid < cl_next_region c \<and> cr_pool r \<in> set (cl_pools c) \<and> rid \<in> set (RL (cr_pool r)) \<and> region_held os c r"
    and "\<And>p rid. p \<in> set (cl_pools c) \<Longrightarrow> rid \<in> set (RL p) \<Longrightarrow> \<exists>r. cl_region c rid = Some r \<and> cr_pool r = p"
    and "\<And>rid rid' r r'. cl_region c rid = Some r \<Longrightarrow> cl_region c rid' = Some r' \<Longrightarrow> rid \<noteq> rid' \<Longrightarrow> apart r r'"
    and "\<And>x. x \<in> cl_registered c \<Longrightarrow> fst x \<in> cl_fds c"
  shows "client_inv os c RL"
  using assms unfolding client_inv_def by blast

section \<open>Releasing a region\<close>

definition released :: "client \<Rightarrow> nat \<Rightarrow> fc_client_region \<Rightarrow> client" where
  "released c rid r = c\<lparr>
     cl_regions := (cl_regions c)(cr_pool r := client_region_list_remove (cl_regions c (cr_pool r)) rid),
     cl_fds := cl_fds c - {cr_uffd r, cr_memfd r},
     cl_registered := {x \<in> cl_registered c. fst x \<noteq> cr_uffd r \<and> fst x \<noteq> cr_memfd r},
     cl_mem := mem_set (cl_mem c) (cr_base r) (cr_mapped_size r) None,
     cl_region := (cl_region c)(rid := None)\<rparr>"

lemma munmap_range:
  assumes "0 < os_page_size os" "os_page_size os dvd cr_base r" "os_page_size os dvd cr_mapped_size r" "0 < cr_mapped_size r"
  shows "os_munmap os m (cr_base r) (cr_mapped_size r) = Some (mem_set m (cr_base r) (cr_mapped_size r) None)"
  using assms by (simp add: os_munmap_def round_len_id)

lemma region_teardown_eq:
  assumes "cl_region c rid = Some r" "0 < os_page_size os" "os_page_size os dvd cr_base r" "os_page_size os dvd cr_mapped_size r" "0 < cr_mapped_size r"
  shows "region_teardown os c rid = Inr (c\<lparr>cl_fds := cl_fds c - {cr_uffd r, cr_memfd r},
     cl_registered := {x \<in> cl_registered c. fst x \<noteq> cr_uffd r \<and> fst x \<noteq> cr_memfd r},
     cl_mem := mem_set (cl_mem c) (cr_base r) (cr_mapped_size r) None, cl_region := (cl_region c)(rid := None)\<rparr>)"
proof -
  have "cl_fds c - {cr_uffd r} - {cr_memfd r} = cl_fds c - {cr_uffd r, cr_memfd r}" by auto
  moreover have "{x \<in> {x \<in> cl_registered c. fst x \<noteq> cr_uffd r}. fst x \<noteq> cr_memfd r} = {x \<in> cl_registered c. fst x \<noteq> cr_uffd r \<and> fst x \<noteq> cr_memfd r}"
    by auto
  ultimately show ?thesis using assms munmap_range [OF assms(2-5)]
    by (cases c) (simp add: region_teardown_def close_fd_def unmap_def Let_def)
qed

lemma fc_client_region_destroy_eq:
  assumes inv: "client_inv os c RL" and r: "cl_region c rid = Some r"
  shows "fc_client_region_destroy os c (Some rid) = Inr (released c rid r)"
proof -
  have h: "region_held os c r" "0 < os_page_size os" using client_invD [OF inv] r by auto
  then show ?thesis using r region_teardown_eq [of "c\<lparr>cl_regions := (cl_regions c)(cr_pool r := client_region_list_remove (cl_regions c (cr_pool r)) rid)\<rparr>" rid r os]
    by (simp add: fc_client_region_destroy_def pool_remove_def region_held_def released_def)
qed

lemma apart_held:
  assumes "region_held os c r'" "apart r r'"
  shows "region_held os (released c rid r) r'"
  using assms by (auto simp: region_held_def released_def apart_def mem_set_def client_range_def)

lemma apart_sym: "apart r r' \<Longrightarrow> apart r' r"
  by (auto simp: apart_def)

lemma released_inv:
  assumes inv: "client_inv os c RL" and r: "cl_region c rid = Some r"
  shows "client_inv os (released c rid r) (RL(cr_pool r := remove1 rid (RL (cr_pool r))))" (is "client_inv os ?c ?RL")
proof -
  note I = client_invD [OF inv]
  have mem: "rid \<in> set (RL (cr_pool r))" "cr_pool r \<in> set (cl_pools c)" using I(6,7) r by auto
  note dl = I(4) [OF mem(2)]
  have dist: "distinct (RL (cr_pool r))" using client_list.rep_distinct [OF dl] .
  have same: "cl_region ?c k = (if k = rid then None else cl_region c k)" for k by (simp add: released_def)
  have held: "region_held os ?c r'" if "cl_region c k = Some r'" "k \<noteq> rid" for k r'
    using apart_held [OF I(8) [OF that(1)]] I(10) [OF r that(1)] that(2) by blast
  have inlst: "k \<in> set (?RL (cr_pool r'))" if "cl_region c k = Some r'" "k \<noteq> rid" for k r'
    using I(7) [OF that(1)] that(2) dist by (cases "cr_pool r' = cr_pool r") auto
  have lsts: "dlist (cl_regions ?c p) (?RL p)" if "p \<in> set (cl_pools c)" for p
    using I(4) [OF that] client_list.rep_del [OF dl mem(1)] by (simp add: released_def)
  have listed: "\<exists>r'. cl_region ?c k = Some r' \<and> cr_pool r' = p" if p: "p \<in> set (cl_pools c)" and k: "k \<in> set (?RL p)" for p k
  proof -
    have k': "k \<in> set (RL p)" using k dist by (auto split: if_splits)
    obtain r' where r': "cl_region c k = Some r'" "cr_pool r' = p" using I(9) [OF p k'] by blast
    have "k \<noteq> rid" using k r r' dist by (cases "p = cr_pool r") auto
    then show ?thesis using r' same by simp
  qed
  have reg: "fst x \<in> cl_fds ?c" if "x \<in> cl_registered ?c" for x
    using I(11) [of x] that by (simp add: released_def)
  have live: "k < cl_next_region ?c \<and> cr_pool r' \<in> set (cl_pools ?c) \<and> k \<in> set (?RL (cr_pool r')) \<and> region_held os ?c r'"
    if "cl_region ?c k = Some r'" for k r'
  proof -
    have k: "cl_region c k = Some r'" "k \<noteq> rid" using that same by (auto split: if_splits)
    show ?thesis using I(5,6) [OF k(1)] inlst [OF k] held [OF k] by (simp add: released_def)
  qed
  have ap: "apart r1 r2" if "cl_region ?c k1 = Some r1" "cl_region ?c k2 = Some r2" "k1 \<noteq> k2" for k1 k2 r1 r2
    using that same I(10) by (metis option.distinct(1))
  have pools: "cl_pools ?c = cl_pools c" "cl_next_pool ?c = cl_next_pool c" by (simp_all add: released_def)
  show ?thesis
    by (rule client_invI) (fact I(1) I(2,3) [folded pools] lsts [folded pools] live listed [folded pools] ap reg)+
qed

section \<open>Destroying a pool\<close>

text \<open>All of a list of regions released, one after the other.\<close>

fun released_all :: "client \<Rightarrow> nat list \<Rightarrow> client" where
  "released_all c [] = c"
| "released_all c (rid # rids) =
     (case cl_region c rid of None \<Rightarrow> c | Some r \<Rightarrow> released_all (released c rid r) rids)"

lemma pool_impl_teardown_ok:
  "client_inv os c RL \<Longrightarrow> pid \<in> set (cl_pools c) \<Longrightarrow> RL pid = rl \<Longrightarrow>
   pool_impl_teardown os c pid = Some (Inr (released_all c rl)) \<and> client_inv os (released_all c rl) (RL(pid := [])) \<and>
   cl_pools (released_all c rl) = cl_pools c"
proof (induction rl arbitrary: c RL)
  case Nil
  have "l_next (cl_regions c pid) Sentinel = Sentinel"
    using dlist_next_head [OF client_invD(4) [OF Nil.prems(1,2)]] Nil.prems(3) by simp
  then have "pool_impl_teardown os c pid = Some (Inr c)" by (subst pool_impl_teardown.simps) simp
  moreover have "RL(pid := []) = RL" using Nil.prems(3) by auto
  ultimately show ?case using Nil.prems by simp
next
  case (Cons rid rl)
  obtain r where r: "cl_region c rid = Some r" "cr_pool r = pid"
    using client_invD(9) [OF Cons.prems(1,2), of rid] Cons.prems(3) by auto
  have hd: "l_next (cl_regions c pid) Sentinel = Node rid"
    using dlist_next_head [OF client_invD(4) [OF Cons.prems(1,2)]] Cons.prems(3) by simp
  have "fc_client_region_destroy os c (Some rid) = Inr (released c rid r)"
    by (rule fc_client_region_destroy_eq [OF Cons.prems(1) r(1)])
  then have td: "region_teardown os (c\<lparr>cl_regions := (cl_regions c)(pid := client_region_list_remove (cl_regions c pid) rid)\<rparr>) rid = Inr (released c rid r)"
    using r by (simp add: fc_client_region_destroy_def pool_remove_def)
  have step: "pool_impl_teardown os c pid = pool_impl_teardown os (released c rid r) pid"
    by (subst pool_impl_teardown.simps) (simp add: hd td Let_def)
  have inv': "client_inv os (released c rid r) (RL(pid := rl))"
    using released_inv [OF Cons.prems(1) r(1)] r(2) Cons.prems(3) by simp
  have pools: "cl_pools (released c rid r) = cl_pools c" by (simp add: released_def)
  show ?case using Cons.IH [OF inv'] Cons.prems(2) pools step r(1) by (simp add: fun_upd_same fun_upd_upd del: fun_upd_apply)
qed

definition of_ids :: "client \<Rightarrow> nat set \<Rightarrow> fc_client_region set" where
  "of_ids c ids = {r. \<exists>rid\<in>ids. cl_region c rid = Some r}"

lemma released_all_effect:
  assumes "distinct rl" "\<forall>rid\<in>set rl. cl_region c rid \<noteq> None"
  shows "cl_mem (released_all c rl) x = (if \<exists>r\<in>of_ids c (set rl). x \<in> client_range r then None else cl_mem c x) \<and>
    cl_fds (released_all c rl) = cl_fds c - (\<Union>r\<in>of_ids c (set rl). {cr_uffd r, cr_memfd r}) \<and>
    cl_region (released_all c rl) k = (if k \<in> set rl then None else cl_region c k)"
  using assms
proof (induction rl arbitrary: c)
  case Nil
  then show ?case by (simp add: of_ids_def)
next
  case (Cons rid rl)
  then obtain r where r: "cl_region c rid = Some r" by auto
  have ids: "of_ids (released c rid r) (set rl) = of_ids c (set rl)"
    using Cons.prems(1) by (auto simp: of_ids_def released_def)
  have un: "of_ids c (set (rid # rl)) = insert r (of_ids c (set rl))" using r by (auto simp: of_ids_def)
  have "\<forall>k\<in>set rl. cl_region (released c rid r) k \<noteq> None" using Cons.prems by (auto simp: released_def)
  note IH = Cons.IH [OF _ this, unfolded ids] 
  have m: "cl_mem (released c rid r) x = (if x \<in> client_range r then None else cl_mem c x)"
    by (simp add: released_def mem_set_def client_range_def)
  show ?case using IH Cons.prems(1) r m unfolding un by (auto simp: released_def)
qed

lemma fc_client_pool_destroy_ok:
  assumes inv: "client_inv os c RL" and pid: "pid \<in> set (cl_pools c)"
  defines "c' \<equiv> (released_all c (RL pid))\<lparr>cl_pools := remove1 pid (cl_pools c)\<rparr>"
  shows "fc_client_pool_destroy os c (Some pid) = Inr c'" "client_inv os c' (RL(pid := []))"
    "\<forall>rid\<in>set (RL pid). cl_region c rid \<noteq> None" "distinct (RL pid)"
proof -
  note td = pool_impl_teardown_ok [OF inv pid refl]
  then show "fc_client_pool_destroy os c (Some pid) = Inr c'" by (simp add: fc_client_pool_destroy_def c'_def)
  show live: "\<forall>rid\<in>set (RL pid). cl_region c rid \<noteq> None" and dist: "distinct (RL pid)"
    using client_invD(9) [OF inv pid] client_list.rep_distinct [OF client_invD(4) [OF inv pid]] by auto
  let ?a = "released_all c (RL pid)"
  have I: "client_inv os ?a (RL(pid := []))" "cl_pools ?a = cl_pools c" using td by auto
  have ne: "cr_pool r \<noteq> pid" if "cl_region ?a rid = Some r" for rid r using client_invD(7) [OF I(1) that] by auto
  have "region_held os c' r = region_held os ?a r" for r by (simp add: region_held_def c'_def)
  moreover have "set (remove1 pid (cl_pools c)) = set (cl_pools c) - {pid}" "distinct (remove1 pid (cl_pools c))"
    using client_invD(2) [OF inv] by (simp_all add: set_remove1_eq)
  moreover have "dlist (cl_regions ?a p) (RL p)" if "p \<in> set (cl_pools c)" "p \<noteq> pid" for p
    using client_invD(4) [OF I(1), of p] that I(2) by simp
  ultimately show "client_inv os c' (RL(pid := []))"
    using I ne unfolding client_inv_def by (simp add: c'_def I(2))
qed

section \<open>Setting a region up\<close>

text \<open>The descriptors the kernel hands out are new.\<close>

definition kernel_ok :: "kernel \<Rightarrow> client \<Rightarrow> bool" where
  "kernel_ok kn c \<longleftrightarrow> kn_memfd kn \<notin> cl_fds c \<and> kn_uffd kn \<notin> cl_fds c \<and> kn_memfd kn \<noteq> kn_uffd kn"

lemma region_setup_Inr:
  assumes inv: "client_inv os c RL" and kn: "kernel_ok kn c"
    and res: "region_setup os kn c sizes tot = Inr (c', r)"
  shows "region_held os c' r" "\<And>r'. region_held os c r' \<Longrightarrow> region_held os c' r' \<and> apart r r'"
    "fail_uffd os c' r = c" "cl_regions c' = cl_regions c" "cl_region c' = cl_region c" "cl_pools c' = cl_pools c"
    "cl_next_pool c' = cl_next_pool c" "cl_next_region c' = cl_next_region c"
    "\<forall>x\<in>cl_registered c'. fst x \<in> cl_fds c'"
    "cl_mem c = mem_set (cl_mem c') (cr_base r) (cr_mapped_size r) None"
    "cl_fds c = cl_fds c' - {cr_uffd r, cr_memfd r}" "cl_registered c = {x \<in> cl_registered c'. fst x \<noteq> cr_uffd r \<and> fst x \<noteq> cr_memfd r}"
proof -
  have ps: "0 < os_page_size os" using client_invD(1) [OF inv] .
  define len where "len = page_ceil tot (os_page_size os)"
  have dvd: "os_page_size os dvd len" by (simp add: len_def)
  from res obtain b m st where map: "os_mmap os (cl_mem c) len PROT_READ = Some (b, m)"
    and c': "c' = c\<lparr>cl_fds := insert (kn_uffd kn) (insert (kn_memfd kn) (cl_fds c)), cl_mem := m,
          cl_registered := insert (kn_uffd kn, b, len) (cl_registered c)\<rparr>"
    and r: "cr_base r = b" "cr_mapped_size r = len" "cr_memfd r = kn_memfd kn" "cr_uffd r = kn_uffd kn"
    by (cases c) (auto simp: region_setup_def res_bind_eq_Inr Let_def fc_assert_eq_Inr len_def split: option.splits)
  have m: "m = mem_set (cl_mem c) b len (Some (PROT_READ, 0))" and "mem_free (cl_mem c) b len"
      and al: "os_page_size os dvd b" "0 < len"
    using map by (auto simp: os_mmap_def round_len_id [OF ps dvd] split: option.splits if_splits)
  then have free: "\<And>x. x \<in> {b..<b + len} \<Longrightarrow> cl_mem c x = None" by (simp add: mem_free_def)
  have fds: "kn_memfd kn \<notin> cl_fds c" "kn_uffd kn \<notin> cl_fds c" "kn_memfd kn \<noteq> kn_uffd kn" using kn by (auto simp: kernel_ok_def)
  have reg: "fst x \<in> cl_fds c" if "x \<in> cl_registered c" for x using client_invD(11) [OF inv that] .
  show "region_held os c' r" using al dvd fds by (simp add: region_held_def client_range_def r c' m mem_set_def)
  show "region_held os c' r' \<and> apart r r'" if h: "region_held os c r'" for r'
  proof -
    have "x \<notin> {b..<b + len}" if "x \<in> client_range r'" for x using h that free by (auto simp: region_held_def)
    moreover have "client_range r = {b..<b + len}" by (simp add: client_range_def r)
    ultimately have "client_range r \<inter> client_range r' = {}" by blast
    moreover have "\<forall>x\<in>client_range r'. m x \<noteq> None" using h by (auto simp: region_held_def m mem_set_def)
    ultimately show ?thesis using h fds by (auto simp: region_held_def apart_def r c')
  qed
  show mem: "cl_mem c = mem_set (cl_mem c') (cr_base r) (cr_mapped_size r) None"
    using free by (auto simp: fun_eq_iff mem_set_def c' m r)
  show fd: "cl_fds c = cl_fds c' - {cr_uffd r, cr_memfd r}" using fds by (auto simp: c' r)
  show rg: "cl_registered c = {x \<in> cl_registered c'. fst x \<noteq> cr_uffd r \<and> fst x \<noteq> cr_memfd r}"
    using fds reg by (auto simp: c' r)
  have "cl_registered c' - {(kn_uffd kn, b, len)} = cl_registered c"
    using fds reg by (auto simp: c' r)
  then have "{x \<in> {x \<in> cl_registered c' - {(cr_uffd r, cr_base r, cr_mapped_size r)}. fst x \<noteq> cr_uffd r}. fst x \<noteq> cr_memfd r} = cl_registered c"
    using fds reg by (auto simp: r)
  moreover have "cl_fds c' - {cr_uffd r} - {cr_memfd r} = cl_fds c" unfolding fd by auto
  moreover have "os_munmap os (cl_mem c') (cr_base r) (cr_mapped_size r) = Some (cl_mem c)"
    unfolding mem using munmap_range [OF ps, of r] al dvd r by simp
  ultimately show "fail_uffd os c' r = c"
    by (cases c) (simp add: fail_uffd_def close_fd_def unmap_def Let_def c')
  show "\<forall>x\<in>cl_registered c'. fst x \<in> cl_fds c'" using reg by (auto simp: c')
  show "cl_regions c' = cl_regions c" "cl_region c' = cl_region c" "cl_pools c' = cl_pools c"
    "cl_next_pool c' = cl_next_pool c" "cl_next_region c' = cl_next_region c" by (simp_all add: c')
qed

section \<open>Creating a region\<close>

lemma pool_add_inv:
  assumes inv: "client_inv os c RL" and kn: "kernel_ok kn c" and set_up: "region_setup os kn c sizes tot = Inr (c', r)"
    and pid: "pid \<in> set (cl_pools c)"
  shows "client_inv os (pool_add (c'\<lparr>cl_next_region := Suc (cl_next_region c)\<rparr>) pid (cl_next_region c) r)
    (RL(pid := cl_next_region c # RL pid))" (is "client_inv os ?c ?RL")
proof -
  note I = client_invD [OF inv] and S = region_setup_Inr [OF inv kn set_up]
  let ?rid = "cl_next_region c" and ?r = "r\<lparr>cr_pool := pid\<rparr>"
  have new: "cl_region c ?rid = None" using I(5) [of ?rid] by (cases "cl_region c ?rid") auto
  have nin: "?rid \<notin> set (RL p)" if "p \<in> set (cl_pools c)" for p using I(9) [OF that, of ?rid] new by auto
  have held_eq: "region_held os ?c r' = region_held os c' r'" for r' by (simp add: region_held_def pool_add_def)
  have pool_eq: "region_held os c' ?r = region_held os c' r" "apart ?r = apart r" "apart r' ?r = apart r' r" for r'
    by (auto simp: region_held_def apart_def client_range_def fun_eq_iff)
  have regs: "cl_region ?c k = (if k = ?rid then Some ?r else cl_region c k)" for k by (simp add: pool_add_def S)
  have fields: "cl_pools ?c = cl_pools c" "cl_next_pool ?c = cl_next_pool c" "cl_next_region ?c = Suc ?rid"
      "cl_registered ?c = cl_registered c'" "cl_fds ?c = cl_fds c'"
    by (simp_all add: pool_add_def S)
  have old: "region_held os c' r'" "apart r r'" if "cl_region c k = Some r'" for k r' using S(2) I(8) [OF that] by auto
  show ?thesis
  proof (rule client_invI, unfold fields)
    show "dlist (cl_regions ?c p) (?RL p)" if "p \<in> set (cl_pools c)" for p
      using I(4) [OF that] client_list.rep_ins [OF I(4) [OF pid] nin [OF pid]] by (simp add: pool_add_def S)
    show "k < Suc ?rid \<and> cr_pool r' \<in> set (cl_pools c) \<and> k \<in> set (?RL (cr_pool r')) \<and> region_held os ?c r'"
      if "cl_region ?c k = Some r'" for k r'
    proof (cases "k = ?rid")
      case True
      then show ?thesis using that regs pid S(1) by (auto simp: held_eq pool_eq)
    next
      case False
      then have k: "cl_region c k = Some r'" using that regs by simp
      show ?thesis using I(5,6,7) [OF k] old(1) [OF k] by (auto simp: held_eq less_Suc_eq)
    qed
    show "\<exists>r'. cl_region ?c k = Some r' \<and> cr_pool r' = p" if p: "p \<in> set (cl_pools c)" "k \<in> set (?RL p)" for p k
    proof (cases "k = ?rid")
      case True
      then have "p = pid" using p nin [OF p(1)] by (cases "p = pid") auto
      then show ?thesis using True regs by simp
    next
      case False
      then have "k \<in> set (RL p)" using p(2) by (cases "p = pid") auto
      then show ?thesis using I(9) [OF p(1)] False regs by simp
    qed
    show "apart r1 r2" if "cl_region ?c k1 = Some r1" "cl_region ?c k2 = Some r2" "k1 \<noteq> k2" for k1 k2 r1 r2
      using that regs I(10) old(2) apart_sym pool_eq by (auto split: if_splits)
  qed (use I(1,2,3) S(9) in auto)
qed

lemma attach_region_Inr:
  assumes "attach_region os peer c p pid d r = Inr (c', p', out)"
  shows "case out of Inl _ \<Rightarrow> c' = fail_uffd os c r
     | Inr rid \<Rightarrow> rid = cl_next_region c \<and> c' = pool_add (c\<lparr>cl_next_region := Suc rid\<rparr>) pid rid r"
proof -
  obtain y where "send_attach peer p (cr_uffd r) (cr_base r) d = Inr y"
    using assms by (auto simp: attach_region_def res_bind_eq_Inr)
  then show ?thesis using assms by (cases y; cases "snd y") (auto simp: attach_region_def Let_def)
qed

text \<open>
  Whatever the server answers, the call keeps the invariant: on failure the client is as it was, on success
  it has one more region.
\<close>

lemma fc_client_region_create_cases:
  assumes inv: "client_inv os c RL" and kn: "kernel_ok kn c" and pid: "pid \<in> set (cl_pools c)"
    and res: "fc_client_region_create os kn peer c p (Some pid) n d out_error msg_ok = Inr (c', p', out)"
  shows "case out of Inl _ \<Rightarrow> c' = c
     | Inr rid \<Rightarrow> client_inv os c' (RL(pid := rid # RL pid)) \<and> rid = cl_next_region c \<and>
         (\<exists>c1 r sizes tot. region_setup os kn c sizes tot = Inr (c1, r) \<and> sum_chunk_sizes 0 sizes = Some tot \<and>
            c' = pool_add (c1\<lparr>cl_next_region := Suc rid\<rparr>) pid rid r)"
proof -
  define d' where "d' = take n (case d of None \<Rightarrow> [] | Some b \<Rightarrow> b)"
  obtain p1 resolved where rs: "resolve_descriptor peer p d' out_error msg_ok = Inr (p1, resolved)"
    and k: "(case resolved of Inl err \<Rightarrow> Inr (c, p1, Inl err)
              | Inr sizes \<Rightarrow> (case sum_chunk_sizes 0 sizes of None \<Rightarrow> Inr (c, p1, Inl (EINVAL, None))
                 | Some tot \<Rightarrow> res_bind (region_setup os kn c sizes tot) (\<lambda>(c, r). attach_region os peer c p1 pid d' r))) = Inr (c', p', out)"
    using res unfolding fc_client_region_create_def Let_def option.case d'_def [symmetric] res_bind_eq_Inr
    by (auto simp: res_bind_eq_Inr split: if_splits)
  consider "c' = c" "\<exists>e. out = Inl e"
    | (up) sizes tot c1 r where "sum_chunk_sizes 0 sizes = Some tot" "region_setup os kn c sizes tot = Inr (c1, r)"
      "attach_region os peer c1 p1 pid d' r = Inr (c', p', out)"
  proof (cases resolved)
    case (Inr sizes)
    then show ?thesis using k that by (cases "sum_chunk_sizes 0 sizes") (auto simp: res_bind_eq_Inr)
  qed (use k that in auto)
  then show ?thesis
  proof cases
    case up
    note S = region_setup_Inr [OF inv kn up(2)]
    show ?thesis
    proof (cases out)
      case (Inl e)
      then show ?thesis using attach_region_Inr [OF up(3)] S(3) by simp
    next
      case (Inr rid)
      then have rid: "rid = cl_next_region c" "c' = pool_add (c1\<lparr>cl_next_region := Suc rid\<rparr>) pid rid r"
        using attach_region_Inr [OF up(3)] S(8) by auto
      then show ?thesis using Inr pool_add_inv [OF inv kn up(2) pid] up by auto
    qed
  qed auto
qed

lemma create_refused:
  assumes "resolve_descriptor peer p d oe ok = Inr (p', Inl err)"
  shows "fc_client_region_create os kn peer c p (Some pid) (length d) (Some d) oe ok = Inr (c, p', Inl err)"
  using assms by (simp add: fc_client_region_create_def Let_def)

section \<open>Reachable clients\<close>

definition client_init :: "mem \<Rightarrow> int set \<Rightarrow> client" where
  "client_init m fds = \<lparr>cl_mem = m, cl_fds = fds, cl_registered = {}, cl_pools = [], cl_regions = (\<lambda>_. links_empty),
     cl_region = (\<lambda>_. None), cl_next_pool = 0, cl_next_region = 0\<rparr>"

text \<open>A client process that calls the API with live handles; \<open>RL\<close> lists the regions of each pool.\<close>

inductive client_history :: "os \<Rightarrow> 'p peer \<Rightarrow> client \<Rightarrow> (nat \<Rightarrow> nat list) \<Rightarrow> bool" for os peer where
  init: "client_history os peer (client_init m fds) (\<lambda>_. [])"
| pool: "client_history os peer c RL \<Longrightarrow> fc_client_pool_create c 0 = (c', Inr pid) \<Longrightarrow> client_history os peer c' (RL(pid := []))"
| create: "client_history os peer c RL \<Longrightarrow> pid \<in> set (cl_pools c) \<Longrightarrow> kernel_ok kn c \<Longrightarrow>
    fc_client_region_create os kn peer c p (Some pid) n d out_error msg_ok = Inr (c', p', out) \<Longrightarrow>
    client_history os peer c' (case out of Inl _ \<Rightarrow> RL | Inr rid \<Rightarrow> RL(pid := rid # RL pid))"
| destroy: "client_history os peer c RL \<Longrightarrow> cl_region c rid = Some r \<Longrightarrow>
    fc_client_region_destroy os c (Some rid) = Inr c' \<Longrightarrow>
    client_history os peer c' (RL(cr_pool r := remove1 rid (RL (cr_pool r))))"
| pool_destroy: "client_history os peer c RL \<Longrightarrow> pid \<in> set (cl_pools c) \<Longrightarrow>
    fc_client_pool_destroy os c (Some pid) = Inr c' \<Longrightarrow> client_history os peer c' (RL(pid := []))"

lemma client_history_inv:
  assumes "0 < os_page_size os"
  shows "client_history os peer c RL \<Longrightarrow> client_inv os c RL"
proof (induction rule: client_history.induct)
  case (init m fds)
  show ?case using assms by (simp add: client_inv_def client_init_def)
next
  case (pool c RL c' pid)
  have c': "c' = c\<lparr>cl_pools := pid # cl_pools c, cl_regions := (cl_regions c)(pid := links_empty), cl_next_pool := Suc pid\<rparr>"
    and pid: "pid = cl_next_pool c" using pool.hyps(2) by (auto simp: fc_client_pool_create_def Let_def)
  note I = client_invD [OF pool.IH]
  have nin: "pid \<notin> set (cl_pools c)" using I(3) pid by blast
  have held: "region_held os c' = region_held os c" by (simp add: region_held_def fun_eq_iff c')
  show ?case
  proof (rule client_invI)
    show "dlist (cl_regions c' p) ((RL(pid := [])) p)" if "p \<in> set (cl_pools c')" for p using that I(4) by (auto simp: c')
    show "k < cl_next_region c' \<and> cr_pool r \<in> set (cl_pools c') \<and> k \<in> set ((RL(pid := [])) (cr_pool r)) \<and> region_held os c' r"
      if "cl_region c' k = Some r" for k r
      using that I(5-8) [of k r] nin by (auto simp: held) (auto simp: c')
    show "\<exists>r. cl_region c' k = Some r \<and> cr_pool r = p" if "p \<in> set (cl_pools c')" "k \<in> set ((RL(pid := [])) p)" for p k
      using that I(9) [of p k] by (cases "p = pid") (auto simp: c')
    show "p < cl_next_pool c'" if "p \<in> set (cl_pools c')" for p using that I(3) pid less_Suc_eq by (auto simp: c')
  qed (use I(1,2,10,11) nin in \<open>auto simp: c'\<close>)
next
  case (create c RL pid kn p n d out_error msg_ok c' p' out)
  show ?case using fc_client_region_create_cases [OF create.IH create.hyps(3,2,4)] create.IH by (cases out) (simp_all del: fun_upd_apply)
next
  case (destroy c RL rid r c')
  have "c' = released c rid r" using fc_client_region_destroy_eq [OF destroy.IH destroy.hyps(2)] destroy.hyps(3) by simp
  then show ?case using released_inv [OF destroy.IH destroy.hyps(2)] by (simp only:)
next
  case (pool_destroy c RL pid c')
  note D = fc_client_pool_destroy_ok [OF pool_destroy.IH pool_destroy.hyps(2)]
  have "c' = (released_all c (RL pid))\<lparr>cl_pools := remove1 pid (cl_pools c)\<rparr>" using D(1) pool_destroy.hyps(3) by simp
  then show ?case using D(2) by (simp only:)
qed

end
