(* ===== verification/Session.thy ===== *)
theory Session
  imports Server_Inv Client_Inv
begin

text \<open>
  Client and server together.  \<open>server_peer\<close> is the server's event loop as the peer of the
  client's two exchanges.  The handshake gives the client exactly the layout of the
  factory's recipe and leaves a mapping at the server through which every byte of the recipe can be read; a
  layout whose reply does not fit a message is refused by the client after the server has
  accepted it, which leaves the connection one message out of step.
\<close>

section \<open>What a factory offers\<close>

definition offers :: "factory \<Rightarrow> byte list \<Rightarrow> size_t list \<Rightarrow> server_fill \<Rightarrow> bool" where
  "offers factory d sizes fill \<longleftrightarrow> (\<exists>rc. factory d = Inr rc \<and>
     map_option (take (rc_nchunks rc)) (rc_chunk_sizes rc) = Some sizes \<and> length sizes = rc_nchunks rc \<and>
     rc_fill_chunk rc = Some fill \<and> sizes \<noteq> [] \<and> (\<forall>s\<in>set sizes. 0 < s))"

lemma offersE:
  assumes "offers factory d sizes fill" "factory_ok ps factory"
  obtains rc all where "factory d = Inr rc" "rc_chunk_sizes rc = Some all" "sizes = take (rc_nchunks rc) all"
    "length sizes = rc_nchunks rc" "rc_nchunks rc \<le> length all" "rc_fill_chunk rc = Some fill" "sizes \<noteq> []" "\<forall>s\<in>set sizes. 0 < s"
    "\<forall>s\<in>set sizes. s < SIZE_RANGE" "sum_list sizes < SIZE_RANGE" "sum_list sizes + ps \<le> SIZE_RANGE" "length sizes + 1 < UINT32_RANGE"
    "recipe_ok ps rc" "0 < ps"
proof -
  obtain rc all where rc: "factory d = Inr rc" "rc_chunk_sizes rc = Some all" "sizes = take (rc_nchunks rc) all"
    "length sizes = rc_nchunks rc" "rc_fill_chunk rc = Some fill" "sizes \<noteq> []" "\<forall>s\<in>set sizes. 0 < s"
    using assms(1) by (auto simp: offers_def)
  have ok: "recipe_ok ps rc" "0 < ps" using assms(2) rc(1) by (auto simp: factory_ok_def)
  then have "\<forall>s\<in>set all. s < SIZE_RANGE" "sum_list sizes + ps \<le> SIZE_RANGE" "rc_nchunks rc + 1 < UINT32_RANGE" "rc_nchunks rc \<le> length all"
    using rc by (auto simp: recipe_ok_def)
  then show thesis using that [OF rc(1-4)] rc ok by (auto dest: in_set_takeD)
qed

lemma recipe_offers:
  assumes r: "recipe_of factory r" "sr_descriptor r = d" and o: "offers factory d sizes fill" "factory_ok ps factory"
  shows "sr_nchunks r = length sizes" "sr_chunk_start r = chunk_starts 0 sizes" "sr_fill_chunk r = fill" "region_sizes r = sizes"
proof -
  obtain rc all where rc: "factory d = Inr rc" "rc_chunk_sizes rc = Some all" "sizes = take (rc_nchunks rc) all"
    "length sizes = rc_nchunks rc" "rc_fill_chunk rc = Some fill" and lt: "sum_list sizes < SIZE_RANGE"
    using offersE [OF o] by metis
  show n: "sr_nchunks r = length sizes" and st: "sr_chunk_start r = chunk_starts 0 sizes" and "sr_fill_chunk r = fill"
    using r rc by (auto simp: recipe_of_def)
  show "region_sizes r = sizes"
    using chunk_starts_diff [OF lt] by (intro nth_equalityI) (auto simp: region_sizes_def n st)
qed

text \<open>The bytes of a region in terms of the recipe.\<close>

lemma content_offers:
  assumes ok: "region_ok r" and r: "recipe_of factory r" "sr_descriptor r = d" and o: "offers factory d sizes fill" "factory_ok ps factory"
    and i: "i < length sizes" "j < sizes ! i"
  shows "content_s r (sum_list (take i sizes) + j) = fill i (sizes ! i) ! j" "sum_list (take i sizes) + j < mapped_s r"
proof -
  note R = recipe_offers [OF r o]
  have lt: "sum_list sizes < SIZE_RANGE" using offersE [OF o] by metis
  let ?x = "sum_list (take i sizes) + j"
  have st: "sr_chunk_start r ! k = sum_list (take k sizes)" if "k \<le> length sizes" for k
    using chunk_starts_nth [of 0 sizes k] lt that R(2) by simp
  have suc: "sum_list (take (Suc i) sizes) = sum_list (take i sizes) + sizes ! i" using i by (simp add: take_Suc_conv_app_nth)
  note lay = region_okD(1) [OF ok]
  have f: "find_chunk_s r ?x = i"
    using server_chunk.find_eq [OF lay, of i ?x] i R(1) st [of i] st [of "Suc i"] suc by simp
  have "?x < sr_chunk_start r ! Suc i" using st [of "Suc i"] suc i by simp
  also have "\<dots> \<le> sr_chunk_start r ! sr_nchunks r"
    using layout_mono_le [OF lay [unfolded server_layout_def]] i R(1) by simp
  finally have x: "?x < sr_chunk_start r ! sr_nchunks r" .
  have "sr_chunk_start r ! Suc i - sr_chunk_start r ! i = sizes ! i" using st [of i] st [of "Suc i"] i suc by simp
  then show "content_s r ?x = fill i (sizes ! i) ! j" using x f i st [of i] by (simp add: content_s_def fill_s_def R(3))
  show "?x < mapped_s r" using x total_le_mapped [OF lay] by simp
qed

section \<open>The server as a peer\<close>

definition all_ok :: allocs where
  "all_ok = \<lparr>al_buf = True, al_strdup = True, al_tables = True, al_content = True, al_sizes = True, al_reply = True\<rparr>"

text \<open>A message arrives, with a descriptor that has the number \<open>nfd\<close> at the server, and nothing else fails.\<close>

definition message_event :: "run \<Rightarrow> byte list \<Rightarrow> int option \<Rightarrow> event" where
  "message_event rn msg fd = \<lparr>ev_fd = rn_conn_fd rn, ev_rx = Rx msg fd, ev_allocs = all_ok, ev_mapping_ok = True,
     ev_send_ok = True, ev_msg = Other_msg, ev_copy_fails = None\<rparr>"

definition server_peer :: "size_t \<Rightarrow> factory \<Rightarrow> int \<Rightarrow> run peer" where
  "server_peer ps factory nfd rn msg fd =
     (case run_event ps factory rn (message_event rn msg (map_option (\<lambda>_. nfd) fd)) of
        Inl _ \<Rightarrow> Some (rn, Some [])
      | Inr rn' \<Rightarrow> Some (rn', Some (if rn_disconnected rn' \<or> rn_sent rn' = [] then [] else last (rn_sent rn'))))"

text \<open>A connection that is ready: its descriptor is not the eventfd, and it has not been closed.\<close>

definition connected :: "run \<Rightarrow> bool" where
  "connected rn \<longleftrightarrow> rn_conn_fd rn \<noteq> sv_stop_fd (rn_server rn) \<and> \<not> rn_disconnected rn"

lemma create_region_offers:
  assumes "offers factory d sizes fill" "factory_ok ps factory"
  shows "\<exists>r. create_region ps factory d all_ok = Inr (Some r, None, [Factory d])"
proof -
  obtain rc all where rc: "factory d = Inr rc" "rc_chunk_sizes rc = Some all" "sizes = take (rc_nchunks rc) all"
    "length sizes = rc_nchunks rc" "rc_nchunks rc \<le> length all" "rc_fill_chunk rc = Some fill" "sizes \<noteq> []"
    and b: "\<forall>s\<in>set sizes. 0 < s" "\<forall>s\<in>set sizes. s < SIZE_RANGE" "sum_list sizes < SIZE_RANGE" "length sizes + 1 < UINT32_RANGE"
    using offersE [OF assms] by metis
  have "sum_chunk_sizes 0 sizes = Some (sum_list sizes)" using sum_chunk_sizes_iff [OF b(2)] b by blast
  moreover have "fill_chunk_start sizes = Inr (chunk_starts 0 sizes)" using b(4) by (simp add: fill_chunk_start_def)
  moreover have "rc_nchunks rc \<noteq> 0" using rc(4,7) by (metis length_0_conv)
  ultimately show ?thesis using rc(1,2,5,6) rc(3) [symmetric] by (simp add: create_region_def Let_def all_ok_def)
qed

lemma resolve_locked_offers:
  assumes inv: "server_inv ps factory s mm" and o: "offers factory d sizes fill" "factory_ok ps factory"
  shows "\<exists>s' r. resolve_locked ps factory s d all_ok =
      Inr (s', \<lparr>rs_status = 0, rs_nchunks = length sizes, rs_error_len = 0\<rparr>, put_sizes sizes) \<and>
    find_region s' d = Some r \<and> sv_stop_fd s' = sv_stop_fd s"
proof (cases "find_region s d")
  case (Some r)
  then have "recipe_of factory r" "sr_descriptor r = d"
    using find_region_Some server_invD(3) [OF inv] by (auto simp: region_inv_s_def)
  then show ?thesis using Some recipe_offers [OF _ _ o] by (simp add: resolve_locked_def all_ok_def)
next
  case None
  obtain r where r: "create_region ps factory d all_ok = Inr (Some r, None, [Factory d])" using create_region_offers [OF o] by blast
  then have "fresh_region factory ps d r" using create_region_ok [OF o(2), of d all_ok] by auto
  then have "recipe_of factory r" "sr_descriptor r = d" by (auto simp: fresh_region_def)
  then show ?thesis using None r recipe_offers [OF _ _ o, of r] by (simp add: resolve_locked_def all_ok_def Let_def find_region_def)
qed

section \<open>The first exchange\<close>

definition resolve_message :: "byte list \<Rightarrow> byte list" where
  "resolve_message d = put_resolve_req \<lparr>rq_descriptor_size = length d mod UINT32_RANGE, rq_reserved = 0\<rparr> @ d"

definition accept_reply :: "size_t list \<Rightarrow> byte list" where
  "accept_reply sizes = put_resolve_resp \<lparr>rs_status = 0, rs_nchunks = length sizes, rs_error_len = 0\<rparr> @ put_sizes sizes"

lemma wire_small: "8 + length d \<le> FC_WIRE_MSG_MAX \<Longrightarrow> length d mod UINT32_RANGE = length d"
  by (simp add: FC_WIRE_MSG_MAX_def)

lemma resolve_exchange:
  assumes sv: "serving ps factory rn" and con: "connected rn" and st: "rn_state rn = CONN_WAIT_RESOLVE"
    and o: "offers factory d sizes fill" "factory_ok ps factory" and len: "8 + length d \<le> FC_WIRE_MSG_MAX"
  shows "\<exists>rn' r. server_peer ps factory nfd rn (resolve_message d) None = Some (rn', Some (accept_reply sizes)) \<and>
    serving ps factory rn' \<and> connected rn' \<and> rn_state rn' = CONN_WAIT_ATTACH \<and> rn_mm rn' = rn_mm rn \<and>
    find_region (rn_server rn') d = Some r \<and> uffds (sv_regions (rn_server rn')) = uffds (sv_regions (rn_server rn))"
proof -
  have inv: "server_inv ps factory (rn_server rn) (rn_mm rn)" using serving_inv [OF sv o(2)] by (simp add: run_inv_def)
  obtain s' r where rl: "resolve_locked ps factory (rn_server rn) d all_ok =
      Inr (s', \<lparr>rs_status = 0, rs_nchunks = length sizes, rs_error_len = 0\<rparr>, put_sizes sizes)"
      "find_region s' d = Some r" "sv_stop_fd s' = sv_stop_fd (rn_server rn)"
    using resolve_locked_offers [OF inv o] by blast
  have uf: "uffds (sv_regions s') = uffds (sv_regions (rn_server rn))"
    using resolve_locked_ok [of ps factory "rn_server rn" d all_ok] inv o(2) rl(1) same_clientsD(1) by (auto simp: server_inv_split)
  note W = resolve_req.recv_whole [where h = "\<lparr>rq_descriptor_size = length d mod UINT32_RANGE, rq_reserved = 0\<rparr>" and d = d, folded resolve_message_def]
  have msg: "recv_msg (resolve_message d) = resolve_message d" "get_resolve_req (resolve_message d) = \<lparr>rq_descriptor_size = length d, rq_reserved = 0\<rparr>"
    using W len wire_small [OF len] by simp_all
  have ln: "length (resolve_message d) = 8 + length d" "drop 8 (resolve_message d) = d"
    unfolding resolve_message_def using resolve_req.message_length resolve_req.payload by auto
  then have ne: "resolve_message d \<noteq> []" by auto
  have hr: "handle_resolve ps factory (rn_server rn) (Rx (resolve_message d) None) all_ok True = Inr (1, s', Some (accept_reply sizes))"
    using rl(1) by (simp add: handle_resolve_def msg ln ne Let_def accept_reply_def) (simp add: all_ok_def)
  let ?e = "message_event rn (resolve_message d) None"
  define rn' where "rn' = conn_result rn (1, s', Some (accept_reply sizes))"
  have run: "run_event ps factory rn ?e = Inr rn'"
    using con st hr by (simp add: run_event_def connected_def message_event_def conn_event_def rn'_def)
  have "serving ps factory rn'"
    by (rule serving.event [OF sv _ run]) (simp add: event_ok_def attach_ok_def message_event_def)
  moreover have "rn_sent rn' = rn_sent rn @ [accept_reply sizes]" "rn_server rn' = s'" "rn_mm rn' = rn_mm rn"
    "rn_state rn' = CONN_WAIT_ATTACH" "connected rn'"
    using con st rl(3) by (auto simp: rn'_def conn_result_def Let_def connected_def)
  ultimately show ?thesis using run rl(2) uf by (simp add: server_peer_def connected_def)
qed

lemma accept_reply_facts:
  assumes "length sizes < UINT32_RANGE"
  shows "length (accept_reply sizes) = 12 + 8 * length sizes" "get_resolve_resp (accept_reply sizes) = \<lparr>rs_status = 0, rs_nchunks = length sizes, rs_error_len = 0\<rparr>"
    "drop 12 (accept_reply sizes) = put_sizes sizes"
    "12 + 8 * length sizes \<le> FC_WIRE_MSG_MAX \<Longrightarrow> recv_msg (accept_reply sizes) = accept_reply sizes"
    "FC_WIRE_MSG_MAX < 12 + 8 * length sizes \<Longrightarrow> length (recv_msg (accept_reply sizes)) = FC_WIRE_MSG_MAX"
    "FC_WIRE_MSG_MAX < 12 + 8 * length sizes \<Longrightarrow> get_resolve_resp (recv_msg (accept_reply sizes)) = \<lparr>rs_status = 0, rs_nchunks = length sizes, rs_error_len = 0\<rparr>"
proof -
  let ?h = "\<lparr>rs_status = 0, rs_nchunks = length sizes, rs_error_len = 0\<rparr>"
  have f: "resp_fits ?h" using assms by (simp add: resp_fits_def)
  show "length (accept_reply sizes) = 12 + 8 * length sizes" "get_resolve_resp (accept_reply sizes) = ?h" "drop 12 (accept_reply sizes) = put_sizes sizes"
    unfolding accept_reply_def using resolve_resp.message_length [of ?h "put_sizes sizes"] resolve_resp.payload [of ?h "put_sizes sizes"] resolve_resp.get_put [OF f] by auto
  show "recv_msg (accept_reply sizes) = accept_reply sizes" if "12 + 8 * length sizes \<le> FC_WIRE_MSG_MAX"
    unfolding accept_reply_def using resolve_resp.recv_whole(1) [OF f, of "put_sizes sizes"] that by simp
  show "length (recv_msg (accept_reply sizes)) = FC_WIRE_MSG_MAX" "get_resolve_resp (recv_msg (accept_reply sizes)) = ?h"
    if "FC_WIRE_MSG_MAX < 12 + 8 * length sizes"
    unfolding accept_reply_def using resolve_resp.recv_cut [OF f, of "put_sizes sizes"] that by simp_all
qed

text \<open>The request as the client builds it.\<close>

lemma resolve_descriptor_eq:
  assumes "8 + length d \<le> FC_WIRE_MSG_MAX" "peer p (resolve_message d) None = Some (p', Some reply)"
  shows "resolve_descriptor peer p d oe ok =
     (let reply_buf = recv_msg reply; rd = length reply_buf; resp = get_resolve_resp reply_buf;
          ok' = (rd \<ge> 12 \<and> (if rs_status resp = 0 then rs_nchunks resp > 0 \<and> rd = 12 + rs_nchunks resp * 8 else rd = 12 + rs_error_len resp))
      in if \<not> ok' then Inr (p', Inl (ECONNREFUSED, None))
         else if rs_status resp \<noteq> 0 then Inr (p', Inl (ECONNREFUSED,
           if oe \<and> rs_error_len resp \<noteq> 0 \<and> ok then Some (field 12 (rs_error_len resp) reply_buf @ [0]) else None))
         else Inr (p', Inr (get_sizes (rs_nchunks resp) (drop 12 reply_buf))))"
proof -
  have "size_add 8 (length d) = 8 + length d" using assms(1) by (simp add: FC_WIRE_MSG_MAX_def)
  then show ?thesis using assms by (simp add: resolve_descriptor_def Let_def resolve_message_def)
qed

lemma resolve_accepted:
  assumes len: "8 + length d \<le> FC_WIRE_MSG_MAX" and p: "peer p (resolve_message d) None = Some (p', Some (accept_reply sizes))"
    and sizes: "12 + 8 * length sizes \<le> FC_WIRE_MSG_MAX" "sizes \<noteq> []" "\<forall>s\<in>set sizes. s < SIZE_RANGE"
  shows "resolve_descriptor peer p d oe ok = Inr (p', Inr sizes)"
proof -
  have n: "length sizes < UINT32_RANGE" using sizes(1) by (simp add: FC_WIRE_MSG_MAX_def)
  note A = accept_reply_facts [OF n]
  have "get_sizes (length sizes) (put_sizes sizes) = sizes" using get_put_sizes [OF sizes(3), of "[]"] by simp
  then show ?thesis using sizes(2) resolve_descriptor_eq [where peer = peer and p = p, OF len p] A(4) [OF sizes(1)] by (simp add: A(1-3) Let_def)
qed

lemma resolve_too_big:
  assumes len: "8 + length d \<le> FC_WIRE_MSG_MAX" and p: "peer p (resolve_message d) None = Some (p', Some (accept_reply sizes))"
    and sizes: "FC_WIRE_MSG_MAX < 12 + 8 * length sizes" "length sizes < UINT32_RANGE"
  shows "resolve_descriptor peer p d oe ok = Inr (p', Inl (ECONNREFUSED, None))"
  using resolve_descriptor_eq [where peer = peer and p = p, OF len p] accept_reply_facts(5,6) [OF sizes(2,1)] sizes(1) by (simp add: Let_def mult.commute)

section \<open>The second exchange\<close>

definition attach_message :: "addr \<Rightarrow> byte list \<Rightarrow> byte list" where
  "attach_message base d =
     put_attach_req \<lparr>at_base = base, at_descriptor_size = length d mod UINT32_RANGE, at_reserved = 0\<rparr> @ d"

lemma attach_exchange:
  assumes sv: "serving ps factory rn" and con: "connected rn" and st: "rn_state rn = CONN_WAIT_ATTACH" and f: "factory_ok ps factory"
    and d: "find_region (rn_server rn) d = Some r" "16 + length d \<le> FC_WIRE_MSG_MAX" and base: "base < SIZE_RANGE"
    and nfd: "nfd \<ge> 0" "nfd \<notin> set (uffds (sv_regions (rn_server rn)))" "\<forall>a. rn_mm rn nfd a = None"
  shows "\<exists>rn'. server_peer ps factory nfd rn (attach_message base d) (Some fd) = Some (rn', Some [0]) \<and>
    serving ps factory rn' \<and> connected rn' \<and> rn_state rn' = CONN_WAIT_RESOLVE \<and> rn_mm rn' = rn_mm rn \<and>
    (\<exists>r\<in>set (sv_regions (rn_server rn')). sr_descriptor r = d \<and> \<lparr>m_uffd = nfd, m_base_addr = base\<rparr> \<in> set (sr_mappings r))"
proof -
  have small: "length d mod UINT32_RANGE = length d" using d(2) by (simp add: FC_WIRE_MSG_MAX_def)
  note W = attach_req.recv_whole [where h = "\<lparr>at_base = base, at_descriptor_size = length d mod UINT32_RANGE, at_reserved = 0\<rparr>" and d = d, folded attach_message_def]
  have msg: "recv_msg (attach_message base d) = attach_message base d"
      "get_attach_req (attach_message base d) = \<lparr>at_base = base, at_descriptor_size = length d, at_reserved = 0\<rparr>"
    using W d(2) small base by simp_all
  have ln: "length (attach_message base d) = 16 + length d" "drop 16 (attach_message base d) = d"
    unfolding attach_message_def using attach_req.message_length attach_req.payload by auto
  then have ne: "attach_message base d \<noteq> []" by auto
  define r' where "r' = r\<lparr>sr_mappings := \<lparr>m_uffd = nfd, m_base_addr = base\<rparr> # sr_mappings r\<rparr>"
  define s' where "s' = (rn_server rn)\<lparr>sv_regions := update_region r' (sv_regions (rn_server rn))\<rparr>"
  have ha: "handle_attach (rn_server rn) (Rx (attach_message base d) (Some nfd)) True True True = (1, s', Some [0])"
    using d(1) nfd(1) by (simp add: handle_attach_def msg ln ne Let_def s'_def r'_def)
  let ?e = "message_event rn (attach_message base d) (Some nfd)"
  define rn' where "rn' = conn_result rn (1, s', Some [0])"
  have run: "run_event ps factory rn ?e = Inr rn'"
    using con st ha by (simp add: run_event_def connected_def message_event_def conn_event_def rn'_def all_ok_def)
  have sv': "serving ps factory rn'"
    by (rule serving.event [OF sv _ run]) (use nfd in \<open>auto simp: event_ok_def attach_ok_def message_event_def\<close>)
  have dist: "distinct (map sr_descriptor (sv_regions (rn_server rn)))"
    using serving_inv [OF sv f] server_invD(1) by (auto simp: run_inv_def)
  have r: "r \<in> set (sv_regions (rn_server rn))" "sr_descriptor r = d" using find_region_Some [OF d(1)] by auto
  have "sr_descriptor r' = sr_descriptor r" by (simp add: r'_def)
  then obtain as bs where "update_region r' (sv_regions (rn_server rn)) = as @ r' # bs"
    using update_split [OF dist r(1)] by blast
  then have "r' \<in> set (sv_regions s')" by (simp add: s'_def)
  moreover have "sr_descriptor r' = d" "\<lparr>m_uffd = nfd, m_base_addr = base\<rparr> \<in> set (sr_mappings r')" using r by (simp_all add: r'_def)
  moreover have "rn_sent rn' = rn_sent rn @ [[0]]" "rn_server rn' = s'" "rn_mm rn' = rn_mm rn" "rn_state rn' = CONN_WAIT_RESOLVE" "connected rn'"
    using con st by (auto simp: rn'_def conn_result_def Let_def connected_def s'_def)
  ultimately show ?thesis using run sv' by (auto simp: server_peer_def connected_def)
qed

lemma send_attach_eq:
  assumes "16 + length d \<le> FC_WIRE_MSG_MAX" "peer p (attach_message base d) (Some fd) = Some (p', Some [0])"
  shows "send_attach peer p fd base d = Inr (p', Inr ())"
proof -
  have "size_add 16 (length d) = 16 + length d" using assms(1) by (simp add: FC_WIRE_MSG_MAX_def)
  then show ?thesis using assms by (simp add: send_attach_def Let_def attach_message_def)
qed

section \<open>Creating a remote region\<close>

lemma region_setup_fields:
  assumes "region_setup os kn c sizes tot = Inr (c', r)" "0 < os_page_size os"
  shows "cr_base r < SIZE_RANGE" "cr_base r + cr_mapped_size r \<le> SIZE_RANGE" "cr_uffd r = kn_uffd kn" "cr_total_size r = tot" "cr_nchunks r = length sizes" "cr_chunk_start r = chunk_starts 0 sizes"
    "cr_mapped_size r = page_ceil tot (os_page_size os)" "cl_next_region c' = cl_next_region c" "os_page_size os dvd cr_base r"
proof -
  define len where "len = page_ceil tot (os_page_size os)"
  have dvd: "os_page_size os dvd len" by (simp add: len_def)
  from assms(1) obtain b m where map: "os_mmap os (cl_mem c) len PROT_READ = Some (b, m)" and b: "cr_base r = b"
    and rest: "cr_uffd r = kn_uffd kn" "cr_total_size r = tot" "cr_nchunks r = length sizes" "cr_chunk_start r = chunk_starts 0 sizes"
    "cr_mapped_size r = len" "cl_next_region c' = cl_next_region c"
    by (auto simp: region_setup_def res_bind_eq_Inr Let_def fc_assert_eq_Inr len_def fill_chunk_start_def split: option.splits if_splits)
  have "b + len \<le> SIZE_RANGE" "0 < len" "os_page_size os dvd b"
    using map by (auto simp: os_mmap_def round_len_id [OF assms(2) dvd] split: option.splits if_splits)
  then show "cr_base r < SIZE_RANGE" "cr_base r + cr_mapped_size r \<le> SIZE_RANGE" "os_page_size os dvd cr_base r" using b rest by auto
  show "cr_uffd r = kn_uffd kn" "cr_total_size r = tot" "cr_nchunks r = length sizes" "cr_chunk_start r = chunk_starts 0 sizes"
    "cr_mapped_size r = page_ceil tot (os_page_size os)" "cl_next_region c' = cl_next_region c" using rest by (simp_all add: len_def)
qed

lemma remote_create:
  assumes sv: "serving ps factory rn" and con: "connected rn" and st: "rn_state rn = CONN_WAIT_RESOLVE"
    and o: "offers factory d sizes fill" "factory_ok ps factory"
    and len: "16 + length d \<le> FC_WIRE_MSG_MAX" "12 + 8 * length sizes \<le> FC_WIRE_MSG_MAX"
    and nfd: "nfd \<ge> 0" "nfd \<notin> set (uffds (sv_regions (rn_server rn)))" "\<forall>a. rn_mm rn nfd a = None"
    and up: "region_setup os kn c sizes (sum_list sizes) = Inr (c1, r)" and ps: "0 < os_page_size os"
  shows "\<exists>rn'. fc_client_region_create os kn (server_peer ps factory nfd) c rn (Some pid) (length d) (Some d) oe ok =
      Inr (pool_add (c1\<lparr>cl_next_region := Suc (cl_next_region c)\<rparr>) pid (cl_next_region c) r, rn', Inr (cl_next_region c)) \<and>
    serving ps factory rn' \<and> connected rn' \<and> rn_state rn' = CONN_WAIT_RESOLVE \<and> rn_mm rn' = rn_mm rn \<and>
    (\<exists>x\<in>set (sv_regions (rn_server rn')). sr_descriptor x = d \<and> \<lparr>m_uffd = nfd, m_base_addr = cr_base r\<rparr> \<in> set (sr_mappings x))"
proof -
  have l8: "8 + length d \<le> FC_WIRE_MSG_MAX" using len(1) by simp
  have sz: "sizes \<noteq> []" "\<forall>s\<in>set sizes. s < SIZE_RANGE" "sum_chunk_sizes 0 sizes = Some (sum_list sizes)"
  proof -
    have b: "\<forall>s\<in>set sizes. 0 < s" "\<forall>s\<in>set sizes. s < SIZE_RANGE" "sum_list sizes < SIZE_RANGE" "sizes \<noteq> []"
      using offersE [OF o] by metis+
    then show "sizes \<noteq> []" "\<forall>s\<in>set sizes. s < SIZE_RANGE" "sum_chunk_sizes 0 sizes = Some (sum_list sizes)"
      using sum_chunk_sizes_iff [OF b(2)] by blast+
  qed
  note F = region_setup_fields [OF up ps]
  obtain rn1 x where p1: "server_peer ps factory nfd rn (resolve_message d) None = Some (rn1, Some (accept_reply sizes))"
    and r1: "serving ps factory rn1" "connected rn1" "rn_state rn1 = CONN_WAIT_ATTACH" "rn_mm rn1 = rn_mm rn"
      "find_region (rn_server rn1) d = Some x" "uffds (sv_regions (rn_server rn1)) = uffds (sv_regions (rn_server rn))"
    using resolve_exchange [OF sv con st o l8] by blast
  note rs = resolve_accepted [where peer = "server_peer ps factory nfd" and p = rn, OF l8 p1 len(2) sz(1,2)]
  obtain rn2 where p2: "server_peer ps factory nfd rn1 (attach_message (cr_base r) d) (Some (cr_uffd r)) = Some (rn2, Some [0])"
    and r2: "serving ps factory rn2" "connected rn2" "rn_state rn2 = CONN_WAIT_RESOLVE" "rn_mm rn2 = rn_mm rn1"
      "\<exists>x\<in>set (sv_regions (rn_server rn2)). sr_descriptor x = d \<and> \<lparr>m_uffd = nfd, m_base_addr = cr_base r\<rparr> \<in> set (sr_mappings x)"
    using attach_exchange [OF r1(1-3) o(2) r1(5) len(1) F(1) nfd(1), of "cr_uffd r"] nfd(2,3) r1(4,6) by auto
  note at = send_attach_eq [where peer = "server_peer ps factory nfd" and p = rn1, OF len(1) p2]
  have "fc_client_region_create os kn (server_peer ps factory nfd) c rn (Some pid) (length d) (Some d) oe ok =
      Inr (pool_add (c1\<lparr>cl_next_region := Suc (cl_next_region c)\<rparr>) pid (cl_next_region c) r, rn2, Inr (cl_next_region c))"
    by (simp add: fc_client_region_create_def Let_def rs sz(3) up attach_region_def at F(8))
  then show ?thesis using r2 r1(4) by auto
qed

section \<open>Out of step\<close>

lemma resolve_taken_for_attach:
  assumes sv: "serving ps factory rn" and con: "connected rn" and st: "rn_state rn = CONN_WAIT_ATTACH" and len: "8 + length d \<le> FC_WIRE_MSG_MAX"
  shows "\<exists>rn'. resolve_descriptor (server_peer ps factory nfd) rn d oe ok = Inr (rn', Inl (ECONNREFUSED, None)) \<and>
    rn_state rn' = CONN_WAIT_RESOLVE \<and> rn_server rn' = rn_server rn"
proof -
  have "length (resolve_message d) = 8 + length d" unfolding resolve_message_def using resolve_req.message_length by auto
  then have ne: "recv_msg (resolve_message d) \<noteq> []" by (auto simp: recv_msg_def FC_WIRE_MSG_MAX_def)
  have ha: "handle_attach (rn_server rn) (Rx (resolve_message d) None) True True True = (0, rn_server rn, Some [1])"
    using ne by (simp add: handle_attach_def Let_def)
  define rn' where "rn' = conn_result rn (0, rn_server rn, Some [1])"
  have "run_event ps factory rn (message_event rn (resolve_message d) None) = Inr rn'"
    using con st ha by (simp add: run_event_def connected_def message_event_def conn_event_def rn'_def all_ok_def)
  moreover have rn': "rn_sent rn' = rn_sent rn @ [[1]]" "rn_server rn' = rn_server rn" "rn_state rn' = CONN_WAIT_RESOLVE" "\<not> rn_disconnected rn'"
    using con st by (auto simp: rn'_def conn_result_def Let_def connected_def)
  ultimately have "server_peer ps factory nfd rn (resolve_message d) None = Some (rn', Some [1])" by (simp add: server_peer_def)
  from resolve_descriptor_eq [where peer = "server_peer ps factory nfd" and p = rn, OF len this] show ?thesis
    using rn' by (simp add: Let_def recv_msg_def FC_WIRE_MSG_MAX_def)
qed

text \<open>
  \<open>resolve_descriptor\<close> bounds the descriptor with the shorter of the two headers; in
  between, the assertion of \<open>send_attach\<close> fails after the server has accepted.
\<close>

lemma attach_band_aborts:
  assumes "FC_WIRE_MSG_MAX < 16 + length d" "8 + length d \<le> FC_WIRE_MSG_MAX"
  shows "send_attach peer p fd base d = Inl (Assert_failed ''total <= FC_WIRE_MSG_MAX'')"
proof -
  have "size_add 16 (length d) = 16 + length d" using assms(2) by (simp add: FC_WIRE_MSG_MAX_def)
  then show ?thesis using assms(1) by (simp add: send_attach_def fc_assert_def Let_def)
qed

section \<open>A rejected descriptor\<close>

lemma strlen_id: "0 \<notin> set e \<Longrightarrow> strlen e = length e"
  unfolding strlen_def by (subst takeWhile_eq_all_conv [THEN iffD2]) auto

lemma reject_exchange:
  assumes sv: "serving ps factory rn" and con: "connected rn" and st: "rn_state rn = CONN_WAIT_RESOLVE" and f: "factory_ok ps factory"
    and rej: "factory d = Inl e" "0 \<notin> set e" and len: "8 + length d \<le> FC_WIRE_MSG_MAX" "12 + length e \<le> FC_WIRE_MSG_MAX"
  shows "\<exists>rn'. resolve_descriptor (server_peer ps factory nfd) rn d True True =
      Inr (rn', Inl (ECONNREFUSED, if e = [] then None else Some (e @ [0]))) \<and>
    serving ps factory rn' \<and> connected rn' \<and> rn_state rn' = CONN_WAIT_RESOLVE \<and> sv_regions (rn_server rn') = sv_regions (rn_server rn)"
proof -
  have inv: "server_inv ps factory (rn_server rn) (rn_mm rn)" using serving_inv [OF sv f] by (simp add: run_inv_def)
  have none: "find_region (rn_server rn) d = None"
  proof (cases "find_region (rn_server rn) d")
    case (Some r)
    then have "recipe_of factory r" "sr_descriptor r = d"
      using find_region_Some server_invD(3) [OF inv] by (auto simp: region_inv_s_def)
    then show ?thesis using rej(1) by (auto simp: recipe_of_def)
  qed
  let ?h = "\<lparr>rs_status = - 1, rs_nchunks = 0, rs_error_len = length e\<rparr>"
  define s' where "s' = (rn_server rn)\<lparr>sv_log := sv_log (rn_server rn) @ [Factory d]\<rparr>"
  have el: "strlen e mod UINT32_RANGE = length e" using len(2) strlen_id [OF rej(2)] by (simp add: FC_WIRE_MSG_MAX_def)
  have rl: "resolve_locked ps factory (rn_server rn) d all_ok = Inr (s', ?h, e)"
    by (simp add: resolve_locked_def none create_region_def rej(1) Let_def el s'_def)
  note W = resolve_req.recv_whole [where h = "\<lparr>rq_descriptor_size = length d mod UINT32_RANGE, rq_reserved = 0\<rparr>" and d = d, folded resolve_message_def]
  have msg: "recv_msg (resolve_message d) = resolve_message d" "get_resolve_req (resolve_message d) = \<lparr>rq_descriptor_size = length d, rq_reserved = 0\<rparr>"
    using W len(1) wire_small [OF len(1)] by simp_all
  have ln: "length (resolve_message d) = 8 + length d" "drop 8 (resolve_message d) = d"
    unfolding resolve_message_def using resolve_req.message_length resolve_req.payload by auto
  then have ne: "resolve_message d \<noteq> []" by auto
  have hr: "handle_resolve ps factory (rn_server rn) (Rx (resolve_message d) None) all_ok True = Inr (0, s', Some (put_resolve_resp ?h @ e))"
    using rl by (simp add: handle_resolve_def msg ln ne Let_def) (simp add: all_ok_def)
  define rn' where "rn' = conn_result rn (0, s', Some (put_resolve_resp ?h @ e))"
  have run: "run_event ps factory rn (message_event rn (resolve_message d) None) = Inr rn'"
    using con st hr by (simp add: run_event_def connected_def message_event_def conn_event_def rn'_def)
  have sv': "serving ps factory rn'"
    by (rule serving.event [OF sv _ run]) (simp add: event_ok_def attach_ok_def message_event_def)
  have flds: "rn_sent rn' = rn_sent rn @ [put_resolve_resp ?h @ e]" "rn_server rn' = s'" "rn_state rn' = CONN_WAIT_RESOLVE" "connected rn'"
    using con st by (auto simp: rn'_def conn_result_def Let_def connected_def s'_def)
  then have peer: "server_peer ps factory nfd rn (resolve_message d) None = Some (rn', Some (put_resolve_resp ?h @ e))"
    using run by (simp add: server_peer_def connected_def)
  have fit: "resp_fits ?h" using len(2) by (simp add: resp_fits_def FC_WIRE_MSG_MAX_def)
  note R = resolve_resp.recv_whole [OF fit len(2)] and P = resolve_resp.message_length [of ?h e] resolve_resp.payload [of ?h e]
  have "field 12 (length e) (put_resolve_resp ?h @ e) = e" using P(2) by (simp add: field_def)
  moreover have "get_resolve_resp (put_resolve_resp ?h @ e) = ?h" using resolve_resp.get_put [OF fit] .
  ultimately have "resolve_descriptor (server_peer ps factory nfd) rn d True True =
      Inr (rn', Inl (ECONNREFUSED, if e = [] then None else Some (e @ [0])))"
    using resolve_descriptor_eq [where peer = "server_peer ps factory nfd" and p = rn, OF len(1) peer] R(1) P(1) by (simp add: Let_def)
  then show ?thesis using sv' flds by (auto simp: s'_def)
qed

end
