(* ===== verification/Remote_Sample.thy ===== *)
theory Remote_Sample
  imports Session
begin

text \<open>
  Small concrete servers and clients: pages of four bytes, a factory that offers three chunks of 2, 7 and 6 bytes for one
  descriptor and rejects the others, one that offers a layout whose reply is too long
  for a message, and a client process with one pool.
\<close>

section \<open>Servers\<close>

definition remote_fill :: server_fill where
  "remote_fill i n = map (\<lambda>k. word_of_nat (10 * i + k)) [0..<n]"

definition remote_recipe :: "size_t list \<Rightarrow> fc_region_recipe" where
  "remote_recipe sizes = \<lparr>rc_nchunks = length sizes, rc_chunk_sizes = Some sizes, rc_fill_chunk = Some remote_fill,
     rc_user_data = 0, rc_destroy_user_data = False\<rparr>"

definition remote_factory :: "size_t list \<Rightarrow> factory" where
  "remote_factory sizes d = (if d = [1] then Inr (remote_recipe sizes) else Inl [110, 111])"

definition remote_run :: run where
  "remote_run = \<lparr>rn_server = \<lparr>sv_regions = [], sv_stop_fd = 3, sv_stop_count = 0, sv_log = []\<rparr>, rn_conn_fd = 4,
     rn_state = CONN_WAIT_RESOLVE, rn_ret = 0, rn_stop = False, rn_disconnected = False, rn_mm = (\<lambda>_ _. None), rn_sent = []\<rparr>"

lemma remote_factory_ok:
  assumes "length sizes + 1 < UINT32_RANGE" "sum_list sizes + 4 \<le> SIZE_RANGE"
  shows "factory_ok 4 (remote_factory sizes)"
proof -
  have "s < SIZE_RANGE" if "s \<in> set sizes" for s using member_le_sum_list [OF that] assms(2) by simp
  then show ?thesis using assms
    by (simp add: factory_ok_def remote_factory_def remote_recipe_def recipe_ok_def remote_fill_def)
qed

lemma remote_offers: "sizes \<noteq> [] \<Longrightarrow> \<forall>s\<in>set sizes. 0 < s \<Longrightarrow> offers (remote_factory sizes) [1] sizes remote_fill"
  by (simp add: offers_def remote_factory_def remote_recipe_def)

lemma remote_serving: "serving ps factory remote_run"
  by (rule serving.start [of factory 3]) (simp add: fc_server_create_def remote_run_def)

lemma remote_reached: "reached ps factory remote_run"
  by (rule reached.start [of factory 3]) (simp add: fc_server_create_def remote_run_def)

lemma remote_connected: "connected remote_run" "rn_state remote_run = CONN_WAIT_RESOLVE"
  by (simp_all add: connected_def remote_run_def)

abbreviation small_sizes :: "size_t list" where
  "small_sizes \<equiv> [2, 7, 6]"

lemmas small_factory_ok = remote_factory_ok [of small_sizes, simplified]
lemmas small_offers = remote_offers [of small_sizes, simplified]

section \<open>A client\<close>

definition remote_os :: os where
  "remote_os = \<lparr>os_page_size = 4, os_pick = (\<lambda>m len. Some 4096)\<rparr>"

definition remote_kernel :: kernel where
  "remote_kernel = \<lparr>kn_memfd = 10, kn_ftruncate_ok = True, kn_uffd = 11, kn_api_ok = True, kn_register_ok = True\<rparr>"

definition remote_client :: client where
  "remote_client = fst (fc_client_pool_create (client_init (\<lambda>_. None) {4}) 0)"

lemma remote_client_history: "client_history remote_os peer remote_client ((\<lambda>_. [])(0 := []))"
  by (rule client_history.pool [OF client_history.init]) (simp add: remote_client_def fc_client_pool_create_def client_init_def)

lemma remote_client_facts:
  "0 < os_page_size remote_os" "0 \<in> set (cl_pools remote_client)" "kernel_ok remote_kernel remote_client" "cl_next_region remote_client = 0"
  by (simp_all add: remote_os_def remote_client_def fc_client_pool_create_def client_init_def kernel_ok_def remote_kernel_def)

lemma remote_setup:
  "\<exists>c r. region_setup remote_os remote_kernel remote_client small_sizes (sum_list small_sizes) = Inr (c, r) \<and> cr_base r = 4096 \<and> cr_mapped_size r = 16"
  by (simp add: region_setup_def fill_chunk_start_def u32_add_def size_add_def remote_os_def remote_kernel_def Let_def page_ceil_def page_floor_def
      size_sub_def os_mmap_def round_len_def mem_free_def remote_client_def fc_client_pool_create_def client_init_def)

text \<open>The handshake on these.\<close>

abbreviation small_peer :: "run peer" where
  "small_peer \<equiv> server_peer 4 (remote_factory small_sizes) 7"

lemma remote_attached:
  "\<exists>rn r. serving 4 (remote_factory small_sizes) rn \<and> rn_conn_fd rn = 4 \<and> sv_stop_fd (rn_server rn) = 3 \<and> rn_mm rn = (\<lambda>_ _. None) \<and>
     r \<in> set (sv_regions (rn_server rn)) \<and> sr_descriptor r = [1] \<and> \<lparr>m_uffd = 7, m_base_addr = 4096\<rparr> \<in> set (sr_mappings r)"
proof -
  obtain c r where up: "region_setup remote_os remote_kernel remote_client small_sizes (sum_list small_sizes) = Inr (c, r)" "cr_base r = 4096"
    using remote_setup by blast
  have small: "16 + length [1 :: byte] \<le> FC_WIRE_MSG_MAX" "12 + 8 * length small_sizes \<le> FC_WIRE_MSG_MAX" by (simp_all add: FC_WIRE_MSG_MAX_def)
  have nfd: "(0 :: int) \<le> 7" "7 \<notin> set (uffds (sv_regions (rn_server remote_run)))" "\<forall>a. rn_mm remote_run 7 a = None" by (simp_all add: remote_run_def)
  obtain rn x where rn: "serving 4 (remote_factory small_sizes) rn" "rn_mm rn = rn_mm remote_run"
      "x \<in> set (sv_regions (rn_server rn))" "sr_descriptor x = [1]" "\<lparr>m_uffd = 7, m_base_addr = cr_base r\<rparr> \<in> set (sr_mappings x)"
    using remote_create [OF remote_serving remote_connected small_offers small_factory_ok small nfd up(1) remote_client_facts(1)] by blast
  define rn' where "rn' = rn\<lparr>rn_conn_fd := 4, rn_server := (rn_server rn)\<lparr>sv_stop_fd := 3\<rparr>\<rparr>"
  have "serving 4 (remote_factory small_sizes) rn'" by (rule serving.other [OF rn(1)]) (simp_all add: rn'_def)
  moreover have "rn_conn_fd rn' = 4" "sv_stop_fd (rn_server rn') = 3" "rn_mm rn' = (\<lambda>_ _. None)" "sv_regions (rn_server rn') = sv_regions (rn_server rn)"
    using rn(2) by (simp_all add: rn'_def remote_run_def)
  ultimately show ?thesis using rn(3-5) up(2) by (intro exI [of _ rn'] exI [of _ x]) simp
qed

lemma remote_region:
  "\<exists>c rn. fc_client_region_create remote_os remote_kernel small_peer remote_client remote_run (Some 0) 1 (Some [1]) True True = Inr (c, rn, Inr 0)"
proof -
  obtain c r where up: "region_setup remote_os remote_kernel remote_client small_sizes (sum_list small_sizes) = Inr (c, r)"
    using remote_setup by blast
  have small: "16 + length [1 :: byte] \<le> FC_WIRE_MSG_MAX" "12 + 8 * length small_sizes \<le> FC_WIRE_MSG_MAX" by (simp_all add: FC_WIRE_MSG_MAX_def)
  have nfd: "(0 :: int) \<le> 7" "7 \<notin> set (uffds (sv_regions (rn_server remote_run)))" "\<forall>a. rn_mm remote_run 7 a = None" by (simp_all add: remote_run_def)
  show ?thesis
    using remote_create [OF remote_serving remote_connected small_offers small_factory_ok small nfd up remote_client_facts(1), of 0 True True]
    by (auto simp: remote_client_facts(4))
qed

text \<open>A server that accepts every descriptor with the same layout and then rejects the mapping.\<close>

definition nack_peer :: "unit peer" where
  "nack_peer p msg fd = Some ((), Some (case fd of None \<Rightarrow> accept_reply small_sizes | Some _ \<Rightarrow> [1]))"

lemma nack_create:
  "\<exists>c. fc_client_region_create remote_os remote_kernel nack_peer remote_client () (Some 0) 1 (Some [1]) True True =
     Inr (c, (), Inl (ECONNREFUSED, None))"
proof -
  obtain c r where up: "region_setup remote_os remote_kernel remote_client small_sizes (sum_list small_sizes) = Inr (c, r)"
    using remote_setup by blast
  have "resolve_descriptor nack_peer () [1] True True = Inr ((), Inr small_sizes)"
    by (rule resolve_accepted) (simp_all add: FC_WIRE_MSG_MAX_def nack_peer_def)
  moreover have "send_attach nack_peer () (cr_uffd r) (cr_base r) [1] = Inr ((), Inl ECONNREFUSED)"
    by (simp add: send_attach_def Let_def FC_WIRE_MSG_MAX_def size_add_def nack_peer_def)
  moreover have "sum_chunk_sizes 0 small_sizes = Some (sum_list small_sizes)" by (simp add: size_add_def)
  ultimately show ?thesis using up by (simp add: fc_client_region_create_def attach_region_def del: sum_chunk_sizes.simps sum_list.Cons)
qed

end
