(* ===== verification/Vm_Win32.thy ===== *)
theory Vm_Win32
  imports Vm_Posix
begin

text \<open>
  The Windows implementation of the virtual-memory seam, \<open>vm-win32.c\<close>.  The address space is a list of
  allocations, each a placeholder or a view of a section; protections are per
  address; the API functions the file uses act on it as their documentation says and fail
  (\<open>None\<close>) on anything else.  Which address a new allocation gets is the kernel's choice.
  \<open>w_mem\<close> abstracts a state to the page tables of \<open>Vm_Posix\<close>, so that the two
  implementations of \<open>vm.h\<close> can be compared.
\<close>

section \<open>The address space\<close>

text \<open>A view starts at an offset of its section; the flag says that it replaced a placeholder.\<close>

datatype wkind = Placeholder | View nat size_t bool

record allocation =
  wa_base :: addr
  wa_len :: size_t
  wa_kind :: wkind

record win =
  w_allocs :: "allocation list"
  w_prot :: "addr \<Rightarrow> prot"
  w_section :: "nat \<Rightarrow> byte list"
  w_handles :: "nat set"
  w_next :: nat

record wos =
  wo_page :: size_t
  wo_granularity :: size_t
  wo_pick :: "win \<Rightarrow> size_t \<Rightarrow> addr option"

definition covers :: "allocation \<Rightarrow> addr \<Rightarrow> bool" where
  "covers A x \<longleftrightarrow> wa_base A \<le> x \<and> x < wa_base A + wa_len A"

definition alloc_at :: "win \<Rightarrow> addr \<Rightarrow> allocation option" where
  "alloc_at w x = find (\<lambda>A. covers A x) (w_allocs w)"

definition w_mem :: "win \<Rightarrow> mem" where
  "w_mem w x =
     (case alloc_at w x of
        None \<Rightarrow> None
      | Some A \<Rightarrow> Some (case wa_kind A of
          Placeholder \<Rightarrow> (PROT_NONE, 0)
        | View sec off rp \<Rightarrow> (w_prot w x, w_section w sec ! (off + (x - wa_base A)))))"

definition w_free :: "win \<Rightarrow> addr \<Rightarrow> size_t \<Rightarrow> bool" where
  "w_free w a n \<longleftrightarrow> (\<forall>A\<in>set (w_allocs w). wa_base A + wa_len A \<le> a \<or> a + n \<le> wa_base A)"

section \<open>The API functions\<close>

definition prot_set :: "(addr \<Rightarrow> prot) \<Rightarrow> addr \<Rightarrow> size_t \<Rightarrow> prot \<Rightarrow> addr \<Rightarrow> prot" where
  "prot_set f a n p = (\<lambda>x. if a \<le> x \<and> x < a + n then p else f x)"

definition VirtualQuery_free :: "win \<Rightarrow> addr \<Rightarrow> size_t" where
  "VirtualQuery_free w p = foldr min (map wa_base (filter (\<lambda>A. p < wa_base A) (w_allocs w))) SIZE_RANGE - p"

record mbi =
  mb_BaseAddress :: addr
  mb_AllocationBase :: addr
  mb_RegionSize :: size_t
  mb_free :: bool
  mb_mapped :: bool

text \<open>The region runs from the queried page as long as allocation and protection stay the same.\<close>

definition VirtualQuery :: "wos \<Rightarrow> win \<Rightarrow> addr \<Rightarrow> mbi option" where
  "VirtualQuery os w p =
     (if SIZE_RANGE \<le> p then None
      else case alloc_at w p of
        None \<Rightarrow> Some \<lparr>mb_BaseAddress = page_floor p (wo_page os), mb_AllocationBase = 0,
                  mb_RegionSize = VirtualQuery_free w p, mb_free = True, mb_mapped = False\<rparr>
      | Some A \<Rightarrow> Some \<lparr>mb_BaseAddress = page_floor p (wo_page os), mb_AllocationBase = wa_base A,
                  mb_RegionSize = length (takeWhile (\<lambda>x. wa_kind A = Placeholder \<or> w_prot w x = w_prot w p) [p..<wa_base A + wa_len A]),
                  mb_free = False, mb_mapped = (wa_kind A \<noteq> Placeholder)\<rparr>)"

definition VirtualAlloc2 :: "wos \<Rightarrow> win \<Rightarrow> size_t \<Rightarrow> (addr \<times> win) option" where
  "VirtualAlloc2 os w n =
     (case wo_pick os w n of
        None \<Rightarrow> None
      | Some a \<Rightarrow>
          if n = 0 \<or> a = 0 \<or> \<not> wo_granularity os dvd a \<or> SIZE_RANGE \<le> a + n \<or> \<not> w_free w a n then None
          else Some (a, w\<lparr>w_allocs := \<lparr>wa_base = a, wa_len = n, wa_kind = Placeholder\<rparr> # w_allocs w\<rparr>))"

definition remove_alloc :: "allocation \<Rightarrow> win \<Rightarrow> win" where
  "remove_alloc A w = w\<lparr>w_allocs := filter (\<lambda>B. B \<noteq> A) (w_allocs w)\<rparr>"

definition add_alloc :: "allocation \<Rightarrow> win \<Rightarrow> win" where
  "add_alloc A w = (if wa_len A = 0 then w else w\<lparr>w_allocs := A # w_allocs w\<rparr>)"

text \<open>\<open>UnmapViewOfFile\<close>, and \<open>UnmapViewOfFileEx\<close> with \<open>MEM_PRESERVE_PLACEHOLDER\<close>.\<close>

definition UnmapViewOfFile :: "win \<Rightarrow> addr \<Rightarrow> win option" where
  "UnmapViewOfFile w p =
     (case alloc_at w p of
        Some A \<Rightarrow> if wa_base A = p \<and> wa_kind A \<noteq> Placeholder then Some (remove_alloc A w) else None
      | None \<Rightarrow> None)"

definition UnmapViewOfFileEx :: "win \<Rightarrow> addr \<Rightarrow> win option" where
  "UnmapViewOfFileEx w p =
     (case alloc_at w p of
        Some A \<Rightarrow>
          (case wa_kind A of
             View sec off True \<Rightarrow>
               if wa_base A = p then Some (add_alloc (A\<lparr>wa_kind := Placeholder\<rparr>) (remove_alloc A w)) else None
           | _ \<Rightarrow> None)
      | None \<Rightarrow> None)"

text \<open>\<open>VirtualFree\<close> with \<open>MEM_RELEASE\<close>, and with \<open>MEM_PRESERVE_PLACEHOLDER\<close>, which splits.\<close>

definition VirtualFree_release :: "win \<Rightarrow> addr \<Rightarrow> win option" where
  "VirtualFree_release w p =
     (case alloc_at w p of
        Some A \<Rightarrow> if wa_base A = p \<and> wa_kind A = Placeholder then Some (remove_alloc A w) else None
      | None \<Rightarrow> None)"

definition VirtualFree_split :: "win \<Rightarrow> addr \<Rightarrow> size_t \<Rightarrow> win option" where
  "VirtualFree_split w p n =
     (case alloc_at w p of
        Some A \<Rightarrow>
          if wa_kind A = Placeholder \<and> 0 < n \<and> n < wa_len A \<and> p + n \<le> wa_base A + wa_len A
          then Some (add_alloc \<lparr>wa_base = wa_base A, wa_len = p - wa_base A, wa_kind = Placeholder\<rparr>
                    (add_alloc \<lparr>wa_base = p, wa_len = n, wa_kind = Placeholder\<rparr>
                    (add_alloc \<lparr>wa_base = p + n, wa_len = wa_base A + wa_len A - (p + n), wa_kind = Placeholder\<rparr>
                    (remove_alloc A w))))
          else None
      | None \<Rightarrow> None)"

definition VirtualProtect :: "win \<Rightarrow> addr \<Rightarrow> size_t \<Rightarrow> prot \<Rightarrow> win option" where
  "VirtualProtect w a n p =
     (case alloc_at w a of
        Some A \<Rightarrow>
          if wa_kind A \<noteq> Placeholder \<and> 0 < n \<and> a + n \<le> wa_base A + wa_len A
          then Some (w\<lparr>w_prot := prot_set (w_prot w) a n p\<rparr>) else None
      | None \<Rightarrow> None)"

definition CreateFileMapping :: "win \<Rightarrow> size_t \<Rightarrow> bool \<Rightarrow> (nat \<times> win) option" where
  "CreateFileMapping w n ok =
     (if n = 0 \<or> \<not> ok then None
      else let sec = w_next w in
        Some (sec, w\<lparr>w_section := (w_section w)(sec := replicate n 0), w_handles := insert sec (w_handles w), w_next := Suc sec\<rparr>))"

definition MapViewOfFile :: "wos \<Rightarrow> win \<Rightarrow> nat \<Rightarrow> size_t \<Rightarrow> (addr \<times> win) option" where
  "MapViewOfFile os w sec n =
     (case wo_pick os w n of
        None \<Rightarrow> None
      | Some a \<Rightarrow>
          if sec \<notin> w_handles w \<or> n = 0 \<or> length (w_section w sec) < n \<or> a = 0 \<or> \<not> wo_granularity os dvd a
             \<or> SIZE_RANGE \<le> a + n \<or> \<not> w_free w a n then None
          else Some (a, w\<lparr>w_allocs := \<lparr>wa_base = a, wa_len = n, wa_kind = View sec 0 False\<rparr> # w_allocs w,
                        w_prot := prot_set (w_prot w) a n PROT_RW\<rparr>))"

text \<open>\<open>MapViewOfFile3\<close> with \<open>MEM_REPLACE_PLACEHOLDER\<close> and \<open>PAGE_READONLY\<close>.\<close>

definition MapViewOfFile3 :: "wos \<Rightarrow> win \<Rightarrow> nat \<Rightarrow> addr \<Rightarrow> size_t \<Rightarrow> size_t \<Rightarrow> (addr \<times> win) option" where
  "MapViewOfFile3 os w sec target off n =
     (case alloc_at w target of
        Some A \<Rightarrow>
          if A = \<lparr>wa_base = target, wa_len = n, wa_kind = Placeholder\<rparr> \<and> sec \<in> w_handles w \<and>
             wo_granularity os dvd target \<and> wo_granularity os dvd off \<and> off + n \<le> length (w_section w sec)
          then Some (target, (add_alloc \<lparr>wa_base = target, wa_len = n, wa_kind = View sec off True\<rparr> (remove_alloc A w))
                 \<lparr>w_prot := prot_set (w_prot w) target n PROT_READ\<rparr>)
          else None
      | None \<Rightarrow> None)"

definition CloseHandle :: "win \<Rightarrow> nat \<Rightarrow> win option" where
  "CloseHandle w sec = (if sec \<in> w_handles w then Some (w\<lparr>w_handles := w_handles w - {sec}\<rparr>) else None)"

text \<open>A store through a view writes the section, so every view of those bytes sees it.\<close>

definition win_store :: "win \<Rightarrow> addr \<Rightarrow> byte list \<Rightarrow> win option" where
  "win_store w a bs =
     (case alloc_at w a of
        Some A \<Rightarrow>
          (case wa_kind A of
             Placeholder \<Rightarrow> None
           | View sec off rp \<Rightarrow>
               if a + length bs \<le> wa_base A + wa_len A \<and> (\<forall>x\<in>{a..<a + length bs}. w_prot w x = PROT_RW)
               then let i = off + (a - wa_base A); old = w_section w sec in
                 Some (w\<lparr>w_section := (w_section w)(sec := take i old @ bs @ drop (i + length bs) old)\<rparr>)
               else None)
      | None \<Rightarrow> None)"

text \<open>\<open>FC_ASSERT\<close> around a call that may fail.\<close>

definition must :: "string \<Rightarrow> 'a option \<Rightarrow> 'a res" where
  "must what r = (case r of None \<Rightarrow> Inl (Assert_failed what) | Some x \<Rightarrow> Inr x)"

section \<open>The functions of \<open>vm-win32.c\<close>\<close>

definition win_page_size :: "wos \<Rightarrow> size_t" where
  "win_page_size os = wo_granularity os"

definition win_reserve :: "wos \<Rightarrow> win \<Rightarrow> size_t \<Rightarrow> (addr \<times> win) res" where
  "win_reserve os w n = (case VirtualAlloc2 os w n of None \<Rightarrow> Inl (Map_failed ''vm_reserve'') | Some r \<Rightarrow> Inr r)"

partial_function (option) win_release_loop :: "wos \<Rightarrow> win \<Rightarrow> addr \<Rightarrow> addr \<Rightarrow> win res option" where
  "win_release_loop os w p stop =
     (if p < stop then
        case VirtualQuery os w p of
          None \<Rightarrow> Some (Inl (Assert_failed ''VirtualQuery''))
        | Some mbi \<Rightarrow>
            (case (if mb_free mbi then Inr w
                   else if mb_mapped mbi then must ''UnmapViewOfFile'' (UnmapViewOfFile w p)
                   else must ''VirtualFree'' (VirtualFree_release w p)) of
               Inl e \<Rightarrow> Some (Inl e)
             | Inr w \<Rightarrow> win_release_loop os w (p + mb_RegionSize mbi) stop)
      else Some (Inr w))"

definition win_release :: "wos \<Rightarrow> win \<Rightarrow> addr \<Rightarrow> size_t \<Rightarrow> win res" where
  "win_release os w base n =
     (case win_release_loop os w base (base + n) of None \<Rightarrow> Inl (Diverged ''vm_release'') | Some r \<Rightarrow> r)"

definition win_set_readable :: "win \<Rightarrow> addr \<Rightarrow> size_t \<Rightarrow> bool \<Rightarrow> win res" where
  "win_set_readable w a n readable =
     must ''VirtualProtect'' (VirtualProtect w a n (if readable then PROT_READ else PROT_NONE))"

partial_function (option) win_decommit_loop :: "wos \<Rightarrow> win \<Rightarrow> addr \<Rightarrow> addr \<Rightarrow> win res option" where
  "win_decommit_loop os w p stop =
     (if p < stop then
        case VirtualQuery os w p of
          None \<Rightarrow> Some (Inl (Assert_failed ''VirtualQuery''))
        | Some mbi \<Rightarrow>
            (case (if mb_mapped mbi then must ''UnmapViewOfFileEx'' (UnmapViewOfFileEx w p) else Inr w) of
               Inl e \<Rightarrow> Some (Inl e)
             | Inr w \<Rightarrow> win_decommit_loop os w (p + mb_RegionSize mbi) stop)
      else Some (Inr w))"

definition win_decommit :: "wos \<Rightarrow> win \<Rightarrow> addr \<Rightarrow> size_t \<Rightarrow> win res" where
  "win_decommit os w a n =
     (case win_decommit_loop os w a (a + n) of None \<Rightarrow> Inl (Diverged ''vm_decommit'') | Some r \<Rightarrow> r)"

text \<open>The flag: the kernel has room for the section.\<close>

definition win_scratch_create :: "wos \<Rightarrow> win \<Rightarrow> size_t \<Rightarrow> bool \<Rightarrow> (vm_scratch \<times> win) res" where
  "win_scratch_create os w n ok =
     (case CreateFileMapping w n ok of
        None \<Rightarrow> Inl (Map_failed ''vm_scratch_create'')
      | Some (sec, w) \<Rightarrow>
          (case MapViewOfFile os w sec n of
             None \<Rightarrow> Inl (Map_failed ''vm_scratch_create'')
           | Some (a, w) \<Rightarrow> Inr (\<lparr>s_addr = a, s_size = n, s_section = sec, s_consumed = 0\<rparr>, w)))"

definition win_scratch_seal :: "win \<Rightarrow> vm_scratch \<Rightarrow> win res" where
  "win_scratch_seal w s = must ''VirtualProtect'' (VirtualProtect w (s_addr s) (s_size s) PROT_READ)"

definition scratch_consume :: "win \<Rightarrow> vm_scratch \<Rightarrow> size_t \<Rightarrow> (vm_scratch \<times> win) res" where
  "scratch_consume w s len =
     (let s = s\<lparr>s_consumed := size_add (s_consumed s) len\<rparr> in
      fc_assert ''s->consumed <= s->size'' (s_consumed s \<le> s_size s)
        (if s_consumed s = s_size s then
           res_bind (must ''UnmapViewOfFile'' (UnmapViewOfFile w (s_addr s))) (\<lambda>w.
           res_bind (must ''CloseHandle'' (CloseHandle w (s_section s))) (\<lambda>w.
           Inr (s\<lparr>s_addr := 0\<rparr>, w)))
         else Inr (s, w)))"

definition win_scratch_publish :: "wos \<Rightarrow> win \<Rightarrow> vm_scratch \<Rightarrow> size_t \<Rightarrow> size_t \<Rightarrow> addr \<Rightarrow> (vm_scratch \<times> win) res" where
  "win_scratch_publish os w s off len target =
     res_bind (must ''VirtualQuery'' (VirtualQuery os w target)) (\<lambda>mbi.
     res_bind (if mb_BaseAddress mbi \<noteq> target \<or> mb_RegionSize mbi \<noteq> len \<or> mb_AllocationBase mbi \<noteq> target
               then must ''VirtualFree'' (VirtualFree_split w target len) else Inr w) (\<lambda>w.
     res_bind (must ''got == target'' (MapViewOfFile3 os w (s_section s) target off len)) (\<lambda>(got, w).
     fc_assert ''got == target'' (got = target) (scratch_consume w s len))))"

definition win_scratch_discard :: "win \<Rightarrow> vm_scratch \<Rightarrow> size_t \<Rightarrow> size_t \<Rightarrow> (vm_scratch \<times> win) res" where
  "win_scratch_discard w s off len = scratch_consume w s len"

end
