(* ===== verification/Vm_Win32_Inv.thy ===== *)
theory Vm_Win32_Inv
  imports Vm_Win32
begin

text \<open>
  The Windows seam keeps the contract of \<open>vm.h\<close>: the two walks end, releasing and decommitting do to the page
  tables what their POSIX counterparts do, and the life of a scratch buffer (seal, publish, discard)
  leaves exactly the page tables the POSIX implementation leaves, although published bytes
  are a second view of the section and the staging view goes only with the last piece.
\<close>

section \<open>Allocations\<close>

definition w_ok :: "wos \<Rightarrow> win \<Rightarrow> bool" where
  "w_ok os w \<longleftrightarrow> 0 < wo_page os \<and> wo_page os dvd wo_granularity os \<and> 0 < wo_granularity os \<and>
     (\<forall>A\<in>set (w_allocs w). 0 < wa_base A \<and> 0 < wa_len A \<and> wa_base A + wa_len A \<le> SIZE_RANGE \<and>
        wo_granularity os dvd wa_base A \<and> wo_granularity os dvd wa_len A) \<and>
     (\<forall>A\<in>set (w_allocs w). \<forall>B\<in>set (w_allocs w). \<forall>x. covers A x \<longrightarrow> covers B x \<longrightarrow> A = B) \<and>
     (\<forall>A\<in>set (w_allocs w). \<forall>sec off rp. wa_kind A = View sec off rp \<longrightarrow> sec < w_next w)"

definition cell :: "win \<Rightarrow> allocation \<Rightarrow> addr \<Rightarrow> prot \<times> byte" where
  "cell w A x = (case wa_kind A of Placeholder \<Rightarrow> (PROT_NONE, 0)
     | View sec off rp \<Rightarrow> (w_prot w x, w_section w sec ! (off + (x - wa_base A))))"

lemma w_mem_cell: "w_mem w x = map_option (\<lambda>A. cell w A x) (alloc_at w x)"
  by (simp add: w_mem_def cell_def split: option.split)

lemma cell_cong: "w_prot w' x = w_prot w x \<Longrightarrow> w_section w' = w_section w \<Longrightarrow> cell w' A x = cell w A x"
  by (simp add: cell_def split: wkind.split)

lemma alloc_at_SomeD: "alloc_at w x = Some A \<Longrightarrow> A \<in> set (w_allocs w) \<and> covers A x"
  by (auto simp: alloc_at_def find_Some_iff)

lemma alloc_at_None: "alloc_at w x = None \<longleftrightarrow> (\<forall>A\<in>set (w_allocs w). \<not> covers A x)"
  by (auto simp: alloc_at_def find_None_iff)

lemma w_okD:
  assumes "w_ok os w"
  shows "0 < wo_granularity os" "0 < wo_page os" "wo_page os dvd wo_granularity os"
    "A \<in> set (w_allocs w) \<Longrightarrow> 0 < wa_base A \<and> 0 < wa_len A \<and> wa_base A + wa_len A \<le> SIZE_RANGE"
    "A \<in> set (w_allocs w) \<Longrightarrow> wo_granularity os dvd wa_base A" "A \<in> set (w_allocs w) \<Longrightarrow> wo_granularity os dvd wa_len A"
    "A \<in> set (w_allocs w) \<Longrightarrow> B \<in> set (w_allocs w) \<Longrightarrow> covers A x \<Longrightarrow> covers B x \<Longrightarrow> A = B"
    "A \<in> set (w_allocs w) \<Longrightarrow> wa_kind A = View sec off rp \<Longrightarrow> sec < w_next w"
  using assms unfolding w_ok_def by blast+

lemma alloc_at_eq:
  assumes "w_ok os w" "A \<in> set (w_allocs w)" "covers A x"
  shows "alloc_at w x = Some A"
proof (cases "alloc_at w x")
  case None
  then show ?thesis using assms(2,3) by (auto simp: alloc_at_None)
next
  case (Some B)
  then show ?thesis using alloc_at_SomeD [OF Some] w_okD(7) [OF assms(1,2)] assms(3) by auto
qed

lemma alloc_at_base: "w_ok os w \<Longrightarrow> A \<in> set (w_allocs w) \<Longrightarrow> alloc_at w (wa_base A) = Some A"
  using w_okD(4) by (intro alloc_at_eq) (auto simp: covers_def)

lemma covers_disjoint:
  assumes "\<And>x. covers A x \<Longrightarrow> covers B x \<Longrightarrow> False" "0 < wa_len A" "0 < wa_len B"
  shows "wa_base A + wa_len A \<le> wa_base B \<or> wa_base B + wa_len B \<le> wa_base A"
proof (rule ccontr)
  assume "\<not> ?thesis"
  then have "covers A (max (wa_base A) (wa_base B))" "covers B (max (wa_base A) (wa_base B))"
    using assms(2,3) by (auto simp: covers_def)
  then show False by (rule assms(1))
qed

text \<open>Removing and adding an allocation.\<close>

lemma remove_alloc_ok:
  assumes "w_ok os w" "A \<in> set (w_allocs w)"
  shows "w_ok os (remove_alloc A w)" "w_mem (remove_alloc A w) x = (if covers A x then None else w_mem w x)"
    "w_section (remove_alloc A w) = w_section w" "w_handles (remove_alloc A w) = w_handles w" "w_prot (remove_alloc A w) = w_prot w"
    "set (w_allocs (remove_alloc A w)) = set (w_allocs w) - {A}" "w_next (remove_alloc A w) = w_next w"
proof -
  show ok: "w_ok os (remove_alloc A w)" using assms(1) unfolding w_ok_def remove_alloc_def by auto
  show mem: "set (w_allocs (remove_alloc A w)) = set (w_allocs w) - {A}" by (auto simp: remove_alloc_def)
  have at: "alloc_at (remove_alloc A w) x = (if covers A x then None else alloc_at w x)"
  proof (cases "covers A x")
    case True
    then show ?thesis using mem w_okD(7) [OF assms(1,2)] by (auto simp: alloc_at_None)
  next
    case False
    show ?thesis
    proof (cases "alloc_at w x")
      case None
      then have "alloc_at (remove_alloc A w) x = None" using mem unfolding alloc_at_None by blast
      then show ?thesis using None False by simp
    next
      case (Some B)
      then have "B \<in> set (w_allocs (remove_alloc A w))" "covers B x" using alloc_at_SomeD [OF Some] False mem by auto
      then show ?thesis using alloc_at_eq [OF ok] False Some by simp
    qed
  qed
  then show "w_mem (remove_alloc A w) x = (if covers A x then None else w_mem w x)"
    by (simp add: w_mem_cell cell_def remove_alloc_def cong: wkind.case_cong)
qed (simp_all add: remove_alloc_def)

lemma add_alloc_ok:
  assumes "w_ok os w" "0 < wa_base A" "0 < wa_len A" "wa_base A + wa_len A \<le> SIZE_RANGE"
    "wo_granularity os dvd wa_base A" "wo_granularity os dvd wa_len A"
    "\<And>x. covers A x \<Longrightarrow> w_mem w x = None" "\<And>sec off rp. wa_kind A = View sec off rp \<Longrightarrow> sec < w_next w"
  shows "w_ok os (add_alloc A w)" "w_mem (add_alloc A w) x = (if covers A x then Some (cell w A x) else w_mem w x)"
    "w_section (add_alloc A w) = w_section w" "w_handles (add_alloc A w) = w_handles w" "w_prot (add_alloc A w) = w_prot w"
    "w_allocs (add_alloc A w) = A # w_allocs w" "w_next (add_alloc A w) = w_next w"
proof -
  have free: "\<not> covers B x" if "covers A x" "B \<in> set (w_allocs w)" for B x
    using assms(7) [OF that(1)] that(2) by (auto simp: w_mem_cell alloc_at_None)
  show al: "w_allocs (add_alloc A w) = A # w_allocs w" using assms(3) by (simp add: add_alloc_def)
  then show "w_ok os (add_alloc A w)" using assms(1-6,8) free unfolding w_ok_def by (auto simp: add_alloc_def)
  have "alloc_at (add_alloc A w) x = (if covers A x then Some A else alloc_at w x)" by (simp add: alloc_at_def al)
  then show "w_mem (add_alloc A w) x = (if covers A x then Some (cell w A x) else w_mem w x)"
    by (simp add: w_mem_cell cell_def add_alloc_def cong: wkind.case_cong)
qed (simp_all add: add_alloc_def)

lemma replace_alloc_ok:
  assumes "w_ok os w" "A \<in> set (w_allocs w)" "wa_base B = wa_base A" "wa_len B = wa_len A"
    "\<And>sec off rp. wa_kind B = View sec off rp \<Longrightarrow> sec < w_next w"
  defines "w' \<equiv> add_alloc B (remove_alloc A w)"
  shows "w_ok os w'" "w_mem w' x = (if covers A x then Some (cell w B x) else w_mem w x)"
    "w_section w' = w_section w" "w_handles w' = w_handles w" "w_prot w' = w_prot w"
    "set (w_allocs w') = insert B (set (w_allocs w) - {A})" "w_next w' = w_next w"
proof -
  note R = remove_alloc_ok [OF assms(1,2)]
  have cov: "covers B = covers A" using assms(3,4) by (simp add: fun_eq_iff covers_def)
  have free: "w_mem (remove_alloc A w) x = None" if "covers B x" for x using R(2) that cov by simp
  have B: "0 < wa_base B" "0 < wa_len B" "wa_base B + wa_len B \<le> SIZE_RANGE"
      "wo_granularity os dvd wa_base B" "wo_granularity os dvd wa_len B"
    using w_okD(4-6) [OF assms(1,2)] assms(3,4) by auto
  have secs: "sec < w_next (remove_alloc A w)" if "wa_kind B = View sec off rp" for sec off rp
    using assms(5) [OF that] R(7) by simp
  note a = add_alloc_ok [OF R(1) B free secs]
  show "w_ok os w'" "w_section w' = w_section w" "w_handles w' = w_handles w" "w_prot w' = w_prot w"
    "set (w_allocs w') = insert B (set (w_allocs w) - {A})" "w_next w' = w_next w"
    using a(1,3-7) R(3-7) by (simp_all add: w'_def)
  show "w_mem w' x = (if covers A x then Some (cell w B x) else w_mem w x)"
    using a(2) [where x = x] R(2) [of x] cov cell_cong [of "remove_alloc A w" x w B] R(3,5) by (simp add: w'_def)
qed

text \<open>A new protection on a range that lies in one view.\<close>

lemma set_prot_ok:
  fixes p :: prot
  assumes "w_ok os w" "A \<in> set (w_allocs w)" "wa_kind A \<noteq> Placeholder" "wa_base A \<le> a" "a + n \<le> wa_base A + wa_len A"
  defines "w' \<equiv> w\<lparr>w_prot := prot_set (w_prot w) a n p\<rparr>"
  shows "w_ok os w'" "w_mem w' = mem_protect (w_mem w) a n p"
proof -
  show "w_ok os w'" using assms(1) by (simp add: w_ok_def w'_def)
  have same: "alloc_at w' x = alloc_at w x" for x by (simp add: alloc_at_def w'_def)
  have "w_mem w' x = mem_protect (w_mem w) a n p x" for x
  proof (cases "a \<le> x \<and> x < a + n")
    case True
    then have "alloc_at w x = Some A" using assms(2,4,5) by (intro alloc_at_eq [OF assms(1)]) (auto simp: covers_def)
    then show ?thesis using True assms(3) same by (cases "wa_kind A") (auto simp: w_mem_cell cell_def w'_def prot_set_def)
  next
    case False
    then have "cell w' B x = cell w B x" for B by (intro cell_cong) (auto simp: w'_def prot_set_def)
    then show ?thesis using same False by (simp add: w_mem_cell)
  qed
  then show "w_mem w' = mem_protect (w_mem w) a n p" by (simp add: fun_eq_iff)
qed

section \<open>Queries\<close>

lemma foldr_min_le: "a \<in> set xs \<Longrightarrow> foldr min xs z \<le> (a :: nat)"
  by (induction xs) (auto simp: min_le_iff_disj)

lemma foldr_min_gt: "(\<And>a. a \<in> set xs \<Longrightarrow> p < a) \<Longrightarrow> p < z \<Longrightarrow> (p :: nat) < foldr min xs z"
  by (induction xs) auto

lemma VirtualQuery_free_step:
  assumes "p < SIZE_RANGE"
  shows "0 < VirtualQuery_free w p" "A \<in> set (w_allocs w) \<Longrightarrow> p < wa_base A \<Longrightarrow> p + VirtualQuery_free w p \<le> wa_base A"
proof -
  let ?L = "map wa_base (filter (\<lambda>A. p < wa_base A) (w_allocs w))"
  have "p < foldr min ?L SIZE_RANGE" using assms by (intro foldr_min_gt) auto
  then show "0 < VirtualQuery_free w p" "A \<in> set (w_allocs w) \<Longrightarrow> p < wa_base A \<Longrightarrow> p + VirtualQuery_free w p \<le> wa_base A"
    using foldr_min_le [of "wa_base A" ?L SIZE_RANGE] by (auto simp: VirtualQuery_free_def)
qed

lemma takeWhile_run:
  assumes "P p" "p < (e :: nat)"
  shows "0 < length (takeWhile P [p..<e])" "p + length (takeWhile P [p..<e]) \<le> e"
  using assms length_takeWhile_le [of P "[p..<e]"] by (auto simp: upt_conv_Cons simp del: takeWhile_eq_Nil_iff)

lemma VirtualQuery_Some:
  assumes "alloc_at w p = Some A" "p < SIZE_RANGE"
  obtains k where "VirtualQuery os w p = Some \<lparr>mb_BaseAddress = page_floor p (wo_page os), mb_AllocationBase = wa_base A,
      mb_RegionSize = k, mb_free = False, mb_mapped = (wa_kind A \<noteq> Placeholder)\<rparr>"
    "0 < k" "p + k \<le> wa_base A + wa_len A" "wa_kind A = Placeholder \<Longrightarrow> p + k = wa_base A + wa_len A"
proof -
  let ?P = "\<lambda>x. wa_kind A = Placeholder \<or> w_prot w x = w_prot w p"
  let ?k = "length (takeWhile ?P [p..<wa_base A + wa_len A])"
  have p: "p < wa_base A + wa_len A" using alloc_at_SomeD [OF assms(1)] by (simp add: covers_def)
  have "length (takeWhile ?P [p..<wa_base A + wa_len A]) = length [p..<wa_base A + wa_len A]" if "wa_kind A = Placeholder"
    by (rule arg_cong [where f = length]) (use that in \<open>simp add: takeWhile_eq_all_conv\<close>)
  then have "p + ?k = wa_base A + wa_len A" if "wa_kind A = Placeholder" using that p by simp
  then show thesis using that [of ?k] takeWhile_run [of ?P p "wa_base A + wa_len A"] p assms by (simp add: VirtualQuery_def)
qed

lemma VirtualQuery_None:
  "alloc_at w p = None \<Longrightarrow> p < SIZE_RANGE \<Longrightarrow> VirtualQuery os w p = Some \<lparr>mb_BaseAddress = page_floor p (wo_page os),
     mb_AllocationBase = 0, mb_RegionSize = VirtualQuery_free w p, mb_free = True, mb_mapped = False\<rparr>"
  by (simp add: VirtualQuery_def)

section \<open>The walks\<close>

text \<open>Every allocation that meets the range lies inside it.\<close>

definition tiled :: "win \<Rightarrow> addr \<Rightarrow> addr \<Rightarrow> bool" where
  "tiled w p stop \<longleftrightarrow> (\<forall>A\<in>set (w_allocs w). wa_base A < stop \<longrightarrow> p < wa_base A + wa_len A \<longrightarrow>
     p \<le> wa_base A \<and> wa_base A + wa_len A \<le> stop)"

text \<open>One round of the walk: over a gap, or over the allocation that begins there.\<close>

definition release_step :: "wos \<Rightarrow> win \<Rightarrow> addr \<Rightarrow> addr \<Rightarrow> mbi \<Rightarrow> win \<Rightarrow> bool" where
  "release_step os w p stop mbi w1 \<longleftrightarrow> VirtualQuery os w p = Some mbi \<and> 0 < mb_RegionSize mbi \<and>
     (if mb_free mbi then Inr w else if mb_mapped mbi then must ''UnmapViewOfFile'' (UnmapViewOfFile w p)
      else must ''VirtualFree'' (VirtualFree_release w p)) = Inr w1 \<and>
     w_ok os w1 \<and> tiled w1 (p + mb_RegionSize mbi) stop \<and>
     (\<forall>x. w_mem w1 x = (if p \<le> x \<and> x < p + mb_RegionSize mbi \<and> x < stop then None else w_mem w1 x)) \<and>
     (\<forall>x. \<not> (p \<le> x \<and> x < stop) \<longrightarrow> w_mem w1 x = w_mem w x) \<and>
     {A \<in> set (w_allocs w1). \<not> (p + mb_RegionSize mbi \<le> wa_base A \<and> wa_base A < stop)} =
       {A \<in> set (w_allocs w). \<not> (p \<le> wa_base A \<and> wa_base A < stop)}"

lemma release_step_free:
  assumes "w_ok os w" "tiled w p stop" "p < SIZE_RANGE" "alloc_at w p = None"
  shows "\<exists>mbi w1. release_step os w p stop mbi w1"
proof -
  let ?k = "VirtualQuery_free w p"
  have far: "p + ?k \<le> wa_base A" if "A \<in> set (w_allocs w)" "p \<le> wa_base A" for A
    using VirtualQuery_free_step(2) [OF assms(3) that(1)] that assms(4) w_okD(4) [OF assms(1) that(1)]
    by (cases "wa_base A = p") (auto simp: alloc_at_None covers_def)
  have "tiled w (p + ?k) stop" using assms(2) far unfolding tiled_def by fastforce
  moreover have "w_mem w x = None" if "p \<le> x" "x < p + ?k" "x < stop" for x
  proof -
    have "\<not> covers A x" if A: "A \<in> set (w_allocs w)" for A
      using assms(2) A far [OF A] \<open>p \<le> x\<close> \<open>x < p + ?k\<close> \<open>x < stop\<close> unfolding tiled_def covers_def by fastforce
    then show ?thesis by (simp add: w_mem_cell alloc_at_None)
  qed
  moreover have "{A \<in> set (w_allocs w). \<not> (p + ?k \<le> wa_base A \<and> wa_base A < stop)} =
      {A \<in> set (w_allocs w). \<not> (p \<le> wa_base A \<and> wa_base A < stop)}" using far by fastforce
  ultimately have "release_step os w p stop \<lparr>mb_BaseAddress = page_floor p (wo_page os), mb_AllocationBase = 0,
      mb_RegionSize = ?k, mb_free = True, mb_mapped = False\<rparr> w"
    unfolding release_step_def using VirtualQuery_None [OF assms(4,3)] VirtualQuery_free_step(1) [OF assms(3)] assms(1) by simp
  then show ?thesis by blast
qed

lemma release_step_alloc:
  assumes "w_ok os w" "tiled w p stop" "p < stop" "p < SIZE_RANGE" "alloc_at w p = Some A"
  shows "\<exists>mbi w1. release_step os w p stop mbi w1"
proof -
  have A: "A \<in> set (w_allocs w)" "covers A p" using alloc_at_SomeD [OF assms(5)] by auto
  have base: "wa_base A = p" "p + wa_len A \<le> stop" using assms(2,3) A unfolding tiled_def covers_def by fastforce+
  obtain k where q: "VirtualQuery os w p = Some \<lparr>mb_BaseAddress = page_floor p (wo_page os), mb_AllocationBase = wa_base A,
      mb_RegionSize = k, mb_free = False, mb_mapped = (wa_kind A \<noteq> Placeholder)\<rparr>" and k: "0 < k" "p + k \<le> wa_base A + wa_len A"
    using VirtualQuery_Some [OF assms(5,4)] by blast
  note R = remove_alloc_ok [OF assms(1) A(1)]
  have next_base: "p + k \<le> wa_base B" if B: "B \<in> set (w_allocs w)" "B \<noteq> A" "p \<le> wa_base B" for B
    using covers_disjoint [of A B] w_okD(7) [OF assms(1) A(1) B(1)] w_okD(4) [OF assms(1)] A B base k by fastforce
  then have "tiled (remove_alloc A w) (p + k) stop" using assms(2) R(6) k base unfolding tiled_def by fastforce
  moreover have "w_mem (remove_alloc A w) x = None" if "p \<le> x" "x < p + k" for x using R(2) that base k by (simp add: covers_def)
  moreover have "w_mem (remove_alloc A w) x = w_mem w x" if "\<not> (p \<le> x \<and> x < stop)" for x using R(2) that base by (auto simp: covers_def)
  moreover have "{B \<in> set (w_allocs (remove_alloc A w)). \<not> (p + k \<le> wa_base B \<and> wa_base B < stop)} =
      {B \<in> set (w_allocs w). \<not> (p \<le> wa_base B \<and> wa_base B < stop)}" unfolding R(6) using next_base base assms(3) by fastforce
  moreover have "(if wa_kind A \<noteq> Placeholder then must ''UnmapViewOfFile'' (UnmapViewOfFile w p)
      else must ''VirtualFree'' (VirtualFree_release w p)) = Inr (remove_alloc A w)"
    using assms(5) base(1) by (simp add: must_def UnmapViewOfFile_def VirtualFree_release_def)
  ultimately have "release_step os w p stop \<lparr>mb_BaseAddress = page_floor p (wo_page os), mb_AllocationBase = wa_base A,
      mb_RegionSize = k, mb_free = False, mb_mapped = (wa_kind A \<noteq> Placeholder)\<rparr> (remove_alloc A w)"
    unfolding release_step_def using q k(1) R(1) by simp
  then show ?thesis by blast
qed

lemma win_release_loop_ok:
  assumes "w_ok os w" "tiled w p stop" "stop \<le> SIZE_RANGE"
  shows "\<exists>w'. win_release_loop os w p stop = Some (Inr w') \<and> w_ok os w' \<and>
    w_mem w' = (\<lambda>x. if p \<le> x \<and> x < stop then None else w_mem w x) \<and>
    set (w_allocs w') = {A \<in> set (w_allocs w). \<not> (p \<le> wa_base A \<and> wa_base A < stop)}"
  using assms
proof (induction "stop - p" arbitrary: p w rule: less_induct)
  case less
  show ?case
  proof (cases "p < stop")
    case False
    then have "win_release_loop os w p stop = Some (Inr w)" by (subst win_release_loop.simps) simp
    then show ?thesis using less.prems(1) False by (intro exI [of _ w]) (auto simp: fun_eq_iff)
  next
    case True
    then have "p < SIZE_RANGE" using less.prems(3) by simp
    then obtain mbi w1 where "release_step os w p stop mbi w1"
      using release_step_free [OF less.prems(1,2)] release_step_alloc [OF less.prems(1,2) True] by (metis option.exhaust)
    then have q: "VirtualQuery os w p = Some mbi" and k: "0 < mb_RegionSize mbi"
      and u: "(if mb_free mbi then Inr w else if mb_mapped mbi then must ''UnmapViewOfFile'' (UnmapViewOfFile w p)
        else must ''VirtualFree'' (VirtualFree_release w p)) = Inr w1"
      and w1: "w_ok os w1" "tiled w1 (p + mb_RegionSize mbi) stop"
      and m: "\<And>x. w_mem w1 x = (if p \<le> x \<and> x < p + mb_RegionSize mbi \<and> x < stop then None else w_mem w1 x)"
        "\<And>x. \<not> (p \<le> x \<and> x < stop) \<Longrightarrow> w_mem w1 x = w_mem w x"
      and al: "{A \<in> set (w_allocs w1). \<not> (p + mb_RegionSize mbi \<le> wa_base A \<and> wa_base A < stop)} =
         {A \<in> set (w_allocs w). \<not> (p \<le> wa_base A \<and> wa_base A < stop)}"
      unfolding release_step_def by blast+
    obtain w' where w': "win_release_loop os w1 (p + mb_RegionSize mbi) stop = Some (Inr w')" "w_ok os w'"
        "w_mem w' = (\<lambda>x. if p + mb_RegionSize mbi \<le> x \<and> x < stop then None else w_mem w1 x)"
        "set (w_allocs w') = {A \<in> set (w_allocs w1). \<not> (p + mb_RegionSize mbi \<le> wa_base A \<and> wa_base A < stop)}"
      using less.hyps [OF _ w1 less.prems(3)] diff_less_mono2 [of p "p + mb_RegionSize mbi" stop] k True by auto
    have "w_mem w' x = (if p \<le> x \<and> x < stop then None else w_mem w x)" for x
      using m(1) [of x] m(2) [of x] by (cases "x < p + mb_RegionSize mbi") (auto simp: w'(3))
    moreover have "win_release_loop os w p stop = Some (Inr w')"
      using True q u w'(1) by (subst win_release_loop.simps) simp
    ultimately show ?thesis using w'(2,4) al by (auto simp: fun_eq_iff)
  qed
qed

text \<open>Decommitting: every view that meets the range lies inside it and replaced a placeholder.\<close>

definition views_within :: "win \<Rightarrow> addr \<Rightarrow> addr \<Rightarrow> bool" where
  "views_within w p stop \<longleftrightarrow> (\<forall>A\<in>set (w_allocs w). wa_kind A \<noteq> Placeholder \<longrightarrow> wa_base A < stop \<longrightarrow> p < wa_base A + wa_len A \<longrightarrow>
     p \<le> wa_base A \<and> wa_base A + wa_len A \<le> stop \<and> (\<exists>sec off. wa_kind A = View sec off True))"

definition decommitted :: "mem \<Rightarrow> addr \<Rightarrow> addr \<Rightarrow> mem" where
  "decommitted m p stop = (\<lambda>x. if p \<le> x \<and> x < stop then map_option (\<lambda>_. (PROT_NONE, 0)) (m x) else m x)"

text \<open>The views that begin in the range become placeholders.\<close>

definition unview :: "addr \<Rightarrow> addr \<Rightarrow> allocation \<Rightarrow> allocation" where
  "unview p stop A = (if wa_kind A \<noteq> Placeholder \<and> p \<le> wa_base A \<and> wa_base A < stop then A\<lparr>wa_kind := Placeholder\<rparr> else A)"

lemma unview_later:
  assumes "\<And>A. A \<in> X \<Longrightarrow> wa_kind A \<noteq> Placeholder \<Longrightarrow> p \<le> wa_base A \<Longrightarrow> p + k \<le> wa_base A"
  shows "unview (p + k) stop ` X = unview p stop ` X"
proof (rule image_cong [OF refl])
  fix A assume "A \<in> X"
  then show "unview (p + k) stop A = unview p stop A" using assms [of A] by (auto simp: unview_def)
qed

text \<open>One round of the walk, in each of the three situations it can find.\<close>

definition decommit_step :: "wos \<Rightarrow> win \<Rightarrow> addr \<Rightarrow> addr \<Rightarrow> mbi \<Rightarrow> win \<Rightarrow> bool" where
  "decommit_step os w p stop mbi w1 \<longleftrightarrow> VirtualQuery os w p = Some mbi \<and> 0 < mb_RegionSize mbi \<and>
     (if mb_mapped mbi then must ''UnmapViewOfFileEx'' (UnmapViewOfFileEx w p) else Inr w) = Inr w1 \<and>
     w_ok os w1 \<and> views_within w1 (p + mb_RegionSize mbi) stop \<and>
     (\<forall>x. p \<le> x \<longrightarrow> x < p + mb_RegionSize mbi \<longrightarrow> w_mem w1 x = map_option (\<lambda>_. (PROT_NONE, 0)) (w_mem w x)) \<and>
     decommitted (w_mem w1) p stop = decommitted (w_mem w) p stop \<and> w_section w1 = w_section w \<and> w_handles w1 = w_handles w \<and>
     unview (p + mb_RegionSize mbi) stop ` set (w_allocs w1) = unview p stop ` set (w_allocs w)"

lemma decommit_step_free:
  assumes "w_ok os w" "views_within w p stop" "p < SIZE_RANGE" "alloc_at w p = None"
  shows "\<exists>mbi w1. decommit_step os w p stop mbi w1"
proof -
  have far: "p + VirtualQuery_free w p \<le> wa_base A" if "A \<in> set (w_allocs w)" "p < wa_base A + wa_len A" for A
    using VirtualQuery_free_step(2) [OF assms(3) that(1)] that assms(4)
    by (cases "wa_base A \<le> p") (auto simp: alloc_at_None covers_def)
  have gap: "w_mem w x = None" if "p \<le> x" "x < p + VirtualQuery_free w p" for x
    using far that by (fastforce simp: w_mem_cell alloc_at_None covers_def)
  have "views_within w (p + VirtualQuery_free w p) stop"
    using assms(2) far unfolding views_within_def by fastforce
  moreover have "unview (p + VirtualQuery_free w p) stop ` set (w_allocs w) = unview p stop ` set (w_allocs w)"
  proof (rule unview_later)
    fix A assume "A \<in> set (w_allocs w)" "p \<le> wa_base A"
    then show "p + VirtualQuery_free w p \<le> wa_base A" using far [of A] w_okD(4) [OF assms(1), of A] by simp
  qed
  ultimately have "decommit_step os w p stop \<lparr>mb_BaseAddress = page_floor p (wo_page os), mb_AllocationBase = 0,
      mb_RegionSize = VirtualQuery_free w p, mb_free = True, mb_mapped = False\<rparr> w"
    unfolding decommit_step_def using VirtualQuery_None [OF assms(4,3)] VirtualQuery_free_step(1) [OF assms(3)] assms(1) gap by simp
  then show ?thesis by blast
qed

lemma decommit_step_placeholder:
  assumes "w_ok os w" "views_within w p stop" "p < SIZE_RANGE" "alloc_at w p = Some A" "wa_kind A = Placeholder"
  shows "\<exists>mbi w1. decommit_step os w p stop mbi w1"
proof -
  have A: "A \<in> set (w_allocs w)" "covers A p" using alloc_at_SomeD [OF assms(4)] by auto
  obtain k where q: "VirtualQuery os w p = Some \<lparr>mb_BaseAddress = page_floor p (wo_page os), mb_AllocationBase = wa_base A,
      mb_RegionSize = k, mb_free = False, mb_mapped = (wa_kind A \<noteq> Placeholder)\<rparr>" and k: "0 < k" "p + k = wa_base A + wa_len A"
    using VirtualQuery_Some [OF assms(4,3)] assms(5) by metis
  have hidden: "w_mem w x = Some (PROT_NONE, 0)" if "p \<le> x" "x < p + k" for x
  proof -
    have "alloc_at w x = Some A" using that A k by (intro alloc_at_eq [OF assms(1)]) (auto simp: covers_def)
    then show ?thesis using assms(5) by (simp add: w_mem_cell cell_def)
  qed
  have far: "p + k \<le> wa_base B" if B: "B \<in> set (w_allocs w)" "wa_kind B \<noteq> Placeholder" "p < wa_base B + wa_len B" for B
    using covers_disjoint [of A B] w_okD(7) [OF assms(1) A(1) B(1)] w_okD(4) [OF assms(1)] A B assms(5) k
    by (fastforce simp: covers_def)
  then have "views_within w (p + k) stop" using assms(2) k unfolding views_within_def by fastforce
  moreover have "unview (p + k) stop ` set (w_allocs w) = unview p stop ` set (w_allocs w)"
  proof (rule unview_later)
    fix B assume "B \<in> set (w_allocs w)" "wa_kind B \<noteq> Placeholder" "p \<le> wa_base B"
    then show "p + k \<le> wa_base B" using far [of B] w_okD(4) [OF assms(1), of B] by simp
  qed
  ultimately have "decommit_step os w p stop \<lparr>mb_BaseAddress = page_floor p (wo_page os), mb_AllocationBase = wa_base A,
      mb_RegionSize = k, mb_free = False, mb_mapped = (wa_kind A \<noteq> Placeholder)\<rparr> w"
    unfolding decommit_step_def using q k(1) assms(1,5) hidden by simp
  then show ?thesis by blast
qed

lemma decommit_step_view:
  assumes "w_ok os w" "views_within w p stop" "p < stop" "p < SIZE_RANGE" "alloc_at w p = Some A" "wa_kind A \<noteq> Placeholder"
  shows "\<exists>mbi w1. decommit_step os w p stop mbi w1"
proof -
  have A: "A \<in> set (w_allocs w)" "covers A p" using alloc_at_SomeD [OF assms(5)] by auto
  obtain k where q: "VirtualQuery os w p = Some \<lparr>mb_BaseAddress = page_floor p (wo_page os), mb_AllocationBase = wa_base A,
      mb_RegionSize = k, mb_free = False, mb_mapped = (wa_kind A \<noteq> Placeholder)\<rparr>" and k: "0 < k" "p + k \<le> wa_base A + wa_len A"
    using VirtualQuery_Some [OF assms(5,4)] by blast
  obtain sec off where view: "wa_kind A = View sec off True" and base: "wa_base A = p" "p + wa_len A \<le> stop"
    using assms(2,3,6) A unfolding views_within_def covers_def by fastforce
  let ?B = "A\<lparr>wa_kind := Placeholder\<rparr>" and ?w1 = "add_alloc (A\<lparr>wa_kind := Placeholder\<rparr>) (remove_alloc A w)"
  have R: "w_ok os ?w1" "\<And>x. w_mem ?w1 x = (if covers A x then Some (PROT_NONE, 0) else w_mem w x)"
      "set (w_allocs ?w1) = insert ?B (set (w_allocs w) - {A})" "w_section ?w1 = w_section w" "w_handles ?w1 = w_handles w"
    using replace_alloc_ok [OF assms(1) A(1), of ?B] by (simp_all add: cell_def)
  have mapped: "\<exists>c. w_mem w x = Some c" if "covers A x" for x
    using alloc_at_eq [OF assms(1) A(1) that] by (simp add: w_mem_cell)
  have far: "p + k \<le> wa_base B" if B: "B \<in> set (w_allocs w)" "B \<noteq> A" "p \<le> wa_base B" for B
    using covers_disjoint [of A B] w_okD(7) [OF assms(1) A(1) B(1)] w_okD(4) [OF assms(1)] A B base k by fastforce
  then have "views_within ?w1 (p + k) stop" using assms(2) R(3) k base unfolding views_within_def by fastforce
  moreover have "unview (p + k) stop ` set (w_allocs ?w1) = unview p stop ` set (w_allocs w)"
  proof -
    have "unview (p + k) stop ` set (w_allocs ?w1) = unview p stop ` set (w_allocs ?w1)"
      by (rule unview_later) (use R(3) far in auto)
    also have "\<dots> = insert (unview p stop ?B) (unview p stop ` (set (w_allocs w) - {A}))" using R(3) by simp
    also have "unview p stop ?B = unview p stop A" using view base assms(3) by (simp add: unview_def)
    finally show ?thesis using A(1) by auto
  qed
  moreover have "w_mem ?w1 x = map_option (\<lambda>_. (PROT_NONE, 0)) (w_mem w x)" if "p \<le> x" "x < p + k" for x
    using R(2) [of x] mapped [of x] that base k by (auto simp: covers_def)
  moreover have "decommitted (w_mem ?w1) p stop = decommitted (w_mem w) p stop"
    using R(2) mapped base by (fastforce simp: decommitted_def fun_eq_iff covers_def)
  moreover have "must ''UnmapViewOfFileEx'' (UnmapViewOfFileEx w p) = Inr ?w1"
    using assms(5) view base by (simp add: UnmapViewOfFileEx_def must_def)
  ultimately have "decommit_step os w p stop \<lparr>mb_BaseAddress = page_floor p (wo_page os), mb_AllocationBase = wa_base A,
      mb_RegionSize = k, mb_free = False, mb_mapped = (wa_kind A \<noteq> Placeholder)\<rparr> ?w1"
    unfolding decommit_step_def using q k(1) R(1,4,5) view by simp
  then show ?thesis by blast
qed

lemma win_decommit_loop_ok:
  assumes "w_ok os w" "views_within w p stop" "stop \<le> SIZE_RANGE"
  shows "\<exists>w'. win_decommit_loop os w p stop = Some (Inr w') \<and> w_ok os w' \<and> w_mem w' = decommitted (w_mem w) p stop \<and>
    w_section w' = w_section w \<and> w_handles w' = w_handles w \<and> set (w_allocs w') = unview p stop ` set (w_allocs w)"
  using assms
proof (induction "stop - p" arbitrary: p w rule: less_induct)
  case less
  show ?case
  proof (cases "p < stop")
    case False
    then have "win_decommit_loop os w p stop = Some (Inr w)" by (subst win_decommit_loop.simps) simp
    then show ?thesis using less.prems(1) False by (intro exI [of _ w]) (auto simp: fun_eq_iff decommitted_def unview_def)
  next
    case True
    then have "p < SIZE_RANGE" using less.prems(3) by simp
    then obtain mbi w1 where "decommit_step os w p stop mbi w1"
      using decommit_step_free [OF less.prems(1,2)] decommit_step_placeholder [OF less.prems(1,2)]
        decommit_step_view [OF less.prems(1,2) True] by (metis option.exhaust)
    then have q: "VirtualQuery os w p = Some mbi" and k: "0 < mb_RegionSize mbi"
      and u: "(if mb_mapped mbi then must ''UnmapViewOfFileEx'' (UnmapViewOfFileEx w p) else Inr w) = Inr w1"
      and w1: "w_ok os w1" "views_within w1 (p + mb_RegionSize mbi) stop"
      and m: "\<And>x. p \<le> x \<Longrightarrow> x < p + mb_RegionSize mbi \<Longrightarrow> w_mem w1 x = map_option (\<lambda>_. (PROT_NONE, 0)) (w_mem w x)"
        "decommitted (w_mem w1) p stop = decommitted (w_mem w) p stop"
      and rest: "w_section w1 = w_section w" "w_handles w1 = w_handles w"
        "unview (p + mb_RegionSize mbi) stop ` set (w_allocs w1) = unview p stop ` set (w_allocs w)"
      unfolding decommit_step_def by blast+
    obtain w' where w': "win_decommit_loop os w1 (p + mb_RegionSize mbi) stop = Some (Inr w')" "w_ok os w'"
        "w_mem w' = decommitted (w_mem w1) (p + mb_RegionSize mbi) stop" "w_section w' = w_section w1" "w_handles w' = w_handles w1"
        "set (w_allocs w') = unview (p + mb_RegionSize mbi) stop ` set (w_allocs w1)"
      using less.hyps [OF _ w1 less.prems(3)] diff_less_mono2 [of p "p + mb_RegionSize mbi" stop] k True by auto
    have "w_mem w' x = decommitted (w_mem w1) p stop x" for x
      using m(1) [of x] by (cases "x < p + mb_RegionSize mbi") (auto simp: w'(3) decommitted_def option.map_comp comp_def)
    then have "w_mem w' = decommitted (w_mem w) p stop" using m(2) by (simp add: fun_eq_iff)
    moreover have "win_decommit_loop os w p stop = Some (Inr w')"
      using True q u w'(1) by (subst win_decommit_loop.simps) simp
    ultimately show ?thesis using w'(2,4-6) rest by auto
  qed
qed

end
