(* ===== verification/Vm_Win32_Refine.thy ===== *)
theory Vm_Win32_Refine
  imports Vm_Win32_Inv
begin

text \<open>
  The functions of \<open>vm-win32.c\<close> against the contract of \<open>vm.h\<close>, stated on the page tables
  \<open>w_mem\<close>: reserving, releasing, hiding and decommitting do what the POSIX functions do, and the
  life of a scratch buffer ends with the page tables the POSIX sequence of calls ends with.
\<close>

section \<open>Reservations\<close>

lemma win_reserve_ok:
  assumes "w_ok os w" "wo_granularity os dvd n"
  shows "res_ok (\<lambda>e. \<exists>what. e = Map_failed what)
    (\<lambda>(a, w'). 0 < n \<and> fresh_range (win_page_size os) (w_mem w) a n \<and> w_ok os w' \<and>
       w_mem w' = mem_set (w_mem w) a n (Some (PROT_NONE, 0)) \<and>
       w_allocs w' = \<lparr>wa_base = a, wa_len = n, wa_kind = Placeholder\<rparr> # w_allocs w) (win_reserve os w n)"
proof (cases "VirtualAlloc2 os w n")
  case None
  then show ?thesis by (simp add: win_reserve_def)
next
  case (Some r)
  then obtain a where pick: "wo_pick os w n = Some a" and ok: "0 < n" "0 < a" "wo_granularity os dvd a" "a + n < SIZE_RANGE" "w_free w a n"
    and r: "r = (a, w\<lparr>w_allocs := \<lparr>wa_base = a, wa_len = n, wa_kind = Placeholder\<rparr> # w_allocs w\<rparr>)"
    by (auto simp: VirtualAlloc2_def split: option.splits if_splits)
  let ?A = "\<lparr>wa_base = a, wa_len = n, wa_kind = Placeholder\<rparr>"
  have free: "w_mem w x = None" if "covers ?A x" for x
    using ok(5) that by (fastforce simp: w_free_def w_mem_cell alloc_at_None covers_def)
  have A: "0 < wa_base ?A" "0 < wa_len ?A" "wa_base ?A + wa_len ?A \<le> SIZE_RANGE"
      "wo_granularity os dvd wa_base ?A" "wo_granularity os dvd wa_len ?A" using ok assms(2) by auto
  note a = add_alloc_ok [OF assms(1) A free]
  have r': "r = (a, add_alloc ?A w)" using r ok(1) by (simp add: add_alloc_def)
  have "w_mem (add_alloc ?A w) = mem_set (w_mem w) a n (Some (PROT_NONE, 0))"
    using a(2) by (auto simp: fun_eq_iff mem_set_def covers_def cell_def)
  moreover have "fresh_range (win_page_size os) (w_mem w) a n"
    using ok free by (auto simp: fresh_range_def mem_free_def win_page_size_def covers_def)
  ultimately show ?thesis using a(1,6) r' Some ok(1) by (simp add: win_reserve_def)
qed

lemma win_release_ok:
  assumes "w_ok os w" "tiled w a (a + n)" "a + n \<le> SIZE_RANGE"
  shows "\<exists>w'. win_release os w a n = Inr w' \<and> w_ok os w' \<and> w_mem w' = mem_set (w_mem w) a n None \<and>
    set (w_allocs w') = {A \<in> set (w_allocs w). \<not> (a \<le> wa_base A \<and> wa_base A < a + n)}"
  using win_release_loop_ok [OF assms] by (auto simp: win_release_def mem_set_def)

lemma win_decommit_ok:
  assumes "w_ok os w" "views_within w a (a + n)" "a + n \<le> SIZE_RANGE" "mem_mapped (w_mem w) a n"
  shows "\<exists>w'. win_decommit os w a n = Inr w' \<and> w_ok os w' \<and> w_mem w' = mem_set (w_mem w) a n (Some (PROT_NONE, 0)) \<and>
    set (w_allocs w') = unview a (a + n) ` set (w_allocs w)"
proof -
  obtain w' where w': "win_decommit_loop os w a (a + n) = Some (Inr w')" "w_ok os w'" "w_mem w' = decommitted (w_mem w) a (a + n)"
      "set (w_allocs w') = unview a (a + n) ` set (w_allocs w)"
    using win_decommit_loop_ok [OF assms(1-3)] by blast
  have "decommitted (w_mem w) a (a + n) = mem_set (w_mem w) a n (Some (PROT_NONE, 0))"
    using mem_mappedD [OF assms(4)] by (auto simp: fun_eq_iff decommitted_def mem_set_def)
  then show ?thesis using w' by (simp add: win_decommit_def)
qed

text \<open>Protections change inside one view only, which is how the library publishes a chunk.\<close>

definition in_view :: "win \<Rightarrow> addr \<Rightarrow> size_t \<Rightarrow> bool" where
  "in_view w a n \<longleftrightarrow> 0 < n \<and> (\<exists>A\<in>set (w_allocs w). wa_kind A \<noteq> Placeholder \<and> wa_base A \<le> a \<and> a + n \<le> wa_base A + wa_len A)"

lemma VirtualProtect_ok:
  assumes "w_ok os w" "in_view w a n"
  shows "\<exists>w'. VirtualProtect w a n p = Some w' \<and> w_ok os w' \<and> w_mem w' = mem_protect (w_mem w) a n p \<and>
    w_allocs w' = w_allocs w \<and> w_section w' = w_section w \<and> w_handles w' = w_handles w"
proof -
  obtain A where A: "A \<in> set (w_allocs w)" "wa_kind A \<noteq> Placeholder" "wa_base A \<le> a" "a + n \<le> wa_base A + wa_len A" and n: "0 < n"
    using assms(2) by (auto simp: in_view_def)
  have "alloc_at w a = Some A" using A n by (intro alloc_at_eq [OF assms(1)]) (auto simp: covers_def)
  then have "VirtualProtect w a n p = Some (w\<lparr>w_prot := prot_set (w_prot w) a n p\<rparr>)"
    using A n by (simp add: VirtualProtect_def)
  then show ?thesis using set_prot_ok [OF assms(1) A] by simp
qed

lemma win_set_readable_ok:
  assumes "w_ok os w" "in_view w a n"
  shows "\<exists>w'. win_set_readable w a n b = Inr w' \<and> w_ok os w' \<and> w_allocs w' = w_allocs w \<and>
    w_mem w' = mem_protect (w_mem w) a n (if b then PROT_READ else PROT_NONE)"
  using VirtualProtect_ok [OF assms, of "if b then PROT_READ else PROT_NONE"] by (auto simp: win_set_readable_def must_def)

section \<open>Scratch buffers\<close>

text \<open>A live scratch buffer: one staging view of the whole section, whose handle is open.\<close>

abbreviation staging_view :: "vm_scratch \<Rightarrow> allocation" where
  "staging_view s \<equiv> \<lparr>wa_base = s_addr s, wa_len = s_size s, wa_kind = View (s_section s) 0 False\<rparr>"

definition staged :: "win \<Rightarrow> vm_scratch \<Rightarrow> bool" where
  "staged w s \<longleftrightarrow> staging_view s \<in> set (w_allocs w) \<and> s_section s \<in> w_handles w \<and> length (w_section w (s_section s)) = s_size s"

definition sole_view :: "win \<Rightarrow> vm_scratch \<Rightarrow> bool" where
  "sole_view w s \<longleftrightarrow> (\<forall>A\<in>set (w_allocs w). \<forall>off rp. wa_kind A = View (s_section s) off rp \<longrightarrow> A = staging_view s)"

lemma stagedD:
  assumes "w_ok os w" "staged w s"
  shows "staging_view s \<in> set (w_allocs w)" "0 < s_addr s" "0 < s_size s" "s_addr s + s_size s \<le> SIZE_RANGE"
    "wo_granularity os dvd s_addr s" "wo_granularity os dvd s_size s" "s_section s \<in> w_handles w"
    "length (w_section w (s_section s)) = s_size s" "s_section s < w_next w"
    "s_addr s \<le> x \<Longrightarrow> x < s_addr s + s_size s \<Longrightarrow> w_mem w x = Some (w_prot w x, w_section w (s_section s) ! (x - s_addr s))"
proof -
  show s: "staging_view s \<in> set (w_allocs w)" "s_section s \<in> w_handles w" "length (w_section w (s_section s)) = s_size s"
    using assms(2) by (auto simp: staged_def)
  show "0 < s_addr s" "0 < s_size s" "s_addr s + s_size s \<le> SIZE_RANGE" "wo_granularity os dvd s_addr s" "wo_granularity os dvd s_size s"
    "s_section s < w_next w"
    using w_okD(4-6,8) [OF assms(1) s(1)] by auto
  show "w_mem w x = Some (w_prot w x, w_section w (s_section s) ! (x - s_addr s))" if "s_addr s \<le> x" "x < s_addr s + s_size s"
    using alloc_at_eq [OF assms(1) s(1), of x] that by (simp add: covers_def w_mem_cell cell_def)
qed

lemma win_scratch_create_ok:
  assumes "w_ok os w" "wo_granularity os dvd n"
  shows "res_ok (\<lambda>e. \<exists>what. e = Map_failed what)
    (\<lambda>(s, w'). 0 < n \<and> s_size s = n \<and> s_consumed s = 0 \<and> fresh_range (win_page_size os) (w_mem w) (s_addr s) n \<and> w_ok os w' \<and>
       w_mem w' = mem_set (w_mem w) (s_addr s) n (Some (PROT_RW, 0)) \<and> staged w' s \<and> sole_view w' s \<and>
       w_allocs w' = staging_view s # w_allocs w) (win_scratch_create os w n ok)"
proof (cases "win_scratch_create os w n ok")
  case (Inl e)
  then show ?thesis by (auto simp: win_scratch_create_def split: option.splits prod.splits)
next
  case (Inr r)
  let ?sec = "w_next w"
  let ?w1 = "w\<lparr>w_section := (w_section w)(?sec := replicate n 0), w_handles := insert ?sec (w_handles w), w_next := Suc ?sec\<rparr>"
  obtain a where pick: "wo_pick os ?w1 n = Some a" and ok: "0 < n" "0 < a" "wo_granularity os dvd a" "a + n < SIZE_RANGE" "w_free ?w1 a n"
    and r: "r = (\<lparr>s_addr = a, s_size = n, s_section = ?sec, s_consumed = 0\<rparr>,
       ?w1\<lparr>w_allocs := \<lparr>wa_base = a, wa_len = n, wa_kind = View ?sec 0 False\<rparr> # w_allocs w,
          w_prot := prot_set (w_prot w) a n PROT_RW\<rparr>)"
    using Inr by (auto simp: win_scratch_create_def CreateFileMapping_def MapViewOfFile_def Let_def split: option.splits if_splits)
  let ?A = "\<lparr>wa_base = a, wa_len = n, wa_kind = View ?sec 0 False\<rparr>"
  have ok1: "w_ok os ?w1" using assms(1) unfolding w_ok_def by (auto simp: less_Suc_eq)
  have at1: "alloc_at ?w1 x = alloc_at w x" for x by (simp add: alloc_at_def)
  have mem1: "w_mem ?w1 x = w_mem w x" for x
  proof (cases "alloc_at w x")
    case (Some B)
    then have "wa_kind B \<noteq> View ?sec off rp" for off rp using alloc_at_SomeD [OF Some] w_okD(8) [OF assms(1)] by blast
    then show ?thesis using Some at1 by (cases "wa_kind B") (auto simp: w_mem_cell cell_def)
  qed (simp add: w_mem_cell at1)
  have free: "w_mem ?w1 x = None" if "covers ?A x" for x
    using ok(5) that by (fastforce simp: w_free_def w_mem_cell alloc_at_None covers_def)
  have A: "0 < wa_base ?A" "0 < wa_len ?A" "wa_base ?A + wa_len ?A \<le> SIZE_RANGE"
      "wo_granularity os dvd wa_base ?A" "wo_granularity os dvd wa_len ?A" using ok assms(2) by auto
  note a = add_alloc_ok [OF ok1 A free]
  let ?w2 = "add_alloc ?A ?w1"
  let ?w3 = "?w2\<lparr>w_prot := prot_set (w_prot ?w2) a n PROT_RW\<rparr>"
  have a6: "?A \<in> set (w_allocs ?w2)" using a(6) by simp
  have w2ok: "w_ok os ?w2" by (rule a(1)) auto
  note p = set_prot_ok [OF w2ok a6, of a n PROT_RW]
  have r': "r = (\<lparr>s_addr = a, s_size = n, s_section = ?sec, s_consumed = 0\<rparr>, ?w3)"
    using r ok(1) by (simp add: add_alloc_def)
  have "w_mem ?w2 x = (if covers ?A x then Some (cell ?w1 ?A x) else w_mem ?w1 x)" for x by (rule a(2)) auto
  then have "w_mem ?w3 = mem_set (w_mem w) a n (Some (PROT_RW, 0))"
    using p(2) mem1 by (auto simp: fun_eq_iff mem_set_def mem_protect_def covers_def cell_def)
  moreover have "fresh_range (win_page_size os) (w_mem w) a n"
    using ok free mem1 by (auto simp: fresh_range_def mem_free_def win_page_size_def covers_def)
  moreover have "sole_view ?w3 \<lparr>s_addr = a, s_size = n, s_section = ?sec, s_consumed = 0\<rparr>"
    using a(6) w_okD(8) [OF assms(1)] by (fastforce simp: sole_view_def)
  moreover have "staged ?w3 \<lparr>s_addr = a, s_size = n, s_section = ?sec, s_consumed = 0\<rparr>"
    using a(3,4) a6 by (simp add: staged_def)
  ultimately show ?thesis using p(1) r' Inr ok(1) a(6) by simp
qed

text \<open>Stores reach only the staging view as long as nothing has been published.\<close>

lemma win_store_ok:
  assumes "w_ok os w" "staged w s" "sole_view w s" "s_addr s \<le> a" "a + length bs \<le> s_addr s + s_size s" "bs \<noteq> []"
    "\<And>x. a \<le> x \<Longrightarrow> x < a + length bs \<Longrightarrow> w_prot w x = PROT_RW"
  shows "\<exists>w'. win_store w a bs = Some w' \<and> w_ok os w' \<and> staged w' s \<and> sole_view w' s \<and> w_prot w' = w_prot w \<and>
    w_mem w' = mem_put (w_mem w) a bs"
proof -
  note s = stagedD [OF assms(1,2)]
  let ?i = "a - s_addr s" and ?old = "w_section w (s_section s)"
  let ?new = "take ?i ?old @ bs @ drop (?i + length bs) ?old"
  let ?w = "w\<lparr>w_section := (w_section w)(s_section s := ?new)\<rparr>"
  have fits: "?i + length bs \<le> s_size s" using assms(4,5) by simp
  have "alloc_at w a = Some (staging_view s)"
    using assms(4,5) length_greater_0_conv [of bs] assms(6) by (intro alloc_at_eq [OF assms(1) s(1)]) (auto simp: covers_def simp del: length_greater_0_conv)
  then have "win_store w a bs = Some ?w" using assms(5,7) by (simp add: win_store_def Let_def)
  moreover have ok: "w_ok os ?w" using assms(1) by (simp add: w_ok_def)
  moreover have st: "staged ?w s" using assms(2) fits by (simp add: staged_def)
  moreover have "w_mem ?w x = mem_put (w_mem w) a bs x" for x
  proof (cases "s_addr s \<le> x \<and> x < s_addr s + s_size s")
    case True
    then have "w_mem ?w x = Some (w_prot w x, ?new ! (x - s_addr s))" using stagedD(10) [OF ok st, of x] by simp
    moreover have "?new ! (x - s_addr s) = (if a \<le> x \<and> x < a + length bs then bs ! (x - a) else ?old ! (x - s_addr s))"
      using True assms(4) fits s(8) by (auto simp: nth_append min_def)
    ultimately show ?thesis using s(10) [of x] True assms(7) [of x] by (simp add: mem_put_def)
  next
    case False
    have "w_mem ?w x = w_mem w x"
    proof (cases "alloc_at w x")
      case (Some B)
      then have "wa_kind B \<noteq> View (s_section s) off rp" for off rp
        using alloc_at_SomeD [OF Some] assms(3) False by (fastforce simp: sole_view_def covers_def)
      then show ?thesis using Some by (cases "wa_kind B") (auto simp: w_mem_cell cell_def alloc_at_def)
    qed (simp add: w_mem_cell alloc_at_def)
    then show ?thesis using False assms(4,5) by (auto simp: mem_put_def)
  qed
  ultimately show ?thesis using assms(3) by (auto simp: sole_view_def fun_eq_iff)
qed

lemma win_scratch_seal_ok:
  assumes "w_ok os w" "staged w s"
  shows "\<exists>w'. win_scratch_seal w s = Inr w' \<and> w_ok os w' \<and> w_mem w' = mem_protect (w_mem w) (s_addr s) (s_size s) PROT_READ \<and>
    w_allocs w' = w_allocs w \<and> w_section w' = w_section w \<and> staged w' s"
proof -
  note s = stagedD [OF assms]
  have "in_view w (s_addr s) (s_size s)" using s(1,3) by (force simp: in_view_def)
  then obtain w' where "VirtualProtect w (s_addr s) (s_size s) PROT_READ = Some w'" "w_ok os w'"
      "w_mem w' = mem_protect (w_mem w) (s_addr s) (s_size s) PROT_READ" "w_allocs w' = w_allocs w" "w_section w' = w_section w" "w_handles w' = w_handles w"
    using VirtualProtect_ok [OF assms(1)] by blast
  then show ?thesis using assms(2) by (simp add: win_scratch_seal_def must_def staged_def)
qed

text \<open>The staging view and the handle go with the last byte, not before.\<close>

lemma scratch_consume_ok:
  assumes "w_ok os w" "staged w s" "s_consumed s + len \<le> s_size s"
  shows "\<exists>s' w'. scratch_consume w s len = Inr (s', w') \<and> w_ok os w' \<and>
    (if s_consumed s + len = s_size s
     then s_addr s' = 0 \<and> s_size s' = s_size s \<and> s_section s \<notin> w_handles w' \<and> w_mem w' = mem_set (w_mem w) (s_addr s) (s_size s) None \<and>
       set (w_allocs w') = set (w_allocs w) - {staging_view s}
     else s' = s\<lparr>s_consumed := s_consumed s + len\<rparr> \<and> w' = w)"
proof -
  note s = stagedD [OF assms(1,2)]
  have add: "size_add (s_consumed s) len = s_consumed s + len" using assms(3) s(2,4) by simp
  show ?thesis
  proof (cases "s_consumed s + len = s_size s")
    case False
    then show ?thesis using assms(1,3) add by (simp add: scratch_consume_def Let_def)
  next
    case True
    note R = remove_alloc_ok [OF assms(1) s(1)]
    let ?w = "(remove_alloc (staging_view s) w)\<lparr>w_handles := w_handles w - {s_section s}\<rparr>"
    have "alloc_at w (s_addr s) = Some (staging_view s)" using s(3) by (intro alloc_at_eq [OF assms(1) s(1)]) (simp add: covers_def)
    then have "scratch_consume w s len = Inr (s\<lparr>s_consumed := s_size s, s_addr := 0\<rparr>, ?w)"
      using True add s(7) R(4) by (simp add: scratch_consume_def Let_def UnmapViewOfFile_def CloseHandle_def must_def)
    moreover have "w_ok os ?w" using R(1) by (simp add: w_ok_def)
    moreover have "w_mem ?w x = w_mem (remove_alloc (staging_view s) w) x" for x
      by (simp add: w_mem_def alloc_at_def cong: wkind.case_cong option.case_cong)
    then have "w_mem ?w = mem_set (w_mem w) (s_addr s) (s_size s) None"
      using R(2) by (auto simp: fun_eq_iff mem_set_def covers_def)
    ultimately show ?thesis using True R(6) by simp
  qed
qed

section \<open>Publishing\<close>

text \<open>Placeholders of length zero are not created.\<close>

lemma add_placeholder_ok:
  assumes "w_ok os w" "0 < a" "a + n \<le> SIZE_RANGE" "wo_granularity os dvd a" "wo_granularity os dvd n"
    "\<And>x. a \<le> x \<Longrightarrow> x < a + n \<Longrightarrow> w_mem w x = None"
  defines "w' \<equiv> add_alloc \<lparr>wa_base = a, wa_len = n, wa_kind = Placeholder\<rparr> w"
  shows "w_ok os w' \<and> w_mem w' = mem_set (w_mem w) a n (Some (PROT_NONE, 0)) \<and> w_section w' = w_section w \<and> w_handles w' = w_handles w \<and>
    w_prot w' = w_prot w \<and> set (w_allocs w') = (if n = 0 then {} else {\<lparr>wa_base = a, wa_len = n, wa_kind = Placeholder\<rparr>}) \<union> set (w_allocs w)"
proof (cases "n = 0")
  case True
  then show ?thesis using assms(1) by (simp add: w'_def add_alloc_def)
next
  case False
  let ?A = "\<lparr>wa_base = a, wa_len = n, wa_kind = Placeholder\<rparr>"
  have free: "w_mem w x = None" if "covers ?A x" for x using assms(6) that by (simp add: covers_def)
  have A: "0 < wa_base ?A" "0 < wa_len ?A" "wa_base ?A + wa_len ?A \<le> SIZE_RANGE"
      "wo_granularity os dvd wa_base ?A" "wo_granularity os dvd wa_len ?A" using assms False by auto
  note a = add_alloc_ok [OF assms(1) A free, folded w'_def]
  have "w_mem w' = mem_set (w_mem w) a n (Some (PROT_NONE, 0))"
    using a(2) by (auto simp: fun_eq_iff mem_set_def covers_def cell_def)
  then show ?thesis using a False by auto
qed

definition in_placeholder :: "win \<Rightarrow> addr \<Rightarrow> size_t \<Rightarrow> bool" where
  "in_placeholder w t n \<longleftrightarrow> (\<exists>P\<in>set (w_allocs w). wa_kind P = Placeholder \<and> wa_base P \<le> t \<and> t + n \<le> wa_base P + wa_len P)"

text \<open>
  What splitting does to the allocations: views stay, whatever is new is a part of a placeholder, and a range in a
  placeholder that is apart from the one split off is in a placeholder still.
\<close>

definition carved :: "win \<Rightarrow> win \<Rightarrow> addr \<Rightarrow> size_t \<Rightarrow> bool" where
  "carved w w' t n \<longleftrightarrow> (\<forall>A\<in>set (w_allocs w). wa_kind A \<noteq> Placeholder \<longrightarrow> A \<in> set (w_allocs w')) \<and>
     (\<forall>A\<in>set (w_allocs w'). A \<in> set (w_allocs w) \<or> wa_kind A = Placeholder \<and> in_placeholder w (wa_base A) (wa_len A)) \<and>
     (\<forall>b k. 0 < k \<longrightarrow> b + k \<le> t \<or> t + n \<le> b \<longrightarrow> in_placeholder w b k \<longrightarrow> in_placeholder w' b k) \<and>
     \<lparr>wa_base = t, wa_len = n, wa_kind = Placeholder\<rparr> \<in> set (w_allocs w')"

lemma nonempty_parts:
  "{x, y, z} - {A. wa_len A = 0} = (if wa_len x = 0 then {} else {x}) \<union> ((if wa_len y = 0 then {} else {y}) \<union> (if wa_len z = 0 then {} else {z}))"
  by auto

lemma carvedI:
  assumes P: "P \<in> set (w_allocs w)" "wa_kind P = Placeholder" "wa_base P \<le> p" "p + n \<le> wa_base P + wa_len P"
    and set: "set (w_allocs w') = ({\<lparr>wa_base = wa_base P, wa_len = p - wa_base P, wa_kind = Placeholder\<rparr>, \<lparr>wa_base = p, wa_len = n, wa_kind = Placeholder\<rparr>,
        \<lparr>wa_base = p + n, wa_len = wa_base P + wa_len P - (p + n), wa_kind = Placeholder\<rparr>} - {A. wa_len A = 0}) \<union> (set (w_allocs w) - {P})"
    and n: "0 < n"
  shows "carved w w' p n"
  unfolding carved_def
proof (intro conjI ballI allI impI)
  show "A \<in> set (w_allocs w')" if "A \<in> set (w_allocs w)" "wa_kind A \<noteq> Placeholder" for A
    using that P(2) unfolding set by auto
  show "A \<in> set (w_allocs w) \<or> wa_kind A = Placeholder \<and> in_placeholder w (wa_base A) (wa_len A)" if "A \<in> set (w_allocs w')" for A
    using that P unfolding set in_placeholder_def by auto
  show "\<lparr>wa_base = p, wa_len = n, wa_kind = Placeholder\<rparr> \<in> set (w_allocs w')" using n unfolding set by simp
  fix b k assume k: "0 < k" "b + k \<le> p \<or> p + n \<le> b" and "in_placeholder w b k"
  then obtain Q where Q: "Q \<in> set (w_allocs w)" "wa_kind Q = Placeholder" "wa_base Q \<le> b" "b + k \<le> wa_base Q + wa_len Q"
    by (auto simp: in_placeholder_def)
  show "in_placeholder w' b k"
  proof (cases "Q = P")
    case False
    then show ?thesis using Q unfolding in_placeholder_def set by blast
  next
    case True
    then have "\<lparr>wa_base = wa_base P, wa_len = p - wa_base P, wa_kind = Placeholder\<rparr> \<in> set (w_allocs w')" if "b + k \<le> p"
      using that Q k(1) unfolding set by auto
    moreover have "\<lparr>wa_base = p + n, wa_len = wa_base P + wa_len P - (p + n), wa_kind = Placeholder\<rparr> \<in> set (w_allocs w')" if "p + n \<le> b"
      using that Q k(1) True unfolding set by auto
    ultimately show ?thesis using k(2)
    proof (elim disjE)
      assume "b + k \<le> p" "b + k \<le> p \<Longrightarrow> \<lparr>wa_base = wa_base P, wa_len = p - wa_base P, wa_kind = Placeholder\<rparr> \<in> set (w_allocs w')"
      then show ?thesis unfolding in_placeholder_def using Q True
        by (intro bexI [of _ "\<lparr>wa_base = wa_base P, wa_len = p - wa_base P, wa_kind = Placeholder\<rparr>"]) simp_all
    next
      assume "p + n \<le> b"
        "p + n \<le> b \<Longrightarrow> \<lparr>wa_base = p + n, wa_len = wa_base P + wa_len P - (p + n), wa_kind = Placeholder\<rparr> \<in> set (w_allocs w')"
      then show ?thesis unfolding in_placeholder_def using Q True
        by (intro bexI [of _ "\<lparr>wa_base = p + n, wa_len = wa_base P + wa_len P - (p + n), wa_kind = Placeholder\<rparr>"]) simp_all
    qed
  qed
qed

lemma split_ok:
  assumes "w_ok os w" "P \<in> set (w_allocs w)" "wa_kind P = Placeholder" "wa_base P \<le> p" "p + n \<le> wa_base P + wa_len P" "n < wa_len P"
    "0 < n" "wo_granularity os dvd p" "wo_granularity os dvd n"
  shows "\<exists>w'. VirtualFree_split w p n = Some w' \<and> w_ok os w' \<and> w_mem w' = w_mem w \<and> w_section w' = w_section w \<and>
    w_handles w' = w_handles w \<and> w_prot w' = w_prot w \<and> carved w w' p n"
proof -
  let ?b = "wa_base P" and ?e = "wa_base P + wa_len P" and ?g = "wo_granularity os"
  note P = w_okD(4-6) [OF assms(1,2)]
  have dvd: "?g dvd p - ?b" "?g dvd ?e - (p + n)" "?g dvd p + n"
    using P assms(8,9) by (auto intro: dvd_diff_nat)
  define w0 where "w0 = remove_alloc P w"
  have w0: "w_ok os w0" "w_mem w0 = mem_set (w_mem w) ?b (wa_len P) None" "w_section w0 = w_section w" "w_handles w0 = w_handles w"
      "w_prot w0 = w_prot w" "set (w_allocs w0) = set (w_allocs w) - {P}"
    using remove_alloc_ok [OF assms(1,2)] by (auto simp: w0_def fun_eq_iff mem_set_def covers_def)
  define w1 where "w1 = add_alloc \<lparr>wa_base = p + n, wa_len = ?e - (p + n), wa_kind = Placeholder\<rparr> w0"
  have w1: "w_ok os w1 \<and> w_mem w1 = mem_set (w_mem w0) (p + n) (?e - (p + n)) (Some (PROT_NONE, 0)) \<and> w_section w1 = w_section w0 \<and>
      w_handles w1 = w_handles w0 \<and> w_prot w1 = w_prot w0 \<and>
      set (w_allocs w1) = (if ?e - (p + n) = 0 then {} else {\<lparr>wa_base = p + n, wa_len = ?e - (p + n), wa_kind = Placeholder\<rparr>}) \<union> set (w_allocs w0)"
    unfolding w1_def using add_placeholder_ok [OF w0(1), of "p + n" "?e - (p + n)"] P assms dvd w0(2) by simp
  define w2 where "w2 = add_alloc \<lparr>wa_base = p, wa_len = n, wa_kind = Placeholder\<rparr> w1"
  have w2: "w_ok os w2 \<and> w_mem w2 = mem_set (w_mem w1) p n (Some (PROT_NONE, 0)) \<and> w_section w2 = w_section w1 \<and>
      w_handles w2 = w_handles w1 \<and> w_prot w2 = w_prot w1 \<and>
      set (w_allocs w2) = (if n = 0 then {} else {\<lparr>wa_base = p, wa_len = n, wa_kind = Placeholder\<rparr>}) \<union> set (w_allocs w1)"
    unfolding w2_def using w1 P assms w0(2) by (intro add_placeholder_ok) auto
  define w3 where "w3 = add_alloc \<lparr>wa_base = ?b, wa_len = p - ?b, wa_kind = Placeholder\<rparr> w2"
  have w3: "w_ok os w3 \<and> w_mem w3 = mem_set (w_mem w2) ?b (p - ?b) (Some (PROT_NONE, 0)) \<and> w_section w3 = w_section w2 \<and>
      w_handles w3 = w_handles w2 \<and> w_prot w3 = w_prot w2 \<and>
      set (w_allocs w3) = (if p - ?b = 0 then {} else {\<lparr>wa_base = ?b, wa_len = p - ?b, wa_kind = Placeholder\<rparr>}) \<union> set (w_allocs w2)"
    unfolding w3_def using add_placeholder_ok [of os w2 ?b "p - ?b"] w2 w1 P assms dvd w0(2) by simp
  have at: "alloc_at w x = Some P" if "?b \<le> x" "x < ?e" for x
    using alloc_at_eq [OF assms(1,2)] that by (simp add: covers_def)
  have "w_mem w3 x = w_mem w x" for x
    using at [of x] w3 w2 w1 w0(2) assms(3-5) by (auto simp: w_mem_cell cell_def mem_set_def)
  moreover have "VirtualFree_split w p n = Some w3"
    using at [of p] assms(3-7) by (simp add: VirtualFree_split_def w3_def w2_def w1_def w0_def)
  moreover have "carved w w3 p n"
  proof (rule carvedI [OF assms(2-5) _ assms(7)])
    have parts: "set (w_allocs w3) = (if p - ?b = 0 then {} else {\<lparr>wa_base = ?b, wa_len = p - ?b, wa_kind = Placeholder\<rparr>}) \<union> set (w_allocs w2)"
        "set (w_allocs w2) = (if n = 0 then {} else {\<lparr>wa_base = p, wa_len = n, wa_kind = Placeholder\<rparr>}) \<union> set (w_allocs w1)"
        "set (w_allocs w1) = (if ?e - (p + n) = 0 then {} else {\<lparr>wa_base = p + n, wa_len = ?e - (p + n), wa_kind = Placeholder\<rparr>}) \<union> set (w_allocs w0)"
      using w3 w2 w1 by blast+
    show "set (w_allocs w3) = ({\<lparr>wa_base = ?b, wa_len = p - ?b, wa_kind = Placeholder\<rparr>, \<lparr>wa_base = p, wa_len = n, wa_kind = Placeholder\<rparr>,
        \<lparr>wa_base = p + n, wa_len = ?e - (p + n), wa_kind = Placeholder\<rparr>} - {A. wa_len A = 0}) \<union> (set (w_allocs w) - {P})"
      unfolding nonempty_parts parts w0(6) allocation.simps by (simp only: Un_assoc)
  qed
  ultimately show ?thesis using w3 w2 w1 w0 by (auto simp: fun_eq_iff)
qed

text \<open>The query decides whether the placeholder has to be split; either way the target becomes one of its own.\<close>

lemma carve_ok:
  assumes "w_ok os w" "in_placeholder w t n" "0 < n" "wo_granularity os dvd t" "wo_granularity os dvd n"
  shows "\<exists>mbi w'. VirtualQuery os w t = Some mbi \<and>
    (if mb_BaseAddress mbi \<noteq> t \<or> mb_RegionSize mbi \<noteq> n \<or> mb_AllocationBase mbi \<noteq> t
     then must ''VirtualFree'' (VirtualFree_split w t n) else Inr w) = Inr w' \<and>
    w_ok os w' \<and> w_mem w' = w_mem w \<and> w_section w' = w_section w \<and> w_handles w' = w_handles w \<and> carved w w' t n"
proof -
  obtain P where P: "P \<in> set (w_allocs w)" "wa_kind P = Placeholder" "wa_base P \<le> t" "t + n \<le> wa_base P + wa_len P"
    using assms(2) by (auto simp: in_placeholder_def)
  have at: "alloc_at w t = Some P" using P assms(3) by (intro alloc_at_eq [OF assms(1)]) (auto simp: covers_def)
  have tr: "t < SIZE_RANGE" using w_okD(4) [OF assms(1) P(1)] P assms(3) by simp
  obtain k where q: "VirtualQuery os w t = Some \<lparr>mb_BaseAddress = page_floor t (wo_page os), mb_AllocationBase = wa_base P,
      mb_RegionSize = k, mb_free = False, mb_mapped = False\<rparr>" and k: "t + k = wa_base P + wa_len P"
    using VirtualQuery_Some [OF at tr] P(2) by (metis (full_types))
  have page: "page_floor t (wo_page os) = t" using w_okD(3) [OF assms(1)] assms(4) by (meson dvd_trans page_floor_id)
  show ?thesis
  proof (cases "wa_base P = t \<and> wa_len P = n")
    case True
    then have "P = \<lparr>wa_base = t, wa_len = n, wa_kind = Placeholder\<rparr>" using P(2) by (cases P) simp
    then have "carved w w t n" using P(1) by (simp add: carved_def)
    then show ?thesis using True q k page assms(1) by simp
  next
    case False
    then have "n < wa_len P" using P(3,4) by auto
    then obtain w' where w': "VirtualFree_split w t n = Some w'" "w_ok os w'" "w_mem w' = w_mem w" "w_section w' = w_section w"
        "w_handles w' = w_handles w" "carved w w' t n"
      using split_ok [OF assms(1) P _ assms(3-5)] by blast
    have "wa_base P \<noteq> t \<or> k \<noteq> n" using False k by auto
    then show ?thesis using w' q page P(2) by (auto simp: must_def)
  qed
qed

abbreviation target_view :: "vm_scratch \<Rightarrow> size_t \<Rightarrow> size_t \<Rightarrow> addr \<Rightarrow> allocation" where
  "target_view s off n t \<equiv> \<lparr>wa_base = t, wa_len = n, wa_kind = View (s_section s) off True\<rparr>"

text \<open>The allocations after a piece has been published, with or without the staging view.\<close>

definition published :: "win \<Rightarrow> win \<Rightarrow> vm_scratch \<Rightarrow> size_t \<Rightarrow> size_t \<Rightarrow> addr \<Rightarrow> bool \<Rightarrow> bool" where
  "published w w' s off n t consumed \<longleftrightarrow> (\<exists>w1. carved w w1 t n \<and>
     set (w_allocs w') = insert (target_view s off n t) (set (w_allocs w1) - {\<lparr>wa_base = t, wa_len = n, wa_kind = Placeholder\<rparr>}) -
       (if consumed then {staging_view s} else {}))"

lemma win_scratch_publish_ok:
  assumes "w_ok os w" "staged w s" "s_consumed s + n \<le> s_size s" "off + n \<le> s_size s" "0 < n"
    "wo_granularity os dvd off" "wo_granularity os dvd n" "wo_granularity os dvd t" "in_placeholder w t n"
  defines "m \<equiv> \<lambda>x. if t \<le> x \<and> x < t + n then Some (PROT_READ, w_section w (s_section s) ! (off + (x - t))) else w_mem w x"
  shows "\<exists>s' w'. win_scratch_publish os w s off n t = Inr (s', w') \<and> w_ok os w' \<and>
    published w w' s off n t (s_consumed s + n = s_size s) \<and>
    (if s_consumed s + n = s_size s
     then s_addr s' = 0 \<and> s_size s' = s_size s \<and> s_section s \<notin> w_handles w' \<and> w_mem w' = mem_set m (s_addr s) (s_size s) None
     else s' = s\<lparr>s_consumed := s_consumed s + n\<rparr> \<and> w_mem w' = m \<and> staged w' s')"
proof -
  note s = stagedD [OF assms(1,2)]
  let ?P = "\<lparr>wa_base = t, wa_len = n, wa_kind = Placeholder\<rparr>" and ?V = "\<lparr>wa_base = t, wa_len = n, wa_kind = View (s_section s) off True\<rparr>"
  obtain mbi w1 where q: "VirtualQuery os w t = Some mbi"
      "(if mb_BaseAddress mbi \<noteq> t \<or> mb_RegionSize mbi \<noteq> n \<or> mb_AllocationBase mbi \<noteq> t
        then must ''VirtualFree'' (VirtualFree_split w t n) else Inr w) = Inr w1"
    and w1: "w_ok os w1" "w_mem w1 = w_mem w" "w_section w1 = w_section w" "w_handles w1 = w_handles w"
      "carved w w1 t n"
    using carve_ok [OF assms(1,9,5,8,7)] by blast
  have w16: "?P \<in> set (w_allocs w1)" and st1: "staged w1 s" using assms(2) w1 by (simp_all add: staged_def carved_def)
  define w2 where "w2 = add_alloc ?V (remove_alloc ?P w1)"
  have R: "w_ok os w2" "\<And>x. w_mem w2 x = (if covers ?P x then Some (cell w1 ?V x) else w_mem w1 x)"
      "w_section w2 = w_section w1" "w_handles w2 = w_handles w1" "set (w_allocs w2) = insert ?V (set (w_allocs w1) - {?P})"
      "w_prot w2 = w_prot w1"
    using replace_alloc_ok [OF w1(1) w16, of ?V, folded w2_def] stagedD(9) [OF w1(1) st1] by simp_all
  let ?w3 = "w2\<lparr>w_prot := prot_set (w_prot w2) t n PROT_READ\<rparr>"
  have "alloc_at w1 t = Some ?P" using alloc_at_base [OF w1(1) w16] by simp
  then have map3: "MapViewOfFile3 os w1 (s_section s) t off n = Some (t, ?w3)"
    using s(7,8) w1(3,4) assms(4,6,8) R(6) by (simp add: MapViewOfFile3_def flip: w2_def)
  have V: "?V \<in> set (w_allocs w2)" using R(5) by simp
  note p = set_prot_ok [OF R(1) V, of t n PROT_READ]
  have m3: "w_mem ?w3 = m"
    using p(2) R(2) w1(2,3) by (auto simp: fun_eq_iff m_def mem_protect_def covers_def cell_def)
  have ok3: "w_ok os ?w3" using p(1) by simp
  have st3: "staged ?w3 s" using st1 R(3-5) by (simp add: staged_def)
  obtain s' w' where c: "scratch_consume ?w3 s n = Inr (s', w')" "w_ok os w'"
      "if s_consumed s + n = s_size s
       then s_addr s' = 0 \<and> s_size s' = s_size s \<and> s_section s \<notin> w_handles w' \<and> w_mem w' = mem_set (w_mem ?w3) (s_addr s) (s_size s) None \<and>
         set (w_allocs w') = set (w_allocs ?w3) - {staging_view s}
       else s' = s\<lparr>s_consumed := s_consumed s + n\<rparr> \<and> w' = ?w3"
    using scratch_consume_ok [OF ok3 st3 assms(3)] by blast
  have "win_scratch_publish os w s off n t = Inr (s', w')"
    using q map3 c(1) by (simp add: win_scratch_publish_def must_def)
  moreover have "staged w' s'" if "s_consumed s + n \<noteq> s_size s" using c(3) that st3 by (simp add: staged_def)
  moreover
  have "set (w_allocs w') = insert ?V (set (w_allocs w1) - {?P}) - (if s_consumed s + n = s_size s then {staging_view s} else {})"
    using c(3) R(5) by (cases "s_consumed s + n = s_size s") auto
  then have "published w w' s off n t (s_consumed s + n = s_size s)" using w1(5) unfolding published_def by blast
  ultimately show ?thesis using c(2,3) m3 by (intro exI [of _ s'] exI [of _ w'] conjI) (simp_all split: if_splits)
qed

text \<open>
  The whole life of a scratch buffer after it has been filled, as \<open>fill_chunk_locked\<close> runs it.
\<close>

definition win_publish_life :: "wos \<Rightarrow> win \<Rightarrow> vm_scratch \<Rightarrow> size_t \<Rightarrow> size_t \<Rightarrow> addr \<Rightarrow> (vm_scratch \<times> win) res" where
  "win_publish_life os w s lo hi t =
     res_bind (win_scratch_seal w s) (\<lambda>w.
     res_bind (win_scratch_publish os w s lo (hi - lo) t) (\<lambda>(s, w).
     res_bind (if 0 < lo then win_scratch_discard w s 0 lo else Inr (s, w)) (\<lambda>(s, w).
     if hi < s_size s then win_scratch_discard w s hi (s_size s - hi) else Inr (s, w))))"

definition posix_publish_life :: "os \<Rightarrow> mem \<Rightarrow> vm_scratch \<Rightarrow> size_t \<Rightarrow> size_t \<Rightarrow> addr \<Rightarrow> mem res" where
  "posix_publish_life os m s lo hi t =
     res_bind (vm_scratch_seal os m s) (\<lambda>m.
     res_bind (vm_scratch_publish os m s lo (hi - lo) t) (\<lambda>m.
     res_bind (if 0 < lo then vm_scratch_discard os m s 0 lo else Inr m) (\<lambda>m.
     if hi < s_size s then vm_scratch_discard os m s hi (s_size s - hi) else Inr m)))"

lemma staged_consumed [simp]: "staged w (s\<lparr>s_consumed := k\<rparr>) = staged w s"
  by (simp add: staged_def)

lemma discard_rest:
  assumes "w_ok os w" "staged w s" "s_consumed s = hi - lo" "lo < hi" "hi \<le> s_size s" "hi - lo < s_size s"
  shows "\<exists>s' w'. res_bind (if 0 < lo then win_scratch_discard w s 0 lo else Inr (s, w)) (\<lambda>(s, w).
       if hi < s_size s then win_scratch_discard w s hi (s_size s - hi) else Inr (s, w)) = Inr (s', w') \<and> s_addr s' = 0 \<and>
    s_section s \<notin> w_handles w' \<and> w_ok os w' \<and> w_mem w' = mem_set (w_mem w) (s_addr s) (s_size s) None \<and>
    set (w_allocs w') = set (w_allocs w) - {staging_view s}"
proof (cases "hi = s_size s")
  case True
  then show ?thesis using scratch_consume_ok [OF assms(1,2), of lo] assms(3,4,6) by (auto simp: win_scratch_discard_def)
next
  case False
  let ?s = "s\<lparr>s_consumed := hi\<rparr>"
  have first: "(if 0 < lo then win_scratch_discard w s 0 lo else Inr (s, w)) = Inr (?s, w)"
    using scratch_consume_ok [OF assms(1,2), of lo] assms(3-5) False by (cases "lo = 0") (auto simp: win_scratch_discard_def)
  have "staged w ?s" using assms(2) by simp
  from scratch_consume_ok [OF assms(1) this, of "s_size s - hi"] show ?thesis
    unfolding first using assms(4,5) False by (auto simp: win_scratch_discard_def)
qed

text \<open>What the POSIX sequence leaves, as one function of the page tables before it.\<close>

definition life_mem :: "mem \<Rightarrow> vm_scratch \<Rightarrow> size_t \<Rightarrow> size_t \<Rightarrow> addr \<Rightarrow> mem" where
  "life_mem m s lo hi t = (\<lambda>x. if t \<le> x \<and> x < t + (hi - lo) then map_option (\<lambda>(_, b). (PROT_READ, b)) (m (s_addr s + lo + (x - t)))
     else if s_addr s \<le> x \<and> x < s_addr s + s_size s then None else m x)"

lemma staging_apart:
  assumes "w_ok os w" "staged w s" "in_placeholder w t n"
  shows "s_addr s + s_size s \<le> t \<or> t + n \<le> s_addr s"
proof -
  note s = stagedD [OF assms(1,2)]
  obtain P where P: "P \<in> set (w_allocs w)" "wa_kind P = Placeholder" "wa_base P \<le> t" "t + n \<le> wa_base P + wa_len P"
    using assms(3) by (auto simp: in_placeholder_def)
  show ?thesis using covers_disjoint [of P "staging_view s"] w_okD(7) [OF assms(1) P(1) s(1)] w_okD(4) [OF assms(1) P(1)] P s(3) by fastforce
qed

lemma posix_life_eq:
  assumes "w_ok os w" "staged w s" "os_page_size posix = wo_granularity os"
    "wo_granularity os dvd lo" "wo_granularity os dvd hi" "lo < hi" "hi \<le> s_size s" "wo_granularity os dvd t"
    "in_placeholder w t (hi - lo)"
  shows "posix_publish_life posix (w_mem w) s lo hi t = Inr (life_mem (w_mem w) s lo hi t)"
  unfolding posix_publish_life_def life_mem_def
  by (rule posix.publish_piece)
    (use stagedD [OF assms(1,2)] assms(3-8) w_okD(1) [OF assms(1)] staging_apart [OF assms(1,2,9)] in
      \<open>auto simp: vm_page_size_def page_range_def mem_mapped_def\<close>)

text \<open>What the Windows sequence leaves: the piece in place, and the staging view gone.\<close>

definition piece_mem :: "win \<Rightarrow> vm_scratch \<Rightarrow> size_t \<Rightarrow> size_t \<Rightarrow> addr \<Rightarrow> mem" where
  "piece_mem w s off n t = (\<lambda>x. if t \<le> x \<and> x < t + n then Some (PROT_READ, w_section w (s_section s) ! (off + (x - t))) else w_mem w x)"

lemma win_publish_life_ok:
  assumes "w_ok os w" "staged w s" "s_consumed s = 0" "wo_granularity os dvd lo" "wo_granularity os dvd hi" "lo < hi" "hi \<le> s_size s"
    "wo_granularity os dvd t" "in_placeholder w t (hi - lo)" and w1: "win_scratch_seal w s = Inr w1"
  shows "\<exists>s' w'. win_publish_life os w s lo hi t = Inr (s', w') \<and> s_addr s' = 0 \<and> s_section s \<notin> w_handles w' \<and> w_ok os w' \<and>
    w_mem w' = mem_set (piece_mem w1 s lo (hi - lo) t) (s_addr s) (s_size s) None \<and> published w w' s lo (hi - lo) t True"
proof -
  let ?m = "piece_mem w1 s lo (hi - lo) t"
  have s1: "w_ok os w1" "w_allocs w1 = w_allocs w" "staged w1 s" using win_scratch_seal_ok [OF assms(1,2)] w1 by auto
  have place: "in_placeholder w1 t (hi - lo)" using assms(9) s1(2) by (simp add: in_placeholder_def)
  have "\<exists>s' w'. win_scratch_publish os w1 s lo (hi - lo) t = Inr (s', w') \<and> w_ok os w' \<and>
    published w1 w' s lo (hi - lo) t (s_consumed s + (hi - lo) = s_size s) \<and>
    (if s_consumed s + (hi - lo) = s_size s
     then s_addr s' = 0 \<and> s_size s' = s_size s \<and> s_section s \<notin> w_handles w' \<and> w_mem w' = mem_set ?m (s_addr s) (s_size s) None
     else s' = s\<lparr>s_consumed := s_consumed s + (hi - lo)\<rparr> \<and> w_mem w' = ?m \<and> staged w' s')"
    unfolding piece_mem_def using assms(3-8) place dvd_diff_nat by (intro win_scratch_publish_ok [OF s1(1,3)]) auto
  then obtain s2 w2 where pub: "win_scratch_publish os w1 s lo (hi - lo) t = Inr (s2, w2)" "w_ok os w2"
      "published w1 w2 s lo (hi - lo) t (hi - lo = s_size s)"
    and out: "if hi - lo = s_size s then s_addr s2 = 0 \<and> s_size s2 = s_size s \<and> s_section s \<notin> w_handles w2 \<and> w_mem w2 = mem_set ?m (s_addr s) (s_size s) None
      else s2 = s\<lparr>s_consumed := hi - lo\<rparr> \<and> w_mem w2 = ?m \<and> staged w2 s2"
    unfolding assms(3) add_0 by blast
  have carve1: "carved w1 = carved w" using s1(2) by (simp add: carved_def in_placeholder_def fun_eq_iff)
  show ?thesis
  proof (cases "hi - lo = s_size s")
    case True
    then have "lo = 0" "hi = s_size s" using assms(6,7) by auto
    then have "win_publish_life os w s lo hi t = Inr (s2, w2)" using w1 pub(1) out by (simp add: win_publish_life_def)
    then show ?thesis using out pub(2,3) True carve1 by (simp add: published_def)
  next
    case False
    then have s2: "s2 = s\<lparr>s_consumed := hi - lo\<rparr>" "w_mem w2 = ?m" "staged w2 s2" using out by auto
    have "hi - lo < s_size s2" "hi \<le> s_size s2" "s_consumed s2 = hi - lo" using False assms(6,7) s2(1) by auto
    note rest = discard_rest [OF pub(2) s2(3) this(3) assms(6) this(2,1)]
    have "win_publish_life os w s lo hi t = res_bind (if 0 < lo then win_scratch_discard w2 s2 0 lo else Inr (s2, w2)) (\<lambda>(s, w).
       if hi < s_size s then win_scratch_discard w s hi (s_size s - hi) else Inr (s, w))"
      by (simp only: win_publish_life_def w1 res_bind_Inr pub(1) prod.case)
    moreover have "s_section s2 = s_section s" "s_addr s2 = s_addr s" "s_size s2 = s_size s" using s2(1) by simp_all
    moreover obtain wc where "carved w wc t (hi - lo)" "set (w_allocs w2) =
        insert (target_view s lo (hi - lo) t) (set (w_allocs wc) - {\<lparr>wa_base = t, wa_len = hi - lo, wa_kind = Placeholder\<rparr>})"
      using pub(3) False carve1 by (auto simp: published_def)
    then have "published w w' s lo (hi - lo) t True" if "set (w_allocs w') = set (w_allocs w2) - {staging_view s}" for w'
      unfolding published_def using that by (intro exI [of _ wc]) simp
    ultimately show ?thesis using rest s2(2) by metis
  qed
qed

lemma publish_life_refines:
  assumes "w_ok os w" "staged w s" "s_consumed s = 0" "os_page_size posix = wo_granularity os"
    "wo_granularity os dvd lo" "wo_granularity os dvd hi" "lo < hi" "hi \<le> s_size s" "wo_granularity os dvd t"
    "in_placeholder w t (hi - lo)"
  shows "\<exists>s' w'. win_publish_life os w s lo hi t = Inr (s', w') \<and> s_addr s' = 0 \<and> s_section s \<notin> w_handles w' \<and> w_ok os w' \<and>
    published w w' s lo (hi - lo) t True \<and> w_mem w' = life_mem (w_mem w) s lo hi t \<and>
    posix_publish_life posix (w_mem w) s lo hi t = Inr (w_mem w')"
proof -
  note s = stagedD [OF assms(1,2)]
  obtain w1 where w1: "win_scratch_seal w s = Inr w1" "w_mem w1 = mem_protect (w_mem w) (s_addr s) (s_size s) PROT_READ"
      "w_section w1 = w_section w"
    using win_scratch_seal_ok [OF assms(1,2)] by blast
  obtain s' w' where w': "win_publish_life os w s lo hi t = Inr (s', w')" "s_addr s' = 0" "s_section s \<notin> w_handles w'" "w_ok os w'"
      "w_mem w' = mem_set (piece_mem w1 s lo (hi - lo) t) (s_addr s) (s_size s) None" "published w w' s lo (hi - lo) t True"
    using win_publish_life_ok [OF assms(1-3,5-10) w1(1)] by blast
  note apart = staging_apart [OF assms(1,2,10)]
  have "w_mem w' x = life_mem (w_mem w) s lo hi t x" for x
  proof (cases "t \<le> x \<and> x < t + (hi - lo)")
    case True
    then have "s_addr s + lo + (x - t) < s_addr s + s_size s" using assms(7,8) by linarith
    then show ?thesis using True apart s(10) [of "s_addr s + lo + (x - t)"] w1(3)
      by (auto simp: w'(5) piece_mem_def mem_set_def life_mem_def)
  next
    case False
    then show ?thesis using w1(2) by (auto simp: w'(5) piece_mem_def mem_set_def mem_protect_def life_mem_def)
  qed
  then have "w_mem w' = life_mem (w_mem w) s lo hi t" by (rule ext)
  then show ?thesis using w'(1-4,6) posix_life_eq [OF assms(1,2,4-10)]
    by (intro exI [of _ s'] exI [of _ w'] conjI) simp_all
qed

end
