(* ===== verification/Vm_Win32_Use.thy ===== *)
theory Vm_Win32_Use
  imports Vm_Win32_Refine Region
begin

text \<open>
  How \<open>inproc.c\<close> uses the Windows seam.  Each region has a fixed family of disjoint page ranges (\<open>slots\<close>):
  the exclusive pages of its chunks and its shared pages.  Only whole slots are published, hidden
  and decommitted, and only whole regions are released.  In every state such use can reach the calls succeed and
  act on the page tables as their POSIX counterparts do.
\<close>

section \<open>Slots\<close>

type_synonym range = "addr \<times> size_t"

definition apart :: "range \<Rightarrow> range \<Rightarrow> bool" where
  "apart I J \<longleftrightarrow> fst I + snd I \<le> fst J \<or> fst J + snd J \<le> fst I"

definition within :: "range \<Rightarrow> range \<Rightarrow> bool" where
  "within I J \<longleftrightarrow> fst J \<le> fst I \<and> fst I + snd I \<le> fst J + snd J"

definition slots_ok :: "size_t \<Rightarrow> range set \<Rightarrow> bool" where
  "slots_ok ps S \<longleftrightarrow> (\<forall>I\<in>S. page_range ps (fst I) (snd I)) \<and> (\<forall>I\<in>S. \<forall>J\<in>S. I \<noteq> J \<longrightarrow> apart I J)"

text \<open>The slots of a region: the exclusive pages of every chunk that has any, and the shared pages.\<close>

definition region_slots :: "fc_region \<Rightarrow> range set" where
  "region_slots r = {(r_base r + lo, hi - lo) | c lo hi. c < r_nchunks r \<and> chunk_exclusive_pages r c = (lo, hi) \<and> lo < hi} \<union>
     {(r_base r + p, r_page_size r) | p. shared_at r p}"

section \<open>Use\<close>

inductive win_use :: "wos \<Rightarrow> win \<Rightarrow> range set \<Rightarrow> range set \<Rightarrow> range set \<Rightarrow> bool" for os where
  start: "w_ok os w \<Longrightarrow> win_use os w {} {} {}"
| reserve: "win_use os w Rg S pub \<Longrightarrow> region_layout r \<Longrightarrow> r_page_size r = win_page_size os \<Longrightarrow>
    win_reserve os w (r_mapped_size r) = Inr (r_base r, w') \<Longrightarrow>
    win_use os w' (insert (r_base r, r_mapped_size r) Rg) (S \<union> region_slots r) pub"
| create: "win_use os w Rg S pub \<Longrightarrow> win_page_size os dvd n \<Longrightarrow> win_scratch_create os w n ok = Inr (s, w') \<Longrightarrow> win_use os w' Rg S pub"
| store: "win_use os w Rg S pub \<Longrightarrow> win_store w a bs = Some w' \<Longrightarrow> win_use os w' Rg S pub"
| seal: "win_use os w Rg S pub \<Longrightarrow> staged w s \<Longrightarrow> win_scratch_seal w s = Inr w' \<Longrightarrow> win_use os w' Rg S pub"
| publish: "win_use os w Rg S pub \<Longrightarrow> staged w s \<Longrightarrow> s_consumed s = 0 \<Longrightarrow> win_page_size os dvd lo \<Longrightarrow> win_page_size os dvd hi \<Longrightarrow>
    lo < hi \<Longrightarrow> hi \<le> s_size s \<Longrightarrow> (t, hi - lo) \<in> S - pub \<Longrightarrow> win_publish_life os w s lo hi t = Inr (s', w') \<Longrightarrow>
    win_use os w' Rg S (insert (t, hi - lo) pub)"
| discard: "win_use os w Rg S pub \<Longrightarrow> staged w s \<Longrightarrow> s_consumed s = 0 \<Longrightarrow> win_scratch_discard w s 0 (s_size s) = Inr (s', w') \<Longrightarrow>
    win_use os w' Rg S pub"
| protect: "win_use os w Rg S pub \<Longrightarrow> (a, n) \<in> pub \<Longrightarrow> win_set_readable w a n r = Inr w' \<Longrightarrow> win_use os w' Rg S pub"
| decommit: "win_use os w Rg S pub \<Longrightarrow> (a, n) \<in> S \<Longrightarrow> win_decommit os w a n = Inr w' \<Longrightarrow> win_use os w' Rg S (pub - {(a, n)})"
| release: "win_use os w Rg S pub \<Longrightarrow> (b, m) \<in> Rg \<Longrightarrow> win_release os w b m = Inr w' \<Longrightarrow>
    win_use os w' (Rg - {(b, m)}) {I \<in> S. \<not> within I (b, m)} {I \<in> pub. \<not> within I (b, m)}"

text \<open>
  The invariant: a region is mapped throughout, and made up of placeholders and published slots;
  a slot that is not published lies in one placeholder.
\<close>

definition region_shape :: "win \<Rightarrow> range set \<Rightarrow> range \<Rightarrow> bool" where
  "region_shape w pub R \<longleftrightarrow> mem_mapped (w_mem w) (fst R) (snd R) \<and> tiled w (fst R) (fst R + snd R) \<and>
     (\<forall>A\<in>set (w_allocs w). fst R \<le> wa_base A \<longrightarrow> wa_base A < fst R + snd R \<longrightarrow>
        wa_kind A = Placeholder \<or> (wa_base A, wa_len A) \<in> pub \<and> (\<exists>sec off. wa_kind A = View sec off True))"

definition slot_shape :: "win \<Rightarrow> range set \<Rightarrow> range \<Rightarrow> bool" where
  "slot_shape w pub I \<longleftrightarrow>
     (if I \<in> pub then \<exists>sec off. \<lparr>wa_base = fst I, wa_len = snd I, wa_kind = View sec off True\<rparr> \<in> set (w_allocs w)
      else in_placeholder w (fst I) (snd I))"

definition use_inv :: "wos \<Rightarrow> win \<Rightarrow> range set \<Rightarrow> range set \<Rightarrow> range set \<Rightarrow> bool" where
  "use_inv os w Rg S pub \<longleftrightarrow> w_ok os w \<and> slots_ok (wo_granularity os) S \<and> slots_ok (wo_granularity os) Rg \<and> pub \<subseteq> S \<and>
     (\<forall>R\<in>Rg. fst R + snd R \<le> SIZE_RANGE \<and> region_shape w pub R) \<and> (\<forall>I\<in>S. (\<exists>R\<in>Rg. within I R) \<and> slot_shape w pub I)"

lemma use_invD:
  assumes "use_inv os w Rg S pub"
  shows "w_ok os w" "slots_ok (wo_granularity os) S" "slots_ok (wo_granularity os) Rg" "pub \<subseteq> S"
    "R \<in> Rg \<Longrightarrow> fst R + snd R \<le> SIZE_RANGE \<and> region_shape w pub R" "I \<in> S \<Longrightarrow> \<exists>R\<in>Rg. within I R" "I \<in> S \<Longrightarrow> slot_shape w pub I"
  using assms by (auto simp: use_inv_def)

lemma apart_meet: "apart I J \<Longrightarrow> fst I \<le> x \<Longrightarrow> x < fst I + snd I \<Longrightarrow> fst J \<le> x \<Longrightarrow> x < fst J + snd J \<Longrightarrow> False"
  by (auto simp: apart_def)

lemma meet_apart: "0 < snd I \<Longrightarrow> 0 < snd J \<Longrightarrow> (\<And>x. fst I \<le> x \<Longrightarrow> x < fst I + snd I \<Longrightarrow> fst J \<le> x \<Longrightarrow> x < fst J + snd J \<Longrightarrow> False) \<Longrightarrow> apart I J"
proof (rule ccontr)
  assume a: "0 < snd I" "0 < snd J" "\<not> apart I J"
    and b: "\<And>x. fst I \<le> x \<Longrightarrow> x < fst I + snd I \<Longrightarrow> fst J \<le> x \<Longrightarrow> x < fst J + snd J \<Longrightarrow> False"
  show False by (rule b [of "max (fst I) (fst J)"]) (use a in \<open>auto simp: apart_def\<close>)
qed

lemma slots_okD:
  assumes "slots_ok ps S"
  shows "I \<in> S \<Longrightarrow> page_range ps (fst I) (snd I)" "I \<in> S \<Longrightarrow> J \<in> S \<Longrightarrow> I \<noteq> J \<Longrightarrow> apart I J" "I \<in> S \<Longrightarrow> 0 < snd I"
  using assms by (auto simp: slots_ok_def page_range_def)

text \<open>Nothing here depends on more than the set of allocations.\<close>

lemma mapped_iff: "w_mem w x \<noteq> None \<longleftrightarrow> (\<exists>A\<in>set (w_allocs w). covers A x)"
  by (simp add: w_mem_cell alloc_at_None)

lemma use_inv_allocs:
  assumes "use_inv os w Rg S pub" "w_ok os w'" "w_allocs w' = w_allocs w"
  shows "use_inv os w' Rg S pub"
proof -
  have "mem_mapped (w_mem w') a n = mem_mapped (w_mem w) a n" for a n
    using assms(3) by (simp add: mem_mapped_def mapped_iff del: not_None_eq)
  then have "region_shape w' = region_shape w" "slot_shape w' = slot_shape w"
    using assms(3) by (simp_all add: fun_eq_iff region_shape_def slot_shape_def tiled_def in_placeholder_def)
  then show ?thesis using assms(1,2) by (simp add: use_inv_def)
qed

text \<open>A new allocation in free address space.\<close>

lemma use_inv_fresh:
  assumes inv: "use_inv os w Rg S pub" and ok: "w_ok os w'" and al: "w_allocs w' = N # w_allocs w"
    and free: "\<And>x. covers N x \<Longrightarrow> w_mem w x = None"
  shows "use_inv os w' Rg S pub" "R \<in> Rg \<Longrightarrow> apart R (wa_base N, wa_len N)"
proof -
  note D = use_invD [OF inv]
  have N: "0 < wa_len N" using w_okD(4) [OF ok, of N] al by simp
  have ap: "apart R (wa_base N, wa_len N)" if R: "R \<in> Rg" for R
  proof (rule meet_apart)
    show "0 < snd R" using slots_okD(3) [OF D(3) R] .
    fix x assume x: "fst R \<le> x" "x < fst R + snd R" "fst (wa_base N, wa_len N) \<le> x" "x < fst (wa_base N, wa_len N) + snd (wa_base N, wa_len N)"
    then have "w_mem w x = None" using free by (simp add: covers_def)
    moreover have "w_mem w x \<noteq> None" using D(5) [OF R] x(1,2) by (simp add: region_shape_def mem_mapped_def)
    ultimately show False by simp
  qed (use N in simp)
  then show "R \<in> Rg \<Longrightarrow> apart R (wa_base N, wa_len N)" .
  have "region_shape w' pub R" if R: "R \<in> Rg" for R
  proof -
    have "w_mem w' x \<noteq> None" if "w_mem w x \<noteq> None" for x using that unfolding mapped_iff al by auto
    then show ?thesis using D(5) [OF R] ap [OF R] N al
      unfolding region_shape_def mem_mapped_def tiled_def apart_def by auto
  qed
  moreover have "slot_shape w' pub I" if I: "I \<in> S" for I
  proof (cases "I \<in> pub")
    case True
    then show ?thesis using D(7) [OF I] al unfolding slot_shape_def by auto
  next
    case False
    then show ?thesis using D(7) [OF I] al unfolding slot_shape_def in_placeholder_def by auto
  qed
  ultimately show "use_inv os w' Rg S pub" using inv ok by (auto simp: use_inv_def)
qed


text \<open>Two allocations that meet are one; a slot lies in the one that holds it.\<close>

lemma alloc_meet:
  assumes "w_ok os w" "A \<in> set (w_allocs w)" "B \<in> set (w_allocs w)" "wa_base A < wa_base B + wa_len B" "wa_base B < wa_base A + wa_len A"
  shows "A = B"
  by (rule w_okD(7) [OF assms(1-3), of "max (wa_base A) (wa_base B)"])
    (use assms(4,5) w_okD(4) [OF assms(1)] assms(2,3) in \<open>auto simp: covers_def\<close>)

lemma slot_alloc:
  assumes inv: "use_inv os w Rg S pub" and I: "I \<in> S"
  obtains A where "A \<in> set (w_allocs w)" "wa_base A \<le> fst I" "fst I + snd I \<le> wa_base A + wa_len A"
    "if I \<in> pub then \<exists>sec off. A = \<lparr>wa_base = fst I, wa_len = snd I, wa_kind = View sec off True\<rparr> else wa_kind A = Placeholder"
proof (cases "I \<in> pub")
  case True
  then obtain sec off where "\<lparr>wa_base = fst I, wa_len = snd I, wa_kind = View sec off True\<rparr> \<in> set (w_allocs w)"
    using use_invD(7) [OF inv I] by (auto simp: slot_shape_def)
  then show thesis using that [of "\<lparr>wa_base = fst I, wa_len = snd I, wa_kind = View sec off True\<rparr>"] True by simp
next
  case False
  then obtain P where "P \<in> set (w_allocs w)" "wa_kind P = Placeholder" "wa_base P \<le> fst I" "fst I + snd I \<le> wa_base P + wa_len P"
    using use_invD(7) [OF inv I] by (auto simp: slot_shape_def in_placeholder_def)
  then show thesis using that [of P] False by simp
qed

lemma slot_views_within:
  assumes inv: "use_inv os w Rg S pub" and I: "I \<in> S"
  shows "views_within w (fst I) (fst I + snd I)"
  unfolding views_within_def
proof (intro ballI impI)
  fix B assume B: "B \<in> set (w_allocs w)" "wa_kind B \<noteq> Placeholder" "wa_base B < fst I + snd I" "fst I < wa_base B + wa_len B"
  obtain A where A: "A \<in> set (w_allocs w)" "wa_base A \<le> fst I" "fst I + snd I \<le> wa_base A + wa_len A"
    "if I \<in> pub then \<exists>sec off. A = \<lparr>wa_base = fst I, wa_len = snd I, wa_kind = View sec off True\<rparr> else wa_kind A = Placeholder"
    using slot_alloc [OF inv I] .
  have "A = B" using alloc_meet [OF use_invD(1) [OF inv] A(1) B(1)] A(2,3) B(3,4) by linarith
  then show "fst I \<le> wa_base B \<and> wa_base B + wa_len B \<le> fst I + snd I \<and> (\<exists>sec off. wa_kind B = View sec off True)"
    using A(4) B(2) by (auto split: if_splits)
qed

lemma slot_mapped:
  assumes inv: "use_inv os w Rg S pub" and I: "I \<in> S"
  shows "mem_mapped (w_mem w) (fst I) (snd I)" "fst I + snd I \<le> SIZE_RANGE"
proof -
  obtain R where R: "R \<in> Rg" "within I R" using use_invD(6) [OF inv I] by blast
  have sh: "fst R + snd R \<le> SIZE_RANGE" "mem_mapped (w_mem w) (fst R) (snd R)" using use_invD(5) [OF inv R(1)] by (simp_all add: region_shape_def)
  show "mem_mapped (w_mem w) (fst I) (snd I)" using mem_mapped_sub [OF sh(2)] R(2) by (simp add: within_def)
  show "fst I + snd I \<le> SIZE_RANGE" using sh(1) R(2) by (simp add: within_def)
qed

text \<open>A staging view lies outside every region.\<close>

lemma staging_outside:
  assumes inv: "use_inv os w Rg S pub" and st: "staged w s" and R: "R \<in> Rg"
  shows "apart R (s_addr s, s_size s)"
proof (rule ccontr)
  note s = stagedD(1,3) [OF use_invD(1) [OF inv] st]
  assume "\<not> apart R (s_addr s, s_size s)"
  then have meet: "s_addr s < fst R + snd R" "fst R < s_addr s + s_size s" by (auto simp: apart_def)
  have sh: "region_shape w pub R" using use_invD(5) [OF inv R] by simp
  have "fst R \<le> wa_base (staging_view s) \<and> wa_base (staging_view s) + wa_len (staging_view s) \<le> fst R + snd R"
    using sh s(1) meet unfolding region_shape_def tiled_def by fastforce
  then show False using sh s meet unfolding region_shape_def by fastforce
qed


section \<open>The invariant is kept\<close>

lemma use_inv_reserve:
  assumes inv: "use_inv os w Rg S pub" and n: "wo_granularity os dvd n" and ret: "win_reserve os w n = Inr (a, w')"
    and T: "slots_ok (wo_granularity os) T" "\<forall>I\<in>T. within I (a, n)"
  shows "use_inv os w' (insert (a, n) Rg) (S \<union> T) pub"
proof -
  note D = use_invD [OF inv]
  let ?N = "\<lparr>wa_base = a, wa_len = n, wa_kind = Placeholder\<rparr>"
  have w': "0 < n" "fresh_range (win_page_size os) (w_mem w) a n" "w_ok os w'" "w_allocs w' = ?N # w_allocs w"
    using win_reserve_ok [OF D(1) n] ret by simp_all
  have free: "w_mem w x = None" if "covers ?N x" for x using w'(2) that by (auto simp: fresh_range_def mem_free_def covers_def)
  note F = use_inv_fresh [OF inv w'(3,4) free]
  note D' = use_invD [OF F(1)]
  have ap: "apart R (a, n)" if "R \<in> Rg" for R using F(2) [OF _ that] by simp
  have page: "page_range (wo_granularity os) a n"
    using w'(1,2) n w_okD(1) [OF D(1)] by (simp add: page_range_def fresh_range_def win_page_size_def)
  have N: "?N \<in> set (w_allocs w')" using w'(4) by simp
  have only: "A = ?N" if "A \<in> set (w_allocs w')" "wa_base A < a + n" "a < wa_base A + wa_len A" for A
    using alloc_meet [OF w'(3) that(1) N] that(2,3) by simp
  have "mem_mapped (w_mem w') a n"
    unfolding mem_mapped_def mapped_iff by (auto intro!: bexI [OF _ N] simp: covers_def)
  then have new: "region_shape w' pub (a, n)"
    unfolding region_shape_def tiled_def using only w_okD(4) [OF w'(3)] by fastforce
  have cross: "apart I J" if I: "I \<in> S" and J: "J \<in> T" for I J
  proof -
    obtain R where "R \<in> Rg" "within I R" using D(6) [OF I] by blast
    then show ?thesis using ap [of R] T(2) J by (fastforce simp: apart_def within_def)
  qed
  have slot: "slot_shape w' pub J" if J: "J \<in> T" for J
  proof -
    have "J \<notin> pub"
    proof
      assume "J \<in> pub"
      then have "apart J J" using cross J D(4) by blast
      then show False using slots_okD(3) [OF T(1) J] by (simp add: apart_def)
    qed
    then show ?thesis using T(2) J N by (force simp: slot_shape_def in_placeholder_def within_def)
  qed
  have "slots_ok (wo_granularity os) (insert (a, n) Rg)"
    using D(3) page ap unfolding slots_ok_def by (auto simp: apart_def)
  moreover have "slots_ok (wo_granularity os) (S \<union> T)"
    using D(2) T(1) cross unfolding slots_ok_def by (auto simp: apart_def)
  moreover have "a + n \<le> SIZE_RANGE" using w'(2) by (simp add: fresh_range_def)
  ultimately show ?thesis
    unfolding use_inv_def using D'(1,4-7) new slot T(2) by auto
qed

text \<open>The slots of a region are disjoint page ranges inside it: an offset lies in one slot.\<close>

definition slot_of :: "fc_region \<Rightarrow> size_t \<Rightarrow> range" where
  "slot_of r y = (let p = page_floor y (r_page_size r) in
     if shared_at r p then (r_base r + p, r_page_size r)
     else case chunk_exclusive_pages r (find_chunk r y) of (lo, hi) \<Rightarrow> (r_base r + lo, hi - lo))"

lemma region_slotsE:
  assumes "I \<in> region_slots r"
  obtains c lo hi where "I = (r_base r + lo, hi - lo)" "c < r_nchunks r" "chunk_exclusive_pages r c = (lo, hi)" "lo < hi"
    | p where "I = (r_base r + p, r_page_size r)" "shared_at r p"
  using assms by (auto simp: region_slots_def)

lemma slot_of_eq:
  assumes lay: "region_layout r" and I: "I \<in> region_slots r" and y: "fst I \<le> r_base r + y" "r_base r + y < fst I + snd I"
  shows "I = slot_of r y"
  using I
proof (cases rule: region_slotsE)
  case (1 c lo hi)
  then have "lo \<le> y" "y < hi" using y by auto
  then show ?thesis using exclusive_owned [OF lay 1(2,3)] 1(1,3) by (simp add: slot_of_def)
next
  case (2 p)
  note ps = region_layoutD(1) [OF lay]
  have "r_page_size r dvd p" using shared_at_less [OF lay 2(2)] by blast
  moreover have "p \<le> y" "y < p + r_page_size r" using 2(1) y by auto
  ultimately have "page_floor y (r_page_size r) = p" by (rule page_floor_unique [OF ps])
  then show ?thesis using 2 by (simp add: slot_of_def)
qed

lemma region_slots_ok:
  assumes lay: "region_layout r" and base: "r_page_size r dvd r_base r"
  shows "slots_ok (r_page_size r) (region_slots r)" "I \<in> region_slots r \<Longrightarrow> within I (r_base r, r_mapped_size r)"
proof -
  have one: "page_range (r_page_size r) (fst I) (snd I) \<and> within I (r_base r, r_mapped_size r)" if "I \<in> region_slots r" for I
    using that
  proof (cases rule: region_slotsE)
    case (1 c lo hi)
    then show ?thesis using exclusive_bounds [OF lay 1(2,3)] base region_layoutD(1) [OF lay]
      by (auto simp: page_range_def within_def intro: dvd_diff_nat)
  next
    case (2 p)
    moreover obtain i where "r_page_size r dvd p" "p + r_page_size r \<le> r_mapped_size r" by (rule shared_at_less [OF lay 2(2)])
    ultimately show ?thesis using base region_layoutD(1) [OF lay] by (simp add: page_range_def within_def)
  qed
  then show "I \<in> region_slots r \<Longrightarrow> within I (r_base r, r_mapped_size r)" by blast
  have "apart I J" if IJ: "I \<in> region_slots r" "J \<in> region_slots r" "I \<noteq> J" for I J
  proof (rule meet_apart)
    show "0 < snd I" "0 < snd J" using one IJ by (auto simp: page_range_def)
    fix x assume x: "fst I \<le> x" "x < fst I + snd I" "fst J \<le> x" "x < fst J + snd J"
    moreover have "x = r_base r + (x - r_base r)" using one [OF IJ(1)] x(1) by (auto simp: within_def)
    ultimately show False using slot_of_eq [OF lay, of _ "x - r_base r"] IJ by metis
  qed
  then show "slots_ok (r_page_size r) (region_slots r)" using one by (auto simp: slots_ok_def)
qed

lemma use_inv_reserve_region:
  assumes inv: "use_inv os w Rg S pub" and lay: "region_layout r" "r_page_size r = win_page_size os"
    and ret: "win_reserve os w (r_mapped_size r) = Inr (r_base r, w')"
  shows "use_inv os w' (insert (r_base r, r_mapped_size r) Rg) (S \<union> region_slots r) pub"
proof -
  have n: "wo_granularity os dvd r_mapped_size r" using lay page_ceil_dvd by (simp add: region_layout_def win_page_size_def)
  have "fresh_range (win_page_size os) (w_mem w) (r_base r) (r_mapped_size r)" using win_reserve_ok [OF use_invD(1) [OF inv] n] ret by simp
  then have base: "r_page_size r dvd r_base r" using lay(2) by (simp add: fresh_range_def)
  show ?thesis using use_inv_reserve [OF inv n ret] region_slots_ok [OF lay(1) base] lay(2) by (simp add: win_page_size_def)
qed

lemma use_inv_create:
  assumes inv: "use_inv os w Rg S pub" and n: "wo_granularity os dvd n" and ret: "win_scratch_create os w n ok = Inr (s, w')"
  shows "use_inv os w' Rg S pub"
proof -
  have w': "s_size s = n" "fresh_range (win_page_size os) (w_mem w) (s_addr s) n" "w_ok os w'" "w_allocs w' = staging_view s # w_allocs w"
    using win_scratch_create_ok [OF use_invD(1) [OF inv] n, of ok] ret by simp_all
  have "w_mem w x = None" if "covers (staging_view s) x" for x
    using w'(1,2) that by (auto simp: fresh_range_def mem_free_def covers_def)
  then show ?thesis by (rule use_inv_fresh(1) [OF inv w'(3,4)])
qed

lemma use_inv_store:
  assumes inv: "use_inv os w Rg S pub" and ret: "win_store w a bs = Some w'"
  shows "use_inv os w' Rg S pub"
proof -
  have "w_allocs w' = w_allocs w" "w_next w' = w_next w"
    using ret by (auto simp: win_store_def Let_def split: option.splits wkind.splits if_splits)
  moreover from this have "w_ok os w'" using use_invD(1) [OF inv] by (simp add: w_ok_def)
  ultimately show ?thesis by (intro use_inv_allocs [OF inv])
qed


lemma carvedD:
  assumes "carved w w' t n"
  shows "A \<in> set (w_allocs w) \<Longrightarrow> wa_kind A \<noteq> Placeholder \<Longrightarrow> A \<in> set (w_allocs w')"
    "A \<in> set (w_allocs w') \<Longrightarrow> A \<in> set (w_allocs w) \<or> wa_kind A = Placeholder \<and> in_placeholder w (wa_base A) (wa_len A)"
    "0 < k \<Longrightarrow> b + k \<le> t \<or> t + n \<le> b \<Longrightarrow> in_placeholder w b k \<Longrightarrow> in_placeholder w' b k"
  using assms unfolding carved_def by blast+

text \<open>Publishing: the new view fills its slot, and the other slots keep their placeholders.\<close>

lemma published_allocs:
  assumes out: "published w w' s off n t True"
  shows "target_view s off n t \<in> set (w_allocs w')"
    "A \<in> set (w_allocs w') \<Longrightarrow>
      A = target_view s off n t \<or> A \<in> set (w_allocs w) \<or> wa_kind A = Placeholder \<and> in_placeholder w (wa_base A) (wa_len A)"
    "A \<in> set (w_allocs w) \<Longrightarrow> wa_kind A = View sec o' True \<Longrightarrow> A \<in> set (w_allocs w')"
    "apart I (t, n) \<Longrightarrow> 0 < snd I \<Longrightarrow> in_placeholder w (fst I) (snd I) \<Longrightarrow> in_placeholder w' (fst I) (snd I)"
proof -
  let ?V = "target_view s off n t" and ?P = "\<lparr>wa_base = t, wa_len = n, wa_kind = Placeholder\<rparr>"
  obtain w1 where w1: "carved w w1 t n" and al: "set (w_allocs w') = insert ?V (set (w_allocs w1) - {?P}) - {staging_view s}"
    using out by (auto simp: published_def)
  show "?V \<in> set (w_allocs w')" using al by simp
  show "A = ?V \<or> A \<in> set (w_allocs w) \<or> wa_kind A = Placeholder \<and> in_placeholder w (wa_base A) (wa_len A)"
    if "A \<in> set (w_allocs w')"
  proof -
    have "A = ?V \<or> A \<in> set (w_allocs w1)" using that unfolding al by blast
    then show ?thesis using carvedD(2) [OF w1] by blast
  qed
  show "A \<in> set (w_allocs w')" if "A \<in> set (w_allocs w)" "wa_kind A = View sec o' True"
  proof -
    have "A \<in> set (w_allocs w1)" "A \<noteq> ?P" "A \<noteq> staging_view s" using carvedD(1) [OF w1 that(1)] that(2) by auto
    then show ?thesis unfolding al by simp
  qed
  show "in_placeholder w' (fst I) (snd I)" if I: "apart I (t, n)" "0 < snd I" "in_placeholder w (fst I) (snd I)"
  proof -
    have "in_placeholder w1 (fst I) (snd I)" using carvedD(3) [OF w1 I(2) _ I(3)] I(1) by (simp add: apart_def)
    then obtain Q where Q: "Q \<in> set (w_allocs w1)" "wa_kind Q = Placeholder" "wa_base Q \<le> fst I" "fst I + snd I \<le> wa_base Q + wa_len Q"
      by (auto simp: in_placeholder_def)
    then have "Q \<noteq> ?P" using I(1,2) by (auto simp: apart_def)
    moreover have "Q \<noteq> staging_view s" using Q(2) by auto
    ultimately have "Q \<in> set (w_allocs w')" using Q(1) unfolding al by simp
    then show ?thesis using Q(2-4) unfolding in_placeholder_def by blast
  qed
qed

lemma published_slot:
  assumes sh: "slot_shape w pub I" and I: "I = (t, n) \<or> apart I (t, n)" "0 < snd I" and out: "published w w' s off n t True"
  shows "slot_shape w' (insert (t, n) pub) I"
proof (cases "I \<in> insert (t, n) pub")
  case True
  then have "\<exists>sec off. \<lparr>wa_base = fst I, wa_len = snd I, wa_kind = View sec off True\<rparr> \<in> set (w_allocs w')"
  proof
    assume "I = (t, n)"
    then show ?thesis using published_allocs(1) [OF out] by (intro exI [of _ "s_section s"] exI [of _ off]) simp
  next
    assume "I \<in> pub"
    then obtain sec o' where "\<lparr>wa_base = fst I, wa_len = snd I, wa_kind = View sec o' True\<rparr> \<in> set (w_allocs w)"
      using sh by (auto simp: slot_shape_def)
    then show ?thesis using published_allocs(3) [OF out, of _ sec o'] by (intro exI [of _ sec] exI [of _ o']) simp
  qed
  then show ?thesis using True by (simp add: slot_shape_def)
next
  case False
  then show ?thesis using published_allocs(4) [OF out] I sh by (auto simp: slot_shape_def)
qed

lemma published_region:
  assumes sh: "region_shape w pub R" and inV: "within (t, n) R \<or> apart R (t, n)" and out: "published w w' s off n t True"
    and mem: "\<And>x. fst R \<le> x \<Longrightarrow> x < fst R + snd R \<Longrightarrow> w_mem w x \<noteq> None \<Longrightarrow> w_mem w' x \<noteq> None"
  shows "region_shape w' (insert (t, n) pub) R"
proof -
  note old = published_allocs(2) [OF out]
  have "fst R \<le> wa_base A \<and> wa_base A + wa_len A \<le> fst R + snd R"
    if A: "A \<in> set (w_allocs w')" "wa_base A < fst R + snd R" "fst R < wa_base A + wa_len A" for A
    using old [OF A(1)]
  proof (elim disjE conjE)
    assume "A = target_view s off n t"
    then show ?thesis using inV A(2,3) by (auto simp: within_def apart_def)
  next
    assume "A \<in> set (w_allocs w)"
    then show ?thesis using sh A(2,3) by (simp add: region_shape_def tiled_def)
  next
    assume "in_placeholder w (wa_base A) (wa_len A)"
    then obtain Q where Q: "Q \<in> set (w_allocs w)" "wa_base Q \<le> wa_base A" "wa_base A + wa_len A \<le> wa_base Q + wa_len Q"
      by (auto simp: in_placeholder_def)
    then have "fst R \<le> wa_base Q \<and> wa_base Q + wa_len Q \<le> fst R + snd R" using sh A(2,3) by (simp add: region_shape_def tiled_def)
    then show ?thesis using Q by simp
  qed
  then have "tiled w' (fst R) (fst R + snd R)" by (simp add: tiled_def)
  moreover have "mem_mapped (w_mem w') (fst R) (snd R)"
    using sh mem by (intro mem_mappedI) (auto simp: region_shape_def mem_mapped_def)
  moreover have "wa_kind A = Placeholder \<or> (wa_base A, wa_len A) \<in> insert (t, n) pub \<and> (\<exists>sec off. wa_kind A = View sec off True)"
    if A: "A \<in> set (w_allocs w')" "fst R \<le> wa_base A" "wa_base A < fst R + snd R" for A
    using old [OF A(1)] sh A(2,3) by (auto simp: region_shape_def)
  ultimately show ?thesis unfolding region_shape_def by blast
qed

lemma use_inv_publish:
  assumes inv: "use_inv os w Rg S pub" and st: "staged w s" and slot: "(t, n) \<in> S - pub"
    and ok: "w_ok os w'" and out: "published w w' s off n t True"
    and mem: "\<And>x c. w_mem w x = Some c \<Longrightarrow> w_mem w' x = None \<Longrightarrow> s_addr s \<le> x \<and> x < s_addr s + s_size s"
  shows "use_inv os w' Rg S (insert (t, n) pub)"
proof -
  note D = use_invD [OF inv]
  have "region_shape w' (insert (t, n) pub) R" if R: "R \<in> Rg" for R
  proof (rule published_region [OF conjunct2 [OF D(5) [OF R]] _ out])
    obtain R2 where R2: "R2 \<in> Rg" "within (t, n) R2" using D(6) [of "(t, n)"] slot by blast
    then show "within (t, n) R \<or> apart R (t, n)" using slots_okD(2) [OF D(3) R R2(1)] by (cases "R = R2") (auto simp: within_def apart_def)
    fix x assume x: "fst R \<le> x" "x < fst R + snd R" "w_mem w x \<noteq> None"
    show "w_mem w' x \<noteq> None"
    proof
      assume "w_mem w' x = None"
      then show False using mem [of x] x staging_outside [OF inv st R] by (auto simp: apart_def)
    qed
  qed
  moreover have "slot_shape w' (insert (t, n) pub) I" if I: "I \<in> S" for I
    by (rule published_slot [OF D(7) [OF I] _ slots_okD(3) [OF D(2) I] out]) (use slots_okD(2) [OF D(2) I, of "(t, n)"] slot in blast)
  ultimately show ?thesis using ok D slot by (auto simp: use_inv_def)
qed

text \<open>Discarding takes away a staging view only.\<close>

lemma use_inv_discard:
  assumes inv: "use_inv os w Rg S pub" and st: "staged w s" and ok: "w_ok os w'"
    and al: "set (w_allocs w') = set (w_allocs w) - {staging_view s}"
  shows "use_inv os w' Rg S pub"
proof -
  note D = use_invD [OF inv]
  have "region_shape w' pub R" if R: "R \<in> Rg" for R
  proof -
    note sh = conjunct2 [OF D(5) [OF R]]
    have "w_mem w' x \<noteq> None" if x: "fst R \<le> x" "x < fst R + snd R" for x
    proof -
      have "w_mem w x \<noteq> None" using sh x by (simp add: region_shape_def mem_mapped_def)
      then obtain A where A: "A \<in> set (w_allocs w)" "covers A x" unfolding mapped_iff by blast
      then have "A \<noteq> staging_view s" using staging_outside [OF inv st R] x by (auto simp: apart_def covers_def)
      then show ?thesis using A al unfolding mapped_iff by blast
    qed
    then have "mem_mapped (w_mem w') (fst R) (snd R)" by (rule mem_mappedI)
    then show ?thesis using sh al by (simp add: region_shape_def tiled_def)
  qed
  moreover have "slot_shape w' pub I" if I: "I \<in> S" for I
    using D(7) [OF I] al unfolding slot_shape_def in_placeholder_def by (cases "I \<in> pub") auto
  ultimately show ?thesis using ok D by (auto simp: use_inv_def)
qed

text \<open>Decommitting turns views into placeholders in place.\<close>

lemma unview_simps [simp]: "wa_base (unview p stop A) = wa_base A" "wa_len (unview p stop A) = wa_len A"
  by (simp_all add: unview_def)

lemma use_inv_decommit:
  assumes inv: "use_inv os w Rg S pub" and slot: "(a, n) \<in> S" and ok: "w_ok os w'"
    and al: "set (w_allocs w') = unview a (a + n) ` set (w_allocs w)"
  shows "use_inv os w' Rg S (pub - {(a, n)})"
proof -
  note D = use_invD [OF inv]
  have n: "0 < n" using slots_okD(3) [OF D(2) slot] by simp
  have mapped: "w_mem w' x \<noteq> None \<longleftrightarrow> w_mem w x \<noteq> None" for x
    unfolding mapped_iff al by (simp add: covers_def)
  have "region_shape w' (pub - {(a, n)}) R" if R: "R \<in> Rg" for R
  proof -
    note sh = conjunct2 [OF D(5) [OF R]]
    have "mem_mapped (w_mem w') (fst R) (snd R)" using sh mapped by (simp add: region_shape_def mem_mapped_def)
    moreover have "tiled w' (fst R) (fst R + snd R)" using sh al by (simp add: region_shape_def tiled_def)
    ultimately show ?thesis using sh n unfolding region_shape_def al by (auto simp: unview_def)
  qed
  moreover have "slot_shape w' (pub - {(a, n)}) I" if I: "I \<in> S" for I
  proof -
    obtain A where A: "A \<in> set (w_allocs w)" "wa_base A \<le> fst I" "fst I + snd I \<le> wa_base A + wa_len A"
      "if I \<in> pub then \<exists>sec off. A = \<lparr>wa_base = fst I, wa_len = snd I, wa_kind = View sec off True\<rparr> else wa_kind A = Placeholder"
      using slot_alloc [OF inv I] .
    have in': "unview a (a + n) A \<in> set (w_allocs w')" using A(1) al by simp
    show ?thesis
    proof (cases "I \<in> pub \<and> I \<noteq> (a, n)")
      case True
      then have "apart I (a, n)" "0 < snd I" using slots_okD(2,3) [OF D(2)] I slot by blast+
      then have "unview a (a + n) A = A" using A(4) True by (auto simp: unview_def apart_def)
      then show ?thesis using in' A(4) True by (auto simp: slot_shape_def)
    next
      case False
      then have "wa_kind (unview a (a + n) A) = Placeholder" using A(4) n by (auto simp: unview_def split: if_splits)
      then have "in_placeholder w' (fst I) (snd I)"
        unfolding in_placeholder_def using in' A(2,3) by (intro bexI [of _ "unview a (a + n) A"]) simp_all
      then show ?thesis using False by (auto simp: slot_shape_def)
    qed
  qed
  ultimately show ?thesis using ok D by (auto simp: use_inv_def)
qed


text \<open>Releasing a region takes its allocations and no others.\<close>

lemma use_inv_release:
  assumes inv: "use_inv os w Rg S pub" and R0: "(b, m) \<in> Rg" and ok: "w_ok os w'"
    and al: "set (w_allocs w') = {A \<in> set (w_allocs w). \<not> (b \<le> wa_base A \<and> wa_base A < b + m)}"
  shows "use_inv os w' (Rg - {(b, m)}) {I \<in> S. \<not> within I (b, m)} {I \<in> pub. \<not> within I (b, m)}"
proof -
  note D = use_invD [OF inv]
  have m: "0 < m" using slots_okD(3) [OF D(3) R0] by simp
  have keep: "A \<in> set (w_allocs w') \<and> fst R \<le> wa_base A \<and> wa_base A + wa_len A \<le> fst R + snd R"
    if R: "R \<in> Rg" "R \<noteq> (b, m)" and A: "A \<in> set (w_allocs w)" "wa_base A < fst R + snd R" "fst R < wa_base A + wa_len A" for R A
  proof -
    have in_R: "fst R \<le> wa_base A" "wa_base A + wa_len A \<le> fst R + snd R"
      using D(5) [OF R(1)] A by (simp_all add: region_shape_def tiled_def)
    moreover have "0 < wa_len A" using w_okD(4) [OF D(1) A(1)] by simp
    ultimately have "\<not> (b \<le> wa_base A \<and> wa_base A < b + m)" using slots_okD(2) [OF D(3) R(1) R0 R(2)] by (auto simp: apart_def)
    then show ?thesis using A(1) al in_R by simp
  qed
  have apart_slot: "\<not> within I (b, m)" if R: "R \<in> Rg" "R \<noteq> (b, m)" and I: "within I R" "0 < snd I" for R I
    using slots_okD(2) [OF D(3) R(1) R0 R(2)] I by (auto simp: apart_def within_def)
  have "region_shape w' {I \<in> pub. \<not> within I (b, m)} R" if R: "R \<in> Rg" "R \<noteq> (b, m)" for R
  proof -
    note sh = conjunct2 [OF D(5) [OF R(1)]]
    have "w_mem w' x \<noteq> None" if x: "fst R \<le> x" "x < fst R + snd R" for x
    proof -
      have "w_mem w x \<noteq> None" using sh x by (simp add: region_shape_def mem_mapped_def)
      then obtain A where A: "A \<in> set (w_allocs w)" "covers A x" unfolding mapped_iff by blast
      then have "A \<in> set (w_allocs w')" using keep [OF R A(1)] x by (simp add: covers_def)
      then show ?thesis using A(2) unfolding mapped_iff by blast
    qed
    then have "mem_mapped (w_mem w') (fst R) (snd R)" by (rule mem_mappedI)
    moreover have "tiled w' (fst R) (fst R + snd R)" using sh al by (simp add: region_shape_def tiled_def)
    moreover have "wa_kind A = Placeholder \<or> (wa_base A, wa_len A) \<in> {I \<in> pub. \<not> within I (b, m)} \<and> (\<exists>sec off. wa_kind A = View sec off True)"
      if A: "A \<in> set (w_allocs w')" "fst R \<le> wa_base A" "wa_base A < fst R + snd R" for A
    proof -
      have A': "A \<in> set (w_allocs w)" using A(1) al by simp
      have len: "0 < wa_len A" using w_okD(4) [OF D(1) A'] by simp
      have "\<not> within (wa_base A, wa_len A) (b, m)"
        using apart_slot [OF R, of "(wa_base A, wa_len A)"] keep [OF R A' A(3)] A(2) len by (simp add: within_def)
      then show ?thesis using sh A' A(2,3) by (auto simp: region_shape_def)
    qed
    ultimately show ?thesis unfolding region_shape_def by blast
  qed
  moreover have "(\<exists>R\<in>Rg - {(b, m)}. within I R) \<and> slot_shape w' {I \<in> pub. \<not> within I (b, m)} I" if I: "I \<in> S" "\<not> within I (b, m)" for I
  proof -
    obtain R where R: "R \<in> Rg" "within I R" "R \<noteq> (b, m)" using D(6) [OF I(1)] I(2) by blast
    obtain A where A: "A \<in> set (w_allocs w)" "wa_base A \<le> fst I" "fst I + snd I \<le> wa_base A + wa_len A"
      "if I \<in> pub then \<exists>sec off. A = \<lparr>wa_base = fst I, wa_len = snd I, wa_kind = View sec off True\<rparr> else wa_kind A = Placeholder"
      using slot_alloc [OF inv I(1)] .
    have "0 < snd I" using slots_okD(3) [OF D(2) I(1)] .
    then have "A \<in> set (w_allocs w')" using keep [OF R(1,3) A(1)] R(2) A(2,3) by (simp add: within_def)
    then have "slot_shape w' {I \<in> pub. \<not> within I (b, m)} I"
      using A(2-4) I(2) unfolding slot_shape_def in_placeholder_def by (cases "I \<in> pub") auto
    then show ?thesis using R by blast
  qed
  moreover have "slots_ok (wo_granularity os) {I \<in> S. \<not> within I (b, m)}" "slots_ok (wo_granularity os) (Rg - {(b, m)})"
    using D(2,3) by (auto simp: slots_ok_def)
  ultimately show ?thesis using ok D(4,5) by (auto simp: use_inv_def)
qed

section \<open>Every reachable state\<close>

lemma use_inv_publish_life:
  assumes inv: "use_inv os w Rg S pub" and st: "staged w s" "s_consumed s = 0" and posix: "os_page_size posix = wo_granularity os"
    and piece: "wo_granularity os dvd lo" "wo_granularity os dvd hi" "lo < hi" "hi \<le> s_size s" and slot: "(t, hi - lo) \<in> S - pub"
  shows "\<exists>s' w'. win_publish_life os w s lo hi t = Inr (s', w') \<and> s_addr s' = 0 \<and> s_section s \<notin> w_handles w' \<and>
    use_inv os w' Rg S (insert (t, hi - lo) pub) \<and> posix_publish_life posix (w_mem w) s lo hi t = Inr (w_mem w')"
proof -
  note D = use_invD [OF inv]
  have "in_placeholder w t (hi - lo)" "wo_granularity os dvd t"
    using D(7) [of "(t, hi - lo)"] slots_okD(1) [OF D(2), of "(t, hi - lo)"] slot by (simp_all add: slot_shape_def page_range_def)
  from publish_life_refines [OF D(1) st posix piece this(2,1)] obtain s' w' where
    w': "win_publish_life os w s lo hi t = Inr (s', w')" "s_addr s' = 0" "s_section s \<notin> w_handles w'" "w_ok os w'"
      "published w w' s lo (hi - lo) t True" "w_mem w' = life_mem (w_mem w) s lo hi t"
      "posix_publish_life posix (w_mem w) s lo hi t = Inr (w_mem w')" by blast
  have "s_addr s \<le> x \<and> x < s_addr s + s_size s" if x: "w_mem w x = Some c" "w_mem w' x = None" for x c
  proof (cases "t \<le> x \<and> x < t + (hi - lo)")
    case True
    then have "s_addr s \<le> s_addr s + lo + (x - t)" "s_addr s + lo + (x - t) < s_addr s + s_size s" using piece(3,4) by linarith+
    then show ?thesis using stagedD(10) [OF D(1) st(1)] x(2) True by (auto simp: w'(6) life_mem_def)
  next
    case False
    then show ?thesis using x by (auto simp: w'(6) life_mem_def split: if_splits)
  qed
  then have "use_inv os w' Rg S (insert (t, hi - lo) pub)" by (rule use_inv_publish [OF inv st(1) slot w'(4,5)])
  then show ?thesis using w' by blast
qed

lemma pub_in_view:
  assumes inv: "use_inv os w Rg S pub" and I: "I \<in> pub"
  shows "in_view w (fst I) (snd I)"
proof -
  have S: "I \<in> S" using use_invD(4) [OF inv] I by blast
  then obtain sec off where "\<lparr>wa_base = fst I, wa_len = snd I, wa_kind = View sec off True\<rparr> \<in> set (w_allocs w)"
    using use_invD(7) [OF inv S] I by (auto simp: slot_shape_def)
  then show ?thesis using slots_okD(3) [OF use_invD(2) [OF inv] S] by (force simp: in_view_def)
qed

lemma use_inv_set_readable:
  assumes inv: "use_inv os w Rg S pub" and I: "(a, n) \<in> pub"
  shows "\<exists>w'. win_set_readable w a n r = Inr w' \<and> use_inv os w' Rg S pub \<and>
    w_mem w' = mem_protect (w_mem w) a n (if r then PROT_READ else PROT_NONE)"
proof -
  have "in_view w a n" using pub_in_view [OF inv I] by simp
  then obtain w' where "win_set_readable w a n r = Inr w'" "w_ok os w'" "w_allocs w' = w_allocs w"
      "w_mem w' = mem_protect (w_mem w) a n (if r then PROT_READ else PROT_NONE)"
    using win_set_readable_ok [OF use_invD(1) [OF inv]] by blast
  then show ?thesis using use_inv_allocs [OF inv] by blast
qed

lemma use_inv_win_decommit:
  assumes inv: "use_inv os w Rg S pub" and I: "(a, n) \<in> S"
  shows "\<exists>w'. win_decommit os w a n = Inr w' \<and> use_inv os w' Rg S (pub - {(a, n)}) \<and>
    w_mem w' = mem_set (w_mem w) a n (Some (PROT_NONE, 0))"
proof -
  have "views_within w a (a + n)" "a + n \<le> SIZE_RANGE" "mem_mapped (w_mem w) a n"
    using slot_views_within [OF inv I] slot_mapped [OF inv I] by simp_all
  from win_decommit_ok [OF use_invD(1) [OF inv] this] show ?thesis using use_inv_decommit [OF inv I] by blast
qed

lemma use_inv_win_release:
  assumes inv: "use_inv os w Rg S pub" and R: "(b, m) \<in> Rg"
  shows "\<exists>w'. win_release os w b m = Inr w' \<and>
    use_inv os w' (Rg - {(b, m)}) {I \<in> S. \<not> within I (b, m)} {I \<in> pub. \<not> within I (b, m)} \<and> w_mem w' = mem_set (w_mem w) b m None"
proof -
  have "tiled w b (b + m)" "b + m \<le> SIZE_RANGE" using use_invD(5) [OF inv R] by (simp_all add: region_shape_def)
  from win_release_ok [OF use_invD(1) [OF inv] this] show ?thesis using use_inv_release [OF inv R] by blast
qed

lemma use_inv_win_discard:
  assumes inv: "use_inv os w Rg S pub" and st: "staged w s" "s_consumed s = 0"
  shows "\<exists>s' w'. win_scratch_discard w s 0 (s_size s) = Inr (s', w') \<and> use_inv os w' Rg S pub \<and>
    s_addr s' = 0 \<and> s_section s \<notin> w_handles w' \<and> w_mem w' = mem_set (w_mem w) (s_addr s) (s_size s) None"
  using scratch_consume_ok [OF use_invD(1) [OF inv] st(1), of "s_size s"] use_inv_discard [OF inv st(1)] st(2)
  unfolding win_scratch_discard_def by auto

lemma win_use_inv: "win_use os w Rg S pub \<Longrightarrow> use_inv os w Rg S pub"
proof (induction rule: win_use.induct)
  case (start w)
  then show ?case by (simp add: use_inv_def slots_ok_def)
next
  case (reserve w Rg S pub r w')
  then show ?case by (blast intro: use_inv_reserve_region)
next
  case (create w Rg S pub n ok s w')
  then show ?case by (simp add: use_inv_create win_page_size_def)
next
  case (store w Rg S pub a bs w')
  then show ?case by (blast intro: use_inv_store)
next
  case (seal w Rg S pub s w')
  then show ?case using win_scratch_seal_ok [OF use_invD(1) [OF seal.IH] seal.hyps(2)] use_inv_allocs [OF seal.IH] by auto
next
  case (publish w Rg S pub s lo hi t s' w')
  then show ?case
    using use_inv_publish_life [OF publish.IH publish.hyps(2,3), of "\<lparr>os_page_size = wo_granularity os, os_pick = \<lambda>_ _. None\<rparr>" lo hi t]
    by (auto simp: win_page_size_def)
next
  case (discard w Rg S pub s s' w')
  then show ?case using use_inv_win_discard [OF discard.IH discard.hyps(2,3)] by auto
next
  case (protect w Rg S pub a n r w')
  then show ?case using use_inv_set_readable [OF protect.IH protect.hyps(2), of r] by auto
next
  case (decommit w Rg S pub a n w')
  then show ?case using use_inv_win_decommit [OF decommit.IH decommit.hyps(2)] by auto
next
  case (release w Rg S pub b m w')
  then show ?case using use_inv_win_release [OF release.IH release.hyps(2)] by auto
qed


text \<open>In such a state every call succeeds, leads to such a state, and does what POSIX does.\<close>

lemma use_publish:
  assumes use: "win_use os w Rg S pub" and posix: "os_page_size posix = win_page_size os"
    and piece: "staged w s \<and> s_consumed s = 0 \<and> win_page_size os dvd lo \<and> win_page_size os dvd hi \<and> lo < hi \<and>
      hi \<le> s_size s \<and> (t, hi - lo) \<in> S - pub"
  shows "\<exists>s' w'. win_publish_life os w s lo hi t = Inr (s', w') \<and> win_use os w' Rg S (insert (t, hi - lo) pub) \<and>
    posix_publish_life posix (w_mem w) s lo hi t = Inr (w_mem w')"
proof -
  have "os_page_size posix = wo_granularity os" "wo_granularity os dvd lo" "wo_granularity os dvd hi"
    using posix piece by (simp_all add: win_page_size_def)
  from use_inv_publish_life [OF win_use_inv [OF use] _ _ this] piece obtain s' w' where
    "win_publish_life os w s lo hi t = Inr (s', w')" "posix_publish_life posix (w_mem w) s lo hi t = Inr (w_mem w')" by blast
  then show ?thesis using win_use.publish [OF use] piece by blast
qed

lemma slot_page_range:
  assumes "win_use os w Rg S pub" "os_page_size posix = win_page_size os"
  shows "(a, n) \<in> S \<union> Rg \<Longrightarrow> page_range (vm_page_size posix) a n" "(a, n) \<in> S \<Longrightarrow> mem_mapped (w_mem w) a n"
  using slots_okD(1) [OF use_invD(2) [OF win_use_inv [OF assms(1)]], of "(a, n)"]
    slots_okD(1) [OF use_invD(3) [OF win_use_inv [OF assms(1)]], of "(a, n)"]
    slot_mapped(1) [OF win_use_inv [OF assms(1)], of "(a, n)"] assms(2)
  by (auto simp: vm_page_size_def win_page_size_def)

lemma use_set_readable:
  assumes use: "win_use os w Rg S pub" and posix: "os_page_size posix = win_page_size os" and I: "(a, n) \<in> pub"
  shows "\<exists>w'. win_set_readable w a n r = Inr w' \<and> win_use os w' Rg S pub \<and> vm_set_readable posix (w_mem w) a n r = Inr (w_mem w')"
proof -
  have S: "(a, n) \<in> S" using use_invD(4) [OF win_use_inv [OF use]] I by blast
  note pr = slot_page_range [OF use posix]
  show ?thesis
    using use_inv_set_readable [OF win_use_inv [OF use] I, of r] win_use.protect [OF use I, of r]
      posix.set_readable_law [OF pr(1) pr(2), of a n r] S by auto
qed

lemma use_decommit:
  assumes use: "win_use os w Rg S pub" and posix: "os_page_size posix = win_page_size os" and I: "(a, n) \<in> S"
  shows "\<exists>w'. win_decommit os w a n = Inr w' \<and> win_use os w' Rg S (pub - {(a, n)}) \<and> vm_decommit posix (w_mem w) a n = Inr (w_mem w')"
  using use_inv_win_decommit [OF win_use_inv [OF use] I] win_use.decommit [OF use I]
    posix.decommit_law [OF slot_page_range(1) [OF use posix], of a n] I by auto

lemma use_release:
  assumes use: "win_use os w Rg S pub" and posix: "os_page_size posix = win_page_size os" and R: "(b, m) \<in> Rg"
  shows "\<exists>w'. win_release os w b m = Inr w' \<and>
    win_use os w' (Rg - {(b, m)}) {I \<in> S. \<not> within I (b, m)} {I \<in> pub. \<not> within I (b, m)} \<and> vm_release posix (w_mem w) b m = Inr (w_mem w')"
  using use_inv_win_release [OF win_use_inv [OF use] R] win_use.release [OF use R]
    posix.release_law [OF slot_page_range(1) [OF use posix], of b m] R by auto

end
