(* ===== verification/Fault_Win32.thy ===== *)
theory Fault_Win32
  imports Fault_Posix
begin

text \<open>
  The Windows side of the fault seam, \<open>fault-win32.c\<close>: a vectored exception handler in the
  process's list of handlers.  A registration is a handle (a counter) and the function; other parts of the
  process add and remove registrations of their own.  The library is registered exactly once
  from \<open>fc_init\<close> on, and a fault it does not take goes through the list as if it were not there.
  \<open>fault_try_resolve\<close> is a parameter here (\<open>fault_try\<close>, over any state): on this platform it works over
  \<open>vm-win32.c\<close>, which is the subject of the theories \<open>Vm_Win32\<close> to \<open>Vm_Win32_Use\<close>.
\<close>

section \<open>Definitions\<close>

datatype veh = Veh_handler | Veh_other nat

record vehstate =
  v_list :: "(nat \<times> veh) list"
  v_next :: nat
  v_once :: bool
  v_handler_installed :: bool
  v_handle :: "nat option"

text \<open>The flags: the system has memory for the registration, and it goes to the front.\<close>

definition AddVectoredExceptionHandler :: "bool \<Rightarrow> bool \<Rightarrow> veh \<Rightarrow> vehstate \<Rightarrow> (nat \<times> vehstate) option" where
  "AddVectoredExceptionHandler room first h v =
     (if \<not> room then None
      else Some (v_next v, v\<lparr>v_list := (if first then (v_next v, h) # v_list v else v_list v @ [(v_next v, h)]), v_next := Suc (v_next v)\<rparr>))"

definition RemoveVectoredExceptionHandler :: "nat option \<Rightarrow> vehstate \<Rightarrow> bool \<times> vehstate" where
  "RemoveVectoredExceptionHandler handle v =
     (case handle of
        None \<Rightarrow> (False, v)
      | Some i \<Rightarrow> (i \<in> set (map fst (v_list v)), v\<lparr>v_list := filter (\<lambda>(j, h). j \<noteq> i) (v_list v)\<rparr>))"

definition EXCEPTION_ACCESS_VIOLATION :: uint32_t where
  "EXCEPTION_ACCESS_VIOLATION = 0xC0000005"

text \<open>\<open>True\<close> is \<open>EXCEPTION_CONTINUE_EXECUTION\<close>, \<open>False\<close> is \<open>EXCEPTION_CONTINUE_SEARCH\<close>.\<close>

definition veh_handler :: "('s \<Rightarrow> addr \<Rightarrow> (bool \<times> 's) res) \<Rightarrow> 's \<Rightarrow> uint32_t \<Rightarrow> addr \<Rightarrow> (bool \<times> 's) res" where
  "veh_handler fault_try s code a =
     (if code \<noteq> EXCEPTION_ACCESS_VIOLATION then Inr (False, s) else fault_try s a)"

definition win_install_handler :: "bool \<Rightarrow> vehstate \<Rightarrow> vehstate res" where
  "win_install_handler room v =
     (case AddVectoredExceptionHandler room True Veh_handler v of
        None \<Rightarrow> Inl (Assert_failed ''g_handle != nullptr'')
      | Some (i, v) \<Rightarrow> Inr (v\<lparr>v_handle := Some i, v_handler_installed := True\<rparr>))"

definition win_fault_arm :: "bool \<Rightarrow> vehstate \<Rightarrow> vehstate res" where
  "win_fault_arm room v =
     (if v_once v then Inr v else res_bind (win_install_handler room v) (\<lambda>v. Inr (v\<lparr>v_once := True\<rparr>)))"

definition win_fault_rearm :: "bool \<Rightarrow> vehstate \<Rightarrow> vehstate res" where
  "win_fault_rearm room v =
     (case RemoveVectoredExceptionHandler (v_handle v) v of (removed, v) \<Rightarrow>
        fc_assert ''RemoveVectoredExceptionHandler'' removed (win_install_handler room v))"

definition win_fault_armed :: "vehstate \<Rightarrow> bool" where
  "win_fault_armed v = v_handler_installed v"

text \<open>The dispatch of one exception: the handlers run in list order until one continues the execution.\<close>

datatype dispatched = Continued | Continued_by nat | Unhandled

fun dispatch :: "('s \<Rightarrow> addr \<Rightarrow> (bool \<times> 's) res) \<Rightarrow> (nat \<Rightarrow> bool) \<Rightarrow> 's \<Rightarrow> uint32_t \<Rightarrow> addr \<Rightarrow> (nat \<times> veh) list \<Rightarrow>
    (dispatched \<times> 's) res" where
  "dispatch fault_try handles s code a [] = Inr (Unhandled, s)"
| "dispatch fault_try handles s code a ((i, Veh_handler) # hs) =
     res_bind (veh_handler fault_try s code a) (\<lambda>(go_on, s).
     if go_on then Inr (Continued, s) else dispatch fault_try handles s code a hs)"
| "dispatch fault_try handles s code a ((i, Veh_other k) # hs) =
     (if handles k then Inr (Continued_by k, s) else dispatch fault_try handles s code a hs)"

section \<open>Exactly one registration\<close>

definition veh_start :: "(nat \<times> veh) list \<Rightarrow> nat \<Rightarrow> vehstate" where
  "veh_start hs n = \<lparr>v_list = hs, v_next = n, v_once = False, v_handler_installed = False, v_handle = None\<rparr>"

inductive veh_step :: "vehstate \<Rightarrow> vehstate \<Rightarrow> bool" where
  arm: "win_fault_arm room v = Inr v' \<Longrightarrow> veh_step v v'"
| rearm: "win_fault_armed v \<Longrightarrow> win_fault_rearm room v = Inr v' \<Longrightarrow> veh_step v v'"
| other_add: "AddVectoredExceptionHandler room first (Veh_other k) v = Some (i, v') \<Longrightarrow> veh_step v v'"
| other_remove: "(i, Veh_other k) \<in> set (v_list v) \<Longrightarrow> RemoveVectoredExceptionHandler (Some i) v = (True, v') \<Longrightarrow> veh_step v v'"

inductive_cases veh_stepE: "veh_step v v'"

inductive veh_reach :: "vehstate \<Rightarrow> bool" where
  start: "distinct (map fst hs) \<Longrightarrow> \<forall>(i, h)\<in>set hs. i < n \<and> h \<noteq> Veh_handler \<Longrightarrow> veh_reach (veh_start hs n)"
| step: "veh_reach v \<Longrightarrow> veh_step v v' \<Longrightarrow> veh_reach v'"

definition own_entries :: "vehstate \<Rightarrow> (nat \<times> veh) list" where
  "own_entries v = filter (\<lambda>(i, h). h = Veh_handler) (v_list v)"

definition veh_inv :: "vehstate \<Rightarrow> bool" where
  "veh_inv v \<longleftrightarrow> distinct (map fst (v_list v)) \<and> (\<forall>i\<in>set (map fst (v_list v)). i < v_next v) \<and>
     (v_once v \<longleftrightarrow> v_handler_installed v) \<and> (v_handler_installed v \<longleftrightarrow> v_handle v \<noteq> None) \<and>
     own_entries v = (case v_handle v of None \<Rightarrow> [] | Some i \<Rightarrow> [(i, Veh_handler)])"

lemma own_entry_id:
  assumes "distinct (map fst xs)" "filter (\<lambda>(i, h). h = Veh_handler) xs = [(i, Veh_handler)]" "(j, Veh_other k) \<in> set xs"
  shows "i \<noteq> j"
proof
  assume "i = j"
  have "(i, Veh_handler) \<in> set (filter (\<lambda>(i, h). h = Veh_handler) xs)" using assms(2) by simp
  then have "(i, Veh_handler) \<in> set xs" by simp
  then show False using assms(1,3) \<open>i = j\<close> by (auto dest: eq_key_imp_eq_value)
qed

lemma filter_swap: "filter P (filter Q xs) = filter Q (filter P xs)"
  by (induction xs) auto

lemma filter_not_key:
  "filter (\<lambda>(i, h). h = Veh_handler) xs = [(i, Veh_handler)] \<Longrightarrow>
   filter (\<lambda>(i, h). h = Veh_handler) (filter (\<lambda>(j, h). j \<noteq> i) xs) = []"
  by (subst filter_swap) simp

lemma filter_other_key:
  "filter (\<lambda>(i, h). h = Veh_handler) xs = ys \<Longrightarrow> j \<notin> set (map fst ys) \<Longrightarrow>
   filter (\<lambda>(i, h). h = Veh_handler) (filter (\<lambda>(i, h). i \<noteq> j) xs) = ys"
  unfolding filter_swap [of _ "\<lambda>(i, h). i \<noteq> j"] by (rule filter_True [THEN trans]) force+

lemma veh_inv_install:
  assumes "distinct (map fst (v_list v))" "\<forall>i\<in>set (map fst (v_list v)). i < v_next v" "own_entries v = []" "v_once v = once"
  shows "\<exists>v'. win_install_handler True v = Inr v' \<and> v_list v' = (v_next v, Veh_handler) # v_list v \<and> veh_inv (v'\<lparr>v_once := True\<rparr>) \<and> v_once v' = once"
  using assms by (auto simp: win_install_handler_def AddVectoredExceptionHandler_def veh_inv_def own_entries_def)

lemma rearm_ok:
  assumes "veh_inv v" "win_fault_armed v"
  shows "\<exists>v'. win_fault_rearm True v = Inr v' \<and> veh_inv v' \<and>
    v_list v' = (v_next v, Veh_handler) # filter (\<lambda>(j, h). h \<noteq> Veh_handler) (v_list v)"
proof -
  obtain i where i: "v_handle v = Some i" and own: "filter (\<lambda>(i, h). h = Veh_handler) (v_list v) = [(i, Veh_handler)]"
    and d: "distinct (map fst (v_list v))" and b: "\<forall>i\<in>set (map fst (v_list v)). i < v_next v" and once: "v_once v"
    using assms by (auto simp: veh_inv_def own_entries_def win_fault_armed_def)
  let ?v = "v\<lparr>v_list := filter (\<lambda>(j, h). j \<noteq> i) (v_list v)\<rparr>"
  have mem: "(i, Veh_handler) \<in> set (v_list v)" using own by (metis filter_is_subset list.set_intros(1) subsetD)
  then have id: "i \<in> fst ` set (v_list v)" by force
  have d': "distinct (map fst (v_list ?v))" using d by (simp add: distinct_map_filter)
  have b': "\<forall>i\<in>set (map fst (v_list ?v)). i < v_next ?v" using b by auto
  have "own_entries ?v = []" using filter_not_key [OF own] by (simp add: own_entries_def)
  from veh_inv_install [OF d' b' this refl] obtain v' where v': "win_install_handler True ?v = Inr v'"
      "v_list v' = (v_next v, Veh_handler) # v_list ?v" "veh_inv (v'\<lparr>v_once := True\<rparr>)" "v_once v' = v_once v"
    by auto
  have "v'\<lparr>v_once := True\<rparr> = v'" using v'(4) once by (cases v') simp
  moreover have "filter (\<lambda>(j, h). j \<noteq> i) (v_list v) = filter (\<lambda>(j, h). h \<noteq> Veh_handler) (v_list v)"
  proof (rule filter_cong [OF refl])
    fix x assume x: "x \<in> set (v_list v)"
    show "(case x of (j, h) \<Rightarrow> j \<noteq> i) = (case x of (j, h) \<Rightarrow> h \<noteq> Veh_handler)"
    proof (cases x)
      case (Pair j h)
      have "h = Veh_handler" if "j = i" using eq_key_imp_eq_value [OF d, of i h Veh_handler] x Pair mem that by simp
      moreover have "j = i" if "h = Veh_handler"
      proof -
        have "x \<in> set (filter (\<lambda>(i, h). h = Veh_handler) (v_list v))" using x Pair that by simp
        then show ?thesis using own Pair by simp
      qed
      ultimately show ?thesis using Pair by auto
    qed
  qed
  moreover have "win_fault_rearm True v = win_install_handler True ?v"
    using i id by (simp add: win_fault_rearm_def RemoveVectoredExceptionHandler_def)
  ultimately show ?thesis using v' by auto
qed

lemma install_room: "win_install_handler room v = Inr v' \<Longrightarrow> room"
  by (auto simp: win_install_handler_def AddVectoredExceptionHandler_def split: if_splits)

lemma veh_step_inv:
  assumes "veh_step v v'" "veh_inv v"
  shows "veh_inv v'"
  using assms(1)
proof (cases rule: veh_step.cases)
  case (arm room)
  show ?thesis
  proof (cases "v_once v")
    case False
    then obtain v1 where v1: "win_install_handler room v = Inr v1" "v' = v1\<lparr>v_once := True\<rparr>"
      using arm by (auto simp: win_fault_arm_def res_bind_eq_Inr)
    have "own_entries v = []" "distinct (map fst (v_list v))" "\<forall>i\<in>set (map fst (v_list v)). i < v_next v"
      using assms(2) False unfolding veh_inv_def by (auto split: option.splits)
    then show ?thesis using veh_inv_install [OF _ _ _ refl, of v] install_room [OF v1(1)] v1 by auto
  qed (use arm assms(2) in \<open>simp add: win_fault_arm_def\<close>)
next
  case (rearm room)
  then have room by (auto simp: win_fault_rearm_def fc_assert_eq_Inr dest: install_room split: prod.splits)
  then show ?thesis using rearm_ok [OF assms(2) rearm(1)] rearm(2) by auto
next
  case (other_add room first k i)
  then have v': "v' = v\<lparr>v_list := (if first then (v_next v, Veh_other k) # v_list v else v_list v @ [(v_next v, Veh_other k)]), v_next := Suc (v_next v)\<rparr>"
    by (auto simp: AddVectoredExceptionHandler_def split: if_splits)
  have below: "\<forall>i\<in>fst ` set (v_list v). i < v_next v" using assms(2) by (simp add: veh_inv_def)
  then have "v_next v \<notin> fst ` set (v_list v)" by blast
  moreover have "\<forall>i\<in>fst ` set (v_list v). i < Suc (v_next v)" using below less_SucI by blast
  moreover have "own_entries v' = own_entries v" by (simp add: v' own_entries_def)
  ultimately show ?thesis using assms(2) by (simp add: veh_inv_def v' ball_Un)
next
  case (other_remove i k)
  let ?ys = "case v_handle v of None \<Rightarrow> [] | Some i \<Rightarrow> [(i, Veh_handler)]"
  have own: "filter (\<lambda>(i, h). h = Veh_handler) (v_list v) = ?ys" and d: "distinct (map fst (v_list v))"
    using assms(2) by (auto simp: veh_inv_def own_entries_def)
  have "i \<notin> set (map fst ?ys)"
    using own_entry_id [OF d _ other_remove(1)] own by (auto split: option.splits)
  from filter_other_key [OF own this] have "own_entries v' = ?ys" and v': "v' = v\<lparr>v_list := filter (\<lambda>(j, h). j \<noteq> i) (v_list v)\<rparr>"
    using other_remove(2) by (auto simp: RemoveVectoredExceptionHandler_def own_entries_def)
  then show ?thesis using assms(2) by (auto simp: veh_inv_def distinct_map_filter)
qed

lemma veh_reach_inv: "veh_reach v \<Longrightarrow> veh_inv v"
proof (induction rule: veh_reach.induct)
  case (start hs n)
  have "filter (\<lambda>(i, h). h = Veh_handler) hs = []" using start(2) by (auto simp: filter_empty_conv)
  then show ?case using start by (auto simp: veh_inv_def veh_start_def own_entries_def)
qed (simp add: veh_step_inv)

text \<open>The Windows implementation of the contract of \<open>fault.h\<close>, when the system has memory for registrations.\<close>

lemma win_arm_ok:
  assumes "veh_inv v"
  shows "\<exists>v'. win_fault_arm True v = Inr v' \<and> veh_inv v' \<and> win_fault_armed v'"
proof (cases "v_once v")
  case True
  then show ?thesis using assms by (auto simp: win_fault_arm_def win_fault_armed_def veh_inv_def)
next
  case False
  then have "own_entries v = []" "distinct (map fst (v_list v))" "\<forall>i\<in>set (map fst (v_list v)). i < v_next v"
    using assms unfolding veh_inv_def by (auto split: option.splits)
  from veh_inv_install [OF this(2,3,1) refl] False show ?thesis
    by (auto simp: win_fault_arm_def win_fault_armed_def veh_inv_def)
qed

interpretation win_fault: fault_seam "win_fault_arm True" "win_fault_rearm True" win_fault_armed veh_inv
proof
  fix v assume v: "veh_inv v"
  show "\<exists>v'. win_fault_arm True v = Inr v' \<and> veh_inv v' \<and> win_fault_armed v'" by (rule win_arm_ok [OF v])
  show "win_fault_arm True v = Inr v" if "win_fault_armed v"
    using v that by (simp add: win_fault_arm_def win_fault_armed_def veh_inv_def)
  show "\<exists>v'. win_fault_rearm True v = Inr v' \<and> veh_inv v' \<and> win_fault_armed v'" if "win_fault_armed v"
    using rearm_ok [OF v that] by (auto simp: win_fault_armed_def veh_inv_def own_entries_def)
qed

section \<open>Dispatch\<close>

text \<open>The first of the other handlers of a list that takes an exception, and what they make of it.\<close>

fun first_taker :: "(nat \<Rightarrow> bool) \<Rightarrow> (nat \<times> veh) list \<Rightarrow> nat option" where
  "first_taker handles [] = None"
| "first_taker handles ((i, Veh_handler) # hs) = first_taker handles hs"
| "first_taker handles ((i, Veh_other k) # hs) = (if handles k then Some k else first_taker handles hs)"

definition passed_on :: "(nat \<Rightarrow> bool) \<Rightarrow> (nat \<times> veh) list \<Rightarrow> dispatched" where
  "passed_on handles hs = (case first_taker handles hs of None \<Rightarrow> Unhandled | Some k \<Rightarrow> Continued_by k)"

lemma dispatch_others:
  "Veh_handler \<notin> snd ` set hs \<Longrightarrow> dispatch fault_try handles s code a hs = Inr (passed_on handles hs, s)"
  by (induction handles hs rule: first_taker.induct) (auto simp: passed_on_def)

lemma dispatch_front:
  "Veh_handler \<notin> snd ` set xs \<Longrightarrow> dispatch fault_try handles s code a (xs @ hs) =
    (case first_taker handles xs of Some k \<Rightarrow> Inr (Continued_by k, s) | None \<Rightarrow> dispatch fault_try handles s code a hs)"
  by (induction handles xs rule: first_taker.induct) auto

lemma others_only: "Veh_handler \<notin> snd ` set hs \<Longrightarrow> filter (\<lambda>(j, h). h \<noteq> Veh_handler) hs = hs"
  by (induction hs) auto

lemma armed_once_in_list:
  assumes "veh_inv v" "win_fault_armed v"
  shows "\<exists>xs i ys. v_list v = xs @ (i, Veh_handler) # ys \<and> Veh_handler \<notin> snd ` set (xs @ ys)"
proof -
  obtain i where own: "filter (\<lambda>(i, h). h = Veh_handler) (v_list v) = [(i, Veh_handler)]"
    using assms by (auto simp: veh_inv_def own_entries_def win_fault_armed_def)
  then obtain xs ys where l: "v_list v = xs @ (i, Veh_handler) # ys" and ends: "\<forall>x\<in>set xs. \<not> (case x of (i, h) \<Rightarrow> h = Veh_handler)"
      "[] = filter (\<lambda>(i, h). h = Veh_handler) ys"
    by (auto simp: filter_eq_Cons_iff)
  have "Veh_handler \<notin> snd ` set xs" "Veh_handler \<notin> snd ` set ys" using ends(1) ends(2) [symmetric] by (auto simp: filter_empty_conv)
  then show ?thesis using l by (simp add: image_Un) blast
qed

end
