(* ===== verification/Misuse.thy ===== *)
theory Misuse
  imports FC_Prelude
begin

text \<open>
  Reports of caller bugs, \<open>misuse.c\<close>.  Elsewhere in the development a report is the abort
  \<open>Misuse what\<close>, which is what happens without a hook; this theory has the hook of
  \<open>fc_debug_set_misuse_hook\<close>.  A hook is given by whether it diverts control
  (\<open>siglongjmp\<close>) for a message or returns.
\<close>

record misuse =
  mu_hook :: "(string \<Rightarrow> bool) option"
  mu_seen :: "string list"
  mu_stderr :: "string list"

datatype misuse_end = Diverted | Aborted

definition fc_debug_set_misuse_hook :: "(string \<Rightarrow> bool) option \<Rightarrow> misuse \<Rightarrow> misuse" where
  "fc_debug_set_misuse_hook hook g = g\<lparr>mu_hook := hook\<rparr>"

definition fc_misuse :: "misuse \<Rightarrow> string \<Rightarrow> misuse_end \<times> misuse" where
  "fc_misuse g what =
     (let (diverted, g) = (case mu_hook g of
            None \<Rightarrow> (False, g)
          | Some hook \<Rightarrow> (hook what, g\<lparr>mu_seen := mu_seen g @ [what]\<rparr>))
      in if diverted then (Diverted, g) else (Aborted, g\<lparr>mu_stderr := mu_stderr g @ [what]\<rparr>))"

text \<open>
  A hook sees every report exactly once, whether or not it diverts; the process survives
  exactly when it does, and only then nothing is printed.
\<close>

lemma fc_misuse_hooked:
  assumes "mu_hook g = Some hook"
  shows "fst (fc_misuse g what) = Diverted \<longleftrightarrow> hook what" "mu_seen (snd (fc_misuse g what)) = mu_seen g @ [what]"
    "mu_stderr (snd (fc_misuse g what)) = (if hook what then mu_stderr g else mu_stderr g @ [what])"
  using assms by (simp_all add: fc_misuse_def)

lemma fc_misuse_fallback:
  "fst (fc_misuse (fc_debug_set_misuse_hook (Some (\<lambda>_. False)) g) what) = fst (fc_misuse (fc_debug_set_misuse_hook None g) what)"
  by (simp add: fc_misuse_def fc_debug_set_misuse_hook_def)

end
