(* ===== verification/Py_Shim.thy ===== *)
theory Py_Shim
  imports FC_Prelude
begin

text \<open>
  The Python shim \<open>_faultcache_shim.c\<close>: the trampoline through which a Python callable
  fills a chunk, and the capsule that owns it.  The interpreter is a record with the cyclic collector's flag,
  the error indicator, reference counts and the memory views; the functions of its C API the shim
  calls act on it as documented.  Threads interleave only where the callback may release
  the GIL, which the step relation \<open>py_step\<close> spells out.
\<close>

section \<open>The interpreter\<close>

record py =
  py_gc :: bool
  py_fill_depth :: int
  py_gc_was_enabled :: bool
  py_err :: bool
  py_unraisable :: nat
  py_refs :: "nat \<Rightarrow> int"
  py_released :: "nat set"
  py_next :: nat
  py_fillers :: "nat \<rightharpoonup> nat"
  py_capsule :: "nat \<rightharpoonup> nat"

definition Py_INCREF :: "nat \<Rightarrow> py \<Rightarrow> py" where
  "Py_INCREF x = py_refs_update (\<lambda>refs. refs(x := refs x + 1))"

definition Py_DECREF :: "nat \<Rightarrow> py \<Rightarrow> py" where
  "Py_DECREF x = py_refs_update (\<lambda>refs. refs(x := refs x - 1))"

definition Py_XDECREF :: "nat option \<Rightarrow> py \<Rightarrow> py" where
  "Py_XDECREF r s = (case r of None \<Rightarrow> s | Some x \<Rightarrow> Py_DECREF x s)"

text \<open>A new object with one reference, or an exception when there is no memory for it.\<close>

definition py_alloc :: "bool \<Rightarrow> py \<Rightarrow> nat option \<times> py" where
  "py_alloc ok s =
     (if ok then (Some (py_next s), py_refs_update (\<lambda>refs. refs(py_next s := 1)) (s\<lparr>py_next := Suc (py_next s)\<rparr>))
      else (None, s\<lparr>py_err := True\<rparr>))"

definition PyErr_WriteUnraisable :: "py \<Rightarrow> py" where
  "PyErr_WriteUnraisable s = py_unraisable_update Suc (s\<lparr>py_err := False\<rparr>)"

text \<open>
  One run of the trampoline meets the interpreter in these ways: whether the view and the index can be
  allocated, whether the callable returns or raises and how many references to its arguments it
  keeps, and whether the view can be released (an export that is still alive raises
  \<open>BufferError\<close>).
\<close>

record fill_run =
  fr_view_ok :: bool
  fr_index_ok :: bool
  fr_returns :: bool
  fr_keeps_view :: nat
  fr_keeps_index :: nat
  fr_release_ok :: bool

definition PyObject_CallFunctionObjArgs :: "fill_run \<Rightarrow> nat \<Rightarrow> nat \<Rightarrow> py \<Rightarrow> nat option \<times> py" where
  "PyObject_CallFunctionObjArgs run index view s =
     (let keep = (\<lambda>x k. py_refs_update (\<lambda>refs. refs(x := refs x + int k)))
      in py_alloc (fr_returns run) (keep view (fr_keeps_view run) (keep index (fr_keeps_index run) s)))"

definition PyObject_CallMethod_release :: "fill_run \<Rightarrow> nat \<Rightarrow> py \<Rightarrow> nat option \<times> py" where
  "PyObject_CallMethod_release run view s =
     (case py_alloc (fr_release_ok run) s of
        (None, s) \<Rightarrow> (None, s)
      | (Some r, s) \<Rightarrow> (Some r, py_released_update (insert view) s))"

section \<open>The trampoline\<close>

definition fill_enter :: "py \<Rightarrow> py" where
  "fill_enter s =
     (let s = (if py_fill_depth s = 0 then s\<lparr>py_gc_was_enabled := py_gc s\<rparr> else s)
      in s\<lparr>py_fill_depth := py_fill_depth s + 1, py_gc := False\<rparr>)"

definition fill_body :: "fill_run \<Rightarrow> py \<Rightarrow> py" where
  "fill_body run s =
     (let s = (case py_alloc (fr_view_ok run) s of
            (None, s) \<Rightarrow> s
          | (Some view, s) \<Rightarrow>
              let s = (case py_alloc (fr_index_ok run) s of
                     (None, s) \<Rightarrow> s
                   | (Some index, s) \<Rightarrow>
                       (case PyObject_CallFunctionObjArgs run index view s of
                          (result, s) \<Rightarrow> Py_DECREF index (Py_XDECREF result s)));
                  s = (if py_err s then PyErr_WriteUnraisable s else s)
              in case PyObject_CallMethod_release run view s of
                   (released, s) \<Rightarrow> Py_DECREF view (Py_XDECREF released s))
      in if py_err s then PyErr_WriteUnraisable s else s)"

definition fill_leave :: "py \<Rightarrow> py" where
  "fill_leave s =
     (let s = s\<lparr>py_fill_depth := py_fill_depth s - 1\<rparr>
      in if py_fill_depth s = 0 \<and> py_gc_was_enabled s then s\<lparr>py_gc := True\<rparr> else s)"

definition fill_trampoline :: "fill_run \<Rightarrow> py \<Rightarrow> py" where
  "fill_trampoline run s = fill_leave (fill_body run (fill_enter s))"

section \<open>The capsule\<close>

text \<open>
  \<open>make_filler\<close>: the flags say whether the argument is callable and whether the struct, the
  capsule and the result tuple can be allocated.  A tuple that cannot be built drops the capsule it was given.
\<close>

definition filler_destructor :: "nat \<Rightarrow> py \<Rightarrow> py" where
  "filler_destructor capsule s =
     (case py_capsule s capsule of
        None \<Rightarrow> s
      | Some f \<Rightarrow>
          (case py_fillers s f of
             None \<Rightarrow> s
           | Some callable \<Rightarrow> (Py_DECREF callable s)\<lparr>py_fillers := (py_fillers s)(f := None)\<rparr>))"

definition make_filler :: "bool \<Rightarrow> bool \<Rightarrow> bool \<Rightarrow> bool \<Rightarrow> nat \<Rightarrow> py \<Rightarrow> (nat \<times> nat) option \<times> py" where
  "make_filler is_callable malloc_ok capsule_ok tuple_ok callable s =
     (if \<not> is_callable then (None, s\<lparr>py_err := True\<rparr>)
      else if \<not> malloc_ok then (None, s\<lparr>py_err := True\<rparr>)
      else
        let f = py_next s;
            s = Py_INCREF callable (s\<lparr>py_next := Suc f\<rparr>);
            s = s\<lparr>py_fillers := (py_fillers s)(f := Some callable)\<rparr>
        in case py_alloc capsule_ok s of
             (None, s) \<Rightarrow> (None, (Py_DECREF callable s)\<lparr>py_fillers := (py_fillers s)(f := None)\<rparr>)
           | (Some capsule, s) \<Rightarrow>
               let s = s\<lparr>py_capsule := (py_capsule s)(capsule := Some f)\<rparr>
               in if tuple_ok then (Some (capsule, f), s)
                  else (None, Py_DECREF capsule ((filler_destructor capsule s)\<lparr>py_err := True\<rparr>)))"

section \<open>One run\<close>

text \<open>Objects handed out so far are below \<open>py_next\<close>, and their counts stay as they were.\<close>

lemma fill_body_effect:
  fixes run :: fill_run
  assumes "\<not> py_err s"
  defines "s' \<equiv> fill_body run s"
  shows "\<not> py_err s'" "py_gc s' = py_gc s" "py_fill_depth s' = py_fill_depth s" "py_gc_was_enabled s' = py_gc_was_enabled s"
    "x < py_next s \<Longrightarrow> py_refs s' x = py_refs s x"
    "fr_view_ok run \<Longrightarrow> fr_index_ok run \<Longrightarrow> py_refs s' (py_next s) = int (fr_keeps_view run)"
    "fr_view_ok run \<Longrightarrow> fr_index_ok run \<Longrightarrow> py_refs s' (Suc (py_next s)) = int (fr_keeps_index run)"
    "fr_view_ok run \<Longrightarrow> \<not> fr_index_ok run \<Longrightarrow> py_refs s' (py_next s) = 0"
    "fr_view_ok run \<Longrightarrow> fr_release_ok run \<Longrightarrow> py_next s \<in> py_released s'"
    "py_unraisable s' = py_unraisable s + (if \<not> fr_view_ok run then 1
       else (if fr_index_ok run \<and> fr_returns run then 0 else 1) + (if fr_release_ok run then 0 else 1))"
  using assms(1) unfolding s'_def
  by ((cases "fr_view_ok run"; cases "fr_index_ok run"; cases "fr_returns run"; cases "fr_release_ok run");
      simp add: fill_body_def py_alloc_def PyObject_CallFunctionObjArgs_def PyObject_CallMethod_release_def
      Py_DECREF_def Py_XDECREF_def PyErr_WriteUnraisable_def Let_def)+

lemma filler_balanced:
  assumes "make_filler is_callable malloc_ok capsule_ok tuple_ok callable s = (r, s')" "callable < py_next s"
  shows "case r of
      None \<Rightarrow> py_refs s' callable = py_refs s callable \<and> py_err s' \<and> (\<forall>f < py_next s. py_fillers s' f = py_fillers s f)
    | Some (capsule, f) \<Rightarrow> py_refs s' callable = py_refs s callable + 1 \<and> py_fillers s' f = Some callable \<and>
        py_capsule s' capsule = Some f \<and> py_refs (filler_destructor capsule s') callable = py_refs s callable \<and>
        py_fillers (filler_destructor capsule s') f = None"
  using assms by (auto simp: make_filler_def py_alloc_def Py_INCREF_def Py_DECREF_def filler_destructor_def Let_def split: if_splits)

section \<open>Interleaved fills\<close>

text \<open>
  The GIL has at most one holder.  A thread may hold it already when its fault brings it into the
  trampoline (\<open>ps_had\<close>), otherwise it takes it; it may let go of it and take it back
  while the callable runs; the end of the trampoline restores what the thread had.  The
  holder runs Python code, inside a callable or outside, which may do anything, \<open>gc.enable()\<close> and
  \<open>gc.disable()\<close> included; only the shim's own variables are not visible to it.  \<open>ps_enabled\<close> is
  a ghost: the last thing Python code did to the flag since the latest entry into a trampoline was to turn it on.
\<close>

record pysys =
  ps_py :: py
  ps_gil :: "nat option"
  ps_filling :: "nat set"
  ps_had :: "nat set"
  ps_enabled :: bool

inductive py_step :: "pysys \<Rightarrow> pysys \<Rightarrow> bool" where
  acquire: "ps_gil s = None \<Longrightarrow> py_step s (s\<lparr>ps_gil := Some t\<rparr>)"
| let_go: "ps_gil s = Some t \<Longrightarrow> py_step s (s\<lparr>ps_gil := None\<rparr>)"
| enter: "ps_gil s = None \<or> ps_gil s = Some t \<Longrightarrow> t \<notin> ps_filling s \<Longrightarrow>
    py_step s (s\<lparr>ps_py := fill_enter (ps_py s), ps_gil := Some t, ps_filling := insert t (ps_filling s),
                 ps_had := (if ps_gil s = Some t then insert t (ps_had s) else ps_had s - {t}),
                 ps_enabled := False\<rparr>)"
| run: "ps_gil s = Some t \<Longrightarrow> py_fill_depth p = py_fill_depth (ps_py s) \<Longrightarrow> py_gc_was_enabled p = py_gc_was_enabled (ps_py s) \<Longrightarrow>
    py_gc p = py_gc (ps_py s) \<Longrightarrow> py_step s (s\<lparr>ps_py := p\<rparr>)"
| gc_enable: "ps_gil s = Some t \<Longrightarrow> py_step s (s\<lparr>ps_py := (ps_py s)\<lparr>py_gc := True\<rparr>, ps_enabled := True\<rparr>)"
| gc_disable: "ps_gil s = Some t \<Longrightarrow> py_step s (s\<lparr>ps_py := (ps_py s)\<lparr>py_gc := False\<rparr>, ps_enabled := False\<rparr>)"
| leave: "ps_gil s = Some t \<Longrightarrow> t \<in> ps_filling s \<Longrightarrow>
    py_step s (s\<lparr>ps_py := fill_leave (ps_py s), ps_gil := (if t \<in> ps_had s then Some t else None), ps_filling := ps_filling s - {t}\<rparr>)"

inductive_cases py_stepE: "py_step s s'"

inductive py_reach :: "pysys \<Rightarrow> bool" where
  start: "py_fill_depth p = 0 \<Longrightarrow> py_reach \<lparr>ps_py = p, ps_gil = None, ps_filling = {}, ps_had = {}, ps_enabled = False\<rparr>"
| step: "py_reach s \<Longrightarrow> py_step s s' \<Longrightarrow> py_reach s'"

text \<open>The depth counts the threads that are filling, and while there are any the collector is on only by Python code's doing.\<close>

definition py_inv :: "pysys \<Rightarrow> bool" where
  "py_inv s \<longleftrightarrow> finite (ps_filling s) \<and> py_fill_depth (ps_py s) = int (card (ps_filling s)) \<and>
     (ps_filling s \<noteq> {} \<longrightarrow> py_gc (ps_py s) = ps_enabled s)"

lemma py_step_inv:
  assumes "py_step s s'" "py_inv s"
  shows "py_inv s'"
  using assms
proof (cases rule: py_step.cases)
  case (enter t)
  then show ?thesis using assms(2) by (auto simp: py_inv_def fill_enter_def Let_def)
next
  case (leave t)
  let ?F = "ps_filling s - {t}"
  have fin: "finite ?F" "py_fill_depth (ps_py s) = int (Suc (card ?F))" "py_gc (ps_py s) = ps_enabled s"
    using assms(2) leave(3) card_Suc_Diff1 [of "ps_filling s" t] by (auto simp: py_inv_def)
  then have "py_fill_depth (fill_leave (ps_py s)) = int (card ?F)" by (simp add: fill_leave_def Let_def)
  moreover have "py_gc (fill_leave (ps_py s)) = ps_enabled s" if "?F \<noteq> {}"
  proof -
    have "card ?F \<noteq> 0" using that fin(1) by (simp only: card_0_eq) simp
    then show ?thesis using fin(2,3) by (simp add: fill_leave_def Let_def)
  qed
  ultimately show ?thesis using leave(1) fin(1) by (simp add: py_inv_def)
qed (auto simp: py_inv_def)

lemma py_reach_inv: "py_reach s \<Longrightarrow> py_inv s"
proof (induction rule: py_reach.induct)
  case (start p)
  then show ?case by (simp add: py_inv_def)
qed (rule py_step_inv)

text \<open>
  An episode runs from the first thread that enters to the last that leaves; \<open>before\<close> is the flag
  the collector had at its start.
\<close>

inductive episode :: "bool \<Rightarrow> pysys \<Rightarrow> bool" where
  first: "py_reach s \<Longrightarrow> ps_filling s = {} \<Longrightarrow> py_step s s' \<Longrightarrow> ps_filling s' \<noteq> {} \<Longrightarrow> episode (py_gc (ps_py s)) s'"
| more: "episode before s \<Longrightarrow> ps_filling s \<noteq> {} \<Longrightarrow> py_step s s' \<Longrightarrow> episode before s'"

lemma episode_flag:
  "episode before s \<Longrightarrow> py_inv s \<and> py_gc_was_enabled (ps_py s) = before \<and>
    (ps_filling s = {} \<longrightarrow> py_gc (ps_py s) = (before \<or> ps_enabled s))"
proof (induction rule: episode.induct)
  case (first s s')
  then have inv: "py_inv s" and inv': "py_inv s'" using py_reach_inv py_step_inv by blast+
  then have "py_fill_depth (ps_py s) = 0" using first(2) by (simp add: py_inv_def)
  then have "py_gc_was_enabled (ps_py s') = py_gc (ps_py s)"
    using first(2-4) by (auto elim!: py_stepE simp: fill_enter_def Let_def)
  then show ?case using inv' first(4) by simp
next
  case (more before s s')
  have inv: "py_inv s" and was: "py_gc_was_enabled (ps_py s) = before" using more.IH by auto
  then have inv': "py_inv s'" and depth: "py_fill_depth (ps_py s) \<noteq> 0" using more.hyps(2,3) py_step_inv by (auto simp: py_inv_def)
  have "py_gc_was_enabled (ps_py s') = before \<and> (ps_filling s' = {} \<longrightarrow> py_gc (ps_py s') = (before \<or> ps_enabled s'))"
    using more.hyps(3)
  proof (cases rule: py_step.cases)
    case (leave t)
    have "py_fill_depth (ps_py s) = 1" "py_gc (ps_py s) = ps_enabled s" if "ps_filling s - {t} = {}"
    proof -
      have "ps_filling s = {t}" using that leave(3) by blast
      then show "py_fill_depth (ps_py s) = 1" "py_gc (ps_py s) = ps_enabled s" using inv by (auto simp: py_inv_def)
    qed
    then show ?thesis using was leave(1) by (auto simp: fill_leave_def Let_def)
  qed (use was depth more.hyps(2) in \<open>auto simp: fill_enter_def Let_def\<close>)
  then show ?case using inv' by simp
qed

lemma filling_episode: "py_reach s \<Longrightarrow> ps_filling s \<noteq> {} \<Longrightarrow> \<exists>before. episode before s"
proof (induction rule: py_reach.induct)
  case (step s s')
  then show ?case using episode.intros by (cases "ps_filling s = {}") blast+
qed simp

end
