(* ===== verification/Compressed_Chunks.thy ===== *)
theory Compressed_Chunks
  imports History Wire
begin

unbundle bit_operations_syntax

text \<open>
  The example program \<open>examples/compressed_chunks/main.c\<close>, a client of the public API: it
  loads a file of independently compressed chunks, maps their uncompressed contents lazily, reads every
  byte back through the fault handler, and compares it with the pattern the generator script
  wrote.  zlib's \<open>uncompress\<close> is a parameter, given by its return code and the
  bytes it writes.  Reads outside the loaded file are \<open>Out_of_bounds\<close>.
\<close>

section \<open>Reading the file\<close>

record chunk_info =
  ci_uncompressed_size :: uint64_t
  ci_compressed_size :: uint64_t
  ci_compressed_offset :: uint64_t

record fixture =
  fx_data :: "byte list"
  fx_nchunks :: uint32_t
  fx_chunks :: "chunk_info list"
  fx_blob :: size_t

text \<open>The loop from the most significant byte down.\<close>

definition read_u64le :: "byte list \<Rightarrow> uint64_t" where
  "read_u64le p = unat (foldl (\<lambda>v b. push_bit 8 v OR ucast b) (0 :: 64 word) (rev p))"

definition read_u32le :: "byte list \<Rightarrow> uint32_t" where
  "read_u32le p = unat ((ucast (p ! 0) :: 32 word) OR push_bit 8 (ucast (p ! 1)) OR push_bit 16 (ucast (p ! 2)) OR push_bit 24 (ucast (p ! 3)))"

fun load_headers :: "byte list \<Rightarrow> size_t \<Rightarrow> nat \<Rightarrow> (chunk_info list \<times> size_t) res" where
  "load_headers buf hdr 0 = Inr ([], hdr)"
| "load_headers buf hdr (Suc n) =
     (if length buf < hdr + 24 then Inl (Out_of_bounds ''fx->data'')
      else res_bind (load_headers buf (hdr + 24) n) (\<lambda>(cs, blob).
        Inr (\<lparr>ci_uncompressed_size = read_u64le (field hdr 8 buf), ci_compressed_size = read_u64le (field (hdr + 8) 8 buf),
              ci_compressed_offset = read_u64le (field (hdr + 16) 8 buf)\<rparr> # cs, blob)))"

text \<open>Which of the program's allocations succeed, and whether the file is read in full.\<close>

record ex_allocs =
  xa_data :: bool
  xa_read :: bool
  xa_chunks :: bool
  xa_pool :: bool
  xa_sizes :: bool
  xa_offsets :: bool

definition MAGIC :: "byte list" where
  "MAGIC = [0x46, 0x43, 0x46, 0x58]"

text \<open>\<open>None\<close> is the result \<open>-1\<close>; a null table of chunks is written to without a check.\<close>

definition fixture_load :: "ex_allocs \<Rightarrow> byte list option \<Rightarrow> fixture option res" where
  "fixture_load al file =
     (case file of
        None \<Rightarrow> Inr None
      | Some buf \<Rightarrow>
          if length buf < 8 then Inr None
          else if \<not> xa_data al \<or> \<not> xa_read al then Inr None
          else if field 0 4 buf \<noteq> MAGIC then Inr None
          else
            let nchunks = read_u32le (field 4 4 buf) in
            if \<not> xa_chunks al \<and> 0 < nchunks then Inl (Segv 0)
            else res_bind (load_headers buf 8 nchunks) (\<lambda>(chunks, blob).
              Inr (Some \<lparr>fx_data = buf, fx_nchunks = nchunks, fx_chunks = chunks, fx_blob = blob\<rparr>)))"

section \<open>The callback\<close>

type_synonym zlib = "byte list \<Rightarrow> size_t \<Rightarrow> int \<times> byte list"

definition Z_OK :: int where
  "Z_OK = 0"

definition ex_fill_chunk :: "zlib \<Rightarrow> fixture \<Rightarrow> uint32_t \<Rightarrow> size_t \<Rightarrow> byte list res" where
  "ex_fill_chunk uncompress fx chunk size' =
     (let ci = fx_chunks fx ! chunk;
          source = fx_blob fx + ci_compressed_offset ci
      in if ci_uncompressed_size ci \<noteq> size' then Inl (Assert_failed ''size mismatch'')
         else if length (fx_data fx) < source + ci_compressed_size ci then Inl (Out_of_bounds ''fx->blob'')
         else case uncompress (field source (ci_compressed_size ci) (fx_data fx)) size' of (rc, dest) \<Rightarrow>
           if rc \<noteq> Z_OK \<or> length dest \<noteq> size' then Inl (Assert_failed ''decompression failed'') else Inr dest)"

text \<open>
  As a callback of the library: one that aborts is one that touches the null page, which ends the
  process from inside the callback as well.
\<close>

definition ex_callback :: "zlib \<Rightarrow> fixture \<Rightarrow> fc_fill_chunk_fn" where
  "ex_callback uncompress fx chunk size' =
     (case ex_fill_chunk uncompress fx chunk size' of Inl e \<Rightarrow> ([0], []) | Inr dest \<Rightarrow> ([], dest))"

section \<open>The program\<close>

definition expected_byte :: "uint32_t \<Rightarrow> size_t \<Rightarrow> byte" where
  "expected_byte chunk i = ucast ((word_of_nat chunk * 131 + word_of_nat i * 7 :: 32 word) AND 0xFF)"

fun ex_offsets :: "size_t \<Rightarrow> size_t list \<Rightarrow> size_t list" where
  "ex_offsets off [] = []"
| "ex_offsets off (sz # sizes) = off # ex_offsets (size_add off sz) sizes"

fun ex_check_bytes :: "os \<Rightarrow> proc \<Rightarrow> addr \<Rightarrow> size_t \<Rightarrow> uint32_t \<Rightarrow> size_t list \<Rightarrow> (bool \<times> proc) res" where
  "ex_check_bytes os s p off chunk [] = Inr (True, s)"
| "ex_check_bytes os s p off chunk (i # is) =
     res_bind (cpu_load 2 os s (p + size_add off i)) (\<lambda>(got, s).
     if got \<noteq> expected_byte chunk i then Inr (False, s) else ex_check_bytes os s p off chunk is)"

fun ex_check_chunks :: "os \<Rightarrow> proc \<Rightarrow> addr \<Rightarrow> size_t list \<Rightarrow> size_t list \<Rightarrow> uint32_t list \<Rightarrow> (bool \<times> proc) res" where
  "ex_check_chunks os s p offsets sizes [] = Inr (True, s)"
| "ex_check_chunks os s p offsets sizes (k # ks) =
     (let chunk = u32_sub (u32_sub (length sizes) 1) k in
      res_bind (ex_check_bytes os s p (offsets ! chunk) chunk [0..<sizes ! chunk]) (\<lambda>(ok, s).
      if ok then ex_check_chunks os s p offsets sizes ks else Inr (False, s)))"

text \<open>
  The exit status, what the success message reports (chunks and bytes), and the process at the end.
\<close>

definition ex_main ::
    "zlib \<Rightarrow> os \<Rightarrow> ex_allocs \<Rightarrow> nat \<Rightarrow> byte list option \<Rightarrow> proc \<Rightarrow> (int \<times> (nat \<times> size_t) option \<times> proc) res" where
  "ex_main uncompress os al argc file s =
     (if argc \<noteq> 2 then Inr (1, None, s)
      else
        let s = fc_init s in
        res_bind (fixture_load al file) (\<lambda>loaded.
        case loaded of
          None \<Rightarrow> Inr (1, None, s)
        | Some fx \<Rightarrow>
            (case fc_pool_create (xa_pool al) s 0 of
               (None, s) \<Rightarrow> Inr (1, None, s)
             | (Some pool, s) \<Rightarrow>
                 if \<not> xa_sizes al \<and> 0 < fx_nchunks fx then Inl (Segv 0)
                 else
                   let sizes = map ci_uncompressed_size (fx_chunks fx) in
                   res_bind (fc_region_create os s (Some pool) (fx_nchunks fx) (Some sizes) (Some (ex_callback uncompress fx))) (\<lambda>(region, s).
                   case region of
                     None \<Rightarrow> Inr (1, None, s)
                   | Some h \<Rightarrow>
                       res_bind (fc_region_base s (Some h)) (\<lambda>base.
                       if \<not> xa_offsets al then Inl (Segv 0)
                       else
                         let offsets = ex_offsets 0 sizes in
                         res_bind (ex_check_chunks os s base offsets sizes [0..<fx_nchunks fx]) (\<lambda>(ok, s).
                         if \<not> ok then Inr (1, None, s)
                         else
                           let report = (fx_nchunks fx, size_add (offsets ! (fx_nchunks fx - 1)) (sizes ! (fx_nchunks fx - 1))) in
                           res_bind (fc_region_destroy os s (Some h)) (\<lambda>s.
                           res_bind (fc_pool_destroy os s (Some pool)) (\<lambda>s.
                           Inr (0, Some report, s)))))))))"

section \<open>The generator\<close>

text \<open>\<open>gen_compressed_fixture.py\<close>, with zlib's \<open>compress\<close> as a parameter.\<close>

definition chunk_pattern :: "nat \<Rightarrow> nat \<Rightarrow> byte list" where
  "chunk_pattern c n = map (\<lambda>i. word_of_nat ((c * 131 + i * 7) mod 256)) [0..<n]"

definition compressed_chunks :: "(byte list \<Rightarrow> byte list) \<Rightarrow> size_t list \<Rightarrow> byte list list" where
  "compressed_chunks compress sizes = map (\<lambda>(i, n). compress (chunk_pattern i n)) (enumerate 0 sizes)"

fun gen_headers :: "nat \<Rightarrow> (size_t \<times> byte list) list \<Rightarrow> byte list" where
  "gen_headers offset [] = []"
| "gen_headers offset ((n, blob) # rest) =
     put_uint 8 n @ put_uint 8 (length blob) @ put_uint 8 offset @ gen_headers (offset + length blob) rest"

definition gen_fixture :: "(byte list \<Rightarrow> byte list) \<Rightarrow> size_t list \<Rightarrow> byte list" where
  "gen_fixture compress sizes =
     (let blobs = compressed_chunks compress sizes in
      MAGIC @ put_uint 4 (length sizes) @ gen_headers 0 (zip sizes blobs) @ concat blobs)"

section \<open>Little-endian fields\<close>

lemma or_byte:
  fixes v :: "'a::len word" and b :: byte
  assumes "unat v * 256 + 255 < 2 ^ LENGTH('a)" "8 < LENGTH('a)"
  shows "unat (push_bit 8 v OR ucast b) = unat b + 256 * unat v"
proof -
  have "push_bit 8 v AND ucast b = (0 :: 'a word)"
    by (rule bit_eqI) (auto simp: bit_simps dest: bit_imp_le_length)
  then have "push_bit 8 v OR ucast b = push_bit 8 v + (ucast b :: 'a word)" by (rule disjunctive_add_eq_or [symmetric])
  also have "unat \<dots> = unat v * 256 + unat b"
  proof -
    have lt: "unat b < 256" using unsigned_less [of b, where ?'a = nat] by simp
    have "(256 :: nat) < 2 ^ LENGTH('a)" using power_strict_increasing [OF assms(2), of "2 :: nat"] by simp
    then have b: "unat (ucast b :: 'a word) = unat b"
      using lt by (simp add: unsigned_ucast_eq take_bit_nat_eq_self)
    moreover have v: "unat (push_bit 8 v) = unat v * 256"
      unfolding unsigned_push_bit_eq using assms(1) by (simp add: push_bit_eq_mult take_bit_nat_eq_self)
    moreover note lt
    ultimately show ?thesis using assms(1) b by (simp add: unat_word_ariths)
  qed
  finally show ?thesis by simp
qed

lemma read_u64le_eq:
  assumes "length p = 8"
  shows "read_u64le p = get_uint p"
proof -
  have "unat (foldl (\<lambda>v b. push_bit 8 v OR ucast b) (0 :: 64 word) (rev p)) = get_uint p" if "length p \<le> 8" for p
    using that
  proof (induction p)
    case (Cons b p)
    have "get_uint p < 256 ^ 7"
      using get_uint_bound [of p] power_increasing [of "length p" 7 "256 :: nat"] Cons.prems by simp
    then show ?case using Cons by (subst rev.simps, subst foldl_append) (simp add: or_byte)
  qed simp
  then show ?thesis using assms by (simp add: read_u64le_def)
qed

lemma read_u32le_eq:
  assumes "length p = 4"
  shows "read_u32le p = get_uint p"
proof -
  obtain a b c d where p: "p = [a, b, c, d]" using assms by (auto simp: length_Suc_conv eval_nat_numeral)
  have lt: "unat x < 256" for x :: byte using unsigned_less [of x, where ?'a = nat] by simp
  have d: "unat (ucast d :: 32 word) = unat d" using lt [of d] by (simp add: unsigned_ucast_eq take_bit_nat_eq_self)
  define v where "v = (push_bit 8 (ucast d) OR ucast c :: 32 word)"
  have v: "unat v = unat c + 256 * unat d" unfolding v_def using lt [of d] by (subst or_byte) (simp_all add: d)
  define w where "w = push_bit 8 v OR ucast b"
  have w: "unat w = unat b + 256 * unat v" unfolding w_def using lt [of c] lt [of d] by (intro or_byte) (simp_all add: v)
  have "(ucast a :: 32 word) OR push_bit 8 (ucast b) OR push_bit 16 (ucast c) OR push_bit 24 (ucast d) = push_bit 8 w OR ucast a"
    by (simp add: w_def v_def push_bit_or or.assoc or.commute or.left_commute)
  moreover have "unat (push_bit 8 w OR ucast a) = unat a + 256 * unat w"
    using lt [of b] lt [of c] lt [of d] by (intro or_byte) (simp_all add: v w)
  ultimately show ?thesis by (simp add: read_u32le_def p v w)
qed

section \<open>Loading what the generator wrote\<close>

fun gen_infos :: "nat \<Rightarrow> (size_t \<times> byte list) list \<Rightarrow> chunk_info list" where
  "gen_infos offset [] = []"
| "gen_infos offset ((n, blob) # rest) =
     \<lparr>ci_uncompressed_size = n, ci_compressed_size = length blob, ci_compressed_offset = offset\<rparr> # gen_infos (offset + length blob) rest"

lemma length_gen_headers [simp]: "length (gen_headers offset xs) = 24 * length xs"
  by (induction offset xs rule: gen_headers.induct) simp_all

lemma field_at: "length a = off \<Longrightarrow> length b = n \<Longrightarrow> field off n (a @ b @ c) = b"
  by (simp add: field_def)

lemma load_headers_gen:
  assumes "\<forall>(n, blob)\<in>set xs. n < SIZE_RANGE" "offset + sum_list (map (length \<circ> snd) xs) < SIZE_RANGE"
  shows "load_headers (pre @ gen_headers offset xs @ rest) (length pre) (length xs) = Inr (gen_infos offset xs, length pre + 24 * length xs)"
  using assms
proof (induction offset xs arbitrary: pre rule: gen_headers.induct)
  case (2 offset n blob xs)
  let ?h = "put_uint 8 n @ put_uint 8 (length blob) @ put_uint 8 offset"
  let ?buf = "pre @ gen_headers offset ((n, blob) # xs) @ rest"
  have buf: "?buf = (pre @ ?h) @ gen_headers (offset + length blob) xs @ rest" by simp
  have "load_headers ((pre @ ?h) @ gen_headers (offset + length blob) xs @ rest) (length (pre @ ?h)) (length xs) =
      Inr (gen_infos (offset + length blob) xs, length (pre @ ?h) + 24 * length xs)"
    by (rule "2.IH") (use "2.prems" in auto)
  then have rec: "load_headers ?buf (length pre + 24) (length xs) = Inr (gen_infos (offset + length blob) xs, length pre + 24 + 24 * length xs)"
    unfolding buf by (simp add: add.assoc)
  have f: "field (length pre) 8 ?buf = put_uint 8 n"
    using field_at [of pre _ "put_uint 8 n" 8 "put_uint 8 (length blob) @ put_uint 8 offset @ gen_headers (offset + length blob) xs @ rest"] by simp
  have g: "field (length pre + 8) 8 ?buf = put_uint 8 (length blob)"
    using field_at [of "pre @ put_uint 8 n" _ "put_uint 8 (length blob)" 8 "put_uint 8 offset @ gen_headers (offset + length blob) xs @ rest"] by simp
  have h: "field (length pre + 16) 8 ?buf = put_uint 8 offset"
    using field_at [of "pre @ put_uint 8 n @ put_uint 8 (length blob)" _ "put_uint 8 offset" 8 "gen_headers (offset + length blob) xs @ rest"] by simp
  have small: "n < 256 ^ 8" "length blob < 256 ^ 8" "offset < 256 ^ 8" using "2.prems" by auto
  have "length ?buf \<ge> length pre + 24" by simp
  then show ?case
    using rec f g h small by (simp add: read_u64le_eq get_put_uint_id del: gen_headers.simps)
qed simp

definition all_allocs :: ex_allocs where
  "all_allocs = \<lparr>xa_data = True, xa_read = True, xa_chunks = True, xa_pool = True, xa_sizes = True, xa_offsets = True\<rparr>"

text \<open>The fixture the generator writes for these sizes, as the program holds it.\<close>

definition gen_loaded :: "(byte list \<Rightarrow> byte list) \<Rightarrow> size_t list \<Rightarrow> fixture" where
  "gen_loaded compress sizes =
     \<lparr>fx_data = gen_fixture compress sizes, fx_nchunks = length sizes,
      fx_chunks = gen_infos 0 (zip sizes (compressed_chunks compress sizes)), fx_blob = 8 + 24 * length sizes\<rparr>"

definition fits :: "(byte list \<Rightarrow> byte list) \<Rightarrow> size_t list \<Rightarrow> bool" where
  "fits compress sizes \<longleftrightarrow> valid_sizes sizes \<and> length sizes + 1 < UINT32_RANGE \<and> sum_list (map length (compressed_chunks compress sizes)) < SIZE_RANGE"

lemma length_compressed_chunks [simp]: "length (compressed_chunks compress sizes) = length sizes"
  by (simp add: compressed_chunks_def)

lemma nth_compressed_chunks: "c < length sizes \<Longrightarrow> compressed_chunks compress sizes ! c = compress (chunk_pattern c (sizes ! c))"
  by (simp add: compressed_chunks_def nth_enumerate_eq)

lemma valid_sizes_bound: "valid_sizes sizes \<Longrightarrow> \<forall>x\<in>set sizes. x < SIZE_RANGE"
  using member_le_sum_list by (fastforce simp: valid_sizes_def)

lemma fixture_load_gen:
  assumes "fits compress sizes"
  shows "fixture_load all_allocs (Some (gen_fixture compress sizes)) = Inr (Some (gen_loaded compress sizes))"
proof -
  let ?blobs = "compressed_chunks compress sizes"
  let ?xs = "zip sizes ?blobs"
  have buf: "gen_fixture compress sizes = (MAGIC @ put_uint 4 (length sizes)) @ gen_headers 0 ?xs @ concat ?blobs"
    by (simp add: gen_fixture_def Let_def)
  have sizes: "\<forall>(n, blob)\<in>set ?xs. n < SIZE_RANGE"
    using assms valid_sizes_bound by (auto simp: fits_def dest: set_zip_leftD)
  have "map (length \<circ> snd) ?xs = map length ?blobs" by (simp add: comp_def flip: map_map [of length snd, unfolded comp_def])
  then have "0 + sum_list (map (length \<circ> snd) ?xs) < SIZE_RANGE" using assms by (simp add: fits_def)
  from load_headers_gen [OF sizes this, of "MAGIC @ put_uint 4 (length sizes)" "concat ?blobs"]
  have hdr: "load_headers (gen_fixture compress sizes) 8 (length sizes) = Inr (gen_infos 0 ?xs, 8 + 24 * length sizes)"
    unfolding buf by (simp add: MAGIC_def)
  have "field 0 4 (gen_fixture compress sizes) = MAGIC" by (simp add: gen_fixture_def Let_def field_def MAGIC_def)
  moreover have "field 4 4 (gen_fixture compress sizes) = put_uint 4 (length sizes)"
    by (simp add: gen_fixture_def Let_def field_def MAGIC_def)
  moreover have "read_u32le (put_uint 4 (length sizes)) = length sizes"
    using assms by (simp add: read_u32le_eq get_put_uint_id fits_def)
  moreover have "8 \<le> length (gen_fixture compress sizes)" by (simp add: buf MAGIC_def)
  ultimately show ?thesis using hdr by (simp add: fixture_load_def all_allocs_def gen_loaded_def Let_def)
qed

lemma gen_infos_nth:
  "c < length xs \<Longrightarrow> gen_infos offset xs ! c = \<lparr>ci_uncompressed_size = fst (xs ! c), ci_compressed_size = length (snd (xs ! c)),
     ci_compressed_offset = offset + sum_list (map (length \<circ> snd) (take c xs))\<rparr>"
  by (induction offset xs arbitrary: c rule: gen_infos.induct) (auto simp: nth_Cons less_Suc_eq_0_disj split: nat.split)

lemma length_gen_infos [simp]: "length (gen_infos offset xs) = length xs"
  by (induction offset xs rule: gen_infos.induct) simp_all

lemma field_concat:
  assumes "c < length xss"
  shows "field (length pre + sum_list (map length (take c xss))) (length (xss ! c)) (pre @ concat xss) = xss ! c"
    "length pre + sum_list (map length (take c xss)) + length (xss ! c) \<le> length (pre @ concat xss)"
proof -
  have split: "xss = take c xss @ xss ! c # drop (Suc c) xss" using assms by (rule id_take_nth_drop)
  have cat: "pre @ concat xss = (pre @ concat (take c xss)) @ xss ! c @ concat (drop (Suc c) xss)"
    by (subst split) simp
  have len: "length (pre @ concat (take c xss)) = length pre + sum_list (map length (take c xss))" by (simp add: length_concat)
  show "field (length pre + sum_list (map length (take c xss))) (length (xss ! c)) (pre @ concat xss) = xss ! c"
    unfolding cat by (rule field_at [OF len]) simp
  show "length pre + sum_list (map length (take c xss)) + length (xss ! c) \<le> length (pre @ concat xss)"
    unfolding cat using len by simp
qed

section \<open>The callback on such a fixture\<close>

text \<open>zlib's round trip: decompressing what was compressed gives it back and reports success.\<close>

definition inflates :: "zlib \<Rightarrow> (byte list \<Rightarrow> byte list) \<Rightarrow> bool" where
  "inflates uncompress compress \<longleftrightarrow> (\<forall>bs. uncompress (compress bs) (length bs) = (Z_OK, bs))"

lemma length_chunk_pattern [simp]: "length (chunk_pattern c n) = n"
  by (simp add: chunk_pattern_def)

lemma ex_callback_gen:
  assumes "inflates uncompress compress" "c < length sizes"
  shows "ex_callback uncompress (gen_loaded compress sizes) c (sizes ! c) = ([], chunk_pattern c (sizes ! c))"
proof -
  let ?blobs = "compressed_chunks compress sizes" and ?fx = "gen_loaded compress sizes"
  let ?pre = "MAGIC @ put_uint 4 (length sizes) @ gen_headers 0 (zip sizes ?blobs)"
  have data: "fx_data ?fx = ?pre @ concat ?blobs" by (simp add: gen_loaded_def gen_fixture_def Let_def)
  have pre: "length ?pre = fx_blob ?fx" by (simp add: gen_loaded_def MAGIC_def)
  have "map (length \<circ> snd) (take c (zip sizes ?blobs)) = map length (take c ?blobs)"
    by (simp add: take_zip comp_def flip: map_map [of length snd, unfolded comp_def])
  then have ci: "fx_chunks ?fx ! c = \<lparr>ci_uncompressed_size = sizes ! c, ci_compressed_size = length (?blobs ! c),
      ci_compressed_offset = sum_list (map length (take c ?blobs))\<rparr>"
    using assms(2) by (simp add: gen_loaded_def gen_infos_nth)
  note f = field_concat [of c ?blobs ?pre, unfolded pre, folded data]
  have "uncompress (compress (chunk_pattern c (sizes ! c))) (sizes ! c) = (Z_OK, chunk_pattern c (sizes ! c))"
    using assms(1) unfolding inflates_def by (metis length_chunk_pattern)
  then show ?thesis
    using f assms(2) by (simp add: ex_callback_def ex_fill_chunk_def ci nth_compressed_chunks Let_def)
qed

lemma expected_pattern: "i < n \<Longrightarrow> chunk_pattern c n ! i = expected_byte c i"
proof -
  assume "i < n"
  have m: "(0xFF :: 32 word) = mask 8" by (simp add: mask_eq_exp_minus_1)
  have red: "(word_of_nat k :: byte) = word_of_nat (k mod 256)" for k by (simp add: word_of_nat_eq_iff take_bit_eq_mod)
  have low: "ucast (word_of_nat k AND mask 8 :: 32 word) = (word_of_nat k :: byte)" for k
    by (rule bit_eqI) (auto simp: bit_simps)
  have "expected_byte c i = ucast (word_of_nat (c * 131 + i * 7) AND mask 8 :: 32 word)"
    unfolding expected_byte_def m by simp
  also have "\<dots> = (word_of_nat (c * 131 + i * 7) :: byte)" by (rule low)
  also have "\<dots> = word_of_nat ((c * 131 + i * 7) mod 256)" by (rule red)
  finally show ?thesis using \<open>i < n\<close> by (simp add: chunk_pattern_def)
qed

section \<open>Checking the bytes\<close>

lemma ex_check_bytes_ok:
  assumes "proc_inv os s RL" "handler_current s" "live s RL pid rid" "p = r_base (region_of s pid rid)"
    "\<forall>i\<in>set is. off + i < r_mapped_size (region_of s pid rid) \<and> off + i < SIZE_RANGE \<and> content (region_of s pid rid) (off + i) = expected_byte chunk i"
  shows "res_ok (fill_error_of (region_of s pid rid)) (\<lambda>(ok, s'). ok \<and> kept os s RL s') (ex_check_bytes os s p off chunk is)"
  using assms
proof (induction "is" arbitrary: s)
  case Nil
  then show ?case by (simp add: kept_refl)
next
  case (Cons i "is")
  let ?r = "region_of s pid rid"
  have i: "off + i < r_mapped_size ?r" "size_add off i = off + i" "content ?r (off + i) = expected_byte chunk i" using Cons.prems(5) by auto
  have load: "res_ok (fill_error_of (region_of s pid rid)) (\<lambda>(b, s'). b = expected_byte chunk i \<and> kept os s RL s') (cpu_load 2 os s (p + (off + i)))"
    using cpu_load_content [OF Cons.prems(1-3) i(1), of 0] Cons.prems(4) i(3) by (simp add: numeral_2_eq_2 del: cpu_load.simps)
  show ?case unfolding ex_check_bytes.simps i(2)
  proof (rule res_ok_bind2 [OF load])
    fix got s1 assume "case (got, s1) of (b, s') \<Rightarrow> b = expected_byte chunk i \<and> kept os s RL s'"
    then have got: "got = expected_byte chunk i" and k: "kept os s RL s1" by auto
    note K = keptD(1-3,6) [OF k] and E = fill_error_of_cong(1) [OF keptD(3) [OF k], of pid rid]
    have "res_ok (fill_error_of (region_of s pid rid)) (\<lambda>(ok, s'). ok \<and> kept os s1 RL s') (ex_check_bytes os s1 p off chunk is)"
      using Cons.prems by (intro Cons.IH [of s1, unfolded E]) (auto simp: K static_congs [OF K(3)])
    then show "res_ok (fill_error_of (region_of s pid rid)) (\<lambda>(ok, s'). ok \<and> kept os s RL s')
        (if got \<noteq> expected_byte chunk i then Inr (False, s1) else ex_check_bytes os s1 p off chunk is)"
      using got by (auto intro: res_ok_mono2 kept_trans [OF k])
  qed
qed

lemma ex_check_chunks_ok:
  assumes "proc_inv os s RL" "handler_current s" "live s RL pid rid" "p = r_base (region_of s pid rid)" "length sizes < UINT32_RANGE" "\<forall>k\<in>set ks. k < length sizes"
    "\<And>c i. c < length sizes \<Longrightarrow> i < sizes ! c \<Longrightarrow> offsets ! c + i < r_mapped_size (region_of s pid rid) \<and> offsets ! c + i < SIZE_RANGE \<and>
       content (region_of s pid rid) (offsets ! c + i) = expected_byte c i"
  shows "res_ok (fill_error_of (region_of s pid rid)) (\<lambda>(ok, s'). ok \<and> kept os s RL s') (ex_check_chunks os s p offsets sizes ks)"
  using assms
proof (induction ks arbitrary: s)
  case Nil
  then show ?case by (simp add: kept_refl)
next
  case (Cons k ks)
  define c where "c = u32_sub (u32_sub (length sizes) 1) k"
  have "k \<le> length sizes - 1" "1 \<le> length sizes" using Cons.prems(6) by auto
  then have "c = length sizes - 1 - k" using Cons.prems(5) by (simp add: c_def)
  then have c: "c < length sizes" using Cons.prems(6) by auto
  have bytes: "res_ok (fill_error_of (region_of s pid rid)) (\<lambda>(ok, s'). ok \<and> kept os s RL s') (ex_check_bytes os s p (offsets ! c) c [0..<sizes ! c])"
    using Cons.prems(7) [OF c] by (intro ex_check_bytes_ok [OF Cons.prems(1-4)]) auto
  show ?case unfolding ex_check_chunks.simps Let_def c_def [symmetric]
  proof (rule res_ok_bind2 [OF bytes])
    fix ok s1 assume "case (ok, s1) of (ok, s') \<Rightarrow> ok \<and> kept os s RL s'"
    then have ok and k1: "kept os s RL s1" by auto
    note K = keptD(1-3,6) [OF k1] and E = fill_error_of_cong(1) [OF keptD(3) [OF k1], of pid rid]
    have "res_ok (fill_error_of (region_of s pid rid)) (\<lambda>(ok, s'). ok \<and> kept os s1 RL s') (ex_check_chunks os s1 p offsets sizes ks)"
      using Cons.prems by (intro Cons.IH [of s1, unfolded E]) (auto simp: K static_congs [OF K(3)])
    then show "res_ok (fill_error_of (region_of s pid rid)) (\<lambda>(ok, s'). ok \<and> kept os s RL s') (if ok then ex_check_chunks os s1 p offsets sizes ks else Inr (False, s1))"
      using \<open>ok\<close> by (auto intro: res_ok_mono2 kept_trans [OF k1])
  qed
qed

lemma ex_offsets_nth:
  "off + sum_list sizes < SIZE_RANGE \<Longrightarrow> c < length sizes \<Longrightarrow> ex_offsets off sizes ! c = off + sum_list (take c sizes)"
  by (induction off sizes arbitrary: c rule: ex_offsets.induct) (auto simp: nth_Cons split: nat.split)

section \<open>The whole program\<close>

lemma total_offset:
  assumes "sum_list sizes < SIZE_RANGE" "sizes \<noteq> []"
  shows "size_add (ex_offsets 0 sizes ! (length sizes - 1)) (sizes ! (length sizes - 1)) = sum_list sizes"
proof -
  let ?n = "length sizes - 1"
  have n: "?n < length sizes" "Suc ?n = length sizes" using assms(2) by auto
  have "sum_list sizes = sum_list (take (Suc ?n) sizes)" using n(2) by simp
  also have "\<dots> = sum_list (take ?n sizes) + sizes ! ?n" using n(1) by (simp only: take_Suc_conv_app_nth) simp
  finally show ?thesis using ex_offsets_nth [of 0 sizes ?n] n(1) assms(1) by simp
qed

text \<open>Destroying the only region and then its pool gives back all that the library had borrowed.\<close>

lemma ex_teardown:
  assumes inv: "proc_inv os s ((\<lambda>_. [])(pid := [rid]))" and gp: "g_pools s = [pid]" and bor: "borrowed m0 s ((\<lambda>_. [])(pid := [rid]))"
  shows "\<exists>s'. res_bind (fc_region_destroy os s (Some (pid, rid))) (\<lambda>s. res_bind (fc_pool_destroy os s (Some pid)) (\<lambda>s. Inr (0 :: int, report, s))) =
      Inr (0, report, s') \<and> g_pools s' = [] \<and> g_mem s' = m0"
proof -
  have lv: "live s ((\<lambda>_. [])(pid := [rid])) pid rid" using gp by (simp add: live_def)
  obtain s1 where s1: "fc_region_destroy os s (Some (pid, rid)) = Inr s1" "proc_inv os s1 (\<lambda>_. [])" "g_pools s1 = g_pools s"
    and m1: "\<And>x. g_mem s1 x = (if x \<in> footprint (region_of s pid rid) then None else g_mem s x)"
    by (rule fc_region_destroy_ok [OF inv lv]) (simp add: fun_upd_idem)
  have "lib_foot s ((\<lambda>_. [])(pid := [rid])) = footprint (region_of s pid rid)" using gp by (simp add: lib_foot_def pool_foot_footprint)
  then have m: "g_mem s1 = m0" using bor m1 by (auto simp: borrowed_def fun_eq_iff split: if_splits)
  have "pid \<in> set (g_pools s1)" using gp s1(3) by simp
  then obtain s2 where "fc_pool_destroy os s1 (Some pid) = Inr s2" "proc_inv os s2 (\<lambda>_. [])" "g_pools s2 = remove1 pid (g_pools s1)"
    "\<And>x. g_mem s2 x = (if x \<in> pool_foot (g_pool s1 pid) (set []) then None else g_mem s1 x)"
    by (rule fc_pool_destroy_ok [OF s1(2)]) blast
  then show ?thesis using s1(1,3) gp m by (auto simp: pool_foot_footprint fun_eq_iff)
qed

text \<open>A process in which \<open>main\<close> starts.\<close>

definition fresh_process :: "proc \<Rightarrow> bool" where
  "fresh_process s \<longleftrightarrow> g_pools s = [] \<and> \<not> g_resolving_fault s \<and> \<not> sg_once (g_sig s)"

lemma honours_gen: "inflates uncompress compress \<Longrightarrow> honours_sizes sizes (ex_callback uncompress (gen_loaded compress sizes))"
  using ex_callback_gen by (simp add: honours_sizes_def)

text \<open>A region created over such a fixture holds the expected byte at every position.\<close>

lemma ex_region_bytes:
  assumes lay: "region_layout r" and vs: "valid_sizes sizes" and zlib: "inflates uncompress compress"
    and r: "r_total_size r = sum_list sizes" "r_nchunks r = length sizes"
      "r_fill_chunk r = ex_callback uncompress (gen_loaded compress sizes)" "r_chunk_start r = chunk_starts 0 sizes"
    and c: "c < length sizes" "i < sizes ! c"
  shows "ex_offsets 0 sizes ! c + i < r_mapped_size r \<and> ex_offsets 0 sizes ! c + i < SIZE_RANGE \<and>
    content r (ex_offsets 0 sizes ! c + i) = expected_byte c i"
proof -
  have tot: "sum_list sizes < SIZE_RANGE" using vs by (simp add: valid_sizes_def)
  have off: "ex_offsets 0 sizes ! c = sum_list (take c sizes)" using ex_offsets_nth [of 0 sizes c] tot c(1) by simp
  have "sum_list (take (Suc c) sizes) + sum_list (drop (Suc c) sizes) = sum_list sizes"
    by (metis append_take_drop_id sum_list_append)
  then have "sum_list (take c sizes) + i < sum_list sizes" using c by (simp add: take_Suc_conv_app_nth)
  moreover have "content r (sum_list (take c sizes) + i) = expected_byte c i"
    using layout_content [OF lay vs r c] ex_callback_gen [OF zlib c(1)] expected_pattern [OF c(2)] by simp
  ultimately show ?thesis using off region_layoutD(9) [OF lay] r(1) tot by simp
qed

text \<open>The rest of the run once the region exists.\<close>

definition ex_rest :: "os \<Rightarrow> nat \<Rightarrow> size_t list \<Rightarrow> (nat \<times> nat) option \<Rightarrow> proc \<Rightarrow> (int \<times> (nat \<times> size_t) option \<times> proc) res" where
  "ex_rest os pid sizes region s =
     (case region of None \<Rightarrow> Inr (1, None, s)
      | Some h \<Rightarrow> res_bind (fc_region_base s (Some h)) (\<lambda>base.
          res_bind (ex_check_chunks os s base (ex_offsets 0 sizes) sizes [0..<length sizes]) (\<lambda>(ok, s).
          if \<not> ok then Inr (1, None, s)
          else res_bind (fc_region_destroy os s (Some h)) (\<lambda>s. res_bind (fc_pool_destroy os s (Some pid)) (\<lambda>s.
            Inr (0, Some (length sizes, sum_list sizes), s))))))"

definition ex_success :: "mem \<Rightarrow> size_t list \<Rightarrow> int \<times> (nat \<times> size_t) option \<times> proc \<Rightarrow> bool" where
  "ex_success m0 sizes = (\<lambda>(rc, report, s'). rc = 0 \<and> report = Some (length sizes, sum_list sizes) \<and> g_pools s' = [] \<and> g_mem s' = m0)"

text \<open>The callback touches nothing outside its buffer, so it cannot fault, and a fill can only fail for lack of room.\<close>

lemma ex_quiet:
  assumes "inflates uncompress compress" "valid_sizes sizes" "r_nchunks r = length sizes" "r_chunk_start r = chunk_starts 0 sizes"
    "r_fill_chunk r = ex_callback uncompress (gen_loaded compress sizes)"
  shows "quiet_fill r"
proof -
  have "chunk_size r c = sizes ! c" if "c < length sizes" for c
    using chunk_starts_nth [of 0 sizes c] chunk_starts_nth [of 0 sizes "Suc c"] assms(2) that
    by (simp add: assms(4) valid_sizes_def take_Suc_conv_app_nth)
  then show ?thesis using ex_callback_gen [OF assms(1)] by (simp add: quiet_fill_def assms(3,5))
qed

lemma ex_rest_ok:
  assumes vs: "valid_sizes sizes" and n: "length sizes < UINT32_RANGE" and zlib: "inflates uncompress compress"
    and gp: "g_pools s1 = [pid]" and cur: "handler_current s1"
    and post: "create_post os s1 (\<lambda>_. []) pid sizes (ex_callback uncompress (gen_loaded compress sizes)) (h, s2)"
  shows "res_ok map_error (ex_success (g_mem s1) sizes) (ex_rest os pid sizes h s2)"
proof -
  let ?rid = "g_next_region s1"
  let ?r = "region_of s2 pid ?rid" and ?RL = "(\<lambda>_. [])(pid := [?rid])"
  have h: "h = Some (pid, ?rid)" and inv2: "proc_inv os s2 ?RL" and gp2: "g_pools s2 = [pid]" and cur2: "handler_current s2"
    and r: "r_total_size ?r = sum_list sizes" "r_nchunks ?r = length sizes"
      "r_fill_chunk ?r = ex_callback uncompress (gen_loaded compress sizes)" "r_chunk_start ?r = chunk_starts 0 sizes"
    and mem: "staging_ranges ?r = {}" "\<forall>x. x \<in> region_range ?r \<longrightarrow> g_mem s1 x = None" "\<forall>x. x \<notin> region_range ?r \<longrightarrow> g_mem s2 x = g_mem s1 x"
    using post gp cur by (simp_all add: create_post_def Let_def)
  have lv: "live s2 ?RL pid ?rid" using gp2 by (simp add: live_def)
  have "lib_foot s2 ?RL = region_range ?r" using gp2 mem(1) by (simp add: lib_foot_def pool_foot_footprint footprint_def)
  then have bor2: "borrowed (g_mem s1) s2 ?RL" using mem by (simp add: borrowed_def)
  have "region_wf os ?r" using live_region(1) [OF inv2 lv] by (simp add: region_inv_def)
  note bytes = ex_region_bytes [OF region_wfD(1) [OF this] vs zlib r]
  have "quiet_fill ?r" by (rule ex_quiet [OF zlib vs r(2,4,3)])
  then have err: "fill_error_of ?r e \<Longrightarrow> map_error e" for e by (simp add: fill_error_of_def)
  have check: "res_ok (fill_error_of ?r) (\<lambda>(ok, s'). ok \<and> kept os s2 ?RL s')
      (ex_check_chunks os s2 (r_base ?r) (ex_offsets 0 sizes) sizes [0..<length sizes])"
    using n bytes by (intro ex_check_chunks_ok [OF inv2 cur2 lv refl]) auto
  have base: "fc_region_base s2 (Some (pid, ?rid)) = Inr (r_base ?r)" by (simp add: fc_region_base_def)
  show ?thesis unfolding ex_rest_def h option.case base res_bind_Inr
  proof (rule res_ok_bind2 [OF res_ok_weaken [OF check err]])
    fix ok s3 assume "case (ok, s3) of (ok, s') \<Rightarrow> ok \<and> kept os s2 ?RL s'"
    then have ok and k: "kept os s2 ?RL s3" by auto
    note K = keptD [OF k]
    have gp3: "g_pools s3 = [pid]" using K(4) gp2 by simp
    show "res_ok map_error (ex_success (g_mem s1) sizes)
      (if \<not> ok then Inr (1, None, s3) else res_bind (fc_region_destroy os s3 (Some (pid, ?rid))) (\<lambda>s. res_bind (fc_pool_destroy os s (Some pid)) (\<lambda>s.
        Inr (0, Some (length sizes, sum_list sizes), s))))"
      using ex_teardown [OF K(1) gp3 K(7) [OF bor2], of "Some (length sizes, sum_list sizes)"] \<open>ok\<close> by (auto simp: ex_success_def)
  qed
qed

lemma ex_main_gen:
  assumes fresh: "fresh_process s" and ps: "0 < os_page_size os" "os_page_size os \<le> SIZE_RANGE"
    and fits: "fits compress sizes" and zlib: "inflates uncompress compress"
  shows "res_ok map_error (ex_success (g_mem s) sizes) (ex_main uncompress os all_allocs 2 (Some (gen_fixture compress sizes)) s)"
proof -
  let ?fx = "gen_loaded compress sizes" and ?fill = "ex_callback uncompress (gen_loaded compress sizes)"
  have vs: "valid_sizes sizes" and n: "length sizes + 1 < UINT32_RANGE" using fits by (auto simp: fits_def)
  then have tot: "sum_list sizes < SIZE_RANGE" "sizes \<noteq> []" by (auto simp: valid_sizes_def)
  have sz: "map ci_uncompressed_size (fx_chunks ?fx) = sizes"
    by (rule nth_equalityI) (simp_all add: gen_loaded_def gen_infos_nth)
  have nc: "fx_nchunks ?fx = length sizes" by (simp add: gen_loaded_def)
  define s0 where "s0 = fc_init s"
  have inv0: "proc_inv os s0 (\<lambda>_. [])" and gp0: "g_pools s0 = []" and armed: "fault_armed (g_sig s0)" "handler_current s0" and m0: "g_mem s0 = g_mem s"
    using fresh ps(1) by (simp_all add: proc_inv_def s0_def fc_init_def fault_arm_def fault_armed_def install_handler_def Let_def fresh_process_def)
  obtain pid s1 where pc: "fc_pool_create True s0 0 = (Some pid, s1)" by (simp add: fc_pool_create_def Let_def)
  note P = fc_pool_create_ok [OF inv0 pc]
  have pid: "pid \<in> set (g_pools s1)" and gp1: "g_pools s1 = [pid]" using P(2) gp0 by simp_all
  have s1: "g_sig s1 = g_sig s0" "g_mem s1 = g_mem s" using pc m0 by (auto simp: fc_pool_create_def Let_def)
  have arm1: "fault_armed (g_sig s1)" "handler_current s1" using armed s1(1) by simp_all
  have inv1: "proc_inv os s1 (\<lambda>_. [])" using P(1) by (simp add: fun_upd_idem)
  note create = fc_region_create_ok [OF inv1 pid arm1(1) vs honours_gen [OF zlib] valid_sizes_bound [OF vs] n ps(2)]
  have main: "ex_main uncompress os all_allocs 2 (Some (gen_fixture compress sizes)) s =
      res_bind (fc_region_create os s1 (Some pid) (length sizes) (Some sizes) (Some ?fill)) (\<lambda>(h, s). ex_rest os pid sizes h s)"
    unfolding ex_main_def s0_def [symmetric] fixture_load_gen [OF fits] Let_def ex_rest_def
    by (simp add: all_allocs_def pc sz nc total_offset [OF tot, simplified] cong: option.case_cong if_cong)
  have n': "length sizes < UINT32_RANGE" using n by simp
  show ?thesis unfolding main s1(2) [symmetric]
    by (rule res_ok_bind2 [OF res_ok_weaken [OF create]]) (simp add: map_error_def, rule ex_rest_ok [OF vs n' zlib gp1 arm1(2)])
qed

section \<open>Truncated files\<close>

text \<open>The count in the header is not compared with the length of the file.\<close>

lemma load_headers_short:
  "hdr \<le> length buf \<Longrightarrow> length buf < hdr + 24 * n \<Longrightarrow> load_headers buf hdr n = Inl (Out_of_bounds ''fx->data'')"
  by (induction buf hdr n rule: load_headers.induct) auto

end
