(* ===== verification/Port_Sample.thy ===== *)
theory Port_Sample
  imports Sample Vm_Win32_Use Fault_Win32 Misuse Py_Shim Compressed_Chunks
begin

text \<open>
  Small states on which the theorems about the Windows seams, the Python shim and the example program are
  exercised.
\<close>

section \<open>A Windows address space\<close>

text \<open>The region of \<open>Sample\<close> reserved at its address, and a scratch buffer for the two pages of its last chunk.\<close>

definition sample_wos :: wos where
  "sample_wos = \<lparr>wo_page = 2, wo_granularity = 4, wo_pick = (\<lambda>w n. Some (if w_allocs w = [] then 4 else 64))\<rparr>"

definition sample_win0 :: win where
  "sample_win0 = \<lparr>w_allocs = [], w_prot = (\<lambda>_. PROT_NONE), w_section = (\<lambda>_. []), w_handles = {}, w_next = 0\<rparr>"

definition sample_win :: win where
  "sample_win = \<lparr>w_allocs = [\<lparr>wa_base = 64, wa_len = 8, wa_kind = View 0 0 False\<rparr>, \<lparr>wa_base = 4, wa_len = 16, wa_kind = Placeholder\<rparr>],
     w_prot = prot_set (\<lambda>_. PROT_NONE) 64 8 PROT_RW, w_section = (\<lambda>_. [])(0 := replicate 8 0), w_handles = {0}, w_next = 1\<rparr>"

definition sample_scratch :: vm_scratch where
  "sample_scratch = \<lparr>s_addr = 64, s_size = 8, s_section = 0, s_consumed = 0\<rparr>"

lemma sample_win_use: "win_use sample_wos sample_win {(4, 16)} (region_slots sample_struct) {}"
proof -
  let ?w1 = "sample_win0\<lparr>w_allocs := [\<lparr>wa_base = 4, wa_len = 16, wa_kind = Placeholder\<rparr>]\<rparr>"
  have "win_use sample_wos sample_win0 {} {} {}"
    by (rule win_use.start) (simp add: w_ok_def sample_wos_def sample_win0_def)
  moreover have "win_reserve sample_wos sample_win0 16 = Inr (4, ?w1)"
    by (simp add: win_reserve_def VirtualAlloc2_def sample_wos_def sample_win0_def w_free_def)
  ultimately have "win_use sample_wos ?w1 {(4, 16)} (region_slots sample_struct) {}"
    using win_use.reserve [of sample_wos sample_win0 "{}" "{}" "{}" sample_struct ?w1]
    by (simp add: sample_struct_fields win_page_size_def sample_wos_def)
  moreover have "win_scratch_create sample_wos ?w1 8 True = Inr (sample_scratch, sample_win)"
    by (simp add: win_scratch_create_def CreateFileMapping_def MapViewOfFile_def sample_wos_def sample_win0_def sample_win_def
        sample_scratch_def w_free_def Let_def numeral_2_eq_2)
  moreover have "win_page_size sample_wos dvd 8" by (simp add: win_page_size_def sample_wos_def)
  ultimately show ?thesis by (blast intro: win_use.create)
qed

lemma sample_win_slot: "(16, 4) \<in> region_slots sample_struct"
  by (auto simp: region_slots_def sample_struct_fields chunk_exclusive_pages_def Let_def page_ceil_def page_floor_def intro!: exI [of _ "2 :: nat"])

lemma sample_win_staged: "staged sample_win sample_scratch" "s_consumed sample_scratch = 0" "s_size sample_scratch = 8"
  by (simp_all add: staged_def sample_win_def sample_scratch_def)

section \<open>A list of vectored handlers\<close>

definition sample_veh :: vehstate where
  "sample_veh = \<lparr>v_list = [(2, Veh_other 7), (1, Veh_handler), (0, Veh_other 5)], v_next = 3, v_once = True, v_handler_installed = True, v_handle = Some 1\<rparr>"

lemma sample_veh_reach: "veh_reach sample_veh"
proof -
  let ?s0 = "veh_start [(0, Veh_other 5)] 1"
  let ?s1 = "\<lparr>v_list = [(1, Veh_handler), (0, Veh_other 5)], v_next = 2, v_once = True, v_handler_installed = True, v_handle = Some 1\<rparr>"
  have "veh_reach ?s0" by (rule veh_reach.start) simp_all
  moreover have "veh_step ?s0 ?s1"
    by (rule veh_step.arm [of True])
      (simp add: win_fault_arm_def win_install_handler_def AddVectoredExceptionHandler_def veh_start_def)
  moreover have "veh_step ?s1 sample_veh"
    by (rule veh_step.other_add [of True True 7 _ 2]) (simp add: AddVectoredExceptionHandler_def sample_veh_def)
  ultimately show ?thesis by (blast intro: veh_reach.step)
qed

section \<open>Two threads in the trampoline\<close>

definition sample_py :: py where
  "sample_py = \<lparr>py_gc = True, py_fill_depth = 0, py_gc_was_enabled = False, py_err = False, py_unraisable = 0, py_refs = (\<lambda>_. 0),
     py_released = {}, py_next = 0, py_fillers = (\<lambda>_. None), py_capsule = (\<lambda>_. None)\<rparr>"

definition sample_fills :: pysys where
  "sample_fills = \<lparr>ps_py = fill_enter (fill_enter sample_py), ps_gil = Some 2, ps_filling = {1, 2}, ps_had = {}, ps_enabled = False\<rparr>"

lemma sample_fills_reach: "py_reach sample_fills"
proof -
  let ?s0 = "\<lparr>ps_py = sample_py, ps_gil = None, ps_filling = {}, ps_had = {}, ps_enabled = False\<rparr>"
  let ?s1 = "\<lparr>ps_py = fill_enter sample_py, ps_gil = Some 1, ps_filling = {1}, ps_had = {}, ps_enabled = False\<rparr>"
  have "py_reach ?s0" by (rule py_reach.start) (simp add: sample_py_def)
  moreover have "py_step ?s0 ?s1" using py_step.enter [of ?s0 1] by simp
  moreover have "py_step ?s1 (?s1\<lparr>ps_gil := None\<rparr>)" by (rule py_step.let_go [of _ 1]) simp
  moreover have "py_step (?s1\<lparr>ps_gil := None\<rparr>) sample_fills"
    using py_step.enter [of "?s1\<lparr>ps_gil := None\<rparr>" 2] by (simp add: sample_fills_def insert_commute)
  ultimately show ?thesis by (blast intro: py_reach.step)
qed

section \<open>A fixture\<close>

text \<open>A compressor that stores its input, for which zlib's round trip holds.\<close>

definition stored :: zlib where
  "stored source n = (Z_OK, take n source)"

lemma stored_inflates: "inflates stored (\<lambda>bs. bs)"
  by (simp add: inflates_def stored_def)

lemma sample_fits: "fits (\<lambda>bs. bs) sample_sizes"
  by (simp add: fits_def sample_sizes_ok) (simp add: sample_sizes_def compressed_chunks_def)

definition sample_process :: proc where
  "sample_process = sample_start\<lparr>g_sig := sig_start Sig_dfl\<rparr>"

lemma sample_process_fresh: "fresh_process sample_process"
  by (simp add: fresh_process_def sample_process_def sample_start_def fc_init_def sig_start_def)

end
