(* ===== verification/Spec2Isabelle.thy ===== *)
theory Spec2Isabelle
  imports Sample Threads_Sample Remote_Sample Port_Sample
begin

text \<open>
  A verification of faultcache, a C library that maps lazily derived content into memory: a
  region is a range of addresses whose chunks are produced by a callback the first time a page of them is touched, and
  dropped again when a pool's budget is exceeded.

  \<^bold>\<open>The program and its parts.\<close>  In the in-process backend (\<open>src/src/inproc.c\<close>) a region is reserved as
  inaccessible memory.  A load from a page that is not populated faults; the fault seam (\<open>fault-posix.c\<close>,
  \<open>fault-win32.c\<close>) calls \<open>fault_try_resolve\<close>, which finds the region, fills the missing chunks into a
  scratch buffer, publishes the pages through the virtual-memory seam (\<open>vm-posix.c\<close>, \<open>vm-win32.c\<close>) and lets the
  instruction run again.  Pages that hold a chunk boundary are staged until all their chunks are there.  A pool keeps its
  resident chunks in a recency queue whose older half is hidden, so that a touch is seen as a fault, and evicts from its
  end.  In the remote backend a server (\<open>server.c\<close>) derives the content and resolves userfaultfd events of the
  clients (\<open>client.c\<close>) that attached to it over a socket with the messages of \<open>wire.h\<close>.

  \<^bold>\<open>Theories, in the order of their dependence.\<close>
  \<^item> \<open>FC_Prelude\<close>: C integers with their wrap-around, results of code that may abort, shared list facts.
  \<^item> \<open>Chunk_Layout\<close>: rounding, validation and prefix sums of chunk sizes, and \<open>find_chunk\<close>, of
    which each of the three C files has a copy (locale \<open>chunk_index\<close>, interpreted on each).
  \<^item> \<open>Vm_Posix\<close>: page tables, the system calls, \<open>vm-posix.c\<close>, and the contract of \<open>vm.h\<close> (locale
    \<open>vm_seam\<close>).  \<open>Vm_Win32\<close>, \<open>Vm_Win32_Inv\<close>, \<open>Vm_Win32_Refine\<close>, \<open>Vm_Win32_Use\<close>: \<open>vm-win32.c\<close> over
    placeholders and section views, its well-formedness, that each function leaves the page tables its POSIX counterpart
    leaves, and that a usage protocol by whole slots, written after the calls in \<open>inproc.c\<close>, always meets their preconditions.
  \<^item> \<open>Linked_List\<close>: the intrusive lists of pools and of the queue at pointer level (locales for their operations).
  \<^item> \<open>Region\<close>, \<open>Region_Inv\<close>: \<open>struct fc_region\<close>, the table of shared pages, \<open>page_readable\<close>, what the memory
    of a region means and the invariant that ties it to the bookkeeping.
  \<^item> \<open>Fill\<close>, \<open>Fill_Chunk\<close>, \<open>Fill_Region\<close>: the part of \<open>fill_chunk_locked\<close> that works on one region and on
    memory: callback, staging, publishing.
  \<^item> \<open>Lru\<close>, \<open>Pool_Inv\<close>, \<open>Pool_Ops\<close>: \<open>struct fc_pool\<close> and the \<open>lru_*\<close> and eviction functions.
  \<^item> \<open>Resolve\<close>, \<open>Transparency\<close>: \<open>resolve_fault_locked\<close> and its exact effect on a pool.
  \<^item> \<open>Fault_Posix\<close>, \<open>Fault_Win32\<close>: the fault seam on both systems (locale \<open>fault_seam\<close>).
  \<^item> \<open>Process\<close>: all pools, \<open>fault_try_resolve\<close>, the delivery of SIGSEGV to whatever disposition is installed, and loads that
    fault and are retried.
  \<^item> \<open>Api\<close>, \<open>Lifecycle\<close>, \<open>Debug\<close>: the functions of \<open>faultcache.h\<close> and \<open>debug.h\<close>;
    \<open>Misuse\<close>: the hook of \<open>misuse.c\<close>.
  \<^item> \<open>History\<close>: every sequence of API calls, faults and activity of the rest of the process.
  \<^item> \<open>Locks\<close>: threads that run sections of code between operations on mutexes (locale \<open>lock_order\<close>: mutual
    exclusion and the absence of deadlocks).  \<open>Threads\<close>: the functions of \<open>inproc.c\<close> that lock, cut into such sections.
    \<open>Threads_Inv\<close>, \<open>Threads_Step\<close>, \<open>Threads_Free\<close>: who owns which memory, and that every section keeps it so.
    \<open>Threads_Run\<close>, \<open>Threads_Scan\<close>, \<open>Threads_Solo\<close>: executions, the handler's scan among other threads, and one thread
    undisturbed, which is the sequential model above.
  \<^item> \<open>Wire\<close>, \<open>Server\<close>, \<open>Server_Fault\<close>, \<open>Server_Inv\<close>: messages, the server's handlers and event loop, its fault ranges and copies
    that the kernel may refuse or cut short, and the states any interleaving of connections and events can reach (\<open>reached\<close>; \<open>serving\<close> when
    clients hand over fresh userfaultfd descriptors).
  \<^item> \<open>Client\<close>, \<open>Client_Inv\<close>, \<open>Session\<close>: the client with the server as a parameter, what it holds and gives
    back, and both halves together.
  \<^item> \<open>Py_Shim\<close>: the Python trampoline (\<open>python/_faultcache_shim.c\<close>).  \<open>Compressed_Chunks\<close>: the example program
    (\<open>examples/compressed_chunks/main.c\<close>) and the script that generates its input.
  \<^item> \<open>Sample\<close>, \<open>Threads_Sample\<close>, \<open>Remote_Sample\<close>, \<open>Port_Sample\<close>: concrete states on which the theorems are applied.

  \<^bold>\<open>State and operations.\<close>  Structs are records with the fields of the source, pointers to regions and pools are
  numbers, list links are functions from pointers to pointers.  An operation takes the part of the state it works
  on and returns it updated in \<open>res\<close>, whose left side is the reason of an abort: a failed \<open>FC_ASSERT\<close>, a mapping the kernel
  had no room for, a reported misuse, an unhandled fault, an access outside an allocation.  Memory is the process's page table,
  a map from addresses to protection and byte.  \<open>size_t\<close> and \<open>uint32_t\<close> are numbers, with \<open>size_add\<close>,
  \<open>u32_add\<close> and the like wherever the source could wrap.

  \<^bold>\<open>What is shown.\<close>  C1 to C6: what a program sees of in-process regions, in every history; the invariant all of it
  rests on; which faults are taken.  C7 to C10: the same backend under any interleaving of threads: invariant, progress, the scan
  of the handler, and that the sections of a function add up to it.  C11 to C16: resolution, eviction, demotion, the counters, the
  search, the table of shared pages.  C17 to C22: creation and destruction, errors and an overflow of \<open>fc_region_create\<close>.  C23
  and C24: the chain target and cycles of signal handlers.  C25 to C29: the server; C30 to C34: client and server.  C35 to C37: the Windows
  seams.  C38: the Python shim.  C39 and C40: the example program.

  \<^bold>\<open>Loops.\<close>  A loop over a pointer chain is a \<open>partial_function\<close> whose value is \<open>None\<close> when it does not end, and the
  theorems state the value it returns.  \<open>lru_rebalance\<close> and \<open>evict_until_within_budget\<close> take as fuel the bytes they
  can still demote or evict plus one: each round takes at least one byte, and the theorems exclude that fuel runs out.
  A load is given two attempts: one that faults and one that succeeds.

  \<^bold>\<open>Parameters.\<close>  The kernel's choice of addresses and whether it has room, the callback and its bytes, the factory, the peer
  on a socket, which \<open>UFFDIO_COPY\<close> fails and where, what the other handlers of the process do, whether allocations the code
  checks succeed, zlib, and what Python code does.  On Windows the exception handler has \<open>fault_try_resolve\<close> as a parameter, since the model of
  \<open>inproc.c\<close> is composed with \<open>vm-posix.c\<close> only.  What is assumed of them is the documented contract, as named predicates
  (\<open>fill_contract\<close>, \<open>honours_sizes\<close>, \<open>factory_ok\<close>, \<open>inflates\<close>).

  \<^bold>\<open>Threads.\<close>  A section between two lock operations is one step.  Under a mutex nothing else can see its intermediate
  states except loads by the program, and those see a page as missing or as published, which is one call of the kernel.  The sections
  without a mutex (building a region, freeing one, tearing down a pool) work on memory that no other thread knows.  Calls are
  assumed not to use a pool or region that another thread is destroying (\<open>compatible\<close>); faults are not restricted.

  \<^bold>\<open>Not modelled.\<close>  A server event is one step, as is what a section does between two lock operations.  Unchecked
  allocation failures that only abort, limits on the number of mappings, mappings that hold the last byte of the address space, writes to standard error, flushing of coverage data, and a misuse hook that diverts control back into the program after a report are left out, as are
  the declarations of the public headers, the registration of the Python module, tests and build files.
\<close>

section \<open>What a program sees\<close>

text \<open>
  C1: after any history of API calls, faults and foreign activity, a program that reads
  bytes of live regions, in any order and however often, gets the derived content of each
  byte (zero in the padding of the last page), as long as the library's handler is the one installed for
  SIGSEGV, which it is after \<open>fc_init\<close> and after every \<open>fc_rearm_handler\<close> until somebody else
  installs another; reading leaves it installed.  The only way not to get the byte is then the documented
  abort: a scratch mapping the kernel had no room for, or a callback that faults itself.
\<close>

theorem transparent_reads:
  assumes "history os s RL" "0 < os_page_size os" "os_page_size os \<le> SIZE_RANGE"
    and "sg_current (g_sig s) = Siginfo Segv_handler" "\<forall>l\<in>set ls. located s RL l"
  shows "res_ok fill_error (\<lambda>(bs, s'). bs = map (location_byte s) ls \<and> proc_inv os s' RL \<and> g_sig s' = g_sig s)
    (cpu_read (Suc (Suc fuel)) os s (map (location_addr s) ls))"
  using cpu_read_content [OF history_inv [OF assms(1-3)] assms(4,5)] by (rule res_ok_mono) (auto simp: same_static_def)

theorem transparent_reads_witness:
  "res_ok fill_error (\<lambda>(bs, s'). bs = [17, 0, 35] \<and> proc_inv sample_os s' sample_regions \<and> g_sig s' = g_sig sample)
    (cpu_read 2 sample_os sample [7, 19, 16])"
  using transparent_reads [OF sample_history sample_page_size(1,2), of "[(0, 0, 3), (0, 0, 15), (0, 0, 12)]" 0]
  by (simp add: located_def location_addr_def location_byte_def sample_live sample_state sample_handler sample_struct_fields sample_content
      numeral_2_eq_2 del: cpu_read.simps)

text \<open>
  C2: the invariant of the process holds after every history: the page tables agree with
  the bookkeeping of every region, the recency queue of every pool agrees with the flags and
  counters, and no two regions or staging pages overlap.
\<close>

theorem history_keeps_invariant:
  assumes "history os s RL" "0 < os_page_size os" "os_page_size os \<le> SIZE_RANGE"
  shows "proc_inv os s RL"
  using assms by (rule history_inv)

theorem history_keeps_invariant_witness: "proc_inv sample_os sample sample_regions"
  by (rule history_keeps_invariant [OF sample_history sample_page_size(1,2)])

text \<open>
  C3: a fault on an address of a live region whose page is not readable is taken by the
  handler and leaves that page readable, or ends in one of the two documented aborts.  In
  particular no internal assertion fails and no loop runs on.
\<close>

theorem fault_populates_page:
  assumes "history os s RL" "0 < os_page_size os" "os_page_size os \<le> SIZE_RANGE"
    and "live s RL pid rid" "off < r_mapped_size (region_of s pid rid)" "\<not> page_readable (region_of s pid rid) off"
  shows "res_ok fill_error (\<lambda>(ours, s'). ours \<and> page_readable (region_of s' pid rid) off \<and>
      mem_load (g_mem s') (r_base (region_of s pid rid) + off) = Some (content (region_of s pid rid) off))
    (fault_try_resolve os s (r_base (region_of s pid rid) + off))"
  by (rule fault_loads [OF history_inv [OF assms(1-3)] assms(4-6)])

theorem fault_populates_page_witness:
  "res_ok fill_error (\<lambda>(ours, s'). ours \<and> page_readable (region_of s' 0 0) 12 \<and> mem_load (g_mem s') 16 = Some 35)
    (fault_try_resolve sample_os sample 16)"
  using fault_populates_page [OF sample_history sample_page_size(1,2) sample_live, of 12] sample_unreadable [of 12]
  by (simp add: sample_state sample_struct_fields sample_content)

text \<open>
  C4: the library's own predicate \<open>page_readable\<close> is exact in every history: an address
  of a live region can be loaded if and only if the predicate holds, and the byte loaded is the
  derived content.
\<close>

theorem page_readable_exact:
  assumes "history os s RL" "0 < os_page_size os" "os_page_size os \<le> SIZE_RANGE"
    and "live s RL pid rid" "off < r_mapped_size (region_of s pid rid)"
  shows "mem_load (g_mem s) (r_base (region_of s pid rid) + off) =
    (if page_readable (region_of s pid rid) off then Some (content (region_of s pid rid) off) else None)"
  by (rule region_load [OF live_region(1) [OF history_inv [OF assms(1-3)] assms(4)] assms(5)])

theorem page_readable_exact_witness: "mem_load (g_mem sample) 7 = None \<and> \<not> page_readable (region_of sample 0 0) 3"
  using page_readable_exact [OF sample_history sample_page_size(1,2) sample_live, of 3] sample_unreadable [of 3]
  by (simp add: sample_state sample_struct_fields)

text \<open>
  C5: a fault that is not the library's is passed on untouched: on an address outside every live
  region, or on a page that is readable already (a write to a populated chunk), the handler reports
  the fault as foreign and changes nothing.
\<close>

theorem not_ours_passed_on:
  assumes "history os s RL" "0 < os_page_size os" "os_page_size os \<le> SIZE_RANGE"
    and "\<And>pid rid. live s RL pid rid \<Longrightarrow> a \<in> region_range (region_of s pid rid) \<Longrightarrow>
      page_readable (region_of s pid rid) (a - r_base (region_of s pid rid))"
  shows "fault_try_resolve os s a = Inr (False, s)"
  using history_inv [OF assms(1-3)]
proof (cases rule: fault_cases [where a = a])
  case (own pid rid off)
  then show ?thesis using assms(4) [of pid rid] by (simp add: region_range_def)
qed

theorem not_ours_passed_on_witness:
  "fault_try_resolve sample_os sample_hot 16 = Inr (False, sample_hot) \<and> fault_try_resolve sample_os sample 20 = Inr (False, sample)"
proof
  show "fault_try_resolve sample_os sample_hot 16 = Inr (False, sample_hot)"
  proof (rule not_ours_passed_on [OF sample_hot_history sample_page_size(1,2)])
    fix pid rid assume "live sample_hot sample_regions pid rid"
    then have "pid = 0" "rid = 0" using sample_hot_state(1) by (auto simp: live_def sample_regions_def split: if_splits)
    then show "page_readable (region_of sample_hot pid rid) (16 - r_base (region_of sample_hot pid rid))"
      using sample_hot_readable by (simp add: sample_hot_fields)
  qed
  show "fault_try_resolve sample_os sample 20 = Inr (False, sample)"
    by (rule not_ours_passed_on [OF sample_history sample_page_size(1,2)])
      (auto simp: live_def sample_state sample_regions_def region_range_def sample_struct_fields split: if_splits)
qed

text \<open>
  C6: a fault that was already pending when another thread resolved the same page is not
  taken.  The first resolution makes the address loadable, and the second thread's call then
  sees a readable page and reports the fault as not the library's, although retrying the load
  would succeed: the handler passes a legitimate read on to the previous disposition.
\<close>

theorem late_fault_misjudged:
  assumes "history os s RL" "0 < os_page_size os" "os_page_size os \<le> SIZE_RANGE"
    and "live s RL pid rid" "off < r_mapped_size (region_of s pid rid)" "\<not> page_readable (region_of s pid rid) off"
    and "fault_try_resolve os s (r_base (region_of s pid rid) + off) = Inr (ours, s')"
  shows "ours \<and> mem_load (g_mem s') (r_base (region_of s pid rid) + off) \<noteq> None \<and>
    fault_try_resolve os s' (r_base (region_of s pid rid) + off) = Inr (False, s') \<and>
    (\<exists>out s''. deliver_segv os s' (r_base (region_of s pid rid) + off) = Inr (out, s'') \<and> out \<noteq> Retry)"
proof -
  let ?a = "r_base (region_of s pid rid) + off"
  have o: ours and inv: "proc_inv os s' RL" and gp: "g_pools s' = g_pools s" and st: "same_static s s'"
    and rd: "page_readable (region_of s' pid rid) off"
    using fault_resolved [OF history_inv [OF assms(1-3)] assms(4-6)] assms(7) by auto
  note C = static_congs [OF same_staticD [OF st], of pid rid]
  have lv: "live s' RL pid rid" using assms(4) gp by (simp add: live_def)
  have load: "mem_load (g_mem s') ?a = Some (content (region_of s pid rid) off)"
    using region_load [OF live_region(1) [OF inv lv], of off] rd assms(5) by (simp add: C)
  have "fault_try_pools os s' (g_pools s') ?a = Inr (False, s')"
    by (rule fault_try_pools_readable [OF inv lv]) (use assms(5) rd in \<open>simp_all add: region_range_def C\<close>)
  then have late: "fault_try_resolve os s' ?a = Inr (False, s')" using inv by (simp add: fault_try_resolve_def proc_inv_def)
  have "\<exists>out g. segv_handler (g_sig s') False = (out, g) \<and> out \<noteq> Retry" by (rule segv_not_ours)
  then have "\<exists>out s''. deliver_segv os s' ?a = Inr (out, s'') \<and> out \<noteq> Retry" if "handler_current s'"
    using late that by (auto simp: deliver_segv_def)
  then show ?thesis using o load late deliver_segv_other [of s' os ?a] by blast
qed

theorem late_fault_misjudged_witness:
  "mem_load (g_mem sample_hot) 16 \<noteq> None \<and> fault_try_resolve sample_os sample_hot 16 = Inr (False, sample_hot)"
  using late_fault_misjudged [OF sample_history sample_page_size(1,2) sample_live, of 12 True sample_hot] sample_unreadable [of 12] sample_fault
  by (simp add: sample_state sample_struct_fields)

section \<open>Threads\<close>

text \<open>
  C7: however the sections of any number of threads that create, destroy and inspect pools and regions or handle faults
  are interleaved, the invariant of the process holds between any two of them, no mutex has two holders, and the memory of
  the registered pools and of the regions that threads are building or tearing down never overlaps.  Faults may come
  at any moment; pools and regions may be destroyed while other threads are in the handler.
\<close>

theorem threads_keep_invariant:
  assumes "interleaved os w" "0 < os_page_size os" "os_page_size os \<le> SIZE_RANGE"
  shows "proc_inv os (sys_proc w) (sys_regions w) \<and>
    (\<forall>l t u. l \<in> pc_holds (t_pc w t) \<longrightarrow> l \<in> pc_holds (t_pc w u) \<longrightarrow> t = u) \<and>
    (\<forall>i j. i \<noteq> j \<longrightarrow> owner_foot (t_shared w) (t_pc w) i \<inter> owner_foot (t_shared w) (t_pc w) j = {})"
proof -
  note D = sys_invD [OF interleaved_inv [OF assms]]
  have "t = u" if "l \<in> pc_holds (t_pc w t)" "l \<in> pc_holds (t_pc w u)" for l t u using D(7) that by blast
  then show ?thesis using sys_inv_proc [OF interleaved_inv [OF assms]] D(6) by (simp add: owners_ok_def)
qed

theorem threads_keep_invariant_witness:
  "proc_inv sample_os (sys_proc sample_threads) sample_regions \<and> t_pc sample_threads 0 = Fault_call 16 \<and> t_pc sample_threads 1 = Fault_call 16"
  using threads_keep_invariant [OF sample_threads_interleaved sample_page_size(1,2)] by (simp add: sample_threads_def)

text \<open>
  C8: no deadlock and no unexpected abort.  While any thread is inside the library some thread can run its next section,
  and a section aborts the process only where the kernel has no room for a mapping or a callback faults.
\<close>

theorem threads_progress:
  assumes "interleaved os w" "0 < os_page_size os" "os_page_size os \<le> SIZE_RANGE" "pc_act (t_pc w t) \<noteq> Stop"
  shows "(\<exists>u. inproc_step os u w \<noteq> None) \<and> (\<forall>u e. inproc_step os u w = Some (Inl e) \<longrightarrow> fill_error e)"
proof -
  have inv: "sys_inv os w" by (rule interleaved_inv [OF assms(1-3)])
  obtain u where "pc_act (t_pc w u) \<noteq> Stop" "\<not> lock_waits (pc_act (t_pc w u)) (t_own w)"
    using inproc_locks.no_deadlock [OF sys_invD(3) [OF inv] assms(4)] by blast
  then have "inproc_step os u w \<noteq> None" by (simp add: inproc_step_def thread_step_def Let_def)
  then show ?thesis using step_abort [OF inv] by blast
qed

theorem threads_progress_witness:
  "(\<exists>u. inproc_step sample_os u sample_threads \<noteq> None) \<and>
   inproc_step (sample_os\<lparr>os_pick := \<lambda>_ _. None\<rparr>) 0 sample_creating = Some (Inl (Map_failed ''vm_reserve'')) \<and>
   fill_error (Map_failed ''vm_reserve'')"
proof -
  let ?os = "sample_os\<lparr>os_pick := \<lambda>_ _. None\<rparr>"
  have "0 < os_page_size ?os" "os_page_size ?os \<le> SIZE_RANGE" using sample_page_size by simp_all
  note full = threads_progress [OF sample_creating_interleaved this, of 0]
  have "inproc_step ?os 0 sample_creating = Some (Inl (Map_failed ''vm_reserve''))"
    using sample_pool_facts(4)
    by (simp add: inproc_step_def thread_step_def sample_creating_def Let_def region_prepare_def sample_sizes_def fill_chunk_start_def
        vm_reserve_def os_mmap_def)
  then show ?thesis using full threads_progress [OF sample_threads_interleaved sample_page_size(1,2), of 0]
    by (simp add: sample_creating_def sample_threads_def)
qed

text \<open>
  C9: the scan of the fault handler cannot miss a region.  If a region that holds the address is linked throughout a run
  of the handler, whatever other threads do, then at some moment of that run the byte was there to be loaded: the
  handler finds the page missing and populates it, or finds it populated by another thread.
\<close>

theorem scan_cannot_miss:
  assumes "interleaved os (ws 0)" "0 < os_page_size os" "os_page_size os \<le> SIZE_RANGE"
    and "\<forall>i<n. sys_next os (ws i) (ws (Suc i))" "t_pc (ws 0) t = Fault_call a" "t_pc (ws n) t = Done r"
    and "\<forall>i\<le>n. live (sys_proc (ws i)) (sys_regions (ws i)) pid rid \<and> a \<in> region_range (region_of (sys_proc (ws i)) pid rid)"
  shows "\<exists>i\<le>n. mem_load (g_mem (sys_proc (ws i))) a =
    Some (content (region_of (sys_proc (ws i)) pid rid) (a - r_base (region_of (sys_proc (ws i)) pid rid)))"
proof (rule ccontr)
  assume no: "\<not> ?thesis"
  have inv: "sys_inv os (ws 0)" by (rule interleaved_inv [OF assms(1-3)])
  have invs: "sys_inv os (ws i)" if "i \<le> n" for i
    using that
  proof (induction i)
    case (Suc i)
    then show ?case using sys_next_inv [of os "ws i" "ws (Suc i)"] assms(4) by simp
  qed (rule inv)
  have never: "\<not> page_readable (region_of (sys_proc (ws i)) pid rid) (a - r_base (region_of (sys_proc (ws i)) pid rid))" if i: "i \<le> n" for i
  proof
    assume rd: "page_readable (region_of (sys_proc (ws i)) pid rid) (a - r_base (region_of (sys_proc (ws i)) pid rid))"
    have lv: "live (sys_proc (ws i)) (sys_regions (ws i)) pid rid" and a: "a \<in> region_range (region_of (sys_proc (ws i)) pid rid)"
      using assms(7) i by auto
    let ?r = "region_of (sys_proc (ws i)) pid rid"
    have "a - r_base ?r < r_mapped_size ?r" "r_base ?r + (a - r_base ?r) = a" using a by (auto simp: region_range_def)
    with region_load [OF live_region(1) [OF sys_inv_proc [OF invs [OF i]] lv]] rd no i show False by metis
  qed
  have "seeking (g_pools (sys_proc (ws n))) a pid rid (a - r_base (region_of (sys_proc (ws n)) pid rid)) (t_pc (ws n) t)"
    using scan_run [of n os ws t a pid rid n] assms(4,5,7) inv never by blast
  then show False using seeking_busy assms(6) by fastforce
qed

theorem scan_cannot_miss_witness:
  "t_pc (sample_trace 6) 0 = Done (Ret_bool True) \<and> (\<exists>i\<le>6. mem_load (g_mem (sys_proc (sample_trace i))) 16 = Some 35)"
proof -
  have reg: "live (sys_proc (sample_trace i)) (sys_regions (sample_trace i)) 0 0" "16 \<in> region_range (region_of (sys_proc (sample_trace i)) 0 0)"
    "content (region_of (sys_proc (sample_trace i)) 0 0) 12 = 35" "r_base (region_of (sys_proc (sample_trace i)) 0 0) = 4" for i
    using sample_live sample_hot_state sample_hot_fields sample_content(3)
    by (simp_all add: sample_trace_def region_range_def sample_state sample_struct_fields)
  have "t_pc (sample_trace 0) 0 = Fault_call 16" "t_pc (sample_trace 6) 0 = Done (Ret_bool True)" by (simp_all add: sample_trace_def)
  moreover have "\<forall>i<6. sys_next sample_os (sample_trace i) (sample_trace (Suc i))"
    using sample_trace_step sys_next.section_run by blast
  moreover have "interleaved sample_os (sample_trace 0)" using sample_threads_interleaved sample_trace_start by simp
  ultimately show ?thesis
    using scan_cannot_miss [of sample_os sample_trace 6 0 16 "Ret_bool True" 0 0] sample_page_size(1,2) reg by simp
qed

text \<open>
  C10: the sections of a function are the function.  From any reachable state in which no mutex is held, a thread that runs
  undisturbed comes to the end of its call within finitely many sections and leaves exactly the state, the result or the abort
  of \<open>fault_try_resolve\<close>, \<open>fc_pool_create\<close>, \<open>fc_region_create\<close>, \<open>fc_region_destroy\<close> and \<open>fc_pool_destroy\<close> (the last up to
  the freed struct of the pool).
\<close>

theorem sections_are_operations:
  assumes "interleaved os w" "0 < os_page_size os" "os_page_size os \<le> SIZE_RANGE" "t_own w = no_locks" "t_shared w = (s, RL)"
  shows "(\<forall>a. t_pc w t = Fault_call a \<longrightarrow>
      alone os t w (res_bind (fault_try_resolve os s a) (\<lambda>(ours, s'). Inr (Ret_bool ours, s', RL)))) \<and>
    (\<forall>ok target. t_pc w t = Pool_call ok target \<longrightarrow>
      alone os t w (case fc_pool_create ok s target of
        (pool, s') \<Rightarrow> Inr (Ret_pool pool, s', (case pool of None \<Rightarrow> RL | Some pid \<Rightarrow> RL(pid := []))))) \<and>
    (\<forall>pid sizes fill. t_pc w t = Region_call pid sizes fill \<longrightarrow>
      alone os t w (res_bind (fc_region_create os s (Some pid) (length sizes) (Some sizes) (Some fill)) (\<lambda>(region, s').
        Inr (Ret_region region, s', (case region of None \<Rightarrow> RL | Some (q, rid) \<Rightarrow> RL(q := rid # RL q)))))) \<and>
    (\<forall>pid rid. t_pc w t = Destroy_call pid rid \<longrightarrow>
      alone os t w (res_bind (fc_region_destroy os s (Some (pid, rid))) (\<lambda>s'. Inr (Ret_void, s', RL(pid := remove1 rid (RL pid)))))) \<and>
    (\<forall>pid. t_pc w t = Pdestroy_call pid \<longrightarrow>
      (\<exists>p. alone os t w (res_bind (fc_pool_destroy os s (Some pid)) (\<lambda>s'. Inr (Ret_void, s'\<lparr>g_pool := (g_pool s')(pid := p)\<rparr>, RL(pid := []))))))"
proof -
  have inv: "sys_inv os w" by (rule interleaved_inv [OF assms(1-3)])
  have S: "sys_proc w = s" "sys_regions w = RL" by (simp_all add: assms(5))
  show ?thesis
    using alone_fault [OF inv assms(4)] alone_pool_create [OF assms(4)] alone_region_create [OF assms(4)]
      alone_region_destroy [OF assms(4)] alone_pool_destroy [OF inv assms(4)] unfolding S by blast
qed

theorem sections_are_operations_witness:
  "alone sample_os 0 sample_threads (Inr (Ret_bool True, sample_hot, sample_regions))"
  using sections_are_operations [OF sample_threads_interleaved sample_page_size(1,2), of sample sample_regions 0] sample_fault
  by (simp add: sample_threads_def)

section \<open>Resolving a fault inside a pool\<close>

text \<open>
  C11: what \<open>resolve_fault_locked\<close> does to a pool, exactly: only the missing chunks
  that contribute to the page are filled and they become the most recently used ones (a
  demoted chunk is handed back without being filled again), then chunks are evicted from the
  cold end and the midpoint is moved as \<open>settled\<close> describes, the page ends up readable,
  and memory outside the pool's own is untouched.
\<close>

theorem resolve_fault_effect:
  assumes "pool_ok os p m rids hs cs" "rid \<in> rids" "\<not> page_readable (p_region p rid) off"
  shows "res_ok fill_error (resolve_post os p m rids hs cs rid (page_floor off (r_page_size (p_region p rid))))
    (resolve_fault_locked os p rid off m)"
  by (rule res_ok_weaken [OF resolve_fault_locked_ok [OF assms]]) auto

theorem resolve_fault_effect_witness:
  "\<exists>hs cs. res_ok fill_error (resolve_post sample_os (g_pool sample 0) sample_mem {0} hs cs 0 12)
    (resolve_fault_locked sample_os (g_pool sample 0) 0 14 sample_mem)"
proof -
  obtain hs cs where ok: "pool_ok sample_os (g_pool sample 0) sample_mem {0} hs cs"
    using live_region(3) [OF sample_inv sample_live] by (auto simp: sample_regions_def sample_state)
  show ?thesis
    using resolve_fault_effect [OF ok, of 0 14] sample_unreadable [of 14] by (auto simp: sample_state sample_struct_fields page_floor_def)
qed

text \<open>
  Filling one chunk of a region keeps the region's invariant, marks exactly this chunk
  as initialised, and changes no memory outside the region and its staging pages: in
  particular the scratch mapping is gone again.
\<close>

lemma fill_chunk_keeps_region:
  assumes "region_inv os r m" "c < r_nchunks r"
  shows "res_ok fill_error (fill_post os r m c) (fill_chunk_region os r c m)"
  by (rule res_ok_weaken [OF fill_chunk_region_ok [OF assms]]) auto

text \<open>
  C12: eviction.  With a nonzero budget, \<open>evict_until_within_budget\<close> ends without a
  failed assertion and drops a suffix of the queue: no chunk of the protected range, never
  more than needed, and it stops above the budget only when the least recently used chunk is
  protected.
\<close>

theorem eviction_meets_budget:
  assumes "pool_ok os p m rids hs cs" "p_target_size p \<noteq> 0"
  shows "\<exists>p' m' k. evict_until_within_budget os p rid lo hi m = Inr (p', m') \<and>
    pool_ok os p' m' rids (take k hs) (take (k - length hs) cs) \<and>
    evicted (lru_node_size p) (p_target_size p) (protected rid lo hi) (hs @ cs) k"
proof -
  have "nodes_bytes p (hs @ cs) < Suc (p_resident_bytes p)"
    using assms(1) by (simp add: pool_ok_def pool_lru_def)
  from evict_loop_ok [OF assms(1) this] show ?thesis using assms(2) unfolding evict_until_within_budget_def by fastforce
qed

theorem eviction_meets_budget_witness:
  "\<exists>p' m' k. evict_until_within_budget sample_os (g_pool sample_cold 0) 0 0 0 (g_mem sample_cold) = Inr (p', m') \<and>
    pool_ok sample_os p' m' {0} (take k [(0, 1)]) (take (k - 1) [(0, 2)])"
  using eviction_meets_budget [OF sample_cold_queue, of 0 0 0] by (fastforce simp: sample_second_fault)

text \<open>
  C13: rebalancing.  With a nonzero budget, \<open>lru_rebalance\<close> ends, demotes chunks from
  the cold end of the hot half only, and leaves a hot half that holds at most half of the
  resident bytes, unless it is the single most recently used chunk, and no smaller than needed.
\<close>

theorem rebalance_halves_queue:
  assumes "pool_ok os p m rids hs cs" "p_target_size p \<noteq> 0"
  shows "\<exists>p' m' k. lru_rebalance os p m = Inr (p', m') \<and> pool_ok os p' m' rids (take k hs) (drop k hs @ cs) \<and>
    rebalanced (lru_node_size p) (p_resident_bytes p div 2) hs k"
proof -
  have "nodes_bytes p hs < Suc (p_hot_bytes p)" using assms(1) by (simp add: pool_ok_def pool_lru_def lru_rep_def)
  from lru_rebalance_loop_ok [OF assms(1) this] show ?thesis using assms(2) unfolding lru_rebalance_def by fastforce
qed

theorem rebalance_halves_queue_witness:
  "\<exists>p' m' k. lru_rebalance sample_os (g_pool sample_cold 0) (g_mem sample_cold) = Inr (p', m') \<and>
    pool_ok sample_os p' m' {0} (take k [(0, 1)]) (drop k [(0, 1)] @ [(0, 2)])"
  using rebalance_halves_queue [OF sample_cold_queue] by (fastforce simp: sample_second_fault)

text \<open>
  Promoting a demoted chunk moves it to the front of the hot half, hands its pages back
  with their contents, and keeps the pool's invariant; nothing is filled again.
\<close>

lemma promote_hands_back:
  assumes "pool_ok os p m rids hs cs" "n \<in> set cs"
  shows "\<exists>p' m'. lru_promote os p n m = Inr (p', m') \<and> pool_ok os p' m' rids (n # hs) (remove1 n cs) \<and>
    pool_step rids p m p' m' \<and> p_resident_bytes p' = p_resident_bytes p"
  by (rule lru_promote_ok [OF assms]) blast

text \<open>
  An evicted chunk keeps its \<open>cold\<close> flag.  After a demoted chunk has been evicted it
  is no longer resident, yet \<open>cold\<close> still reads true, so the debug history reports a
  chunk as demoted that is not in memory at all.
\<close>

theorem evicted_chunk_stays_cold:
  assumes "pool_ok os p m rids hs cs" "(rid, c) \<in> set cs" "lru_evict_chunk os p rid c m = Inr (p', m')"
  shows "\<not> node_resident p' (rid, c) \<and> node_cold p' (rid, c)"
proof -
  have lru: "pool_lru os p rids hs cs" using assms(1) by (simp add: pool_ok_def)
  have q: "(rid, c) \<in> set (hs @ cs)" using assms(2) by simp
  have n: "(rid, c) \<in> nodes p rids" by (rule queue_nodes(1) [OF assms(1) q])
  have cold: "node_cold p (rid, c)" by (rule pool_lruD(6) [OF lru assms(2)])
  have len: "c < length (r_lru_resident (p_region p rid))" "c < length (r_lru_cold (p_region p rid))"
    using pool_region_ok(2,4) [OF assms(1) n] by (simp_all add: region_wf_def)
  obtain p1 where p1: "lru_forget_chunk p rid c = Inr p1"
    "p_region p1 rid = (p_region p rid)\<lparr>r_lru_resident := (r_lru_resident (p_region p rid))[c := False],
       r_initialized := (r_initialized (p_region p rid))[c := False],
       r_resident_bytes := r_resident_bytes (p_region p1 rid), r_resident_chunks := r_resident_chunks (p_region p1 rid)\<rparr>"
    by (rule lru_forget_ok [OF lru n]) blast
  have p': "p' = p1" using assms(3) p1(1) by (auto simp: lru_evict_chunk_def res_bind_eq_Inr split: prod.splits if_splits)
  have res: "r_lru_resident (p_region p1 rid) = (r_lru_resident (p_region p rid))[c := False]"
    and "r_lru_cold (p_region p1 rid) = r_lru_cold (p_region p rid)" by (subst p1(2), simp)+
  then show ?thesis using cold len by (simp add: p')
qed

theorem evicted_chunk_stays_cold_witness:
  "\<exists>p' m'. lru_evict_chunk sample_os (g_pool sample_cold 0) 0 2 (g_mem sample_cold) = Inr (p', m') \<and>
    \<not> node_resident p' (0, 2) \<and> node_cold p' (0, 2)"
proof -
  have n: "(0, 2) \<in> nodes (g_pool sample_cold 0) {0}" by (rule queue_nodes(1) [OF sample_cold_queue]) simp
  obtain p' m' where e: "lru_evict_chunk sample_os (g_pool sample_cold 0) 0 2 (g_mem sample_cold) = Inr (p', m')"
    by (rule lru_evict_chunk_ok [OF sample_cold_queue n]) blast
  show ?thesis using e evicted_chunk_stays_cold [OF sample_cold_queue _ e] by simp
qed

text \<open>
  C14: the counters.  After every history, for every registered pool, \<open>resident_bytes\<close> is the sum of the sizes of the chunks
  whose \<open>resident\<close> flag is set, \<open>hot_bytes\<close> the sum over those that are not cold, and the counters
  of each region are the bytes and the number of its own such chunks; none of them has wrapped around, and a chunk is
  marked initialized exactly when it is resident.  So no path through filling, eviction, demotion, promotion and destruction
  misses or repeats an addition or a subtraction.
\<close>

theorem counters_exact:
  assumes "history os s RL" "0 < os_page_size os" "os_page_size os \<le> SIZE_RANGE" "pid \<in> set (g_pools s)"
  defines "p \<equiv> g_pool s pid" and "res \<equiv> resident_nodes (g_pool s pid) (set (RL pid))"
  shows "p_resident_bytes p = (\<Sum>n\<in>res. lru_node_size p n) \<and> p_resident_bytes p < SIZE_RANGE \<and>
    p_hot_bytes p = (\<Sum>n\<in>{n \<in> res. \<not> node_cold p n}. lru_node_size p n) \<and>
    (\<forall>rid\<in>set (RL pid). r_resident_bytes (p_region p rid) = (\<Sum>n\<in>{n \<in> res. fst n = rid}. lru_node_size p n) \<and>
       r_resident_chunks (p_region p rid) = card {n \<in> res. fst n = rid} \<and>
       (\<forall>c<r_nchunks (p_region p rid). r_initialized (p_region p rid) ! c \<longleftrightarrow> (rid, c) \<in> res))"
proof -
  obtain hs cs where "pool_lru os p (set (RL pid)) hs cs"
    using history_inv [OF assms(1-3)] assms(4) by (auto simp: proc_inv_def pool_ok_def p_def)
  note C = pool_counters [OF this, folded res_def [folded p_def]] and flag = pool_lruD(11) [OF this]
  show ?thesis using C flag by (auto simp: res_def p_def resident_nodes_def nodes_def)
qed

theorem counters_exact_witness: "p_resident_bytes (g_pool sample_cold 0) = 13 \<and> p_hot_bytes (g_pool sample_cold 0) = 7 \<and>
  r_resident_chunks (region_of sample_cold 0 0) = 2"
proof -
  have hot: "{n \<in> {(0, 1), (0, 2)}. \<not> node_cold (g_pool sample_cold 0) n} = {(0, 1)}"
    and own: "{n \<in> {(0 :: nat, 1 :: nat), (0, 2)}. fst n = 0} = {(0, 1), (0, 2)}" by (auto simp: sample_second_fault)
  show ?thesis
    using counters_exact [OF sample_cold_history sample_page_size(1,2), of 0, unfolded sample_regions_def, simplified, unfolded sample_cold_resident hot own]
    by (simp add: sample_second_fault lru_node_size_def sample_cold_starts)
qed

section \<open>Layout of a region\<close>

text \<open>
  C15: \<open>find_chunk\<close> returns the one chunk whose range holds the offset, and the last
  chunk for offsets past the end of the data.
\<close>

theorem find_chunk_correct:
  assumes "region_layout r"
  shows "find_chunk r off < r_nchunks r \<and>
    (off < r_total_size r \<longrightarrow> (\<forall>c<r_nchunks r. find_chunk r off = c \<longleftrightarrow> r_chunk_start r ! c \<le> off \<and> off < r_chunk_start r ! Suc c)) \<and>
    (r_total_size r \<le> off \<longrightarrow> find_chunk r off = r_nchunks r - 1)"
proof (intro conjI impI allI)
  note D = region_layoutD [OF assms]
  show "find_chunk r off < r_nchunks r" by (rule find_chunk_spec(1) [OF assms])
  fix c assume "off < r_total_size r" "c < r_nchunks r"
  then show "find_chunk r off = c \<longleftrightarrow> r_chunk_start r ! c \<le> off \<and> off < r_chunk_start r ! Suc c"
    using inproc.find_in_range [OF assms, of off] inproc.find_eq [OF assms, of c off] D(5) by auto
next
  assume "r_total_size r \<le> off"
  then show "find_chunk r off = r_nchunks r - 1"
    using inproc.find_eq [OF assms, of "r_nchunks r - 1" off] region_layoutD(2,5) [OF assms]
      region_start_mono(3) [OF assms, of "r_nchunks r - 1"] by simp
qed

theorem find_chunk_correct_witness: "find_chunk sample_struct 8 = 1 \<and> find_chunk sample_struct 15 = 2"
  using find_chunk_correct [OF sample_struct_fields(7), of 8] find_chunk_correct [OF sample_struct_fields(7), of 15]
  by (simp add: sample_struct_fields)

text \<open>
  Every page of a region is either shared, with a chunk boundary strictly inside it, or lies
  wholly inside the exclusive pages of exactly one chunk.
\<close>

lemma pages_partitioned:
  assumes "region_layout r" "r_page_size r dvd p" "p < r_mapped_size r"
  shows "shared_at r p \<longleftrightarrow> \<not> (\<exists>!c. c < r_nchunks r \<and> fst (chunk_exclusive_pages r c) \<le> p \<and> p + r_page_size r \<le> snd (chunk_exclusive_pages r c))"
proof -
  let ?P = "\<lambda>c. c < r_nchunks r \<and> fst (chunk_exclusive_pages r c) \<le> p \<and> p + r_page_size r \<le> snd (chunk_exclusive_pages r c)"
  have ps: "0 < r_page_size r" and pf: "page_floor p (r_page_size r) = p" using region_layoutD(1) [OF assms(1)] assms(2) by auto
  have own: "\<not> shared_at r p \<and> find_chunk r p = c" if "?P c" for c
    using exclusive_owned(1,3) [OF assms(1), of c _ _ p] that ps pf by (cases "chunk_exclusive_pages r c") auto
  have "\<exists>!c. ?P c" if "\<not> shared_at r p"
  proof (rule ex1I [of _ "find_chunk r p"])
    show "?P (find_chunk r p)"
      using unshared_page_exclusive [OF assms that] find_chunk_spec(1) [OF assms(1)]
      by (cases "chunk_exclusive_pages r (find_chunk r p)") auto
    show "c = find_chunk r p" if "?P c" for c using own [OF that] by simp
  qed
  then show ?thesis using own by blast
qed

text \<open>
  C16: \<open>shared_pages_init\<close> builds, without a failed assertion, a table that the binary
  search of \<open>find_shared_page\<close> answers correctly: it finds a page exactly when the page is
  shared, and the entry names the first and the last chunk with bytes in the page.
\<close>

theorem shared_table_correct:
  assumes "region_layout r" "r_shared_pages r = []"
  shows "\<exists>r'. shared_pages_init r = Inr r' \<and> (\<forall>p. case find_shared_page r' p of
      None \<Rightarrow> \<not> shared_at r p
    | Some k \<Rightarrow> shared_at r p \<and> (\<forall>c. contributes r c p \<longleftrightarrow>
        sp_first_chunk (r_shared_pages r' ! k) \<le> c \<and> c \<le> sp_last_chunk (r_shared_pages r' ! k)))"
proof -
  obtain r' where init: "shared_pages_init r = Inr r'" and ss: "shared_static r'"
    and r': "r' = r\<lparr>r_nshared := r_nshared r', r_shared_pages := r_shared_pages r'\<rparr>"
    by (rule shared_pages_init_ok [OF assms]) blast
  have st: "static r' = static r" by (subst r') (simp add: static_def)
  note C = static_cong(3,4,8) [OF st]
  have lay: "region_layout r'" using assms(1) by (simp add: C)
  have "case find_shared_page r' p of None \<Rightarrow> \<not> shared_at r p
    | Some k \<Rightarrow> shared_at r p \<and> (\<forall>c. contributes r c p \<longleftrightarrow>
        sp_first_chunk (r_shared_pages r' ! k) \<le> c \<and> c \<le> sp_last_chunk (r_shared_pages r' ! k))" for p
    using find_shared_page_None [OF ss, of p] find_shared_page_Some [OF ss, of p] shared_static_contributes [OF lay ss]
    by (auto simp: C split: option.split)
  then show ?thesis using init by blast
qed

theorem shared_table_correct_witness:
  "\<exists>r'. shared_pages_init (sample_struct\<lparr>r_shared_pages := []\<rparr>) = Inr r' \<and> find_shared_page r' 8 \<noteq> None"
proof -
  let ?r = "sample_struct\<lparr>r_shared_pages := []\<rparr>"
  have lay: "region_layout ?r" using sample_struct_fields(7) by (simp add: region_layout_def)
  have "shared_at ?r 8" unfolding shared_at_def by (rule exI [of _ 2]) (simp add: sample_struct_fields page_floor_def)
  then show ?thesis using shared_table_correct [OF lay] by (fastforce split: option.splits)
qed

section \<open>Creating and destroying\<close>

text \<open>
  C17: creating a region from valid sizes either fails for lack of address space or
  returns a new handle over fresh, inaccessible memory, keeps the invariant and touches no
  other memory.
\<close>

theorem region_create_fresh:
  assumes "history os s RL" "0 < os_page_size os" "os_page_size os \<le> SIZE_RANGE" "pid \<in> set (g_pools s)" "fault_armed (g_sig s)"
    and "valid_sizes sizes" "honours_sizes sizes fill" "\<forall>x\<in>set sizes. x < SIZE_RANGE" "length sizes + 1 < UINT32_RANGE"
  shows "res_ok (\<lambda>e. e = Map_failed ''vm_reserve'') (create_post os s RL pid sizes fill)
    (fc_region_create os s (Some pid) (length sizes) (Some sizes) (Some fill))"
  by (rule fc_region_create_ok [OF history_inv [OF assms(1-3)] assms(4-9) assms(3)])

theorem region_create_fresh_witness:
  "create_post sample_os sample_pool (\<lambda>_. []) 0 sample_sizes sample_fill (Some (0, 0), sample)"
  using region_create_fresh [OF sample_pool_history sample_page_size(1,2) _ sample_pool_facts(4) sample_sizes_ok(1-4), of 0]
    sample_created by (simp add: sample_pool_facts sample_sizes_ok sample_result_def)

text \<open>
  C18: the content of a created region is what its callback derives, chunk after chunk.
\<close>

theorem created_content:
  assumes "history os s RL" "0 < os_page_size os" "os_page_size os \<le> SIZE_RANGE" "pid \<in> set (g_pools s)"
    and "honours_sizes sizes fill" "\<forall>x\<in>set sizes. x < SIZE_RANGE" "length sizes + 1 < UINT32_RANGE"
    and "fc_region_create os s (Some pid) (length sizes) (Some sizes) (Some fill) = Inr (Some (pid, rid), s')"
    and "c < length sizes" "i < sizes ! c"
  shows "content (region_of s' pid rid) (sum_list (take c sizes) + i) = snd (fill c (sizes ! c)) ! i"
proof -
  note V = region_create_valid [OF assms(8,6)]
  have post: "create_post os s RL pid sizes fill (Some (pid, rid), s')"
    using fc_region_create_ok [OF history_inv [OF assms(1-3)] assms(4) V(2,1) assms(5-7) assms(3)] assms(8) by simp
  let ?r = "region_of s' pid rid"
  have r: "r_total_size ?r = sum_list sizes" "r_nchunks ?r = length sizes" "r_fill_chunk ?r = fill" "r_chunk_start ?r = chunk_starts 0 sizes"
    and inv: "proc_inv os s' (RL(pid := rid # RL pid))" and gp: "g_pools s' = g_pools s"
    using post by (auto simp: create_post_def Let_def)
  have "region_inv os ?r (g_mem s')" by (rule live_region(1) [OF inv]) (use gp assms(4) in \<open>simp add: live_def\<close>)
  then have lay: "region_layout ?r" by (simp add: region_inv_def region_wf_def)
  show ?thesis by (rule layout_content [OF lay V(1) r assms(9,10)])
qed

theorem created_content_witness: "content (region_of sample 0 0) (sum_list (take 1 sample_sizes) + 1) = 17"
  using created_content [OF sample_pool_history sample_page_size(1,2) _ sample_sizes_ok(2-4), of 0 0 sample 1 1] sample_created
  by (simp add: sample_pool_facts sample_sizes_ok sample_result_def) (simp add: sample_sizes_def sample_fill_def)

text \<open>
  C19: the null result with EINVAL is returned exactly for a size of zero or a total that does
  not fit \<open>size_t\<close>, and then nothing has changed.
\<close>

theorem region_create_einval:
  assumes "fault_armed (g_sig s)" "sizes \<noteq> []" "\<forall>x\<in>set sizes. x < SIZE_RANGE" "length sizes + 1 < UINT32_RANGE"
  shows "fc_region_create os s (Some pid) (length sizes) (Some sizes) (Some fill) = Inr (None, s') \<longleftrightarrow>
    s' = s \<and> (0 \<in> set sizes \<or> SIZE_RANGE \<le> sum_list sizes)"
proof (cases "valid_sizes sizes")
  case True
  have "fc_region_create os s (Some pid) (length sizes) (Some sizes) (Some fill) \<noteq> Inr (None, s')"
    unfolding fc_region_create_eq [OF assms(1) True assms(3,4)] by (auto simp: res_bind_eq_Inr)
  then show ?thesis using True by (auto simp: valid_sizes_def)
next
  case False
  then have "sum_chunk_sizes 0 sizes = None"
    using sum_chunk_sizes_iff [OF assms(3)] assms(2) by (cases "sum_chunk_sizes 0 sizes") (auto simp: valid_sizes_def)
  then have "fc_region_create os s (Some pid) (length sizes) (Some sizes) (Some fill) = Inr (None, s)"
    using assms by (simp add: fc_region_create_def region_prepare_def)
  moreover have "0 \<in> set sizes \<or> SIZE_RANGE \<le> sum_list sizes" using False assms(2) by (auto simp: valid_sizes_def)
  ultimately show ?thesis by auto
qed

theorem region_create_einval_witness:
  "fc_region_create sample_os sample_pool (Some 0) 2 (Some [4, 0]) (Some sample_fill) = Inr (None, sample_pool)"
  using region_create_einval [OF sample_pool_facts(4), of "[4, 0]" sample_os 0 sample_fill sample_pool] by (simp add: numeral_2_eq_2)

text \<open>
  C20: with \<open>2^32 - 1\<close> chunks the allocation of the prefix-sum table is computed as
  \<open>nchunks + 1\<close> in 32 bits, which is zero: filling the table writes outside the allocation.
\<close>

theorem create_region_count_wraps:
  assumes "fault_armed (g_sig s)" "valid_sizes sizes" "\<forall>x\<in>set sizes. x < SIZE_RANGE" "length sizes = UINT32_RANGE - 1"
  shows "fc_region_create os s (Some pid) (length sizes) (Some sizes) (Some fill) = Inl (Out_of_bounds ''chunk_start'')"
proof -
  have "sum_chunk_sizes 0 sizes = Some (sum_list sizes)" using assms(2) sum_chunk_sizes_iff [OF assms(3)] by (simp add: valid_sizes_def)
  then show ?thesis using assms by (simp add: fc_region_create_def region_prepare_def fill_chunk_start_def u32_add_def)
qed

theorem create_region_count_wraps_witness:
  "\<exists>sizes. length sizes = UINT32_RANGE - 1 \<and>
    fc_region_create sample_os sample_pool (Some 0) (length sizes) (Some sizes) (Some sample_fill) = Inl (Out_of_bounds ''chunk_start'')"
proof -
  have "\<exists>n. n = UINT32_RANGE - 1" by blast
  then obtain n :: nat where n: "n = UINT32_RANGE - 1" by blast
  have "valid_sizes (replicate n 1)" using n by (simp add: valid_sizes_def sum_list_replicate)
  then show ?thesis
    using create_region_count_wraps [OF sample_pool_facts(4), of "replicate n 1" sample_os 0 sample_fill] n
    by (intro exI [of _ "replicate n 1"]) simp
qed

text \<open>
  A total within a page of the end of the address range rounds up to zero, and the
  reservation of zero bytes aborts the process instead of reporting an error.
\<close>

theorem create_region_total_wraps:
  assumes "fault_armed (g_sig s)" "valid_sizes sizes" "\<forall>x\<in>set sizes. x < SIZE_RANGE" "length sizes + 1 < UINT32_RANGE"
    and "0 < os_page_size os" "os_page_size os \<le> SIZE_RANGE" "SIZE_RANGE < sum_list sizes + os_page_size os"
  shows "fc_region_create os s (Some pid) (length sizes) (Some sizes) (Some fill) = Inl (Map_failed ''vm_reserve'')"
proof -
  have "page_ceil (sum_list sizes) (os_page_size os) = 0"
    by (rule page_ceil_wraps) (use assms in \<open>simp_all add: valid_sizes_def\<close>)
  then show ?thesis unfolding fc_region_create_eq [OF assms(1-4)] by (simp add: vm_page_size_def vm_reserve_zero)
qed

theorem create_region_total_wraps_witness:
  "fc_region_create sample_os sample_pool (Some 0) 1 (Some [SIZE_MAX]) (Some sample_fill) = Inl (Map_failed ''vm_reserve'')"
  using create_region_total_wraps [OF sample_pool_facts(4), of "[SIZE_MAX]" sample_os 0 sample_fill]
  by (simp add: valid_sizes_def sample_page_size)

text \<open>
  C21: destroying a live region never aborts, unmaps exactly its range and its staging pages,
  takes its chunks out of the queue and keeps the invariant for the other regions.
\<close>

theorem region_destroy_releases:
  assumes "history os s RL" "0 < os_page_size os" "os_page_size os \<le> SIZE_RANGE" "live s RL pid rid"
  shows "\<exists>s'. fc_region_destroy os s (Some (pid, rid)) = Inr s' \<and> proc_inv os s' (RL(pid := remove1 rid (RL pid))) \<and>
    g_mem s' = (\<lambda>x. if x \<in> footprint (region_of s pid rid) then None else g_mem s x)"
  by (rule fc_region_destroy_ok [OF history_inv [OF assms(1-3)] assms(4)]) blast

theorem region_destroy_releases_witness:
  "\<exists>s'. fc_region_destroy sample_os sample_cold (Some (0, 0)) = Inr s' \<and> proc_inv sample_os s' (sample_regions(0 := []))"
  using region_destroy_releases [OF sample_cold_history sample_page_size(1,2), of 0 0]
  by (auto simp: live_def sample_second_fault sample_regions_def)

text \<open>
  C22: destroying a pool ends, unmaps all regions and staging pages of the pool and nothing else.
\<close>

theorem pool_destroy_releases:
  assumes "history os s RL" "0 < os_page_size os" "os_page_size os \<le> SIZE_RANGE" "pid \<in> set (g_pools s)"
  shows "\<exists>s'. fc_pool_destroy os s (Some pid) = Inr s' \<and> proc_inv os s' RL \<and> g_pools s' = remove1 pid (g_pools s) \<and>
    g_mem s' = (\<lambda>x. if \<exists>rid\<in>set (RL pid). x \<in> footprint (region_of s pid rid) then None else g_mem s x)"
proof (rule fc_pool_destroy_ok [OF history_inv [OF assms(1-3)] assms(4)])
  fix s' assume s': "fc_pool_destroy os s (Some pid) = Inr s'" "proc_inv os s' RL" "g_pools s' = remove1 pid (g_pools s)"
    and mem: "\<And>x. g_mem s' x = (if x \<in> pool_foot (g_pool s pid) (set (RL pid)) then None else g_mem s x)"
  have "g_mem s' = (\<lambda>x. if \<exists>rid\<in>set (RL pid). x \<in> footprint (region_of s pid rid) then None else g_mem s x)"
    by (rule ext) (simp only: mem pool_foot_footprint UN_iff)
  with s' show ?thesis by blast
qed

theorem pool_destroy_releases_witness: "\<exists>s'. fc_pool_destroy sample_os sample_cold (Some 0) = Inr s' \<and> g_pools s' = []"
  using pool_destroy_releases [OF sample_cold_history sample_page_size(1,2), of 0] by (auto simp: sample_second_fault)

text \<open>
  The pointer walk of \<open>find_region_locked\<close> ends in every history and finds the live
  region of the pool that holds the address, if there is one.
\<close>

lemma find_region_walk_correct:
  assumes "history os s RL" "0 < os_page_size os" "os_page_size os \<le> SIZE_RANGE" "pid \<in> set (g_pools s)"
  shows "\<exists>x. find_region_locked (g_pool s pid) a = Some x \<and>
    (\<forall>rid. x = Some rid \<longleftrightarrow> live s RL pid rid \<and> a \<in> region_range (region_of s pid rid))"
proof -
  note inv = history_inv [OF assms(1-3)]
  obtain hs cs where ok: "pool_ok os (g_pool s pid) (g_mem s) (set (RL pid)) hs cs" and dl: "dlist (p_regions (g_pool s pid)) (RL pid)"
    using inv assms(4) by (auto simp: proc_inv_def)
  note eq = find_region_locked_eq [OF dl pool_region_bound [OF ok], of a]
  have "find (\<lambda>rid. a \<in> region_range (region_of s pid rid)) (RL pid) = Some rid \<longleftrightarrow>
      live s RL pid rid \<and> a \<in> region_range (region_of s pid rid)" for rid
    using find_region_own [OF ok dl, of rid a] eq assms(4) by (auto simp: live_def find_Some_iff)
  then show ?thesis using eq by blast
qed

section \<open>Debugging interface\<close>

text \<open>
  \<open>fc_pool_debug_lru_queue\<close> ends and reports the queue from the most to the least
  recently used chunk: as many entries as fit, in order, and the true count.
\<close>

lemma debug_queue_exact:
  assumes "history os s RL" "0 < os_page_size os" "os_page_size os \<le> SIZE_RANGE" "pid \<in> set (g_pools s)"
    and "pool_ok os (g_pool s pid) (g_mem s) (set (RL pid)) hs cs" "length (hs @ cs) < UINT32_RANGE"
  shows "fc_pool_debug_lru_queue s (Some pid) True mx True =
    Inr (zip [0..<min mx (length (hs @ cs))] (map (lru_entry (g_pool s pid)) (hs @ cs)), length (hs @ cs))"
  by (rule debug_queue_ok [OF history_inv [OF assms(1-3)] assms(4-6)])

section \<open>The signal chain\<close>

text \<open>
  C23: the chain target.  Whatever sequence of arming, re-arming and \<open>sigaction\<close> calls by anybody, with any
  disposition, a process makes, the saved disposition is never the library's own action (its handler with
  \<open>SA_SIGINFO\<close>): it is the default or one that another party had put in place.  Re-arming over any
  disposition \<open>x\<close> but that one saves \<open>x\<close>, and further arming, re-arming and re-installing the
  library's action keeps it.  Here \<open>x\<close> may be the library's handler without \<open>SA_SIGINFO\<close>,
  which the guard of \<open>install_handler\<close> does not recognise as its own; \<open>plain_reinstall_lost_chain\<close>
  below shows what follows.
\<close>

theorem chain_target_exact:
  assumes "x \<noteq> Siginfo Segv_handler" "set ts \<subseteq> {Arm, Rearm, Sigaction (Siginfo Segv_handler)}"
  shows "sg_old_action (sig_run es d) \<in> insert Sig_dfl (others d es) - {Siginfo Segv_handler} \<and>
    sg_old_action (sig_run (es @ Sigaction x # Rearm # ts) d) = x \<and>
    sg_current (sig_run (es @ Sigaction x # Rearm # ts) d) = Siginfo Segv_handler"
  using sig_run_target [of es d] sig_run_settled [OF assms(2), of "fault_rearm ((sig_run es d)\<lparr>sg_current := x\<rparr>)"] assms(1)
  by (simp add: sig_run_def fault_rearm_def)

theorem chain_target_exact_witness:
  "sg_old_action (sig_run [Arm, Sigaction (Siginfo (Foreign 1)), Rearm, Rearm, Arm] Sig_ign) = Siginfo (Foreign 1)"
  using chain_target_exact [of "Siginfo (Foreign 1)" "[Rearm, Arm]" "[Arm]" Sig_ign] by simp

text \<open>
  The case of \<open>old = signal(SIGSEGV, h); ...; signal(SIGSEGV, old); fc_rearm_handler()\<close> in a process where
  handler 7 was there first and would deal with the fault: the chain now leads back to the library's handler, and the
  fault ends with the default action.
\<close>

lemma plain_reinstall_lost_chain:
  assumes "handles 7"
  shows "\<exists>g. chain 2 handles saved (sig_run [Arm, Rearm] (Siginfo (Foreign 7))) False Segv_handler = Some (Handled_by 7, g)"
    "\<exists>g. chain 2 handles saved (sig_run [Arm, Sigaction (Siginfo (Foreign 1)), Sigaction (Plain Segv_handler), Rearm] (Siginfo (Foreign 7)))
      False Segv_handler = Some (Default_action, g)"
  using assms
  by (simp_all add: chain_own_target sig_run_def sig_start_def fault_rearm_def fault_arm_def install_handler_def Let_def segv_handler_def
      numeral_2_eq_2)

text \<open>
  C24: a cycle of handlers is broken.  When the saved handler and those behind it pass the fault
  on until it reaches the library's handler a second time, it ends with the default action and
  \<open>g_chaining\<close> is cleared again; the chain does not bounce for ever.
\<close>

theorem handler_cycle_ends:
  assumes "sg_old_action g = Siginfo (Foreign k)" "\<not> sg_chaining g" "passes_on handles saved (k # ks) (Siginfo Segv_handler)"
  shows "chain (length ks + 3) handles saved g False Segv_handler = Some (Default_action, g\<lparr>sg_current := Sig_dfl\<rparr>)"
  using chain_path [OF assms(3), of 1 "g\<lparr>sg_chaining := True\<rparr>" False] assms(1,2)
  by (simp add: segv_handler_def segv_return_def numeral_3_eq_3)

theorem handler_cycle_ends_witness:
  "chain 3 (\<lambda>_. False) (\<lambda>_. Siginfo Segv_handler) (fault_rearm (sig_start (Siginfo (Foreign 7)))) False Segv_handler =
    Some (Default_action, (fault_rearm (sig_start (Siginfo (Foreign 7))))\<lparr>sg_current := Sig_dfl\<rparr>)"
  using handler_cycle_ends [of "fault_rearm (sig_start (Siginfo (Foreign 7)))" 7 "\<lambda>_. False" "\<lambda>_. Siginfo Segv_handler" "[]"]
  by (simp add: fault_rearm_def install_handler_def sig_start_def Let_def)

section \<open>Client and server\<close>

text \<open>
  C25: reading through the server.  Take any state that any interleaving of connections and events
  can lead to, a mapping attached at a page boundary, with room below the end of the address space, to which no copy has been cut
  short (each range of pages that is copied together is there or missing as a whole), and a byte of the region: byte \<open>j\<close> of
  chunk \<open>i\<close> of the factory's recipe.  When the kernel reports a fault on its page, the server does not fail.  If
  \<open>UFFDIO_COPY\<close> is not refused or cut short by the kernel, the client's memory then holds that byte of the chunk the fill callback
  derives, and the mapping is still in whole ranges.  If it is, the byte is right or still missing: the client stays blocked,
  as the source says.
\<close>

theorem remote_reads:
  assumes "serving ps factory rn" "factory_ok ps factory"
    "r \<in> set (sv_regions (rn_server rn))" "m \<in> set (sr_mappings r)" "ps dvd m_base_addr m" "m_base_addr m + mapped_s r \<le> SIZE_RANGE"
    "whole r (m_base_addr m) (rn_mm rn (m_uffd m))"
    "offers factory (sr_descriptor r) sizes fill" "i < length sizes" "j < sizes ! i"
    "ev_fd e = m_uffd m" "ev_fd e \<noteq> rn_conn_fd rn" "ev_fd e \<noteq> sv_stop_fd (rn_server rn)"
    "ev_msg e = Pagefault (m_base_addr m + page_floor (sum_list (take i sizes) + j) ps)" "ev_rx e = Rx_error"
  shows "\<exists>rn'. run_event ps factory rn e = Inr rn' \<and> serving ps factory rn' \<and>
    (let got = rn_mm rn' (m_uffd m) (m_base_addr m + (sum_list (take i sizes) + j)); byte = fill i (sizes ! i) ! j in
     if ev_copy_fails e = None then got = Some byte \<and> whole r (m_base_addr m) (rn_mm rn' (m_uffd m)) else got \<in> {None, Some byte})"
proof -
  let ?x = "sum_list (take i sizes) + j" and ?mm = "\<lambda>rn. rn_mm rn (m_uffd m)"
  have inv: "server_inv ps factory (rn_server rn) (rn_mm rn)" using serving_inv [OF assms(1,2)] by (simp add: run_inv_def)
  then have cache: "cache_inv ps factory (rn_server rn)" and cl: "run_clients rn" by (simp_all add: server_inv_split)
  note R = server_invD(3) [OF inv assms(3), unfolded region_inv_s_def]
  have C: "content_s r ?x = fill i (sizes ! i) ! j" "?x < mapped_s r"
    using content_offers [OF conjunct1 [OF R] _ refl assms(8,2,9,10)] R by auto
  have fm: "find_mapping (sv_regions (rn_server rn)) (ev_fd e) = Some (r, m)"
    using find_mapping_member [OF server_invD(2) [OF inv] assms(3,4)] assms(11) by simp
  have off: "page_floor ?x ps < mapped_s r" using C(2) page_floor_le [of ?x ps] by (rule le_less_trans [rotated])
  have ok: "event_ok rn e" using assms(15) by (simp add: event_ok_def attach_ok_def)
  obtain r' mm' calls where eff: "fault_effect r (m_base_addr m) (ev_copy_fails e) (?mm rn) (size_sub (m_base_addr m + page_floor ?x ps) (m_base_addr m)) (r', mm', calls)"
      and fe: "fault_event rn e = Inr (rn\<lparr>rn_server := (rn_server rn)\<lparr>sv_regions := update_region r' (sv_regions (rn_server rn)),
        sv_log := sv_log (rn_server rn) @ calls\<rparr>, rn_mm := (rn_mm rn)(m_uffd m := mm')\<rparr>)" (is "_ = Inr ?rn")
    using fault_event_Some [OF cache fm assms(14)] assms(11) by auto
  have run: "run_event ps factory rn e = Inr ?rn" using fe assms(12,13) by (simp add: run_event_def)
  have "served r (m_base_addr m) (?mm rn)" using cl assms(3,4) by (auto simp: clients_inv_def)
  then have "served r' (m_base_addr m) mm'" by (rule fault_effect_served [OF _ eff])
  then have sv: "served r (m_base_addr m) mm'" using eff by (auto simp: fault_effect_def)
  note whole_mm = assms(7) [folded assms(11)]
  have "mm' (m_base_addr m + ?x) = Some (content_s r ?x) \<and> whole r (m_base_addr m) mm'" if "ev_copy_fails e = None"
    using fault_event_reads [OF cache fm assms(14) off assms(5,6) whole_mm that fe, of ?x] assms(11) by (simp add: page_floor_idem)
  moreover have "mm' (m_base_addr m + ?x) \<in> {None, Some (content_s r ?x)}" using sv C(2) by (simp add: served_def)
  ultimately have "let got = mm' (m_base_addr m + ?x); byte = fill i (sizes ! i) ! j in
     if ev_copy_fails e = None then got = Some byte \<and> whole r (m_base_addr m) mm' else got \<in> {None, Some byte}"
    unfolding C(1) Let_def by simp
  then show ?thesis using run serving.event [OF assms(1) ok run] by (intro exI [of _ ?rn], cases "ev_copy_fails e") (simp_all add: Let_def)
qed

theorem remote_reads_witness:
  "\<exists>rn rn' e. serving 4 (remote_factory small_sizes) rn \<and> ev_msg e = Pagefault 4104 \<and>
     run_event 4 (remote_factory small_sizes) rn e = Inr rn' \<and> rn_mm rn 7 4105 = None \<and> rn_mm rn' 7 4105 = Some 20"
proof -
  let ?e = "\<lparr>ev_fd = 7, ev_rx = Rx_error, ev_allocs = all_ok, ev_mapping_ok = True, ev_send_ok = True, ev_msg = Pagefault 4104, ev_copy_fails = None\<rparr>"
  obtain rn r where rn: "serving 4 (remote_factory small_sizes) rn" "rn_conn_fd rn = 4" "sv_stop_fd (rn_server rn) = 3" "rn_mm rn = (\<lambda>_ _. None)"
      "r \<in> set (sv_regions (rn_server rn))" "sr_descriptor r = [1]" "\<lparr>m_uffd = 7, m_base_addr = 4096\<rparr> \<in> set (sr_mappings r)"
    using remote_attached by blast
  have inv: "server_inv 4 (remote_factory small_sizes) (rn_server rn) (rn_mm rn)"
    using serving_inv [OF rn(1) small_factory_ok] by (simp add: run_inv_def)
  have "mapped_s r = 16"
    using server_invD(3) [OF inv rn(5)] recipe_offers [OF _ rn(6) small_offers small_factory_ok]
    by (simp add: region_inv_s_def mapped_s_def page_ceil_def page_floor_def size_sub_def size_add_def)
  then obtain rn' where "run_event 4 (remote_factory small_sizes) rn ?e = Inr rn'" "rn_mm rn' 7 4105 = Some 20"
    using remote_reads [OF rn(1) small_factory_ok rn(5,7), of small_sizes remote_fill 2 0 ?e] rn(2,3,4,6) small_offers whole_missing [of "\<lambda>_. None"]
    by (auto simp: page_floor_def remote_fill_def numeral_2_eq_2)
  then show ?thesis using rn(1,4) by (intro exI [of _ rn] exI [of _ rn'] exI [of _ ?e]) simp
qed

text \<open>
  C26: no client ever sees a wrong byte: at every moment, each byte of an attached mapping is either still missing or the
  one the recipe derives, whichever faults were resolved before, on this mapping or on others.
\<close>

theorem served_bytes_correct:
  assumes "serving ps factory rn" "factory_ok ps factory"
    "r \<in> set (sv_regions (rn_server rn))" "m \<in> set (sr_mappings r)"
    "offers factory (sr_descriptor r) sizes fill" "i < length sizes" "j < sizes ! i"
  shows "rn_mm rn (m_uffd m) (m_base_addr m + (sum_list (take i sizes) + j)) \<in> {None, Some (fill i (sizes ! i) ! j)}"
proof -
  let ?x = "sum_list (take i sizes) + j"
  have inv: "server_inv ps factory (rn_server rn) (rn_mm rn)" using serving_inv [OF assms(1,2)] by (simp add: run_inv_def)
  note R = server_invD(3) [OF inv assms(3), unfolded region_inv_s_def]
  have C: "content_s r ?x = fill i (sizes ! i) ! j" "?x < mapped_s r"
    using content_offers [OF conjunct1 [OF R] _ refl assms(5,2,6,7)] R by auto
  have "served r (m_base_addr m) (rn_mm rn (m_uffd m))" using R assms(4) by blast
  then show ?thesis using C unfolding served_def by metis
qed

theorem served_bytes_correct_witness:
  "\<exists>rn r. serving 4 (remote_factory small_sizes) rn \<and> r \<in> set (sv_regions (rn_server rn)) \<and> rn_mm rn 7 4100 \<in> {None, Some 12}"
proof -
  obtain rn r where rn: "serving 4 (remote_factory small_sizes) rn"
      "r \<in> set (sv_regions (rn_server rn))" "sr_descriptor r = [1]" "\<lparr>m_uffd = 7, m_base_addr = 4096\<rparr> \<in> set (sr_mappings r)"
    using remote_attached by blast
  then show ?thesis
    using served_bytes_correct [OF rn(1) small_factory_ok rn(2,4), of small_sizes remote_fill 1 2] small_offers rn
    by (intro exI [of _ rn] exI [of _ r]) (simp add: remote_fill_def)
qed

text \<open>
  C27: a chunk is derived at most once per server, however many mappings fault on it and in whatever order: the
  log of fill callbacks for a descriptor has no repetition and holds exactly the chunks marked resolved.
\<close>

theorem chunks_derived_once:
  assumes "serving ps factory rn" "factory_ok ps factory" "r \<in> set (sv_regions (rn_server rn))"
  shows "distinct (fills (sr_descriptor r) (sv_log (rn_server rn))) \<and>
    set (fills (sr_descriptor r) (sv_log (rn_server rn))) = {i. i < sr_nchunks r \<and> sr_resolved r ! i}"
  using server_invD(3) [OF _ assms(3)] serving_inv [OF assms(1,2)] unfolding run_inv_def region_inv_s_def by blast

theorem chunks_derived_once_witness:
  "\<exists>rn. serving 4 (remote_factory small_sizes) rn \<and> sv_regions (rn_server rn) \<noteq> [] \<and> distinct (fills [1] (sv_log (rn_server rn)))"
proof -
  obtain rn r where rn: "serving 4 (remote_factory small_sizes) rn" "r \<in> set (sv_regions (rn_server rn))" "sr_descriptor r = [1]"
    using remote_attached by blast
  then show ?thesis using chunks_derived_once [OF rn(1) small_factory_ok rn(2)] by auto
qed

text \<open>
  C28: a descriptor is a region's identity.  No two regions of a server have the same descriptor, and resolving one
  that is known leaves the server as it is, without a call of the factory, and answers with the layout of the
  existing region.
\<close>

theorem descriptor_identifies_region:
  assumes "serving ps factory rn" "factory_ok ps factory" "r \<in> set (sv_regions (rn_server rn))" "al_sizes al"
  shows "distinct (map sr_descriptor (sv_regions (rn_server rn))) \<and>
    resolve_locked ps factory (rn_server rn) (sr_descriptor r) al =
      Inr (rn_server rn, \<lparr>rs_status = 0, rs_nchunks = sr_nchunks r, rs_error_len = 0\<rparr>, put_sizes (region_sizes r))"
proof -
  have "distinct (map sr_descriptor (sv_regions (rn_server rn)))"
    using serving_inv [OF assms(1,2)] server_invD(1) unfolding run_inv_def by blast
  then show ?thesis using find_region_member [OF _ assms(3)] assms(4) by (simp add: resolve_locked_def)
qed

theorem descriptor_identifies_region_witness:
  "\<exists>rn. serving 4 (remote_factory small_sizes) rn \<and> resolve_locked 4 (remote_factory small_sizes) (rn_server rn) [1] all_ok =
     Inr (rn_server rn, \<lparr>rs_status = 0, rs_nchunks = 3, rs_error_len = 0\<rparr>, put_sizes small_sizes)"
proof -
  obtain rn r where rn: "serving 4 (remote_factory small_sizes) rn" "r \<in> set (sv_regions (rn_server rn))" "sr_descriptor r = [1]"
    using remote_attached by blast
  have inv: "server_inv 4 (remote_factory small_sizes) (rn_server rn) (rn_mm rn)"
    using serving_inv [OF rn(1) small_factory_ok] by (simp add: run_inv_def)
  have "sr_nchunks r = 3" "region_sizes r = small_sizes"
    using server_invD(3) [OF inv rn(2)] recipe_offers [OF _ rn(3) small_offers small_factory_ok] by (simp_all add: region_inv_s_def)
  then show ?thesis using descriptor_identifies_region [OF rn(1) small_factory_ok rn(2), of all_ok] rn(1,3) by (auto simp: all_ok_def)
qed

text \<open>
  C29: the range of pages one fault resolves.  It is made of whole pages, holds the faulting offset, and is the same for every
  offset inside it, so the ranges partition the mapping: unless a copy has been cut short, the next one never meets a page that is
  present next to one that is missing.
\<close>

theorem fault_ranges_partition:
  assumes "server_layout r" "x < mapped_s r"
  shows "case fault_group r x of ((lo, page_lo), (hi, page_hi)) \<Rightarrow>
    lo \<le> hi \<and> sr_page_size r dvd page_lo \<and> sr_page_size r dvd page_hi \<and> page_lo \<le> x \<and> x < page_hi \<and> page_hi \<le> mapped_s r \<and>
    (\<forall>y\<in>{page_lo..<page_hi}. fault_group r y = fault_group r x)"
proof -
  obtain lo hi where fg: "fault_group r x = ((lo, sr_chunk_start r ! lo), (hi, group_end r hi))" and g: "group_of r (find_chunk_s r x) lo hi"
    using fault_group_spec [OF assms(1)] .
  have "fault_group r y = fault_group r x" if y: "y \<in> {sr_chunk_start r ! lo..<group_end r hi}" for y
  proof -
    obtain lo' hi' where fg': "fault_group r y = ((lo', sr_chunk_start r ! lo'), (hi', group_end r hi'))" and g': "group_of r (find_chunk_s r y) lo' hi'"
      using fault_group_spec [OF assms(1)] .
    have "find_chunk_s r y \<in> {lo..hi}" using group_off_chunk [OF assms(1) g] y by simp
    then show ?thesis using group_unique [OF g' g] fg fg' by simp
  qed
  then show ?thesis
    using fg g group_facts [OF assms(1) g] group_covers [OF assms(1) g] assms(2) by (auto simp: mapped_s_def group_of_def)
qed

theorem fault_ranges_partition_witness:
  "\<exists>r. server_layout r \<and> (case fault_group r 5 of ((lo, page_lo), (hi, page_hi)) \<Rightarrow> page_lo \<le> 5 \<and> 5 < page_hi \<and> page_hi \<le> 16)"
proof -
  obtain rn r where rn: "serving 4 (remote_factory small_sizes) rn" "r \<in> set (sv_regions (rn_server rn))" "sr_descriptor r = [1]"
    using remote_attached by blast
  have "server_inv 4 (remote_factory small_sizes) (rn_server rn) (rn_mm rn)"
    using serving_inv [OF rn(1) small_factory_ok] by (simp add: run_inv_def)
  note I = server_invD(3) [OF this rn(2), unfolded region_inv_s_def]
  have lay: "server_layout r" using I region_okD(1) by blast
  have "mapped_s r = 16" using I recipe_offers [OF _ rn(3) small_offers small_factory_ok]
    by (simp add: mapped_s_def page_ceil_def page_floor_def size_sub_def size_add_def)
  then show ?thesis using fault_ranges_partition [OF lay, of 5] lay by (auto split: prod.splits)
qed

text \<open>
  C30: creating a remote region.  When the factory offers a layout for the descriptor and both messages fit, the two
  exchanges succeed: the client gets a region whose size and chunk table are those of the recipe and of the
  server's region, the server holds a mapping with the client's base address, and the connection is ready for the next call.
\<close>

theorem remote_region_created:
  assumes "serving ps factory rn" "connected rn" "rn_state rn = CONN_WAIT_RESOLVE"
    "offers factory d sizes fill" "factory_ok ps factory"
    "16 + length d \<le> FC_WIRE_MSG_MAX" "12 + 8 * length sizes \<le> FC_WIRE_MSG_MAX"
    "nfd \<ge> 0" "nfd \<notin> set (uffds (sv_regions (rn_server rn)))" "\<forall>a. rn_mm rn nfd a = None"
    "region_setup os kn c sizes (sum_list sizes) = Inr (c1, r)" "0 < os_page_size os"
  shows "\<exists>c' rn' rid x. fc_client_region_create os kn (server_peer ps factory nfd) c rn (Some pid) (length d) (Some d) oe ok = Inr (c', rn', Inr rid) \<and>
    fc_client_region_size c' (Some rid) = Inr (sum_list sizes) \<and> fc_client_region_base c' (Some rid) = Inr (cr_base r) \<and>
    serving ps factory rn' \<and> connected rn' \<and> rn_state rn' = CONN_WAIT_RESOLVE \<and>
    x \<in> set (sv_regions (rn_server rn')) \<and> sr_descriptor x = d \<and> sr_chunk_start x = cr_chunk_start r \<and>
    \<lparr>m_uffd = nfd, m_base_addr = cr_base r\<rparr> \<in> set (sr_mappings x)"
proof -
  obtain rn' x where rn': "fc_client_region_create os kn (server_peer ps factory nfd) c rn (Some pid) (length d) (Some d) oe ok =
      Inr (pool_add (c1\<lparr>cl_next_region := Suc (cl_next_region c)\<rparr>) pid (cl_next_region c) r, rn', Inr (cl_next_region c))"
    "serving ps factory rn'" "connected rn'" "rn_state rn' = CONN_WAIT_RESOLVE"
    "x \<in> set (sv_regions (rn_server rn'))" "sr_descriptor x = d" "\<lparr>m_uffd = nfd, m_base_addr = cr_base r\<rparr> \<in> set (sr_mappings x)"
    using remote_create [OF assms] by blast
  have "recipe_of factory x"
    using serving_inv [OF rn'(2) assms(5)] server_invD(3) [OF _ rn'(5)] unfolding run_inv_def region_inv_s_def by blast
  then have "sr_chunk_start x = cr_chunk_start r"
    using recipe_offers(2) [OF _ rn'(6) assms(4,5)] region_setup_fields(6) [OF assms(11,12)] by simp
  moreover have "fc_client_region_size (pool_add (c1\<lparr>cl_next_region := Suc (cl_next_region c)\<rparr>) pid (cl_next_region c) r) (Some (cl_next_region c)) = Inr (sum_list sizes)"
    "fc_client_region_base (pool_add (c1\<lparr>cl_next_region := Suc (cl_next_region c)\<rparr>) pid (cl_next_region c) r) (Some (cl_next_region c)) = Inr (cr_base r)"
    using region_setup_fields(4) [OF assms(11,12)] by (simp_all add: fc_client_region_size_def fc_client_region_base_def pool_add_def)
  ultimately show ?thesis using rn' by blast
qed

theorem remote_region_created_witness:
  "\<exists>c rn. fc_client_region_create remote_os remote_kernel small_peer remote_client remote_run (Some 0) 1 (Some [1]) True True = Inr (c, rn, Inr 0) \<and>
     fc_client_region_size c (Some 0) = Inr 15 \<and> fc_client_region_base c (Some 0) = Inr 4096"
proof -
  obtain c r where up: "region_setup remote_os remote_kernel remote_client small_sizes (sum_list small_sizes) = Inr (c, r)" "cr_base r = 4096"
    using remote_setup by blast
  have small: "16 + length [1 :: byte] \<le> FC_WIRE_MSG_MAX" "12 + 8 * length small_sizes \<le> FC_WIRE_MSG_MAX" by (simp_all add: FC_WIRE_MSG_MAX_def)
  have nfd: "(0 :: int) \<le> 7" "7 \<notin> set (uffds (sv_regions (rn_server remote_run)))" "\<forall>a. rn_mm remote_run 7 a = None" by (simp_all add: remote_run_def)
  obtain c' rn rid where res: "fc_client_region_create remote_os remote_kernel small_peer remote_client remote_run (Some 0) (length [1 :: byte]) (Some [1]) True True = Inr (c', rn, Inr rid)"
      "fc_client_region_size c' (Some rid) = Inr (sum_list small_sizes)" "fc_client_region_base c' (Some rid) = Inr (cr_base r)"
    using remote_region_created [OF remote_serving remote_connected small_offers small_factory_ok small nfd up(1) remote_client_facts(1), of 0 True True] by blast
  have "rid = 0"
    using fc_client_region_create_cases [OF client_history_inv [OF remote_client_facts(1) remote_client_history] remote_client_facts(3,2) res(1)] remote_client_facts(4) by simp
  then show ?thesis using res up(2) by (intro exI [of _ c'] exI [of _ rn]) simp
qed

text \<open>
  A rejected descriptor.  The factory's message reaches the caller of \<open>fc_client_region_create\<close>, terminated by a
  zero byte, together with ECONNREFUSED; neither the client nor the server's regions change, and the connection stays usable.
\<close>

theorem rejection_relayed:
  assumes "serving ps factory rn" "connected rn" "rn_state rn = CONN_WAIT_RESOLVE" "factory_ok ps factory"
    "factory d = Inl e" "0 \<notin> set e" "8 + length d \<le> FC_WIRE_MSG_MAX" "12 + length e \<le> FC_WIRE_MSG_MAX"
  shows "\<exists>rn'. fc_client_region_create os kn (server_peer ps factory nfd) c rn (Some pid) (length d) (Some d) True True =
      Inr (c, rn', Inl (ECONNREFUSED, if e = [] then None else Some (e @ [0]))) \<and>
    serving ps factory rn' \<and> connected rn' \<and> rn_state rn' = CONN_WAIT_RESOLVE \<and> sv_regions (rn_server rn') = sv_regions (rn_server rn)"
proof -
  obtain rn' where r: "resolve_descriptor (server_peer ps factory nfd) rn d True True = Inr (rn', Inl (ECONNREFUSED, if e = [] then None else Some (e @ [0])))"
    and keep: "serving ps factory rn' \<and> connected rn' \<and> rn_state rn' = CONN_WAIT_RESOLVE \<and> sv_regions (rn_server rn') = sv_regions (rn_server rn)"
    using reject_exchange [OF assms] by blast
  show ?thesis by (intro exI [of _ rn'] conjI create_refused [OF r]) (simp_all add: keep)
qed

theorem rejection_relayed_witness:
  "\<exists>rn. fc_client_region_create remote_os remote_kernel small_peer remote_client remote_run (Some 0) (length [8 :: byte, 9]) (Some [8, 9]) True True =
     Inr (remote_client, rn, Inl (ECONNREFUSED, Some [110, 111, 0]))"
  using rejection_relayed [OF remote_serving remote_connected small_factory_ok, of "[8, 9]" "[110, 111]" remote_os remote_kernel 7 remote_client 0]
  by (auto simp: remote_factory_def FC_WIRE_MSG_MAX_def)

text \<open>
  C31: a failed creation leaves no trace.  After any history of the client, and whatever the server answers, a call that
  returns null leaves mappings, descriptors, registrations, pools and regions exactly as they were.
\<close>

theorem failed_create_changes_nothing:
  assumes "client_history os peer c RL" "0 < os_page_size os" "pid \<in> set (cl_pools c)" "kernel_ok kn c"
    "fc_client_region_create os kn peer c p (Some pid) n d oe ok = Inr (c', p', Inl err)"
  shows "c' = c"
  using fc_client_region_create_cases [OF client_history_inv [OF assms(2,1)] assms(4,3,5)] by simp

theorem failed_create_changes_nothing_witness:
  "fc_client_region_create remote_os remote_kernel nack_peer remote_client () (Some 0) 1 (Some [1]) True True =
     Inr (remote_client, (), Inl (ECONNREFUSED, None))"
proof -
  obtain c where "fc_client_region_create remote_os remote_kernel nack_peer remote_client () (Some 0) 1 (Some [1]) True True =
      Inr (c, (), Inl (ECONNREFUSED, None))" using nack_create by blast
  then show ?thesis
    using failed_create_changes_nothing [OF remote_client_history remote_client_facts(1,2,3)] by metis
qed

text \<open>
  C32: a region gives back all it took.  Destroying a region right after its creation succeeds and restores the client's page
  tables, its open descriptors, its userfaultfd registrations and its table of regions, and leaves every pool's list well formed.
\<close>

theorem create_destroy_restores:
  assumes "client_history os peer c RL" "0 < os_page_size os" "pid \<in> set (cl_pools c)" "kernel_ok kn c"
    "fc_client_region_create os kn peer c p (Some pid) n d oe ok = Inr (c', p', Inr rid)"
  shows "\<exists>c''. fc_client_region_destroy os c' (Some rid) = Inr c'' \<and> cl_mem c'' = cl_mem c \<and> cl_fds c'' = cl_fds c \<and>
    cl_registered c'' = cl_registered c \<and> cl_region c'' = cl_region c \<and> client_inv os c'' RL"
proof -
  have inv: "client_inv os c RL" using client_history_inv [OF assms(2,1)] .
  obtain c1 r sizes tot where S: "region_setup os kn c sizes tot = Inr (c1, r)" "rid = cl_next_region c"
      "c' = pool_add (c1\<lparr>cl_next_region := Suc rid\<rparr>) pid rid r" and inv': "client_inv os c' (RL(pid := rid # RL pid))"
    using fc_client_region_create_cases [OF inv assms(4,3,5)] by auto
  note F = region_setup_Inr [OF inv assms(4) S(1)]
  have new: "cl_region c rid = None" using client_invD(5) [OF inv, of rid] S(2) by (cases "cl_region c rid") auto
  have r: "cl_region c' rid = Some (r\<lparr>cr_pool := pid\<rparr>)" by (simp add: S(3) pool_add_def)
  note D = fc_client_region_destroy_eq [OF inv' r] and I = released_inv [OF inv' r]
  have "client_inv os (released c' rid (r\<lparr>cr_pool := pid\<rparr>)) RL" using I by (simp add: fun_upd_idem_iff)
  then show ?thesis using D F(5,10,11,12) new by (auto simp: released_def S(3) pool_add_def fun_upd_idem_iff)
qed

theorem create_destroy_restores_witness:
  "\<exists>c rn c'. fc_client_region_create remote_os remote_kernel small_peer remote_client remote_run (Some 0) 1 (Some [1]) True True = Inr (c, rn, Inr 0) \<and>
     fc_client_region_destroy remote_os c (Some 0) = Inr c' \<and> cl_mem c' = cl_mem remote_client \<and> cl_fds c' = {4}"
proof -
  obtain c rn where res: "fc_client_region_create remote_os remote_kernel small_peer remote_client remote_run (Some 0) 1 (Some [1]) True True = Inr (c, rn, Inr 0)"
    using remote_region by blast
  obtain c' where "fc_client_region_destroy remote_os c (Some 0) = Inr c'" "cl_mem c' = cl_mem remote_client" "cl_fds c' = cl_fds remote_client"
    using create_destroy_restores [OF remote_client_history remote_client_facts(1,2,3) res] by blast
  moreover have "cl_fds remote_client = {4}" by (simp add: remote_client_def fc_client_pool_create_def client_init_def)
  ultimately show ?thesis using res by (intro exI [of _ c] exI [of _ rn] exI [of _ c']) simp
qed

text \<open>
  Destroying a client pool ends, whatever regions it still tracks, and releases all of them: afterwards their ranges are
  unmapped, their descriptors are closed, their structs are freed, and nothing else has changed hands.
\<close>

lemma client_pool_destroy_releases:
  assumes "client_history os peer c RL" "0 < os_page_size os" "pid \<in> set (cl_pools c)"
  shows "\<exists>c'. fc_client_pool_destroy os c (Some pid) = Inr c' \<and> client_inv os c' (RL(pid := [])) \<and>
    (\<forall>rid\<in>set (RL pid). cl_region c' rid = None) \<and>
    (\<forall>x. cl_mem c' x = (if \<exists>r\<in>of_ids c (set (RL pid)). x \<in> client_range r then None else cl_mem c x)) \<and>
    cl_fds c' = cl_fds c - (\<Union>r\<in>of_ids c (set (RL pid)). {cr_uffd r, cr_memfd r})"
proof -
  have inv: "client_inv os c RL" using client_history_inv [OF assms(2,1)] .
  note D = fc_client_pool_destroy_ok [OF inv assms(3)] and E = released_all_effect [of "RL pid" c]
  show ?thesis using D(1,2) E [OF D(4,3)] by (intro exI conjI) auto
qed

text \<open>
  C33: a layout that does not fit a message.  The server accepts a descriptor whose layout makes a reply longer than
  \<open>FC_WIRE_MSG_MAX\<close> (more than 131070 chunks) and, when the socket takes the reply, waits for the attach request; the client sees a truncated
  reply, gives up with ECONNREFUSED and sends none.  The next call on the connection, for any descriptor, is then taken for the
  attach request and refused too, although the factory may offer that descriptor.
\<close>

theorem oversized_layout_out_of_step:
  assumes "serving ps factory rn" "connected rn" "rn_state rn = CONN_WAIT_RESOLVE"
    "offers factory d sizes fill" "factory_ok ps factory" "8 + length d \<le> FC_WIRE_MSG_MAX" "FC_WIRE_MSG_MAX < 12 + 8 * length sizes"
    "8 + length d2 \<le> FC_WIRE_MSG_MAX"
  shows "\<exists>rn1 rn2. fc_client_region_create os kn (server_peer ps factory nfd) c rn (Some pid) (length d) (Some d) oe ok = Inr (c, rn1, Inl (ECONNREFUSED, None)) \<and>
    rn_state rn1 = CONN_WAIT_ATTACH \<and>
    fc_client_region_create os kn (server_peer ps factory nfd) c rn1 (Some pid) (length d2) (Some d2) oe ok = Inr (c, rn2, Inl (ECONNREFUSED, None)) \<and>
    rn_state rn2 = CONN_WAIT_RESOLVE \<and> sv_regions (rn_server rn2) = sv_regions (rn_server rn1)"
proof -
  obtain rn1 where p1: "server_peer ps factory nfd rn (resolve_message d) None = Some (rn1, Some (accept_reply sizes))"
    and r1: "serving ps factory rn1" "connected rn1" "rn_state rn1 = CONN_WAIT_ATTACH"
    using resolve_exchange [OF assms(1-6)] by blast
  have "length sizes + 1 < UINT32_RANGE" using offersE [OF assms(4,5)] by metis
  then have n: "length sizes < UINT32_RANGE" by simp
  have c1: "resolve_descriptor (server_peer ps factory nfd) rn d oe ok = Inr (rn1, Inl (ECONNREFUSED, None))"
    using resolve_too_big [where peer = "server_peer ps factory nfd" and p = rn, OF assms(6) p1 assms(7) n] .
  obtain rn2 where c2: "resolve_descriptor (server_peer ps factory nfd) rn1 d2 oe ok = Inr (rn2, Inl (ECONNREFUSED, None))"
      "rn_state rn2 = CONN_WAIT_RESOLVE" "rn_server rn2 = rn_server rn1"
    using resolve_taken_for_attach [OF r1 assms(8)] by blast
  show ?thesis using create_refused [OF c1] create_refused [OF c2(1)] r1(3) c2(2,3) by (intro exI [of _ rn1] exI [of _ rn2]) simp
qed

theorem oversized_layout_out_of_step_witness:
  "\<exists>rn1 rn2. fc_client_region_create remote_os remote_kernel (server_peer 4 (remote_factory (replicate 131071 1)) 7) remote_client remote_run (Some 0) (length [1 :: byte]) (Some [1]) True True =
      Inr (remote_client, rn1, Inl (ECONNREFUSED, None)) \<and>
    fc_client_region_create remote_os remote_kernel (server_peer 4 (remote_factory (replicate 131071 1)) 7) remote_client rn1 (Some 0) (length [1 :: byte]) (Some [1]) True True =
      Inr (remote_client, rn2, Inl (ECONNREFUSED, None))"
proof -
  define big :: "size_t list" where "big = replicate 131071 1"
  have big: "length big = 131071" "sum_list big = 131071" "\<forall>s\<in>set big. 0 < s" unfolding big_def by (simp_all only: length_replicate sum_list_replicate) auto
  have ne: "big \<noteq> []" using big(1) by force
  have ok: "factory_ok 4 (remote_factory big)" "offers (remote_factory big) [1] big remote_fill"
    using remote_factory_ok [of big] remote_offers [OF ne big(3)] big(1,2) by auto
  have "8 + length [1 :: byte] \<le> FC_WIRE_MSG_MAX" "FC_WIRE_MSG_MAX < 12 + 8 * length big" by (simp_all add: FC_WIRE_MSG_MAX_def big)
  then show ?thesis unfolding big_def [symmetric]
    using oversized_layout_out_of_step [OF remote_serving remote_connected ok(2,1), of "[1]" remote_os remote_kernel 7 remote_client 0 True True] by blast
qed

text \<open>
  C34: the server's loop on one connection, whatever the connection sends and whatever the kernel reports: any messages with any descriptors attached,
  any base address a client claims, faults at any address, copies that fail anywhere, interrupted or failing system calls, on a server
  that any other connections have used before in the same way.  Provided the factory's recipes are within bounds (at most
  \<open>2^32 - 2\<close> chunks, sizes given for all of them whose sum leaves room for a page below \<open>2^64\<close>, and a callback that writes exactly the bytes it
  is asked for), it never aborts and never reads or writes outside its tables: it is still waiting after the given answers of
  \<open>epoll_wait\<close>, or has returned 0 or -1, with the cache and the log of the callbacks intact.
\<close>

theorem server_run_never_aborts:
  assumes "reached ps factory rn0" "factory_ok ps factory"
  shows "\<exists>res. fc_server_run ps factory (Some (rn_server rn0)) conn epoll_ok mm ws = Inr res \<and>
    (\<forall>ret rn. res = Some (ret, rn) \<longrightarrow> ret \<in> {0, -1} \<and> reached ps factory rn \<and> cache_inv ps factory (rn_server rn))"
proof -
  let ?rn = "\<lparr>rn_server = rn_server rn0, rn_conn_fd = conn, rn_state = CONN_WAIT_RESOLVE, rn_ret = 0, rn_stop = False,
       rn_disconnected = False, rn_mm = mm, rn_sent = []\<rparr>"
  have re: "reached ps factory ?rn" by (rule reached.other [OF assms(1)]) simp_all
  obtain res where "server_loop ps factory ?rn ws = Inr res" "\<And>ret rn. res = Some (ret, rn) \<Longrightarrow> reached ps factory rn"
    using server_loop_ok [OF assms(2) re] by blast
  moreover from this(1) have "\<And>ret rn. res = Some (ret, rn) \<Longrightarrow> ret \<in> {0, -1}" using server_loop_ret [of ps factory ?rn ws] by auto
  ultimately show ?thesis using re reached_inv [OF assms] reached_inv [OF _ assms(2)] by (auto simp: fc_server_run_def Let_def)
qed

theorem server_run_never_aborts_witness:
  "\<exists>res. fc_server_run 4 (remote_factory small_sizes) (Some (rn_server remote_run)) 4 True (\<lambda>_ _. None)
     [Wait_error True, Wait [message_event remote_run [7] (Some 9)], Wait [message_event remote_run [] None]] = Inr res"
  using server_run_never_aborts [OF remote_reached small_factory_ok] by blast

section \<open>The Windows seams\<close>

text \<open>
  C35: on Windows the seam does what it does on POSIX.  The states are those of the usage protocol \<open>win_use\<close>: however regions
  have been reserved, filled, hidden, evicted and released, whole slots (the exclusive pages of a chunk, a shared page) at a time, in an address
  space whose allocations are made of whole units of the granularity.  There sealing and publishing a scratch
  buffer over a slot, changing the protection of a published slot, decommitting a slot and releasing a region end without a
  failed assertion, however the reservation has been split, and leave the page tables that the POSIX calls leave.
\<close>

theorem win_use_refines_posix:
  assumes "win_use os w Rg S pub" "os_page_size posix = win_page_size os"
  shows "(\<forall>s lo hi t. staged w s \<and> s_consumed s = 0 \<and> win_page_size os dvd lo \<and> win_page_size os dvd hi \<and> lo < hi \<and>
      hi \<le> s_size s \<and> (t, hi - lo) \<in> S - pub \<longrightarrow>
      (\<exists>s' w'. win_publish_life os w s lo hi t = Inr (s', w') \<and> win_use os w' Rg S (insert (t, hi - lo) pub) \<and>
        posix_publish_life posix (w_mem w) s lo hi t = Inr (w_mem w'))) \<and>
    (\<forall>a n r. (a, n) \<in> pub \<longrightarrow> (\<exists>w'. win_set_readable w a n r = Inr w' \<and> win_use os w' Rg S pub \<and>
        vm_set_readable posix (w_mem w) a n r = Inr (w_mem w'))) \<and>
    (\<forall>a n. (a, n) \<in> S \<longrightarrow> (\<exists>w'. win_decommit os w a n = Inr w' \<and> win_use os w' Rg S (pub - {(a, n)}) \<and>
        vm_decommit posix (w_mem w) a n = Inr (w_mem w'))) \<and>
    (\<forall>b m. (b, m) \<in> Rg \<longrightarrow> (\<exists>w'. win_release os w b m = Inr w' \<and>
        win_use os w' (Rg - {(b, m)}) {I \<in> S. \<not> within I (b, m)} {I \<in> pub. \<not> within I (b, m)} \<and>
        vm_release posix (w_mem w) b m = Inr (w_mem w')))"
  using use_publish [OF assms] use_set_readable [OF assms] use_decommit [OF assms] use_release [OF assms] by blast

theorem win_use_refines_posix_witness:
  "\<exists>s' w1 w2 w3. win_publish_life sample_wos sample_win sample_scratch 4 8 16 = Inr (s', w1) \<and>
    posix_publish_life sample_os (w_mem sample_win) sample_scratch 4 8 16 = Inr (w_mem w1) \<and>
    win_set_readable w1 16 4 False = Inr w2 \<and> vm_set_readable sample_os (w_mem w1) 16 4 False = Inr (w_mem w2) \<and>
    win_release sample_wos w2 4 16 = Inr w3 \<and> vm_release sample_os (w_mem w2) 4 16 = Inr (w_mem w3)"
proof -
  have ps: "os_page_size sample_os = win_page_size sample_wos" by (simp add: sample_os_def win_page_size_def sample_wos_def)
  note C = win_use_refines_posix [OF _ ps]
  have "win_page_size sample_wos dvd 4" "win_page_size sample_wos dvd 8" by (simp_all add: win_page_size_def sample_wos_def)
  then obtain s' w1 where w1: "win_publish_life sample_wos sample_win sample_scratch 4 8 16 = Inr (s', w1)"
      "posix_publish_life sample_os (w_mem sample_win) sample_scratch 4 8 16 = Inr (w_mem w1)"
      "win_use sample_wos w1 {(4, 16)} (region_slots sample_struct) {(16, 4)}"
    using conjunct1 [OF C [OF sample_win_use], rule_format, of sample_scratch 4 8 16] sample_win_slot sample_win_staged by auto
  note C1 = C [OF w1(3), THEN conjunct2, THEN conjunct1, rule_format, of 16 4 False]
  obtain w2 where w2: "win_set_readable w1 16 4 False = Inr w2" "vm_set_readable sample_os (w_mem w1) 16 4 False = Inr (w_mem w2)"
      "win_use sample_wos w2 {(4, 16)} (region_slots sample_struct) {(16, 4)}" using C1 by auto
  have "\<exists>w3. win_release sample_wos w2 4 16 = Inr w3 \<and> vm_release sample_os (w_mem w2) 4 16 = Inr (w_mem w3)"
    using C [OF w2(3), THEN conjunct2, THEN conjunct2, THEN conjunct2, rule_format, of 4 16] by auto
  then show ?thesis using w1(1,2) w2(1,2) by blast
qed

text \<open>
  C36: well-formedness of the Windows address space in every such state: allocations do not overlap and are aligned to the
  granularity, a region is mapped throughout by placeholders and by views that are exactly its published slots, and each
  slot that is not published lies in a single placeholder.
\<close>

theorem win_use_well_formed:
  assumes "win_use os w Rg S pub"
  shows "use_inv os w Rg S pub"
  using assms by (rule win_use_inv)

theorem win_use_well_formed_witness: "use_inv sample_wos sample_win {(4, 16)} (region_slots sample_struct) {}"
  by (rule win_use_well_formed [OF sample_win_use])

text \<open>
  From \<open>fc_init\<close> on the vectored handler is registered exactly once, whatever is armed, re-armed, added and
  removed in whatever order; re-arming does not abort and puts the one registration at the front.
\<close>

theorem vectored_handler_once:
  assumes "veh_reach v" "win_fault_armed v"
  shows "(\<exists>i. v_handle v = Some i \<and> own_entries v = [(i, Veh_handler)]) \<and>
    (\<exists>v'. win_fault_rearm True v = Inr v' \<and> veh_inv v' \<and> v_list v' = (v_next v, Veh_handler) # filter (\<lambda>(i, h). h \<noteq> Veh_handler) (v_list v))"
  using veh_reach_inv [OF assms(1)] rearm_ok [OF veh_reach_inv [OF assms(1)] assms(2)] assms(2)
  by (auto simp: veh_inv_def win_fault_armed_def)

theorem vectored_handler_once_witness:
  "\<exists>v'. win_fault_rearm True sample_veh = Inr v' \<and> v_list v' = [(3, Veh_handler), (2, Veh_other 7), (0, Veh_other 5)]"
  using vectored_handler_once [OF sample_veh_reach] by (auto simp: sample_veh_def win_fault_armed_def)

text \<open>
  C37: exceptions on Windows.  In every state that arming, re-arming and the registrations of other parts of the process
  lead to, the armed library is in the list of vectored handlers exactly once.  An exception goes to the handlers in
  front of it first; if none takes it and it is an access violation, \<open>fault_try_resolve\<close> (any function here) is asked once, and the
  execution continues if it says so; an abort in it is the outcome; otherwise, or when the exception is another
  one, those behind it get the exception as if the library were not there.  Re-arming moves the library to the front and keeps the rest in order.
\<close>

theorem vectored_dispatch:
  assumes "veh_reach v" "win_fault_armed v"
  shows "\<exists>xs i ys. v_list v = xs @ (i, Veh_handler) # ys \<and> Veh_handler \<notin> snd ` set (xs @ ys) \<and>
    (\<forall>handles s code a. dispatch fault_try handles s code a (v_list v) =
      (case first_taker handles xs of
         Some k \<Rightarrow> Inr (Continued_by k, s)
       | None \<Rightarrow> if code \<noteq> EXCEPTION_ACCESS_VIOLATION then Inr (passed_on handles ys, s)
                 else res_bind (fault_try s a) (\<lambda>(ours, s). Inr (if ours then Continued else passed_on handles ys, s)))) \<and>
    (\<exists>v'. win_fault_rearm True v = Inr v' \<and> v_list v' = (v_next v, Veh_handler) # xs @ ys)"
proof -
  note inv = veh_reach_inv [OF assms(1)]
  obtain xs i ys where l: "v_list v = xs @ (i, Veh_handler) # ys" and others: "Veh_handler \<notin> snd ` set (xs @ ys)"
    using armed_once_in_list [OF inv assms(2)] by blast
  obtain v' where v': "win_fault_rearm True v = Inr v'" "v_list v' = (v_next v, Veh_handler) # filter (\<lambda>(j, h). h \<noteq> Veh_handler) (v_list v)"
    using rearm_ok [OF inv assms(2)] by blast
  have "filter (\<lambda>(j, h). h \<noteq> Veh_handler) (v_list v) = xs @ ys" using others_only [of xs] others_only [of ys] others by (simp add: l image_Un)
  then show ?thesis
    using l others v' dispatch_others [of xs] dispatch_others [of ys]
    by (intro exI [of _ xs] exI [of _ i] exI [of _ ys]) (auto simp: dispatch_front veh_handler_def res_bind_def image_Un split: option.splits sum.splits)
qed

theorem vectored_dispatch_witness:
  "\<exists>xs i ys. v_list sample_veh = xs @ (i, Veh_handler) # ys \<and>
    dispatch (\<lambda>s a. Inr (True, Suc s)) (\<lambda>k. k \<noteq> 7) 0 EXCEPTION_ACCESS_VIOLATION 16 (v_list sample_veh) =
      (case first_taker (\<lambda>k. k \<noteq> 7) xs of Some k \<Rightarrow> Inr (Continued_by k, 0) | None \<Rightarrow> Inr (Continued, Suc 0))"
proof -
  have armed: "win_fault_armed sample_veh" by (simp add: sample_veh_def win_fault_armed_def)
  obtain xs i ys where "v_list sample_veh = xs @ (i, Veh_handler) # ys" and d: "\<forall>handles s code a. dispatch (\<lambda>s a. Inr (True, Suc s)) handles s code a (v_list sample_veh) =
      (case first_taker handles xs of
         Some k \<Rightarrow> Inr (Continued_by k, s)
       | None \<Rightarrow> if code \<noteq> EXCEPTION_ACCESS_VIOLATION then Inr (passed_on handles ys, s)
                 else res_bind (Inr (True, Suc s)) (\<lambda>(ours, s). Inr (if ours then Continued else passed_on handles ys, s)))"
    using vectored_dispatch [OF sample_veh_reach armed, of "\<lambda>s a. Inr (True, Suc s)"] by blast
  moreover have "dispatch (\<lambda>s a. Inr (True, Suc s)) (\<lambda>k. k \<noteq> 7) 0 EXCEPTION_ACCESS_VIOLATION 16 (v_list sample_veh) =
      (case first_taker (\<lambda>k. k \<noteq> 7) xs of Some k \<Rightarrow> Inr (Continued_by k, 0) | None \<Rightarrow> Inr (Continued, Suc 0))"
    using d by (simp split: option.split)
  ultimately show ?thesis by blast
qed

section \<open>The Python shim\<close>

text \<open>
  C38: the cyclic collector and the fills.  However threads interleave around the GIL, and whatever Python code inside and
  outside the callables does with \<open>gc.enable()\<close> and \<open>gc.disable()\<close>, the depth counts the threads in the trampoline, and
  while there are any the collector is on only if Python code has turned it on since the latest of them entered.  When the
  last one has left, the collector is on if it was on before the first one entered, and otherwise only if Python code turned it on
  in that time: without such calls the flag is what it was.
\<close>

theorem collector_off_while_filling:
  assumes "py_reach s"
  shows "py_fill_depth (ps_py s) = int (card (ps_filling s)) \<and>
    (if ps_filling s \<noteq> {} then py_gc (ps_py s) = ps_enabled s \<and> (\<exists>before. episode before s)
     else \<forall>before. episode before s \<longrightarrow> py_gc (ps_py s) = (before \<or> ps_enabled s))"
  using py_reach_inv [OF assms] filling_episode [OF assms] episode_flag by (auto simp: py_inv_def)

theorem collector_off_while_filling_witness: "\<not> py_gc (ps_py sample_fills) \<and> (\<exists>before. episode before sample_fills)"
  using collector_off_while_filling [OF sample_fills_reach] by (simp add: sample_fills_def split: if_splits)

section \<open>The example program\<close>

text \<open>
  C39: the example, end to end.  For every file the generator script writes, of any number of chunks of any nonzero sizes
  that fit the address range, and a zlib that undoes its own compression, the program reads each byte of each chunk through the
  fault handler, finds the pattern, reports the chunks and bytes, and returns 0 with no pool left and the page tables as they were
  when it started: every reservation, scratch buffer and staging page has been given back.  The one way not to get there
  is that the kernel had no room for a mapping; in particular the callback never aborts.
\<close>

theorem example_verifies:
  assumes "fresh_process s" "0 < os_page_size os" "os_page_size os \<le> SIZE_RANGE" "fits compress sizes" "inflates uncompress compress"
  shows "res_ok map_error (\<lambda>(rc, report, s'). rc = 0 \<and> report = Some (length sizes, sum_list sizes) \<and> g_pools s' = [] \<and> g_mem s' = g_mem s)
    (ex_main uncompress os all_allocs 2 (Some (gen_fixture compress sizes)) s)"
  using ex_main_gen [OF assms] by (simp add: ex_success_def)

theorem example_verifies_witness:
  "res_ok map_error (\<lambda>(rc, report, s'). rc = 0 \<and> report = Some (3, 15) \<and> g_pools s' = [] \<and> g_mem s' = (\<lambda>_. None))
    (ex_main stored sample_os all_allocs 2 (Some (gen_fixture (\<lambda>bs. bs) [2, 7, 6])) sample_process)"
  using example_verifies [OF sample_process_fresh sample_page_size(1,2) sample_fits stored_inflates]
  by (simp add: sample_sizes_def sample_process_def sample_start_def fc_init_def eval_nat_numeral)

text \<open>
  C40: a truncated file.  When the count in the header asks for more chunk entries than the file has, the loader reads past the
  end of its buffer instead of rejecting the file.
\<close>

theorem truncated_fixture_overread:
  assumes "8 \<le> length buf" "field 0 4 buf = MAGIC" "length buf < 8 + 24 * read_u32le (field 4 4 buf)"
  shows "fixture_load all_allocs (Some buf) = Inl (Out_of_bounds ''fx->data'')"
  using assms load_headers_short [of 8 buf] by (simp add: fixture_load_def all_allocs_def)

theorem truncated_fixture_overread_witness: "fixture_load all_allocs (Some (MAGIC @ [1, 0, 0, 0])) = Inl (Out_of_bounds ''fx->data'')"
proof (rule truncated_fixture_overread)
  have "field 4 4 (MAGIC @ [1, 0, 0, 0]) = [1, 0, 0, 0]" by (simp add: field_def MAGIC_def)
  then show "length (MAGIC @ [1, 0, 0, 0]) < 8 + 24 * read_u32le (field 4 4 (MAGIC @ [1, 0, 0, 0]))"
    by (simp add: read_u32le_eq MAGIC_def)
qed (simp_all add: field_def MAGIC_def)

end
